(* ===== verification/Prelude.thy ===== *)
theory Prelude
  imports Main "HOL-Library.Word" "HOL-Library.Signed_Division"
begin

section \<open>Shared vocabulary of the development\<close>

text \<open>
  What every component theory uses: the machine integers of the C++ code, errors as values of
  a sum type with the two combinators the models are written with, the operations of the
  external \<open>fc\<close> library as parameters of the model (the repository only holds a pointer to
  that library), and keyed tables, the model of a \<open>chainbase\<close> index.
\<close>

unbundle bit_operations_syntax

type_synonym u8 = "8 word"
type_synonym u16 = "16 word"
type_synonym u32 = "32 word"
type_synonym u64 = "64 word"
type_synonym u128 = "128 word"

subsection \<open>Errors\<close>

text \<open>
  Every \<open>FC_ASSERT\<close>, \<open>TAIYI_ASSERT\<close> and thrown exception of the code is a constructor
  here; \<open>Assert\<close> carries the (shortened) message of an \<open>FC_ASSERT\<close>.
\<close>

datatype error =
    Assert string
  | Overflow
  | Div_by_zero
  | Out_of_range
  | Logic_error string
  | Bad_lexical_cast
  | Unlinkable_block
  | Undo_database
  | Unknown_hardfork
  | Tx_missing_active_auth
  | Tx_missing_owner_auth
  | Tx_missing_posting_auth
  | Tx_missing_other_auth
  | Tx_irrelevant_sig
  | Tx_duplicate_sig
  | Transaction_tapos
  | Transaction_expiration
  | Pop_empty_chain
  | Stream_failure
  | Block_log_failure

type_synonym 'a res = "error + 'a"

text \<open>Sequencing of fallible steps, a guard in front of a continuation, a fallible loop and a fallible map.\<close>

primrec rbind :: "'a res \<Rightarrow> ('a \<Rightarrow> 'b res) \<Rightarrow> 'b res" where
  "rbind (Inl e) f = Inl e"
| "rbind (Inr x) f = f x"

definition rguard :: "bool \<Rightarrow> error \<Rightarrow> 'a res \<Rightarrow> 'a res" where
  "rguard b e k = (if b then k else Inl e)"

primrec rfold :: "('a \<Rightarrow> 's \<Rightarrow> 's res) \<Rightarrow> 'a list \<Rightarrow> 's \<Rightarrow> 's res" where
  "rfold f [] s = Inr s"
| "rfold f (x # xs) s = rbind (f x s) (rfold f xs)"

primrec rmap :: "('a \<Rightarrow> 'b res) \<Rightarrow> 'a list \<Rightarrow> 'b list res" where
  "rmap f [] = Inr []"
| "rmap f (x # xs) = rbind (f x) (\<lambda>y. rbind (rmap f xs) (\<lambda>ys. Inr (y # ys)))"

definition is_ok :: "'a res \<Rightarrow> bool" where
  "is_ok r \<longleftrightarrow> (\<exists>x. r = Inr x)"

lemma is_ok_simps [simp]: "is_ok (Inr x)" "\<not> is_ok (Inl e)"
  by (simp_all add: is_ok_def)

lemma is_okE [elim]: "is_ok r \<Longrightarrow> (\<And>x. r = Inr x \<Longrightarrow> P) \<Longrightarrow> P"
  by (auto simp: is_ok_def)

lemma rbind_Inr_iff [simp]: "rbind m f = Inr y \<longleftrightarrow> (\<exists>x. m = Inr x \<and> f x = Inr y)"
  by (cases m) auto

lemma rbind_Inl_iff: "rbind m f = Inl e \<longleftrightarrow> m = Inl e \<or> (\<exists>x. m = Inr x \<and> f x = Inl e)"
  by (cases m) auto

lemma rguard_Inr_iff [simp]: "rguard b e k = Inr y \<longleftrightarrow> b \<and> k = Inr y"
  by (simp add: rguard_def)

lemma rguard_True [simp]: "rguard True e k = k"
  by (simp add: rguard_def)

lemma rguard_False [simp]: "rguard False e k = Inl e"
  by (simp add: rguard_def)

lemma rguard_Inl_iff: "rguard b e k = Inl e' \<longleftrightarrow> (\<not> b \<and> e' = e) \<or> (b \<and> k = Inl e')"
  by (auto simp: rguard_def)

lemma is_ok_rguard [simp]: "is_ok (rguard b e k) \<longleftrightarrow> b \<and> is_ok k"
  by (simp add: rguard_def)

lemma is_ok_rbind: "is_ok (rbind m f) \<longleftrightarrow> (\<exists>x. m = Inr x \<and> is_ok (f x))"
  by (cases m) auto

lemma rbind_assoc: "rbind (rbind m f) g = rbind m (\<lambda>x. rbind (f x) g)"
  by (cases m) auto

lemma rfold_append: "rfold f (xs @ ys) s = rbind (rfold f xs s) (rfold f ys)"
proof (induction xs arbitrary: s)
  case Nil
  then show ?case by simp
next
  case (Cons x xs)
  then show ?case by (cases "f x s") simp_all
qed

text \<open>An invariant of the loop body is an invariant of the loop.\<close>

lemma rfold_invariant:
  assumes "rfold f xs s = Inr s'" and "P s"
    and "\<And>x s s'. x \<in> set xs \<Longrightarrow> P s \<Longrightarrow> f x s = Inr s' \<Longrightarrow> P s'"
  shows "P s'"
  using assms
proof (induction xs arbitrary: s)
  case Nil
  then show ?case by simp
next
  case (Cons x xs)
  from Cons.prems(1) obtain t where t: "f x s = Inr t" and rest: "rfold f xs t = Inr s'"
    by auto
  have "P t" using Cons.prems(2,3) t by (meson list.set_intros(1))
  with rest show ?case using Cons.IH Cons.prems(3) by (meson list.set_intros(2))
qed

lemma rfold_total:
  assumes "P s" and "\<And>x s. x \<in> set xs \<Longrightarrow> P s \<Longrightarrow> \<exists>s'. f x s = Inr s' \<and> P s'"
  shows "\<exists>s'. rfold f xs s = Inr s' \<and> P s'"
  using assms
proof (induction xs arbitrary: s)
  case Nil
  then show ?case by simp
next
  case (Cons x xs)
  obtain t where t: "f x s = Inr t" and "P t"
    using Cons.prems by (meson list.set_intros(1))
  then obtain s' where "rfold f xs t = Inr s'" and "P s'"
    using Cons.IH [of t] Cons.prems(2) by (meson list.set_intros(2))
  with t show ?case by auto
qed

lemma rmap_nth:
  assumes "length ys = length xs" "\<And>k. k < length xs \<Longrightarrow> f (xs ! k) = Inr (ys ! k)"
  shows "rmap f xs = Inr ys"
  using assms
proof (induction xs arbitrary: ys)
  case (Cons x xs)
  then obtain y ys' where ys: "ys = y # ys'" by (cases ys) auto
  have "f x = Inr y" using Cons.prems(2) [of 0] ys by simp
  moreover have "rmap f xs = Inr ys'"
  proof (rule Cons.IH)
    show "length ys' = length xs" using Cons.prems(1) ys by simp
    fix k assume "k < length xs"
    then show "f (xs ! k) = Inr (ys' ! k)" using Cons.prems(2) [of "Suc k"] ys by simp
  qed
  ultimately show ?case using ys by simp
qed simp

lemma rmap_Inr_iff: "rmap f xs = Inr ys \<longleftrightarrow> list_all2 (\<lambda>x y. f x = Inr y) xs ys"
proof (induction xs arbitrary: ys)
  case Nil
  then show ?case by auto
next
  case (Cons x xs)
  then show ?case by (cases ys) auto
qed

subsection \<open>The fc library\<close>

text \<open>
  \<open>share_type\<close> is \<open>fc::safe<int64_t>\<close>: arithmetic that throws when the exact result does not
  fit in 64 signed bits. \<open>fc::uint128\<close> is an unsigned 128-bit integer; its \<open>hi\<close> and \<open>lo\<close>
  halves are the two 64-bit halves of the word. Their operations are not in the repository,
  so a record of functions stands for them, and the named hypothesis \<open>fc_laws\<close> states
  their documented behaviour. A \<open>share_type\<close> value is an \<open>int\<close>.
\<close>

definition in_i64 :: "int \<Rightarrow> bool" where
  "in_i64 x \<longleftrightarrow> - (2 ^ 63) \<le> x \<and> x < 2 ^ 63"

definition checked :: "int \<Rightarrow> int res" where
  "checked x = (if in_i64 x then Inr x else Inl Overflow)"

record fc_lib =
  s_add :: "int \<Rightarrow> int \<Rightarrow> int res"
  s_sub :: "int \<Rightarrow> int \<Rightarrow> int res"
  s_mul :: "int \<Rightarrow> int \<Rightarrow> int res"
  s_div :: "int \<Rightarrow> int \<Rightarrow> int res"
  s_mod :: "int \<Rightarrow> int \<Rightarrow> int res"
  s_neg :: "int \<Rightarrow> int res"
  u_of_int :: "int \<Rightarrow> u128"
  u_add :: "u128 \<Rightarrow> u128 \<Rightarrow> u128"
  u_sub :: "u128 \<Rightarrow> u128 \<Rightarrow> u128"
  u_mul :: "u128 \<Rightarrow> u128 \<Rightarrow> u128"
  u_div :: "u128 \<Rightarrow> u128 \<Rightarrow> u128 res"
  u_to_u64 :: "u128 \<Rightarrow> u64 res"

definition u_hi :: "u128 \<Rightarrow> u64" where
  "u_hi x = ucast (drop_bit 64 x)"

definition u_lo :: "u128 \<Rightarrow> u64" where
  "u_lo x = ucast x"

definition fc_laws :: "fc_lib \<Rightarrow> bool" where
  "fc_laws F \<longleftrightarrow>
     (\<forall>a b. s_add F a b = checked (a + b)) \<and>
     (\<forall>a b. s_sub F a b = checked (a - b)) \<and>
     (\<forall>a b. s_mul F a b = checked (a * b)) \<and>
     (\<forall>a b. s_div F a b = (if b = 0 then Inl Div_by_zero else checked (a sdiv b))) \<and>
     (\<forall>a b. s_mod F a b = (if b = 0 then Inl Div_by_zero else checked (a smod b))) \<and>
     (\<forall>a. s_neg F a = checked (- a)) \<and>
     (\<forall>a. u_of_int F a = word_of_int a) \<and>
     (\<forall>a b. u_add F a b = a + b) \<and>
     (\<forall>a b. u_sub F a b = a - b) \<and>
     (\<forall>a b. u_mul F a b = a * b) \<and>
     (\<forall>a b. u_div F a b = (if b = 0 then Inl Div_by_zero else Inr (a div b))) \<and>
     (\<forall>a. u_hi a = 0 \<longrightarrow> u_to_u64 F a = Inr (u_lo a))"

text \<open>A concrete library that satisfies the laws: what the witnesses instantiate.\<close>

definition fc_ref :: fc_lib where
  "fc_ref = \<lparr>
     s_add = (\<lambda>a b. checked (a + b)),
     s_sub = (\<lambda>a b. checked (a - b)),
     s_mul = (\<lambda>a b. checked (a * b)),
     s_div = (\<lambda>a b. if b = 0 then Inl Div_by_zero else checked (a sdiv b)),
     s_mod = (\<lambda>a b. if b = 0 then Inl Div_by_zero else checked (a smod b)),
     s_neg = (\<lambda>a. checked (- a)),
     u_of_int = word_of_int,
     u_add = (+), u_sub = (-), u_mul = (*),
     u_div = (\<lambda>a b. if b = 0 then Inl Div_by_zero else Inr (a div b)),
     u_to_u64 = (\<lambda>a. if u_hi a = 0 then Inr (u_lo a) else Inl (Assert ''hi == 0''))\<rparr>"

lemma fc_ref_laws [simp, intro]: "fc_laws fc_ref"
  by (simp add: fc_laws_def fc_ref_def)

named_theorems fc_simps \<open>the fc operations under their laws\<close>

lemma s_add_law [fc_simps]: "fc_laws F \<Longrightarrow> s_add F a b = checked (a + b)"
  by (simp add: fc_laws_def)

lemma s_sub_law [fc_simps]: "fc_laws F \<Longrightarrow> s_sub F a b = checked (a - b)"
  by (simp add: fc_laws_def)

lemma s_mul_law [fc_simps]: "fc_laws F \<Longrightarrow> s_mul F a b = checked (a * b)"
  by (simp add: fc_laws_def)

lemma s_div_law [fc_simps]:
  "fc_laws F \<Longrightarrow> s_div F a b = (if b = 0 then Inl Div_by_zero else checked (a sdiv b))"
  by (simp add: fc_laws_def)

lemma s_mod_law [fc_simps]:
  "fc_laws F \<Longrightarrow> s_mod F a b = (if b = 0 then Inl Div_by_zero else checked (a smod b))"
  by (simp add: fc_laws_def)

lemma s_neg_law [fc_simps]: "fc_laws F \<Longrightarrow> s_neg F a = checked (- a)"
  by (simp add: fc_laws_def)

lemma u_laws [fc_simps]:
  "fc_laws F \<Longrightarrow> u_of_int F x = word_of_int x"
  "fc_laws F \<Longrightarrow> u_add F a b = a + b"
  "fc_laws F \<Longrightarrow> u_sub F a b = a - b"
  "fc_laws F \<Longrightarrow> u_mul F a b = a * b"
  "fc_laws F \<Longrightarrow> u_div F a b = (if b = 0 then Inl Div_by_zero else Inr (a div b))"
  by (simp_all add: fc_laws_def)

lemma u_to_u64_law [fc_simps]:
  "fc_laws F \<Longrightarrow> u_hi a = 0 \<Longrightarrow> u_to_u64 F a = Inr (u_lo a)"
  by (simp add: fc_laws_def)

lemma checked_Inr_iff [simp]: "checked x = Inr y \<longleftrightarrow> in_i64 x \<and> y = x"
  by (auto simp: checked_def)

lemma checked_ok [simp]: "in_i64 x \<Longrightarrow> checked x = Inr x"
  by (simp add: checked_def)

lemma sdiv_nonneg: "0 \<le> a \<Longrightarrow> 0 < b \<Longrightarrow> (a::int) sdiv b = a div b"
  by (cases "a = 0") (simp_all add: signed_divide_int_def)

lemma smod_nonneg: "0 \<le> a \<Longrightarrow> 0 < b \<Longrightarrow> (a::int) smod b = a mod b"
  by (cases "a = 0") (simp_all add: signed_modulo_int_def)

text \<open>Conversion of an unsigned 64-bit value to \<open>int64_t\<close>, as an implicit conversion does it.\<close>

definition i64_of_u64 :: "u64 \<Rightarrow> int" where
  "i64_of_u64 w = sint w"

subsection \<open>Words\<close>

lemma take_bit_small: "unat (w::'a::len word) < 2 ^ k \<Longrightarrow> take_bit k w = w"
  by (simp add: word_unat_eq_iff unsigned_take_bit_eq take_bit_nat_eq_self)

lemma unat_ucast_u8 [simp]: "unat (ucast (x::u8) :: u32) = unat x"
proof -
  have "unat x < 256" using unsigned_less [of x] by simp
  then show ?thesis by (simp add: unsigned_ucast_eq take_bit_nat_eq_self)
qed

lemma ucast_up_down [simp]: "ucast (ucast (n::u32) :: u64) = n"
  by (rule bit_word_eqI) (auto simp: bit_simps)

end
