(* ===== verification/Asset_Symbol.thy ===== *)
theory Asset_Symbol
  imports Prelude
begin

section \<open>Asset symbols\<close>

text \<open>
  Models \<open>libraries/protocol/asset_symbol.hpp\<close> and the \<open>asset_symbol_type\<close> part of
  \<open>asset.cpp\<close>: the numbers of the eight native symbols, the fungible asset identifier (FAI)
  with its Damm check digit, the conversions between the two, the qi/liquid pairing, symbol
  validation, and the binary serialization. A symbol is its only member, \<open>asset_num\<close>.
  \<open>boost::lexical_cast<uint32_t>\<close> and \<open>fc::raw::pack\<close> of integers are parameters.
\<close>

type_synonym asset_symbol_type = u32

subsection \<open>Constants\<close>

abbreviation (input) TAIYI_FAI_SHIFT :: nat where "TAIYI_FAI_SHIFT \<equiv> 5"
abbreviation (input) SGT_MAX_FAI :: u32 where "SGT_MAX_FAI \<equiv> 99999999"
abbreviation (input) SGT_MIN_FAI :: u32 where "SGT_MIN_FAI \<equiv> 1"
abbreviation (input) TAIYI_ASSET_MAX_DECIMALS :: u8 where "TAIYI_ASSET_MAX_DECIMALS \<equiv> 12"
abbreviation (input) SGT_ASSET_NUM_PRECISION_MASK :: u32 where "SGT_ASSET_NUM_PRECISION_MASK \<equiv> 0xF"
abbreviation (input) SGT_ASSET_NUM_CONTROL_MASK :: u32 where "SGT_ASSET_NUM_CONTROL_MASK \<equiv> 0x10"
abbreviation (input) SGT_ASSET_NUM_QI_MASK :: u32 where "SGT_ASSET_NUM_QI_MASK \<equiv> 0x20"

definition native_num :: "u32 \<Rightarrow> u32 \<Rightarrow> u32" where
  "native_num fai precision = push_bit TAIYI_FAI_SHIFT (SGT_MAX_FAI + fai) OR precision"

definition TAIYI_ASSET_NUM_YIN :: u32 where "TAIYI_ASSET_NUM_YIN = native_num 1 3"
definition TAIYI_ASSET_NUM_YANG :: u32 where "TAIYI_ASSET_NUM_YANG = native_num 2 3"
definition TAIYI_ASSET_NUM_QI :: u32 where "TAIYI_ASSET_NUM_QI = native_num 3 6"
definition TAIYI_ASSET_NUM_GOLD :: u32 where "TAIYI_ASSET_NUM_GOLD = native_num 4 6"
definition TAIYI_ASSET_NUM_FOOD :: u32 where "TAIYI_ASSET_NUM_FOOD = native_num 5 6"
definition TAIYI_ASSET_NUM_WOOD :: u32 where "TAIYI_ASSET_NUM_WOOD = native_num 6 6"
definition TAIYI_ASSET_NUM_FABRIC :: u32 where "TAIYI_ASSET_NUM_FABRIC = native_num 7 6"
definition TAIYI_ASSET_NUM_HERB :: u32 where "TAIYI_ASSET_NUM_HERB = native_num 8 6"

lemma native_nums:
  "TAIYI_ASSET_NUM_YIN = 3200000003" "TAIYI_ASSET_NUM_YANG = 3200000035"
  "TAIYI_ASSET_NUM_QI = 3200000070" "TAIYI_ASSET_NUM_GOLD = 3200000102"
  "TAIYI_ASSET_NUM_FOOD = 3200000134" "TAIYI_ASSET_NUM_WOOD = 3200000166"
  "TAIYI_ASSET_NUM_FABRIC = 3200000198" "TAIYI_ASSET_NUM_HERB = 3200000230"
  by (simp_all add: TAIYI_ASSET_NUM_YIN_def TAIYI_ASSET_NUM_YANG_def TAIYI_ASSET_NUM_QI_def
      TAIYI_ASSET_NUM_GOLD_def TAIYI_ASSET_NUM_FOOD_def TAIYI_ASSET_NUM_WOOD_def
      TAIYI_ASSET_NUM_FABRIC_def TAIYI_ASSET_NUM_HERB_def native_num_def push_bit_eq_mult)

text \<open>The letters of the native symbols, as they are serialized.\<close>

definition symbol_ser :: "nat \<Rightarrow> string \<Rightarrow> u64" where
  "symbol_ser precision letters =
     of_nat precision OR
     push_bit 8 (of_nat (foldr (\<lambda>c acc. of_char c + 256 * acc) (take 4 letters) 0))"

definition QI_SYMBOL_SER :: u64 where "QI_SYMBOL_SER = symbol_ser 6 ''QI''"
definition YANG_SYMBOL_SER :: u64 where "YANG_SYMBOL_SER = symbol_ser 3 ''YANG''"
definition YIN_SYMBOL_SER :: u64 where "YIN_SYMBOL_SER = symbol_ser 3 ''YIN''"
definition GOLD_SYMBOL_SER :: u64 where "GOLD_SYMBOL_SER = symbol_ser 6 ''GOLD''"
definition FOOD_SYMBOL_SER :: u64 where "FOOD_SYMBOL_SER = symbol_ser 6 ''FOOD''"
definition WOOD_SYMBOL_SER :: u64 where "WOOD_SYMBOL_SER = symbol_ser 6 ''WOOD''"
definition FABRIC_SYMBOL_SER :: u64 where "FABRIC_SYMBOL_SER = symbol_ser 6 ''FABR''"
definition HERB_SYMBOL_SER :: u64 where "HERB_SYMBOL_SER = symbol_ser 6 ''HERB''"

lemma symbol_sers:
  "QI_SYMBOL_SER = 0x495106" "YANG_SYMBOL_SER = 0x474E415903" "YIN_SYMBOL_SER = 0x4E495903"
  "GOLD_SYMBOL_SER = 0x444C4F4706" "FOOD_SYMBOL_SER = 0x444F4F4606"
  "WOOD_SYMBOL_SER = 0x444F4F5706" "FABRIC_SYMBOL_SER = 0x5242414606"
  "HERB_SYMBOL_SER = 0x4252454806"
  by (simp_all add: QI_SYMBOL_SER_def YANG_SYMBOL_SER_def YIN_SYMBOL_SER_def GOLD_SYMBOL_SER_def
      FOOD_SYMBOL_SER_def WOOD_SYMBOL_SER_def FABRIC_SYMBOL_SER_def HERB_SYMBOL_SER_def
      symbol_ser_def push_bit_eq_mult)

subsection \<open>The symbol space and its validation\<close>

datatype asset_symbol_space = legacy_space | fai_space

definition space :: "asset_symbol_type \<Rightarrow> asset_symbol_space" where
  "space asset_num =
     (if asset_num \<in> {TAIYI_ASSET_NUM_YANG, TAIYI_ASSET_NUM_YIN, TAIYI_ASSET_NUM_QI,
           TAIYI_ASSET_NUM_GOLD, TAIYI_ASSET_NUM_FOOD, TAIYI_ASSET_NUM_WOOD,
           TAIYI_ASSET_NUM_FABRIC, TAIYI_ASSET_NUM_HERB}
      then legacy_space else fai_space)"

definition decimals :: "asset_symbol_type \<Rightarrow> u8" where
  "decimals asset_num = ucast (asset_num AND SGT_ASSET_NUM_PRECISION_MASK)"

definition get_stripped_precision_sgt_num :: "asset_symbol_type \<Rightarrow> u32" where
  "get_stripped_precision_sgt_num asset_num = asset_num AND NOT SGT_ASSET_NUM_PRECISION_MASK"

definition validate_symbol :: "asset_symbol_type \<Rightarrow> unit res" where
  "validate_symbol asset_num =
     (if asset_num \<in> {TAIYI_ASSET_NUM_YANG, TAIYI_ASSET_NUM_YIN, TAIYI_ASSET_NUM_QI,
           TAIYI_ASSET_NUM_GOLD, TAIYI_ASSET_NUM_FOOD, TAIYI_ASSET_NUM_WOOD,
           TAIYI_ASSET_NUM_FABRIC, TAIYI_ASSET_NUM_HERB}
      then Inr ()
      else
        let fai_data_digits = drop_bit TAIYI_FAI_SHIFT asset_num;
            fai_1bit = asset_num AND SGT_ASSET_NUM_CONTROL_MASK;
            fai_decimal_places = asset_num AND SGT_ASSET_NUM_PRECISION_MASK
        in rguard (fai_data_digits \<ge> SGT_MIN_FAI \<and> fai_data_digits \<le> SGT_MAX_FAI \<and>
                   fai_1bit = SGT_ASSET_NUM_CONTROL_MASK \<and>
                   fai_decimal_places \<le> ucast TAIYI_ASSET_MAX_DECIMALS)
             (Assert ''Cannot determine space for asset'') (Inr ()))"

subsection \<open>The Damm check digit and the FAI\<close>

definition damm_table :: "nat list" where
  "damm_table = [
     0, 30, 10, 70, 50, 90, 80, 60, 40, 20,
     70,  0, 90, 20, 10, 50, 40, 80, 60, 30,
     40, 20,  0, 60, 80, 70, 10, 30, 50, 90,
     10, 70, 50,  0, 90, 80, 30, 40, 20, 60,
     60, 10, 20, 30,  0, 40, 50, 90, 70, 80,
     30, 60, 70, 40, 20,  0, 90, 50, 80, 10,
     50, 80, 60, 90, 70, 20,  0, 10, 30, 40,
     80, 90, 40, 50, 30, 60, 20,  0, 10, 70,
     90, 40, 30, 80, 60, 10, 70, 20,  0, 50,
     20, 50, 80, 10, 40, 30, 60, 70, 90, 0]"

definition damm_checksum_8digit :: "u32 \<Rightarrow> u8 res" where
  "damm_checksum_8digit value =
     rguard (value < 100000000) (Assert ''value < 100000000'')
      (let t = (\<lambda>i. damm_table ! i);
           q0 = unat value div 10; d0 = unat value mod 10;
           q1 = q0 div 10; d1 = q0 mod 10;
           q2 = q1 div 10; d2 = q1 mod 10;
           q3 = q2 div 10; d3 = q2 mod 10;
           q4 = q3 div 10; d4 = q3 mod 10;
           q5 = q4 div 10; d5 = q4 mod 10;
           d6 = q5 mod 10; d7 = q5 div 10;
           x = t d7;
           x = t (x + d6);
           x = t (x + d5);
           x = t (x + d4);
           x = t (x + d3);
           x = t (x + d2);
           x = t (x + d1);
           x = t (x + d0)
       in Inr (of_nat (x div 10)))"

definition asset_num_from_fai :: "u32 \<Rightarrow> u8 \<Rightarrow> u32 res" where
  "asset_num_from_fai fai decimal_places =
     (let fai_check_digit = fai mod 10; fai_data_digits = fai div 10
      in rguard (fai_data_digits \<ge> SGT_MIN_FAI \<and> fai_data_digits \<le> SGT_MAX_FAI)
           (Assert ''FAI out of range'')
         (rbind (damm_checksum_8digit fai_data_digits) (\<lambda>check.
          rguard (fai_check_digit = ucast check) (Assert ''Invalid check digit'')
          (if fai_data_digits = 2 then
             rguard (decimal_places = 3) (Assert ''decimal_places'') (Inr TAIYI_ASSET_NUM_YANG)
           else if fai_data_digits = 1 then
             rguard (decimal_places = 3) (Assert ''decimal_places'') (Inr TAIYI_ASSET_NUM_YIN)
           else if fai_data_digits = 3 then
             rguard (decimal_places = 6) (Assert ''decimal_places'') (Inr TAIYI_ASSET_NUM_QI)
           else if fai_data_digits = 4 then
             rguard (decimal_places = 6) (Assert ''decimal_places'') (Inr TAIYI_ASSET_NUM_GOLD)
           else if fai_data_digits = 5 then
             rguard (decimal_places = 6) (Assert ''decimal_places'') (Inr TAIYI_ASSET_NUM_FOOD)
           else if fai_data_digits = 6 then
             rguard (decimal_places = 6) (Assert ''decimal_places'') (Inr TAIYI_ASSET_NUM_WOOD)
           else if fai_data_digits = 7 then
             rguard (decimal_places = 6) (Assert ''decimal_places'') (Inr TAIYI_ASSET_NUM_FABRIC)
           else if fai_data_digits = 8 then
             rguard (decimal_places = 6) (Assert ''decimal_places'') (Inr TAIYI_ASSET_NUM_HERB)
           else
             rguard (decimal_places \<le> TAIYI_ASSET_MAX_DECIMALS) (Assert ''Invalid decimal_places'')
               (Inr (push_bit TAIYI_FAI_SHIFT fai_data_digits OR SGT_ASSET_NUM_CONTROL_MASK
                     OR ucast decimal_places))))))"

definition to_fai :: "asset_symbol_type \<Rightarrow> u32 res" where
  "to_fai asset_num =
     rbind
      (if asset_num = TAIYI_ASSET_NUM_YANG then Inr 2
       else if asset_num = TAIYI_ASSET_NUM_YIN then Inr 1
       else if asset_num = TAIYI_ASSET_NUM_QI then Inr 3
       else if asset_num = TAIYI_ASSET_NUM_GOLD then Inr 4
       else if asset_num = TAIYI_ASSET_NUM_FOOD then Inr 5
       else if asset_num = TAIYI_ASSET_NUM_WOOD then Inr 6
       else if asset_num = TAIYI_ASSET_NUM_FABRIC then Inr 7
       else if asset_num = TAIYI_ASSET_NUM_HERB then Inr 8
       else rguard (space asset_num = fai_space) (Assert ''space() == fai_space'')
              (Inr (drop_bit TAIYI_FAI_SHIFT asset_num)))
      (\<lambda>fai_data_digits.
        rbind (damm_checksum_8digit fai_data_digits) (\<lambda>fai_check_digit.
          Inr (fai_data_digits * 10 + ucast fai_check_digit)))"

subsection \<open>The qi variant of a symbol\<close>

definition is_qi :: "asset_symbol_type \<Rightarrow> bool res" where
  "is_qi asset_num =
     (case space asset_num of
        legacy_space \<Rightarrow>
          (if asset_num = TAIYI_ASSET_NUM_YANG then Inr False
           else if asset_num = TAIYI_ASSET_NUM_YIN then Inr False
           else if asset_num = TAIYI_ASSET_NUM_QI then Inr True
           else if asset_num \<in> {TAIYI_ASSET_NUM_GOLD, TAIYI_ASSET_NUM_FOOD, TAIYI_ASSET_NUM_WOOD,
                               TAIYI_ASSET_NUM_FABRIC, TAIYI_ASSET_NUM_HERB} then Inr False
           else Inl (Assert ''Unknown asset symbol''))
      | fai_space \<Rightarrow> Inr (asset_num AND SGT_ASSET_NUM_QI_MASK \<noteq> 0))"

definition get_paired_symbol :: "asset_symbol_type \<Rightarrow> asset_symbol_type res" where
  "get_paired_symbol asset_num =
     (case space asset_num of
        legacy_space \<Rightarrow>
          (if asset_num = TAIYI_ASSET_NUM_YANG then Inr TAIYI_ASSET_NUM_QI
           else if asset_num = TAIYI_ASSET_NUM_YIN then Inr asset_num
           else if asset_num = TAIYI_ASSET_NUM_QI then Inr TAIYI_ASSET_NUM_YANG
           else if asset_num \<in> {TAIYI_ASSET_NUM_GOLD, TAIYI_ASSET_NUM_FOOD, TAIYI_ASSET_NUM_WOOD,
                               TAIYI_ASSET_NUM_FABRIC, TAIYI_ASSET_NUM_HERB} then Inr asset_num
           else Inl (Assert ''Unknown asset symbol''))
      | fai_space \<Rightarrow> Inr (asset_num XOR SGT_ASSET_NUM_QI_MASK))"

subsection \<open>FAI strings\<close>

definition digit_char :: "nat \<Rightarrow> char" where
  "digit_char n = char_of (48 + n)"

text \<open>The nine digits, most significant first; the leading one is not reduced modulo ten.\<close>

definition to_fai_string :: "asset_symbol_type \<Rightarrow> string res" where
  "to_fai_string asset_num =
     rbind (to_fai asset_num) (\<lambda>fai.
      (let x = unat fai;
           b10 = digit_char (x mod 10); x = x div 10;
           b9 = digit_char (x mod 10); x = x div 10;
           b8 = digit_char (x mod 10); x = x div 10;
           b7 = digit_char (x mod 10); x = x div 10;
           b6 = digit_char (x mod 10); x = x div 10;
           b5 = digit_char (x mod 10); x = x div 10;
           b4 = digit_char (x mod 10); x = x div 10;
           b3 = digit_char (x mod 10); x = x div 10;
           b2 = digit_char x
       in Inr [CHR ''@'', CHR ''@'', b2, b3, b4, b5, b6, b7, b8, b9, b10]))"

definition from_fai_string ::
    "(string \<Rightarrow> u32 option) \<Rightarrow> string option \<Rightarrow> u8 \<Rightarrow> asset_symbol_type res" where
  "from_fai_string lexical_cast p decimal_places =
     (case p of
        None \<Rightarrow> Inl (Assert ''FAI string cannot be a null'')
      | Some s \<Rightarrow>
          rguard (length s = 11) (Assert ''Incorrect FAI string length'')
          (rguard (s ! 0 = CHR ''@'' \<and> s ! 1 = CHR ''@'') (Assert ''Invalid FAI string prefix'')
           (case lexical_cast (drop 2 s) of
              None \<Rightarrow> Inl Bad_lexical_cast
            | Some fai \<Rightarrow> asset_num_from_fai fai decimal_places)))"

subsection \<open>Binary serialization\<close>

definition le_bytes32 :: "u32 \<Rightarrow> u8 list" where
  "le_bytes32 x = [ucast x, ucast (drop_bit 8 x), ucast (drop_bit 16 x), ucast (drop_bit 24 x)]"

definition le_bytes64 :: "u64 \<Rightarrow> u8 list" where
  "le_bytes64 x = le_bytes32 (ucast x) @ le_bytes32 (ucast (drop_bit 32 x))"

definition le_read32 :: "u8 list \<Rightarrow> u64" where
  "le_read32 bs = ucast (bs ! 0) OR push_bit 8 (ucast (bs ! 1)) OR push_bit 16 (ucast (bs ! 2))
     OR push_bit 24 (ucast (bs ! 3))"

text \<open>\<open>s.read(ptr, 4)\<close> on a stream given by its remaining bytes.\<close>

definition stream_read4 :: "u8 list \<Rightarrow> (u64 \<times> u8 list) res" where
  "stream_read4 s = (if length s < 4 then Inl Out_of_range else Inr (le_read32 s, drop 4 s))"

definition pack_symbol ::
    "(u64 \<Rightarrow> u8 list) \<Rightarrow> (u32 \<Rightarrow> u8 list) \<Rightarrow> asset_symbol_type \<Rightarrow> u8 list res" where
  "pack_symbol pack_u64 pack_u32 symbol =
     (case space symbol of
        legacy_space \<Rightarrow>
          (if symbol = TAIYI_ASSET_NUM_YANG then Inr (pack_u64 YANG_SYMBOL_SER)
           else if symbol = TAIYI_ASSET_NUM_YIN then Inr (pack_u64 YIN_SYMBOL_SER)
           else if symbol = TAIYI_ASSET_NUM_QI then Inr (pack_u64 QI_SYMBOL_SER)
           else if symbol = TAIYI_ASSET_NUM_GOLD then Inr (pack_u64 GOLD_SYMBOL_SER)
           else if symbol = TAIYI_ASSET_NUM_FOOD then Inr (pack_u64 FOOD_SYMBOL_SER)
           else if symbol = TAIYI_ASSET_NUM_WOOD then Inr (pack_u64 WOOD_SYMBOL_SER)
           else if symbol = TAIYI_ASSET_NUM_FABRIC then Inr (pack_u64 FABRIC_SYMBOL_SER)
           else if symbol = TAIYI_ASSET_NUM_HERB then Inr (pack_u64 HERB_SYMBOL_SER)
           else Inl (Assert ''Cannot serialize unknown asset symbol''))
      | fai_space \<Rightarrow> Inr (pack_u32 symbol))"

text \<open>
  The second half of a native symbol: four more bytes that complete \<open>ser\<close>, which must then be
  the whole serialization of that symbol.
\<close>

definition unpack_native :: "u64 \<Rightarrow> u8 list \<Rightarrow> u64 \<Rightarrow> u32 \<Rightarrow> (asset_symbol_type \<times> u8 list) res" where
  "unpack_native ser s expected num =
     rbind (stream_read4 s) (\<lambda>(hi, s').
       rguard ((ser OR push_bit 32 hi) = expected) (Assert ''invalid asset bits'') (Inr (num, s')))"

definition unpack_symbol :: "u8 list \<Rightarrow> (asset_symbol_type \<times> u8 list) res" where
  "unpack_symbol s =
     rbind (stream_read4 s) (\<lambda>(ser, s).
     rbind
      (if ser = YANG_SYMBOL_SER AND 0xFFFFFFFF then
         unpack_native ser s YANG_SYMBOL_SER TAIYI_ASSET_NUM_YANG
       else if ser = YIN_SYMBOL_SER AND 0xFFFFFFFF then
         unpack_native ser s YIN_SYMBOL_SER TAIYI_ASSET_NUM_YIN
       else if ser = QI_SYMBOL_SER AND 0xFFFFFFFF then
         unpack_native ser s QI_SYMBOL_SER TAIYI_ASSET_NUM_QI
       else if ser = GOLD_SYMBOL_SER AND 0xFFFFFFFF then
         unpack_native ser s GOLD_SYMBOL_SER TAIYI_ASSET_NUM_GOLD
       else if ser = FOOD_SYMBOL_SER AND 0xFFFFFFFF then
         unpack_native ser s FOOD_SYMBOL_SER TAIYI_ASSET_NUM_FOOD
       else if ser = WOOD_SYMBOL_SER AND 0xFFFFFFFF then
         unpack_native ser s WOOD_SYMBOL_SER TAIYI_ASSET_NUM_WOOD
       else if ser = FABRIC_SYMBOL_SER AND 0xFFFFFFFF then
         unpack_native ser s FABRIC_SYMBOL_SER TAIYI_ASSET_NUM_FABRIC
       else if ser = HERB_SYMBOL_SER AND 0xFFFFFFFF then
         unpack_native ser s HERB_SYMBOL_SER TAIYI_ASSET_NUM_HERB
       else Inr (ucast ser, s))
      (\<lambda>(symbol, s). rbind (validate_symbol symbol) (\<lambda>_. Inr (symbol, s))))"

subsection \<open>The Damm quasigroup\<close>

text \<open>
  The table holds ten times the entries of a quasigroup of order ten that is weakly totally
  anti-symmetric; the facts below are its finite checks, and lift to lists of digits.
\<close>

lemma damm_nth:
  "damm_table ! 0 = 0" "damm_table ! Suc 0 = 30" "damm_table ! Suc (Suc 0) = 10" "damm_table ! 3 = 70" "damm_table ! 4 = 50"
  "damm_table ! 5 = 90" "damm_table ! 6 = 80" "damm_table ! 7 = 60" "damm_table ! 8 = 40" "damm_table ! 9 = 20"
  "damm_table ! 10 = 70" "damm_table ! 11 = 0" "damm_table ! 12 = 90" "damm_table ! 13 = 20" "damm_table ! 14 = 10"
  "damm_table ! 15 = 50" "damm_table ! 16 = 40" "damm_table ! 17 = 80" "damm_table ! 18 = 60" "damm_table ! 19 = 30"
  "damm_table ! 20 = 40" "damm_table ! 21 = 20" "damm_table ! 22 = 0" "damm_table ! 23 = 60" "damm_table ! 24 = 80"
  "damm_table ! 25 = 70" "damm_table ! 26 = 10" "damm_table ! 27 = 30" "damm_table ! 28 = 50" "damm_table ! 29 = 90"
  "damm_table ! 30 = 10" "damm_table ! 31 = 70" "damm_table ! 32 = 50" "damm_table ! 33 = 0" "damm_table ! 34 = 90"
  "damm_table ! 35 = 80" "damm_table ! 36 = 30" "damm_table ! 37 = 40" "damm_table ! 38 = 20" "damm_table ! 39 = 60"
  "damm_table ! 40 = 60" "damm_table ! 41 = 10" "damm_table ! 42 = 20" "damm_table ! 43 = 30" "damm_table ! 44 = 0"
  "damm_table ! 45 = 40" "damm_table ! 46 = 50" "damm_table ! 47 = 90" "damm_table ! 48 = 70" "damm_table ! 49 = 80"
  "damm_table ! 50 = 30" "damm_table ! 51 = 60" "damm_table ! 52 = 70" "damm_table ! 53 = 40" "damm_table ! 54 = 20"
  "damm_table ! 55 = 0" "damm_table ! 56 = 90" "damm_table ! 57 = 50" "damm_table ! 58 = 80" "damm_table ! 59 = 10"
  "damm_table ! 60 = 50" "damm_table ! 61 = 80" "damm_table ! 62 = 60" "damm_table ! 63 = 90" "damm_table ! 64 = 70"
  "damm_table ! 65 = 20" "damm_table ! 66 = 0" "damm_table ! 67 = 10" "damm_table ! 68 = 30" "damm_table ! 69 = 40"
  "damm_table ! 70 = 80" "damm_table ! 71 = 90" "damm_table ! 72 = 40" "damm_table ! 73 = 50" "damm_table ! 74 = 30"
  "damm_table ! 75 = 60" "damm_table ! 76 = 20" "damm_table ! 77 = 0" "damm_table ! 78 = 10" "damm_table ! 79 = 70"
  "damm_table ! 80 = 90" "damm_table ! 81 = 40" "damm_table ! 82 = 30" "damm_table ! 83 = 80" "damm_table ! 84 = 60"
  "damm_table ! 85 = 10" "damm_table ! 86 = 70" "damm_table ! 87 = 20" "damm_table ! 88 = 0" "damm_table ! 89 = 50"
  "damm_table ! 90 = 20" "damm_table ! 91 = 50" "damm_table ! 92 = 80" "damm_table ! 93 = 10" "damm_table ! 94 = 40"
  "damm_table ! 95 = 30" "damm_table ! 96 = 60" "damm_table ! 97 = 70" "damm_table ! 98 = 90" "damm_table ! 99 = 0"
  by (simp_all add: damm_table_def)

lemma all10: "(\<forall>n<10::nat. P n) \<longleftrightarrow> P 0 \<and> P 1 \<and> P 2 \<and> P 3 \<and> P 4 \<and> P 5 \<and> P 6 \<and> P 7 \<and> P 8 \<and> P 9"
  by (auto simp: numeral_eq_Suc All_less_Suc)

definition dq :: "nat \<Rightarrow> nat \<Rightarrow> nat" where "dq c d = damm_table ! (10 * c + d) div 10"

lemma damm_closed: "\<forall>c<10. \<forall>d<10. damm_table ! (10 * c + d) = 10 * dq c d \<and> dq c d < 10"
  unfolding all10 dq_def by (simp add: damm_nth)
lemma damm_rows: "\<forall>c<10. \<forall>d<10. \<forall>e<10. dq c d = dq c e \<longrightarrow> d = e"
  unfolding all10 dq_def by (simp add: damm_nth)
lemma damm_columns: "\<forall>d<10. \<forall>c<10. \<forall>b<10. dq c d = dq b d \<longrightarrow> c = b"
  unfolding all10 dq_def by (simp add: damm_nth)
lemma damm_anti: "\<forall>c<10. \<forall>d<10. \<forall>e<10. dq (dq c d) e = dq (dq c e) d \<longrightarrow> d = e"
  unfolding all10 dq_def by (simp add: damm_nth)

text \<open>Digits are listed least significant first.\<close>

primrec dval :: "nat list \<Rightarrow> nat" where
  "dval [] = 0"
| "dval (d # ds) = d + 10 * dval ds"

primrec dfold :: "nat list \<Rightarrow> nat" where
  "dfold [] = 0"
| "dfold (d # ds) = dq (dfold ds) d"

lemma dval_bound: "\<forall>d\<in>set ds. d < 10 \<Longrightarrow> dval ds < 10 ^ length ds"
  by (induction ds) auto

lemma dval_divmod: "d < 10 \<Longrightarrow> (d + 10 * n) div 10 = (n::nat)" "d < 10 \<Longrightarrow> (d + 10 * n) mod 10 = (d::nat)"
  by simp_all

lemma dq_less: "c < 10 \<Longrightarrow> d < 10 \<Longrightarrow> dq c d < 10" using damm_closed by blast

lemma dfold_less: "\<forall>d\<in>set ds. d < 10 \<Longrightarrow> dfold ds < 10"
  by (induction ds) (auto simp: dq_less)

lemma dfold_append_less: "\<forall>d\<in>set us. d < 10 \<Longrightarrow> dfold vs < 10 \<Longrightarrow> dfold (us @ vs) < 10"
  by (induction us) (auto simp: dq_less)

lemma dfold_prefix_inj:
  "\<forall>d\<in>set us. d < 10 \<Longrightarrow> dfold vs < 10 \<Longrightarrow> dfold ws < 10 \<Longrightarrow>
   dfold (us @ vs) = dfold (us @ ws) \<Longrightarrow> dfold vs = dfold ws"
proof (induction us)
  case Nil
  then show ?case by simp
next
  case (Cons d us)
  have "dfold (us @ vs) < 10" "dfold (us @ ws) < 10"
    using Cons.prems by (auto intro: dfold_append_less)
  with Cons.prems damm_columns have "dfold (us @ vs) = dfold (us @ ws)" by auto
  with Cons show ?case by auto
qed

lemma table_dq: "c < 10 \<Longrightarrow> d < 10 \<Longrightarrow> damm_table ! (10 * c + d) = 10 * dq c d"
  using damm_closed by blast

lemma list8: "length ds = 8 \<Longrightarrow> \<exists>a b c d e f g h. ds = [a,b,c,d,e,f,g,h]"
  by (auto simp: length_Suc_conv numeral_eq_Suc)

lemma damm_value:
  assumes "length ds = 8" "\<forall>d\<in>set ds. d < 10"
  shows "damm_checksum_8digit (of_nat (dval ds)) = Inr (of_nat (dfold ds))"
proof -
  have b: "dval ds < 10 ^ 8" using dval_bound assms by metis
  obtain d0 d1 d2 d3 d4 d5 d6 d7 where ds: "ds = [d0,d1,d2,d3,d4,d5,d6,d7]"
    using list8 assms by blast
  have u: "unat (of_nat (dval ds) :: u32) = dval ds"
    using b by (simp add: unat_of_nat)
  have lt: "(of_nat (dval ds) :: u32) < 100000000"
    using b u by (simp add: word_less_nat_alt)
  have less: "d0 < 10" "d1 < 10" "d2 < 10" "d3 < 10" "d4 < 10" "d5 < 10" "d6 < 10" "d7 < 10"
    using assms ds by auto
  have t7: "damm_table ! d7 = 10 * dq 0 d7" using less table_dq [of 0 d7] by simp
  show ?thesis
    unfolding damm_checksum_8digit_def Let_def ds dval.simps mult_0_right add_0_right
      u [unfolded ds dval.simps mult_0_right add_0_right]
    using lt [unfolded ds dval.simps mult_0_right add_0_right] less
    by (simp only: dval_divmod t7 table_dq dq_less rguard_True dfold.simps div_mult_self1_is_m zero_less_numeral
       mult_0_right add_0_right div_less mod_less)
qed

lemma of_nat_u8_inj: "x < 10 \<Longrightarrow> y < 10 \<Longrightarrow> (of_nat x :: u8) = of_nat y \<longleftrightarrow> x = y"
proof -
  assume "x < 10" "y < 10"
  then have "unat (of_nat x :: u8) = x" "unat (of_nat y :: u8) = y" by (simp_all add: unat_of_nat)
  then show ?thesis by metis
qed

lemma damm_single:
  assumes "length (us @ a # vs) = 8" "\<forall>d\<in>set (us @ a # b # vs). d < 10" "a \<noteq> b"
  shows "damm_checksum_8digit (of_nat (dval (us @ a # vs))) \<noteq> damm_checksum_8digit (of_nat (dval (us @ b # vs)))"
proof -
  have l: "dfold vs < 10" "a < 10" "b < 10" using assms(2) by (auto intro: dfold_less)
  then have "dq (dfold vs) a \<noteq> dq (dfold vs) b" using damm_rows assms(3) by blast
  then have "dfold (us @ a # vs) \<noteq> dfold (us @ b # vs)"
    using dfold_prefix_inj [of us "a # vs" "b # vs"] assms(2) l by (auto simp: dq_less)
  moreover have "dfold (us @ a # vs) < 10" "dfold (us @ b # vs) < 10"
    using assms(2) by (auto intro!: dfold_less)
  moreover have "damm_checksum_8digit (of_nat (dval (us @ a # vs))) = Inr (of_nat (dfold (us @ a # vs)))"
     "damm_checksum_8digit (of_nat (dval (us @ b # vs))) = Inr (of_nat (dfold (us @ b # vs)))"
    using assms by (auto intro!: damm_value)
  ultimately show ?thesis by (simp add: of_nat_u8_inj)
qed

lemma damm_transpose:
  assumes "length (us @ a # b # vs) = 8" "\<forall>d\<in>set (us @ a # b # vs). d < 10" "a \<noteq> b"
  shows "damm_checksum_8digit (of_nat (dval (us @ a # b # vs))) \<noteq> damm_checksum_8digit (of_nat (dval (us @ b # a # vs)))"
proof -
  have l: "dfold vs < 10" "a < 10" "b < 10" using assms(2) by (auto intro: dfold_less)
  then have "dq (dq (dfold vs) b) a \<noteq> dq (dq (dfold vs) a) b" using damm_anti assms(3) by blast
  then have "dfold (us @ a # b # vs) \<noteq> dfold (us @ b # a # vs)"
    using dfold_prefix_inj [of us "a # b # vs" "b # a # vs"] assms(2) l by (auto simp: dq_less)
  moreover have "dfold (us @ a # b # vs) < 10" "dfold (us @ b # a # vs) < 10"
    using assms(2) by (auto intro!: dfold_less)
  moreover have "damm_checksum_8digit (of_nat (dval (us @ a # b # vs))) = Inr (of_nat (dfold (us @ a # b # vs)))"
     "damm_checksum_8digit (of_nat (dval (us @ b # a # vs))) = Inr (of_nat (dfold (us @ b # a # vs)))"
    using assms by (auto intro!: damm_value)
  ultimately show ?thesis by (simp add: of_nat_u8_inj)
qed

subsection \<open>Facts about the symbol numbers\<close>

lemma digits_exist: "v < 10 ^ n \<Longrightarrow> \<exists>ds. length ds = n \<and> (\<forall>d\<in>set ds. d < 10) \<and> dval ds = v"
proof (induction n arbitrary: v)
  case 0
  then show ?case by simp
next
  case (Suc n)
  then have "v div 10 < 10 ^ n" by (simp add: div_less_iff_less_mult mult.commute)
  then obtain ds where "length ds = n" "\<forall>d\<in>set ds. d < 10" "dval ds = v div 10"
    using Suc.IH by blast
  then have "length (v mod 10 # ds) = Suc n \<and> (\<forall>d\<in>set (v mod 10 # ds). d < 10) \<and> dval (v mod 10 # ds) = v"
    by simp
  then show ?case by blast
qed

lemma damm_ok:
  assumes "v < 100000000" shows "\<exists>c. damm_checksum_8digit v = Inr c \<and> unat c < 10"
proof -
  have "unat v < 10 ^ 8" using assms by (simp add: word_less_nat_alt)
  then obtain ds where ds: "length ds = 8" "\<forall>d\<in>set ds. d < 10" "dval ds = unat v"
    using digits_exist by blast
  then have "damm_checksum_8digit v = Inr (of_nat (dfold ds))"
    using damm_value [OF ds(1,2)] by simp
  moreover have "dfold ds < 10" using ds(2) by (rule dfold_less)
  ultimately show ?thesis by (simp add: unat_of_nat)
qed

lemma fai_parts:
  fixes d :: u32 assumes "d < 100000000" "unat c < 10"
  shows "(d * 10 + ucast (c::u8)) div 10 = d" "(d * 10 + ucast c) mod 10 = ucast c"
proof -
  have "unat (d * 10 + ucast c) = unat d * 10 + unat c"
    using assms by (simp add: unat_word_ariths word_less_nat_alt)
  then show "(d * 10 + ucast c) div 10 = d" "(d * 10 + ucast c) mod 10 = ucast c"
    using assms(2) by (simp_all add: word_unat_eq_iff unat_div unat_mod)
qed

lemma fai_masks: "(0x10::u32) = push_bit 4 1" "(0xF::u32) = mask 4"
  by (simp_all add: push_bit_eq_mult mask_eq_exp_minus_1)

lemma bit_0x10: "bit (0x10::u32) k \<longleftrightarrow> k = 4"
proof -
  have "bit (push_bit 4 (1::u32)) k \<longleftrightarrow> k = 4"
    by (simp only: bit_push_bit_iff bit_1_iff) auto
  then show ?thesis by (simp only: fai_masks)
qed

lemma bit_0xF: "bit (0xF::u32) k \<longleftrightarrow> k < 4"
  unfolding fai_masks by (auto simp: bit_simps)

lemma fai_num_split:
  fixes n :: u32 shows "push_bit 5 (drop_bit 5 n) OR (n AND 0x10) OR (n AND 0xF) = n"
proof (rule bit_word_eqI)
  fix k assume "k < LENGTH(32)"
  then show "bit (push_bit 5 (drop_bit 5 n) OR (n AND 0x10) OR (n AND 0xF)) k = bit n k"
    by (cases "5 \<le> k")
      (auto simp: bit_simps bit_0x10 bit_0xF simp del: bit_numeral_word_iff)
qed

lemma fai_num_parts:
  fixes d p :: u32 assumes "d < 100000000" "p < 16"
  shows "drop_bit 5 (push_bit 5 d OR 0x10 OR p) = d" 
        "(push_bit 5 d OR 0x10 OR p) AND 0x10 = 0x10"
        "(push_bit 5 d OR 0x10 OR p) AND 0xF = p"
proof -
  have d: "take_bit 27 d = d" and p: "take_bit 4 p = p"
    using assms by (auto intro!: take_bit_small simp: word_less_nat_alt)
  have db: "bit d k \<Longrightarrow> k < 27" for k using d by (metis bit_take_bit_iff)
  have pb: "bit p k \<Longrightarrow> k < 4" for k using p by (metis bit_take_bit_iff)
  show "drop_bit 5 (push_bit 5 d OR 0x10 OR p) = d"
    by (rule bit_word_eqI) (auto simp: bit_simps bit_0x10 bit_0xF simp del: bit_numeral_word_iff dest: pb db)
  show "(push_bit 5 d OR 0x10 OR p) AND 0x10 = 0x10"
    by (rule bit_word_eqI) (auto simp: bit_simps bit_0x10 bit_0xF simp del: bit_numeral_word_iff dest: pb db)
  show "(push_bit 5 d OR 0x10 OR p) AND 0xF = p"
    by (rule bit_word_eqI) (auto simp: bit_simps bit_0x10 bit_0xF simp del: bit_numeral_word_iff dest: pb db)
qed

lemma ucast_small:
  fixes x :: u32 assumes "x \<le> 12"
  shows "unat (ucast x :: u8) = unat x" "ucast (ucast x :: u8) = x"
proof -
  have "unat x < 256" using assms by (simp add: word_le_nat_alt)
  then show u: "unat (ucast x :: u8) = unat x" by (simp add: unsigned_ucast_eq take_bit_nat_eq_self)
  show "ucast (ucast x :: u8) = x" by (simp add: word_unat_eq_iff u)
qed

definition native_symbols :: "u32 set" where
  "native_symbols = {3200000003, 3200000035, 3200000070, 3200000102, 3200000134, 3200000166, 3200000198, 3200000230}"

lemma space_native: "space n = (if n \<in> native_symbols then legacy_space else fai_space)"
  by (auto simp: space_def native_symbols_def native_nums)

lemma validate_cases:
  assumes "validate_symbol n = Inr ()"
  obtains (native) "n \<in> native_symbols"
  | (fai) "n \<notin> native_symbols" "1 \<le> drop_bit 5 n" "drop_bit 5 n \<le> 99999999" "n AND 0x10 = 0x10" "n AND 0xF \<le> 12"
  using assms by (auto simp: validate_symbol_def native_nums native_symbols_def Let_def split: if_splits)

lemma damm_native:
  "damm_checksum_8digit 1 = Inr 3" "damm_checksum_8digit 2 = Inr 1" "damm_checksum_8digit 3 = Inr 7"
  "damm_checksum_8digit 4 = Inr 5" "damm_checksum_8digit 5 = Inr 9" "damm_checksum_8digit 6 = Inr 8"
  "damm_checksum_8digit 7 = Inr 6" "damm_checksum_8digit 8 = Inr 4"
  by (simp_all add: damm_checksum_8digit_def damm_nth)

lemma fai_roundtrip_native:
  assumes "n \<in> native_symbols" 
  shows "\<exists>f. to_fai n = Inr f \<and> asset_num_from_fai f (decimals n) = Inr n"
  using assms unfolding native_symbols_def
  by (auto simp: to_fai_def native_nums damm_native asset_num_from_fai_def decimals_def)

lemma fai_small_fits:
  fixes d :: u32 shows "d \<le> 99999999 \<longleftrightarrow> d < 100000000"
  by (simp add: word_less_nat_alt word_le_nat_alt) arith

lemma fai_roundtrip:
  assumes "validate_symbol n = Inr ()" and "space n = fai_space \<longrightarrow> drop_bit 5 n > 8"
  shows "\<exists>f. to_fai n = Inr f \<and> asset_num_from_fai f (decimals n) = Inr n"
  using assms(1)
proof (cases rule: validate_cases)
  case native
  then show ?thesis by (rule fai_roundtrip_native)
next
  case fai
  let ?d = "drop_bit 5 n"
  have d: "?d < 100000000" using fai fai_small_fits by blast
  obtain c where c: "damm_checksum_8digit ?d = Inr c" "unat c < 10" using damm_ok [OF d] by blast
  have gt: "?d > 8" using assms(2) fai(1) by (simp add: space_native)
  then have ne: "?d \<noteq> 1" "?d \<noteq> 2" "?d \<noteq> 3" "?d \<noteq> 4" "?d \<noteq> 5" "?d \<noteq> 6" "?d \<noteq> 7" "?d \<noteq> 8"
    by (auto simp: word_less_nat_alt)
  have dec: "decimals n \<le> 12" "ucast (decimals n) = n AND 0xF"
    using fai(5) ucast_small [of "n AND 0xF"] by (simp_all add: decimals_def word_le_nat_alt)
  have "to_fai n = Inr (?d * 10 + ucast c)"
    using fai(1) c by (simp add: to_fai_def native_nums native_symbols_def space_native)
  moreover have "asset_num_from_fai (?d * 10 + ucast c) (decimals n) = Inr n"
    using fai c d ne dec fai_num_split [of n]
    by (simp add: asset_num_from_fai_def fai_parts)
  ultimately show ?thesis by blast
qed

lemma bit_0x20: "bit (0x20::u32) k \<longleftrightarrow> k = 5"
proof -
  have "bit (push_bit 5 (1::u32)) k \<longleftrightarrow> k = 5"
    by (simp only: bit_push_bit_iff bit_1_iff) auto
  then show ?thesis by (simp add: push_bit_eq_mult del: bit_numeral_word_iff)
qed

lemma and_0x20: "(n::u32) AND 0x20 = 0 \<longleftrightarrow> \<not> bit n 5"
  using and_exp_eq_0_iff_not_bit [of n 5] by simp

lemma and_0x10: "(n::u32) AND 0x10 = 0x10 \<longleftrightarrow> bit n 4"
proof
  assume "n AND 0x10 = 0x10"
  then have "bit (n AND 0x10) 4 = bit (0x10::u32) 4" by (rule arg_cong)
  then show "bit n 4" by (simp only: bit_and_iff bit_0x10) simp
next
  assume "bit n 4"
  then show "n AND 0x10 = 0x10"
    by (intro bit_word_eqI) (auto simp: bit_and_iff bit_0x10 simp del: bit_numeral_word_iff)
qed

lemma digit_char_code [simp]: "n < 10 \<Longrightarrow> of_char (digit_char n) = (48 + n :: nat)"
  by (simp add: digit_char_def)

definition lexical_cast_law :: "(string \<Rightarrow> u32 option) \<Rightarrow> bool" where
  "lexical_cast_law lexical_cast \<longleftrightarrow>
     (\<forall>ds. ds \<noteq> [] \<and> (\<forall>d\<in>set ds. d < 10) \<and> dval ds < 2 ^ 32 \<longrightarrow>
        lexical_cast (map digit_char (rev ds)) = Some (of_nat (dval ds)))"

lemma to_fai_bound: assumes "to_fai n = Inr f" shows "unat f < 10 ^ 9"
proof -
  obtain d c where d: "damm_checksum_8digit d = Inr c" and f: "f = d * 10 + ucast c" 
    using assms by (auto simp: to_fai_def)
  have lt: "d < 100000000" using d by (auto simp: damm_checksum_8digit_def)
  then obtain c' where "damm_checksum_8digit d = Inr c'" "unat c' < 10" using damm_ok by blast
  with d have c: "unat c < 10" by simp
  have "unat f = unat d * 10 + unat c" using lt c f
    by (simp add: unat_word_ariths word_less_nat_alt)
  with lt c show ?thesis by (simp add: word_less_nat_alt)
qed

lemma list9: "length ds = 9 \<Longrightarrow> \<exists>a b c d e f g h i. ds = [a,b,c,d,e,f,g,h,i]"
  by (auto simp: length_Suc_conv numeral_eq_Suc)

lemma fai_string_inverse:
  assumes "lexical_cast_law lc" "to_fai n = Inr f"
  shows "\<exists>s. to_fai_string n = Inr s \<and> from_fai_string lc (Some s) p = asset_num_from_fai f p"
proof -
  have "unat f < 10 ^ 9" using assms(2) by (rule to_fai_bound)
  then obtain ds where ds: "length ds = 9" "\<forall>d\<in>set ds. d < 10" "dval ds = unat f"
    using digits_exist by blast
  obtain d0 d1 d2 d3 d4 d5 d6 d7 d8 where e: "ds = [d0,d1,d2,d3,d4,d5,d6,d7,d8]"
    using list9 [OF ds(1)] by blast
  have less: "d0 < 10" "d1 < 10" "d2 < 10" "d3 < 10" "d4 < 10" "d5 < 10" "d6 < 10" "d7 < 10" "d8 < 10"
    using ds(2) e by auto
  have f: "unat f = d0 + 10 * (d1 + 10 * (d2 + 10 * (d3 + 10 * (d4 + 10 * (d5 + 10 * (d6 + 10 * (d7 + 10 * d8)))))))"
    using ds(3) e by simp
  have s: "to_fai_string n = Inr (CHR ''@'' # CHR ''@'' # map digit_char (rev ds))"
    unfolding to_fai_string_def assms(2) rbind.simps Let_def f e
    using less by (simp only: dval_divmod) simp
  have "dval ds < 2 ^ 32" using ds(3) unsigned_less [of f] by simp
  then have "lc (map digit_char (rev ds)) = Some f"
  proof -
    assume "dval ds < 2 ^ 32"
    moreover have "ds \<noteq> []" using ds(1) by auto
    ultimately have "lc (map digit_char (rev ds)) = Some (of_nat (dval ds))"
      using assms(1) ds(2) unfolding lexical_cast_law_def by blast
    then show ?thesis by (simp add: ds(3))
  qed
  then have "from_fai_string lc (Some (CHR ''@'' # CHR ''@'' # map digit_char (rev ds))) p = asset_num_from_fai f p"
    using ds(1) by (simp add: from_fai_string_def)
  with s show ?thesis by blast
qed


lemma le_read32_bytes: "le_read32 (le_bytes32 x @ r) = ucast x"
proof (rule bit_word_eqI)
  fix k assume "k < LENGTH(64)"
  then consider "k < 8" | "8 \<le> k" "k < 16" | "16 \<le> k" "k < 24" | "24 \<le> k" "k < 32" | "32 \<le> k"
    by linarith
  then show "bit (le_read32 (le_bytes32 x @ r)) k = bit (ucast x :: u64) k"
    by cases (auto simp: le_read32_def le_bytes32_def bit_simps dest: bit_imp_le_length)
qed

lemma stream_read4_bytes [simp]: "stream_read4 (le_bytes32 x @ r) = Inr (ucast x, r)"
  by (simp add: stream_read4_def le_read32_bytes) (simp add: le_bytes32_def)

definition fc_pack_law :: "(u64 \<Rightarrow> u8 list) \<Rightarrow> (u32 \<Rightarrow> u8 list) \<Rightarrow> bool" where
  "fc_pack_law pack_u64 pack_u32 \<longleftrightarrow> (\<forall>x. pack_u64 x = le_bytes64 x) \<and> (\<forall>x. pack_u32 x = le_bytes32 x)"

subsection \<open>Properties\<close>

text \<open>C38: the check digit of a FAI detects every replacement of one of its eight data digits and
  every exchange of two different neighbouring digits. Digits are listed least significant first.\<close>

theorem damm_detects_errors:
  "(length (us @ a # vs) = 8 \<and> (\<forall>d\<in>set (us @ a # b # vs). d < 10) \<and> a \<noteq> b \<longrightarrow>
      damm_checksum_8digit (of_nat (dval (us @ a # vs)))
        \<noteq> damm_checksum_8digit (of_nat (dval (us @ b # vs)))) \<and>
   (length (us @ a # b # vs) = 8 \<and> (\<forall>d\<in>set (us @ a # b # vs). d < 10) \<and> a \<noteq> b \<longrightarrow>
      damm_checksum_8digit (of_nat (dval (us @ a # b # vs)))
        \<noteq> damm_checksum_8digit (of_nat (dval (us @ b # a # vs))))"
  using damm_single damm_transpose by blast

theorem damm_detects_errors_witness:
  "damm_checksum_8digit (of_nat (dval [1,2,3,4,5,6,7,8]))
     \<noteq> damm_checksum_8digit (of_nat (dval [1,2,9,4,5,6,7,8]))"
  using damm_detects_errors [of "[1,2]" 3 "[4,5,6,7,8]" 9] by simp

text \<open>A FAI that the code accepts denotes a valid symbol with the given number of decimals, and
  the symbol's own FAI is the one it was built from.\<close>

theorem from_fai_sound:
  assumes "asset_num_from_fai f p = Inr n"
  shows "validate_symbol n = Inr () \<and> decimals n = p \<and> to_fai n = Inr f"
proof -
  let ?d = "f div 10"
  from assms obtain c where d: "1 \<le> ?d" "?d \<le> 99999999"
    and c: "damm_checksum_8digit ?d = Inr c" and chk: "f mod 10 = ucast c"
    by (auto simp: asset_num_from_fai_def Let_def)
  have f: "f = ?d * 10 + ucast c" using chk by (metis div_mult_mod_eq)
  show ?thesis
  proof (cases "?d \<in> {1,2,3,4,5,6,7,8}")
    case True
    then show ?thesis using assms c f
      by (auto simp: asset_num_from_fai_def Let_def damm_native native_nums validate_symbol_def to_fai_def decimals_def)
  next
    case False
    then have p: "p \<le> 12" and n: "n = push_bit 5 ?d OR 0x10 OR ucast p"
      using assms c chk d by (auto simp: asset_num_from_fai_def)
    have dlt: "?d < 100000000" using d fai_small_fits by blast
    have plt: "ucast p < (16::u32)" and ple: "ucast p \<le> (12::u32)" using p by (auto simp: word_less_nat_alt word_le_nat_alt)
    note parts = fai_num_parts [OF dlt plt, folded n]
    have nn: "n \<notin> native_symbols"
    proof
      assume "n \<in> native_symbols"
      then have "n AND 0x10 = 0" by (auto simp: native_symbols_def)
      with parts show False by simp
    qed
    have "decimals n = p"
    proof -
      have "ucast (ucast p :: u32) = p" by (simp add: word_unat_eq_iff ucast_small(1) [OF ple])
      then show ?thesis using parts(3) by (simp add: decimals_def)
    qed
    moreover have "to_fai n = Inr f"
      using nn parts(1) c f by (simp add: to_fai_def native_symbols_def native_nums space_native)
    moreover have "validate_symbol n = Inr ()"
      using nn parts d ple by (simp add: validate_symbol_def native_symbols_def native_nums)
    ultimately show ?thesis by simp
  qed
qed

theorem from_fai_sound_witness:
  "validate_symbol 3200000035 = Inr () \<and> to_fai 3200000035 = Inr 21"
  using from_fai_sound [of 21 3 3200000035]
  by (simp add: asset_num_from_fai_def damm_native native_nums)

text \<open>C39: a symbol that passes validation and does not use one of the reserved FAI data digits 1 to 8
  is recovered from its printed FAI and its decimals.\<close>

theorem fai_string_roundtrip:
  assumes "lexical_cast_law lc" and "validate_symbol n = Inr ()"
    and "space n = fai_space \<longrightarrow> drop_bit 5 n > 8"
  shows "\<exists>s. to_fai_string n = Inr s \<and> from_fai_string lc (Some s) (decimals n) = Inr n"
  using fai_roundtrip [OF assms(2,3)] fai_string_inverse [OF assms(1)] by metis

definition lexical_cast_ref :: "string \<Rightarrow> u32 option" where
  "lexical_cast_ref s =
     (let ds = map (\<lambda>c. of_char c - 48) (rev s)
      in if s \<noteq> [] \<and> (\<forall>d\<in>set ds. d < 10) \<and> dval ds < 2 ^ 32 then Some (of_nat (dval ds)) else None)"

lemma lexical_cast_ref_law: "lexical_cast_law lexical_cast_ref"
proof -
  have "map (\<lambda>c. of_char c - 48) (map digit_char ds) = ds" if "\<forall>d\<in>set ds. d < 10" for ds :: "nat list"
    using that by (induction ds) auto
  then show ?thesis
    by (auto simp: lexical_cast_law_def lexical_cast_ref_def Let_def rev_map [symmetric])
qed

theorem fai_string_roundtrip_witness:
  "\<exists>s. to_fai_string 3200000070 = Inr s
     \<and> from_fai_string lexical_cast_ref (Some s) (decimals 3200000070) = Inr 3200000070"
  by (rule fai_string_roundtrip [OF lexical_cast_ref_law])
    (simp_all add: validate_symbol_def space_def native_nums)

text \<open>Validation accepts symbols whose FAI data digits are reserved for a native symbol: such a
  symbol prints the FAI of the native one, and reading that FAI back gives the native symbol.\<close>

theorem reserved_fai_alias:
  "validate_symbol 0x33 = Inr () \<and> to_fai 0x33 = to_fai TAIYI_ASSET_NUM_YIN
   \<and> asset_num_from_fai 13 (decimals 0x33) = Inr TAIYI_ASSET_NUM_YIN \<and> to_fai 0x33 = Inr 13
   \<and> TAIYI_ASSET_NUM_YIN \<noteq> 0x33"
  by (simp add: validate_symbol_def native_nums to_fai_def asset_num_from_fai_def decimals_def
      damm_native space_def)

text \<open>Pairing exchanges the liquid and the qi variant of YANG, QI and every valid FAI symbol:
  it is its own inverse and flips the qi flag.\<close>

theorem paired_symbol_involution:
  assumes "validate_symbol n = Inr ()" "n \<noteq> TAIYI_ASSET_NUM_YIN" 
   "n \<notin> {TAIYI_ASSET_NUM_GOLD, TAIYI_ASSET_NUM_FOOD, TAIYI_ASSET_NUM_WOOD, TAIYI_ASSET_NUM_FABRIC, TAIYI_ASSET_NUM_HERB}"
  shows "\<exists>m b. get_paired_symbol n = Inr m \<and> get_paired_symbol m = Inr n \<and> is_qi n = Inr b \<and> is_qi m = Inr (\<not> b)"
  using assms(1)
proof (cases rule: validate_cases)
  case native
  then show ?thesis using assms
    by (auto simp: native_symbols_def native_nums get_paired_symbol_def is_qi_def space_def)
next
  case fai
  have x: "(n XOR 0x20) AND 0x10 = 0x10" 
    using fai(4) and_0x10 [of n] and_0x10 [of "n XOR 0x20"] by (simp add: bit_xor_iff bit_0x20 del: bit_numeral_word_iff)
  then have nn: "n XOR 0x20 \<notin> native_symbols" by (auto simp: native_symbols_def)
  have "(n XOR 0x20) AND 0x20 \<noteq> 0 \<longleftrightarrow> \<not> (n AND 0x20 \<noteq> 0)"
    by (simp add: and_0x20 bit_xor_iff bit_0x20 del: bit_numeral_word_iff)
  then show ?thesis using fai(1) nn
    by (simp add: get_paired_symbol_def is_qi_def space_native xor.assoc)
qed

theorem paired_symbol_involution_witness:
  "\<exists>m b. get_paired_symbol 3200000035 = Inr m \<and> get_paired_symbol m = Inr 3200000035
     \<and> is_qi 3200000035 = Inr b \<and> is_qi m = Inr (\<not> b)"
  by (rule paired_symbol_involution) (simp_all add: validate_symbol_def native_nums)

text \<open>A valid symbol is recovered from its binary serialization, and what follows it in the
  stream is left to be read.\<close>

theorem symbol_pack_roundtrip:
  assumes "fc_pack_law p64 p32" "validate_symbol n = Inr ()"
  shows "\<exists>bs. pack_symbol p64 p32 n = Inr bs \<and> unpack_symbol (bs @ rest) = Inr (n, rest)"
  using assms(2)
proof (cases rule: validate_cases)
  case native
  then show ?thesis using assms
    by (auto simp: native_symbols_def native_nums pack_symbol_def space_def fc_pack_law_def symbol_sers le_bytes64_def
       unpack_symbol_def unpack_native_def push_bit_eq_mult)
next
  case fai
  have ne: "ucast n \<noteq> (c :: u64)" if "(ucast c :: u32) AND 0x10 = 0" for c
  proof
    assume "ucast n = c"
    then have "n = ucast c" using ucast_up_down [of n] by simp
    with that fai(4) show False by simp
  qed
  have "unpack_symbol (le_bytes32 n @ rest) = Inr (n, rest)"
    using assms(2) by (simp add: unpack_symbol_def symbol_sers ne)
  with fai(1) assms(1) show ?thesis
    by (simp add: pack_symbol_def space_native fc_pack_law_def)
qed

theorem symbol_pack_roundtrip_witness:
  "\<exists>bs. pack_symbol le_bytes64 le_bytes32 3200000102 = Inr bs
     \<and> unpack_symbol (bs @ [1, 2]) = Inr (3200000102, [1, 2])"
  by (rule symbol_pack_roundtrip) (simp_all add: fc_pack_law_def validate_symbol_def native_nums)

end
