(* ===== verification/Asset.thy ===== *)
theory Asset
  imports Complex_Main Asset_Symbol
begin

section \<open>Assets and prices\<close>

text \<open>
  Models \<open>libraries/protocol/asset.hpp\<close> and the \<open>asset\<close> and \<open>price\<close> part of \<open>asset.cpp\<close>: an
  amount of \<open>share_type\<close> with its symbol, arithmetic and comparison that refuse two different
  symbols, prices, their comparison by cross multiplication in 128 bits, and the conversion of an
  amount at a price. The arithmetic of \<open>share_type\<close> and \<open>uint128\<close> comes from the \<open>fc\<close> record.
\<close>

record asset =
  amount :: int
  symbol :: asset_symbol_type

definition mk_asset :: "int \<Rightarrow> asset_symbol_type \<Rightarrow> asset" where
  "mk_asset a s = \<lparr>amount = a, symbol = s\<rparr>"

definition TAIYI_MAX_SATOSHIS :: int where
  "TAIYI_MAX_SATOSHIS = 4611686018427387903"

abbreviation QI_SYMBOL :: asset_symbol_type where "QI_SYMBOL \<equiv> TAIYI_ASSET_NUM_QI"
abbreviation YANG_SYMBOL :: asset_symbol_type where "YANG_SYMBOL \<equiv> TAIYI_ASSET_NUM_YANG"

subsection \<open>Arithmetic and comparison\<close>

definition asset_add :: "fc_lib \<Rightarrow> asset \<Rightarrow> asset \<Rightarrow> asset res" where
  "asset_add F a b = rguard (symbol a = symbol b) (Assert ''a.symbol == b.symbol'')
     (rbind (s_add F (amount a) (amount b)) (\<lambda>x. Inr (mk_asset x (symbol a))))"

definition asset_sub :: "fc_lib \<Rightarrow> asset \<Rightarrow> asset \<Rightarrow> asset res" where
  "asset_sub F a b = rguard (symbol a = symbol b) (Assert ''a.symbol == b.symbol'')
     (rbind (s_sub F (amount a) (amount b)) (\<lambda>x. Inr (mk_asset x (symbol a))))"

definition asset_times :: "fc_lib \<Rightarrow> asset \<Rightarrow> asset \<Rightarrow> asset res" where
  "asset_times F a b = rguard (symbol a = symbol b) (Assert ''a.symbol == b.symbol'')
     (rbind (s_mul F (amount a) (amount b)) (\<lambda>x. Inr (mk_asset x (symbol a))))"

definition asset_neg :: "fc_lib \<Rightarrow> asset \<Rightarrow> asset res" where
  "asset_neg F a = rbind (s_neg F (amount a)) (\<lambda>x. Inr (mk_asset x (symbol a)))"

text \<open>\<open>operator==\<close> compares both members; every other comparison first requires equal symbols.\<close>

definition asset_eq :: "asset \<Rightarrow> asset \<Rightarrow> bool" where
  "asset_eq a b \<longleftrightarrow> symbol a = symbol b \<and> amount a = amount b"

datatype cmp_op = Eq | Ne | Lt | Le | Gt | Ge

fun cmp :: "cmp_op \<Rightarrow> 'a::linorder \<Rightarrow> 'a \<Rightarrow> bool" where
  "cmp Eq x y = (x = y)"
| "cmp Ne x y = (x \<noteq> y)"
| "cmp Lt x y = (x < y)"
| "cmp Le x y = (x \<le> y)"
| "cmp Gt x y = (x > y)"
| "cmp Ge x y = (x \<ge> y)"

definition asset_cmp :: "cmp_op \<Rightarrow> asset \<Rightarrow> asset \<Rightarrow> bool res" where
  "asset_cmp opr a b =
     (if opr = Eq then Inr (asset_eq a b)
      else rguard (symbol a = symbol b) (Assert ''a.symbol == b.symbol'')
             (Inr (cmp opr (amount a) (amount b))))"

definition validate_asset :: "asset \<Rightarrow> unit res" where
  "validate_asset a =
     rbind (validate_symbol (symbol a)) (\<lambda>_.
     rguard (amount a \<ge> 0) (Assert ''amount.value >= 0'')
     (rguard (amount a \<le> TAIYI_MAX_SATOSHIS) (Assert ''amount.value <= TAIYI_MAX_SATOSHIS'')
      (Inr ())))"

subsection \<open>Prices\<close>

record price =
  base :: asset
  quote :: asset

definition default_price :: price where
  "default_price = \<lparr>base = mk_asset 0 YANG_SYMBOL, quote = mk_asset 0 YANG_SYMBOL\<rparr>"

definition price_validate :: "price \<Rightarrow> unit res" where
  "price_validate p =
     rguard (amount (base p) > 0) (Assert ''base.amount > share_type(0)'')
     (rguard (amount (quote p) > 0) (Assert ''quote.amount > share_type(0)'')
      (rguard (symbol (base p) \<noteq> symbol (quote p)) (Assert ''base.symbol != quote.symbol'') (Inr ())))"

text \<open>The constructor validates its arguments.\<close>

definition mk_price :: "asset \<Rightarrow> asset \<Rightarrow> price res" where
  "mk_price b q = (let p = \<lparr>base = b, quote = q\<rparr> in rbind (price_validate p) (\<lambda>_. Inr p))"

definition price_of_assets :: "asset \<Rightarrow> asset \<Rightarrow> price res" where
  "price_of_assets b q =
     rguard (symbol b \<noteq> symbol q) (Assert ''base.symbol != quote.symbol'') (mk_price b q)"

definition price_flip :: "price \<Rightarrow> price res" where
  "price_flip p = mk_price (quote p) (base p)"

definition price_max :: "asset_symbol_type \<Rightarrow> asset_symbol_type \<Rightarrow> price res" where
  "price_max b q = price_of_assets (mk_asset TAIYI_MAX_SATOSHIS b) (mk_asset 1 q)"

definition price_min :: "asset_symbol_type \<Rightarrow> asset_symbol_type \<Rightarrow> price res" where
  "price_min b q = price_of_assets (mk_asset 1 b) (mk_asset TAIYI_MAX_SATOSHIS q)"

text \<open>
  The comparison macro: prices over different symbol pairs compare by their symbols, base first;
  over the same pair by the cross products.
\<close>

fun cmp_pair :: "cmp_op \<Rightarrow> u32 \<times> u32 \<Rightarrow> u32 \<times> u32 \<Rightarrow> bool" where
  "cmp_pair Eq x y = (x = y)"
| "cmp_pair Ne x y = (x \<noteq> y)"
| "cmp_pair Lt (a, b) (c, d) = (a < c \<or> (\<not> c < a \<and> b < d))"
| "cmp_pair Gt (a, b) (c, d) = (c < a \<or> (\<not> a < c \<and> d < b))"
| "cmp_pair Le (a, b) (c, d) = (\<not> (c < a \<or> (\<not> a < c \<and> d < b)))"
| "cmp_pair Ge (a, b) (c, d) = (\<not> (a < c \<or> (\<not> c < a \<and> b < d)))"

definition price_cmp :: "fc_lib \<Rightarrow> cmp_op \<Rightarrow> price \<Rightarrow> price \<Rightarrow> bool" where
  "price_cmp F opr a b =
     (let bq = (\<lambda>p. (symbol (base p), symbol (quote p)))
      in if bq a \<noteq> bq b then cmp_pair opr (bq a) (bq b)
         else
           let amult = u_mul F (u_of_int F (amount (quote b))) (u_of_int F (amount (base a)));
               bmult = u_mul F (u_of_int F (amount (quote a))) (u_of_int F (amount (base b)))
           in cmp opr amult bmult)"

definition price_is_null :: "fc_lib \<Rightarrow> price \<Rightarrow> bool" where
  "price_is_null F p = price_cmp F Eq p default_price"

subsection \<open>Conversion at a price\<close>

definition asset_at_price :: "fc_lib \<Rightarrow> asset \<Rightarrow> price \<Rightarrow> asset res" where
  "asset_at_price F a b =
     (let convert = (\<lambda>num den.
            rguard (amount den > 0) (Assert ''b.amount.value > 0'')
            (rbind (u_div F (u_mul F (u_of_int F (amount a)) (u_of_int F (amount num)))
                            (u_of_int F (amount den))) (\<lambda>result.
             rguard (u_hi result = 0) (Assert ''result.hi == 0'')
             (rbind (u_to_u64 F result) (\<lambda>r. Inr (mk_asset (i64_of_u64 r) (symbol num)))))))
      in if symbol a = symbol (base b) then convert (quote b) (base b)
         else if symbol a = symbol (quote b) then convert (base b) (quote b)
         else Inl (Assert ''invalid asset * price''))"

definition TAIYI_QI_SHARE_PRICE :: price where
  "TAIYI_QI_SHARE_PRICE =
     \<lparr>base = mk_asset 1000 YANG_SYMBOL, quote = mk_asset 1000000 QI_SYMBOL\<rparr>"

definition TAIYI_GOLD_QI_PRICE :: price where
  "TAIYI_GOLD_QI_PRICE =
     \<lparr>base = mk_asset 5000000 QI_SYMBOL, quote = mk_asset 1000000 TAIYI_ASSET_NUM_GOLD\<rparr>"

definition TAIYI_FOOD_QI_PRICE :: price where
  "TAIYI_FOOD_QI_PRICE =
     \<lparr>base = mk_asset 3000000 QI_SYMBOL, quote = mk_asset 1000000 TAIYI_ASSET_NUM_FOOD\<rparr>"

definition TAIYI_WOOD_QI_PRICE :: price where
  "TAIYI_WOOD_QI_PRICE =
     \<lparr>base = mk_asset 2000000 QI_SYMBOL, quote = mk_asset 1000000 TAIYI_ASSET_NUM_WOOD\<rparr>"

definition TAIYI_FABRIC_QI_PRICE :: price where
  "TAIYI_FABRIC_QI_PRICE =
     \<lparr>base = mk_asset 3000000 QI_SYMBOL, quote = mk_asset 1000000 TAIYI_ASSET_NUM_FABRIC\<rparr>"

definition TAIYI_HERB_QI_PRICE :: price where
  "TAIYI_HERB_QI_PRICE =
     \<lparr>base = mk_asset 4000000 QI_SYMBOL, quote = mk_asset 1000000 TAIYI_ASSET_NUM_HERB\<rparr>"

subsection \<open>Laws of the operations\<close>

lemma mk_asset_simps [simp]: "amount (mk_asset x s) = x" "symbol (mk_asset x s) = s"
  by (simp_all add: mk_asset_def)

lemma asset_eqI: "amount a = amount b \<Longrightarrow> symbol a = symbol b \<Longrightarrow> a = (b::asset)"
  by (cases a, cases b) simp

lemma asset_arith [simp]:
  "fc_laws F \<Longrightarrow> asset_add F a b = Inr c \<longleftrightarrow>
     symbol a = symbol b \<and> in_i64 (amount a + amount b) \<and> c = mk_asset (amount a + amount b) (symbol a)"
  "fc_laws F \<Longrightarrow> asset_sub F a b = Inr c \<longleftrightarrow>
     symbol a = symbol b \<and> in_i64 (amount a - amount b) \<and> c = mk_asset (amount a - amount b) (symbol a)"
  "fc_laws F \<Longrightarrow> asset_neg F a = Inr c \<longleftrightarrow>
     in_i64 (- amount a) \<and> c = mk_asset (- amount a) (symbol a)"
  by (auto simp: asset_add_def asset_sub_def asset_neg_def fc_simps)

lemma u128_uint: "0 \<le> x \<Longrightarrow> x < 2 ^ 128 \<Longrightarrow> uint (word_of_int x :: u128) = x"
  by (simp add: uint_word_of_int)

lemma u128_mul:
  assumes "0 \<le> x" "x < 2 ^ 63" "0 \<le> y" "y < 2 ^ 63"
  shows "uint ((word_of_int x :: u128) * word_of_int y) = x * y"
proof -
  have "x * y < 2 ^ 63 * 2 ^ 63" using assms by (intro mult_strict_mono) auto
  then have "x * y < 2 ^ 128" by simp
  moreover have "0 \<le> x * y" using assms by simp
  ultimately have "uint (word_of_int (x * y) :: u128) = x * y" by (intro u128_uint)
  then show ?thesis by (simp only: wi_hom_mult)
qed

lemma uint_drop_bit_128: "uint (drop_bit 64 (x::u128)) = uint x div 2 ^ 64"
  by (simp add: drop_bit_eq_div uint_div)

lemma u_hi_uint: "uint (u_hi x) = uint x div 2 ^ 64"
proof -
  have "uint x < 2 ^ 128" using unsigned_less [of x] by simp
  then have "uint x div 2 ^ 64 < 2 ^ 64" "0 \<le> uint x div 2 ^ 64"
    by (simp_all add: pos_imp_zdiv_nonneg_iff)
  then show ?thesis
    by (simp add: u_hi_def unsigned_ucast_eq take_bit_eq_mod uint_drop_bit_128)
qed

lemma u_hi_0_iff: "u_hi x = 0 \<longleftrightarrow> uint x < 2 ^ 64"
proof -
  have "u_hi x = 0 \<longleftrightarrow> uint x div 2 ^ 64 = 0"
    by (metis u_hi_uint uint_0_iff)
  also have "\<dots> \<longleftrightarrow> uint x < 2 ^ 64"
    using uint_lt_0 [of x] by (auto simp: zdiv_eq_0_iff not_less)
  finally show ?thesis .
qed

lemma u_lo_uint: "uint x < 2 ^ 64 \<Longrightarrow> uint (u_lo x) = uint x"
  by (simp add: u_lo_def unsigned_ucast_eq take_bit_int_eq_self)

lemma i64_of_u64_val: "i64_of_u64 w = (if uint w < 2 ^ 63 then uint w else uint w - 2 ^ 64)"
proof -
  have b: "uint w < 2 ^ 64" "0 \<le> uint w" using unsigned_less [of w] by simp_all
  have e: "i64_of_u64 w = (uint w + 2 ^ 63) mod 2 ^ 64 - 2 ^ 63"
    by (simp add: i64_of_u64_def sint_uint signed_take_bit_eq_take_bit_shift take_bit_eq_mod)
  show ?thesis
  proof (cases "uint w < 2 ^ 63")
    case True
    then show ?thesis using b e by simp
  next
    case False
    have "(uint w + 2 ^ 63) mod 2 ^ 64 = (uint w - 2 ^ 63 + 2 ^ 64) mod 2 ^ 64"
      by (simp add: add.commute)
    also have "\<dots> = (uint w - 2 ^ 63) mod 2 ^ 64" by (rule mod_add_self2)
    also have "\<dots> = uint w - 2 ^ 63" using False b by (intro mod_pos_pos_trivial) auto
    finally show ?thesis using False e by simp
  qed
qed

lemma asset_at_price_eval:
  assumes F: "fc_laws F" and a: "0 \<le> x" "x < 2 ^ 63"
    and n: "0 < num" "num < 2 ^ 63" and d: "0 < den" "den < 2 ^ 63"
  shows "rbind (u_div F (u_mul F (u_of_int F x) (u_of_int F num)) (u_of_int F den)) (\<lambda>result.
             rguard (u_hi result = 0) e
             (rbind (u_to_u64 F result) (\<lambda>r. Inr (mk_asset (i64_of_u64 r) s)))) =
      (let q = x * num div den in
        if q < 2 ^ 63 then Inr (mk_asset q s)
        else if q < 2 ^ 64 then Inr (mk_asset (q - 2 ^ 64) s) else Inl e)"
proof -
  let ?r = "(word_of_int x :: u128) * word_of_int num div word_of_int den"
  have uden: "uint (word_of_int den :: u128) = den" using d by (intro u128_uint) auto
  then have ne: "(word_of_int den :: u128) \<noteq> 0" using d by auto
  have r: "uint ?r = x * num div den"
    using u128_mul [of x num] a n by (simp add: uint_div uden)
  show ?thesis using F ne
    by (auto simp: Let_def fc_simps u_hi_0_iff r i64_of_u64_val u_lo_uint rguard_def not_less)
qed

lemma price_validate_iff [simp]:
  "price_validate p = Inr () \<longleftrightarrow>
     0 < amount (base p) \<and> 0 < amount (quote p) \<and> symbol (base p) \<noteq> symbol (quote p)"
  by (auto simp: price_validate_def)

definition price_in_range :: "price \<Rightarrow> bool" where
  "price_in_range p \<longleftrightarrow> price_validate p = Inr () \<and> in_i64 (amount (base p)) \<and> in_i64 (amount (quote p))"

text \<open>The value of a conversion, by the size of the exact quotient.\<close>

definition converted :: "int \<Rightarrow> asset_symbol_type \<Rightarrow> asset res" where
  "converted q s =
     (if q < 2 ^ 63 then Inr (mk_asset q s)
      else if q < 2 ^ 64 then Inr (mk_asset (q - 2 ^ 64) s)
      else Inl (Assert ''result.hi == 0''))"

lemma convert_from_base:
  assumes "fc_laws F" "0 \<le> amount a" "in_i64 (amount a)" "price_in_range p" "symbol a = symbol (base p)"
  shows "asset_at_price F a p =
    converted (amount a * amount (quote p) div amount (base p)) (symbol (quote p))"
  using assms
  by (auto simp: asset_at_price_def price_in_range_def in_i64_def converted_def asset_at_price_eval Let_def)

lemma convert_from_quote:
  assumes "fc_laws F" "0 \<le> amount a" "in_i64 (amount a)" "price_in_range p" "symbol a = symbol (quote p)"
  shows "asset_at_price F a p =
    converted (amount a * amount (base p) div amount (quote p)) (symbol (base p))"
  using assms
  by (auto simp: asset_at_price_def price_in_range_def in_i64_def converted_def asset_at_price_eval Let_def)

text \<open>C36: converting a non-negative amount at a valid price gives the quotient of the product by the other
  side, rounded down, in the symbol of the other side; when the quotient does not fit in 64 bits the
  conversion is refused, when it fits in 64 bits but not in 63 the amount wraps to a negative one,
  and an amount whose symbol is on neither side is refused.\<close>

theorem conversion_exact:
  assumes "fc_laws F" "0 \<le> amount a" "in_i64 (amount a)" "price_in_range p"
  shows "(symbol a = symbol (base p) \<longrightarrow> asset_at_price F a p =
            converted (amount a * amount (quote p) div amount (base p)) (symbol (quote p))) \<and>
         (symbol a = symbol (quote p) \<longrightarrow> asset_at_price F a p =
            converted (amount a * amount (base p) div amount (quote p)) (symbol (base p))) \<and>
         (symbol a \<noteq> symbol (base p) \<and> symbol a \<noteq> symbol (quote p) \<longrightarrow> \<not> is_ok (asset_at_price F a p))"
  using assms by (simp add: convert_from_base convert_from_quote) (simp add: asset_at_price_def)

lemma qi_share_price_simps [simp]:
  "amount (base TAIYI_QI_SHARE_PRICE) = 1000" "symbol (base TAIYI_QI_SHARE_PRICE) = YANG_SYMBOL"
  "amount (quote TAIYI_QI_SHARE_PRICE) = 1000000" "symbol (quote TAIYI_QI_SHARE_PRICE) = QI_SYMBOL"
  by (simp_all add: TAIYI_QI_SHARE_PRICE_def)

lemma yang_qi_neq [simp]: "YANG_SYMBOL \<noteq> QI_SYMBOL" "QI_SYMBOL \<noteq> YANG_SYMBOL"
  by (simp_all add: native_nums)

lemma qi_share_price_in_range [simp]: "price_in_range TAIYI_QI_SHARE_PRICE"
  by (simp add: price_in_range_def in_i64_def)

lemma conversion_exact_witness:
  "asset_at_price fc_ref (mk_asset (10 ^ 16) YANG_SYMBOL) TAIYI_QI_SHARE_PRICE =
     Inr (mk_asset (10 ^ 19 - 2 ^ 64) QI_SYMBOL)"
  using conversion_exact [of fc_ref "mk_asset (10 ^ 16) YANG_SYMBOL" TAIYI_QI_SHARE_PRICE]
  by (simp add: in_i64_def converted_def)

lemma yang_to_qi:
  assumes "fc_laws F" "0 \<le> x" "x * 1000 < 2 ^ 63"
  shows "asset_at_price F (mk_asset x YANG_SYMBOL) TAIYI_QI_SHARE_PRICE = Inr (mk_asset (1000 * x) QI_SYMBOL)"
proof -
  have "x * 1000000 div 1000 = 1000 * x" by simp
  moreover have "in_i64 x" using assms by (simp add: in_i64_def)
  ultimately show ?thesis
    using convert_from_base [of F "mk_asset x YANG_SYMBOL" TAIYI_QI_SHARE_PRICE] assms
    by (simp add: converted_def)
qed

lemma qi_to_yang:
  assumes "fc_laws F" "0 \<le> x" "x < 2 ^ 63"
  shows "asset_at_price F (mk_asset x QI_SYMBOL) TAIYI_QI_SHARE_PRICE = Inr (mk_asset (x div 1000) YANG_SYMBOL)"
proof -
  have "x * 1000 div 1000000 = x div 1000"
    using div_mult_mult2 [of 1000 x 1000] by simp
  moreover have "in_i64 x" "x div 1000 < 2 ^ 63" using assms by (auto simp: in_i64_def)
  ultimately show ?thesis
    using convert_from_quote [of F "mk_asset x QI_SYMBOL" TAIYI_QI_SHARE_PRICE] assms
    by (simp add: converted_def)
qed

definition price_ratio :: "price \<Rightarrow> rat" where
  "price_ratio p = of_int (amount (base p)) / of_int (amount (quote p))"

lemma word128_cmp: 
  assumes "0 \<le> x" "x < 2^128" "0 \<le> y" "y < 2 ^ 128" "uint (v::u128) = x" "uint w = y"
  shows "cmp opr v w = cmp opr x y"
  using assms by (cases opr) (auto simp: word_less_def word_le_def word_uint_eq_iff)

lemma cross_less:
  fixes a b c d :: int
  assumes "0 < b" "0 < d"
  shows "(of_int a / of_int b :: rat) < of_int c / of_int d \<longleftrightarrow> d * a < b * c"
proof -
  have pos: "0 < (of_int b :: rat)" "0 < (of_int d :: rat)" using assms by simp_all
  then have "(of_int a / of_int b :: rat) < of_int c / of_int d \<longleftrightarrow>
      (of_int a * of_int d :: rat) < of_int c * of_int b"
    by (simp add: divide_less_eq less_divide_eq mult.commute)
  also have "\<dots> \<longleftrightarrow> (of_int (a * d) :: rat) < of_int (c * b)" by simp
  also have "\<dots> \<longleftrightarrow> d * a < b * c" unfolding of_int_less_iff by (simp add: mult.commute)
  finally show ?thesis .
qed

lemma cmp_cong:
  assumes "x < y \<longleftrightarrow> u < v" "y < x \<longleftrightarrow> v < u"
  shows "cmp opr (x :: 'a::linorder) y = cmp opr (u :: 'b::linorder) v"
proof -
  have "x = y \<longleftrightarrow> u = v" using assms by (metis less_irrefl linorder_neqE)
  moreover have "x \<le> y \<longleftrightarrow> u \<le> v" using assms by (simp add: not_less [symmetric])
  moreover have "y \<le> x \<longleftrightarrow> v \<le> u" using assms by (simp add: not_less [symmetric])
  ultimately show ?thesis using assms by (cases opr) simp_all
qed

lemma cross_ratio:
  fixes a b c d :: int
  assumes "0 < b" "0 < d"
  shows "cmp opr (of_int a / of_int b :: rat) (of_int c / of_int d) = cmp opr (d * a) (b * c)"
  by (rule cmp_cong) (rule cross_less [OF assms], rule cross_less [OF assms(2,1)])

text \<open>C37: two valid prices over the same pair of symbols compare, under each of the six operators, as the
  exact rational numbers base amount by quote amount; the 128-bit cross products never wrap.\<close>

theorem price_cmp_sound:
  assumes "fc_laws F" "price_in_range p" "price_in_range q"
    and "symbol (base p) = symbol (base q)" "symbol (quote p) = symbol (quote q)"
  shows "price_cmp F opr p q = cmp opr (price_ratio p) (price_ratio q)"
proof -
  let ?a = "amount (base p)" and ?b = "amount (quote p)"
  let ?c = "amount (base q)" and ?d = "amount (quote q)"
  have r: "0 < ?a" "?a < 2 ^ 63" "0 < ?b" "?b < 2 ^ 63" "0 < ?c" "?c < 2 ^ 63" "0 < ?d" "?d < 2 ^ 63"
    using assms by (auto simp: price_in_range_def in_i64_def)
  have bnd: "0 \<le> x * y \<and> x * y < 2 ^ 128" if "0 < x" "x < 2 ^ 63" "0 < y" "y < (2::int) ^ 63" for x y
  proof -
    have "x * y < 2 ^ 63 * 2 ^ 63" using that by (intro mult_strict_mono) auto
    then have "x * y < 2 ^ 128" by simp
    then show ?thesis using that by simp
  qed
  have "price_cmp F opr p q = cmp opr ((word_of_int ?d :: u128) * word_of_int ?a) (word_of_int ?b * word_of_int ?c)"
    using assms by (simp add: price_cmp_def fc_simps)
  also have "\<dots> = cmp opr (?d * ?a) (?b * ?c)"
    using bnd [of ?d ?a] bnd [of ?b ?c] u128_mul [of ?d ?a] u128_mul [of ?b ?c] r
    by (intro word128_cmp) simp_all
  finally show ?thesis using cross_ratio [of ?b ?d opr ?a ?c] r by (simp add: price_ratio_def)
qed

lemma price_cmp_sound_witness:
  "price_cmp fc_ref Lt TAIYI_QI_SHARE_PRICE (TAIYI_QI_SHARE_PRICE\<lparr>base := mk_asset 2000 YANG_SYMBOL\<rparr>) =
   cmp Lt (price_ratio TAIYI_QI_SHARE_PRICE) (price_ratio (TAIYI_QI_SHARE_PRICE\<lparr>base := mk_asset 2000 YANG_SYMBOL\<rparr>))"
  by (rule price_cmp_sound)
    (simp_all add: price_in_range_def in_i64_def)

text \<open>At the fixed QI share price, YANG converted to QI and back gives the same amount, and QI converted
  to YANG and back loses exactly the remainder modulo 1000.\<close>

theorem qi_yang_roundtrip:
  assumes "fc_laws F" "0 \<le> x" "x * 1000 < 2 ^ 63"
  shows "rbind (asset_at_price F (mk_asset x YANG_SYMBOL) TAIYI_QI_SHARE_PRICE)
           (\<lambda>v. asset_at_price F v TAIYI_QI_SHARE_PRICE) = Inr (mk_asset x YANG_SYMBOL) \<and>
         rbind (asset_at_price F (mk_asset x QI_SYMBOL) TAIYI_QI_SHARE_PRICE)
           (\<lambda>v. asset_at_price F v TAIYI_QI_SHARE_PRICE) = Inr (mk_asset (x - x mod 1000) QI_SYMBOL)"
proof -
  have "x div 1000 * 1000 < 2 ^ 63" "0 \<le> x div 1000" "x < 2 ^ 63" using assms by auto
  moreover have "1000 * (x div 1000) = x - x mod 1000" by (simp add: minus_mod_eq_mult_div)
  ultimately show ?thesis
    using assms yang_to_qi [of F x] qi_to_yang [of F "1000 * x"] qi_to_yang [of F x] yang_to_qi [of F "x div 1000"]
    by simp
qed

lemma qi_yang_roundtrip_witness:
  "rbind (asset_at_price fc_ref (mk_asset 1234567 QI_SYMBOL) TAIYI_QI_SHARE_PRICE)
     (\<lambda>v. asset_at_price fc_ref v TAIYI_QI_SHARE_PRICE) = Inr (mk_asset 1234000 QI_SYMBOL)"
  using qi_yang_roundtrip [of fc_ref 1234567] by simp

end
