(* ===== verification/Table.thy ===== *)
theory Table
  imports Prelude
begin

section \<open>Tables keyed by object id\<close>

text \<open>
  The rows of a container in ascending order of the primary key, as the iteration over a
  \<open>by_id\<close> index or over an ordered map sees them. \<open>tput\<close> inserts or replaces, \<open>tdel\<close> removes;
  \<open>map_of\<close> is the abstraction to maps the proofs work with. The locale \<open>keyed_store\<close> states the
  contract of such a store; the tables interpret it.
\<close>

type_synonym ('k, 'v) tbl = "('k \<times> 'v) list"

text \<open>The key of most tables is the numeric object id.\<close>

type_synonym 'v table = "(nat, 'v) tbl"

definition ids :: "('k, 'v) tbl \<Rightarrow> 'k list" where
  "ids t = map fst t"

definition wf_table :: "('k::linorder, 'v) tbl \<Rightarrow> bool" where
  "wf_table t \<longleftrightarrow> sorted_wrt (<) (ids t)"

abbreviation (input) tget :: "('k, 'v) tbl \<Rightarrow> 'k \<Rightarrow> 'v option" where
  "tget t i \<equiv> map_of t i"

fun tput :: "'k::linorder \<Rightarrow> 'v \<Rightarrow> ('k, 'v) tbl \<Rightarrow> ('k, 'v) tbl" where
  "tput i v [] = [(i, v)]"
| "tput i v ((j, w) # t) =
     (if i < j then (i, v) # (j, w) # t
      else if i = j then (i, v) # t
      else (j, w) # tput i v t)"

definition tdel :: "'k \<Rightarrow> ('k, 'v) tbl \<Rightarrow> ('k, 'v) tbl" where
  "tdel i t = filter (\<lambda>(j, _). j \<noteq> i) t"

definition tputs :: "('k::linorder, 'v) tbl \<Rightarrow> ('k, 'v) tbl \<Rightarrow> ('k, 'v) tbl" where
  "tputs us t = fold (\<lambda>(i, v). tput i v) us t"

definition tdels :: "'k list \<Rightarrow> ('k, 'v) tbl \<Rightarrow> ('k, 'v) tbl" where
  "tdels is t = fold tdel is t"

named_theorems table_simps

lemma map_of_tput [simp]: "map_of (tput i v t) = (map_of t)(i \<mapsto> v)"
  by (induction i v t rule: tput.induct) (auto simp: fun_eq_iff)

lemma map_of_tdel [simp]: "map_of (tdel i t) = (map_of t)(i := None)"
  by (induction t) (auto simp: tdel_def fun_eq_iff)

lemma ids_simps [simp]: "ids [] = []" "ids ((i, v) # t) = i # ids t"
  by (simp_all add: ids_def)

lemma set_ids: "set (ids t) = dom (map_of t)"
  by (simp add: ids_def dom_map_of_conv_image_fst)

lemma wf_table_simps [simp]:
  "wf_table []" "wf_table ((i, v) # t) \<longleftrightarrow> (\<forall>j \<in> set (ids t). i < j) \<and> wf_table t"
  by (auto simp: wf_table_def)

lemma set_ids_tput [simp]: "set (ids (tput i v t)) = insert i (set (ids t))"
  by (simp add: set_ids)

lemma wf_tput [intro, simp]: "wf_table t \<Longrightarrow> wf_table (tput i v t)"
proof (induction i v t rule: tput.induct)
  case (2 i v j w t)
  have "\<forall>k \<in> set (ids t). j < k" "wf_table t" using "2.prems" by simp_all
  then show ?case using "2.IH" by (cases "i < j"; cases "i = j") (auto intro: less_trans)
qed simp

lemma wf_tdel [intro, simp]: "wf_table t \<Longrightarrow> wf_table (tdel i t)"
  by (induction t) (auto simp: tdel_def ids_def)

lemma wf_distinct: "wf_table t \<Longrightarrow> distinct (ids t)"
  by (induction t) auto

lemma wf_map_of_iff: "wf_table t \<Longrightarrow> map_of t i = Some v \<longleftrightarrow> (i, v) \<in> set t"
  using wf_distinct [of t] by (simp add: ids_def)

text \<open>A table is determined by its map.\<close>

lemma wf_table_ext:
  assumes "wf_table s" "wf_table t" "map_of s = map_of t"
  shows "s = t"
proof (rule map_sorted_distinct_set_unique)
  show st: "set s = set t"
    using map_of_inject_set [of s t] assms wf_distinct [of s] wf_distinct [of t] unfolding ids_def by blast
  show "inj_on fst (set s \<union> set t)"
    using wf_distinct [OF assms(1)] st unfolding ids_def distinct_map by simp
  show "sorted (map fst s)" "distinct (map fst s)" "sorted (map fst t)" "distinct (map fst t)"
    using assms(1,2) unfolding wf_table_def strict_sorted_iff ids_def by blast+
qed

lemma tputs_simps [simp]: "tputs [] t = t" "tputs ((i, v) # us) t = tputs us (tput i v t)"
  by (simp_all add: tputs_def)

lemma tdels_simps [simp]: "tdels [] t = t" "tdels (i # is) t = tdels is (tdel i t)"
  by (simp_all add: tdels_def)

lemma wf_tputs [intro, simp]: "wf_table t \<Longrightarrow> wf_table (tputs us t)"
proof (induction us arbitrary: t)
  case (Cons x us)
  then show ?case by (cases x) simp
qed simp

lemma wf_tdels [intro, simp]: "wf_table t \<Longrightarrow> wf_table (tdels is t)"
  by (induction "is" arbitrary: t) simp_all

lemma map_of_tputs [table_simps]: "wf_table us \<Longrightarrow> map_of (tputs us t) = map_of t ++ map_of us"
proof (induction us arbitrary: t)
  case (Cons x us)
  obtain i v where x: "x = (i, v)" by (cases x)
  have "i \<notin> dom (map_of us)" using Cons.prems x by (force simp: set_ids)
  then show ?case using Cons x
    by (auto simp: fun_eq_iff map_add_def domIff split: option.splits)
qed simp

lemma map_of_tdels [table_simps]: "map_of (tdels is t) = map_of t |` (- set is)"
  by (induction "is" arbitrary: t) (auto simp: fun_eq_iff restrict_map_def)

subsection \<open>The contract of a keyed store\<close>

locale keyed_store =
  fixes lookup :: "'s \<Rightarrow> 'k \<Rightarrow> 'v option"
    and put :: "'k \<Rightarrow> 'v \<Rightarrow> 's \<Rightarrow> 's"
    and del :: "'k \<Rightarrow> 's \<Rightarrow> 's"
  assumes lookup_put: "lookup (put k v s) = (lookup s)(k \<mapsto> v)"
    and lookup_del: "lookup (del k s) = (lookup s)(k := None)"
begin

text \<open>Facts a client needs: frames, overwriting, and the order of updates of different keys.\<close>

lemma lookup_put_same: "lookup (put k v s) k = Some v"
  by (simp add: lookup_put)

lemma lookup_put_other: "j \<noteq> k \<Longrightarrow> lookup (put k v s) j = lookup s j"
  by (simp add: lookup_put)

lemma put_put: "lookup (put k v (put k w s)) = lookup (put k v s)"
  by (simp add: lookup_put)

lemma put_commute: "j \<noteq> k \<Longrightarrow> lookup (put j v (put k w s)) = lookup (put k w (put j v s))"
  by (simp add: lookup_put fun_upd_twist)

lemma del_put: "lookup s k = None \<Longrightarrow> lookup (del k (put k v s)) = lookup s"
  by (auto simp: lookup_put lookup_del)

lemma put_del: "lookup s k = Some v \<Longrightarrow> lookup (put k v (del k s)) = lookup s"
  by (auto simp: lookup_put lookup_del)

end

interpretation tbl: keyed_store map_of tput tdel
  by unfold_locales simp_all

end
