(* ===== verification/Names.thy ===== *)
theory Names
  imports Prelude "HOL-Library.Char_ord" "HOL-Library.List_Lexorder"
begin

section \<open>Names: fixed strings and the RFC 1035 check\<close>

text \<open>
  \<open>fixed_string<N>\<close> (protocol/fixed_string.hpp) keeps up to N bytes in an integer, or in a
  lexicographically ordered pair of integers, whose big-endian bytes are the characters: here
  the word of 8 N bits, so that comparing the storage is comparing words. An account name is a
  \<open>fixed_string<16>\<close>. The second half is the RFC 1035 check of protocol/authority.cpp, proved
  equivalent to the grammar that authority.hpp states.
\<close>

subsection \<open>fixed string\<close>

type_synonym account_name_type = u128

definition fs_size_of :: "'a::len itself \<Rightarrow> nat" where
  "fs_size_of _ = LENGTH('a) div 8"

text \<open>\<open>memcpy\<close> into a zeroed buffer of \<open>n\<close> bytes, and the number its big-endian bytes denote.\<close>

definition fs_buffer :: "nat \<Rightarrow> string \<Rightarrow> string" where
  "fs_buffer n s = (if length s \<le> n then s @ replicate (n - length s) (CHR 0x00) else take n s)"

definition be_nat :: "string \<Rightarrow> nat" where
  "be_nat s = foldl (\<lambda>a c. a * 256 + of_char c) 0 s"

definition fs_of :: "string \<Rightarrow> 'a::len word" where
  "fs_of s = of_nat (be_nat (fs_buffer (fs_size_of TYPE('a)) s))"

definition fs_bytes :: "'a::len word \<Rightarrow> string" where
  "fs_bytes w = (let n = fs_size_of TYPE('a)
     in map (\<lambda>i. char_of (unat w div 256 ^ (n - 1 - i))) [0..<n])"

definition fs_string :: "'a::len word \<Rightarrow> string" where
  "fs_string w = takeWhile (\<lambda>c. c \<noteq> CHR 0x00) (fs_bytes w)"

definition fs_size :: "'a::len word \<Rightarrow> nat" where
  "fs_size w = length (takeWhile (\<lambda>c. c \<noteq> CHR 0x00) (fs_bytes w))"

definition fs_append_string :: "'a::len word \<Rightarrow> string \<Rightarrow> string" where
  "fs_append_string w s = fs_string w @ s"

definition string_append_fs :: "string \<Rightarrow> 'a::len word \<Rightarrow> string" where
  "string_append_fs s w = s @ fs_string w"

text \<open>
  The pair storage of the 24 and 32 byte strings and its order; \<open>word_cat\<close> is the single word
  that stands for the pair.
\<close>

definition erpair_less :: "'a::len word \<times> 'b::len word \<Rightarrow> 'a word \<times> 'b word \<Rightarrow> bool" where
  "erpair_less p q \<longleftrightarrow> fst p < fst q \<or> (\<not> fst q < fst p \<and> snd p < snd q)"

subsection \<open>Base 256\<close>

lemma be_nat_Nil [simp]: "be_nat [] = 0"
  by (simp add: be_nat_def)

lemma be_nat_snoc [simp]: "be_nat (s @ [c]) = be_nat s * 256 + of_char c"
  by (simp add: be_nat_def)

lemma of_char_less [simp]: "(of_char (c::char) :: nat) < 256"
  using of_char_mod_256 [of c, where 'a = nat] by (metis mod_less_divisor zero_less_numeral)

lemma be_nat_less: "be_nat s < 256 ^ length s"
proof (induction s rule: rev_induct)
  case (snoc c s)
  have "be_nat s * 256 + 256 \<le> 256 ^ length s * 256" using snoc by simp
  then show ?case using of_char_less [of c] by (simp del: of_char_less)
qed simp

lemma be_nat_append: "be_nat (s @ t) = be_nat s * 256 ^ length t + be_nat t"
proof (induction t rule: rev_induct)
  case (snoc c t)
  have "be_nat (s @ t @ [c]) = be_nat (s @ t) * 256 + of_char c"
    by (metis append_assoc be_nat_snoc)
  then show ?case using snoc by (simp add: algebra_simps)
qed simp

lemma be_nat_Cons: "be_nat (c # s) = of_char c * 256 ^ length s + be_nat s"
  using be_nat_append [of "[c]" s] by (simp add: be_nat_def)

lemma char_of_be_nat:
  assumes "i < length s"
  shows "char_of (be_nat s div 256 ^ (length s - 1 - i)) = s ! i"
proof -
  define k where "k = length s - 1 - i"
  have s: "s = (take i s @ [s ! i]) @ drop (Suc i) s" using assms by (simp add: id_take_nth_drop)
  have l: "length (drop (Suc i) s) = k" using assms by (simp add: k_def)
  have "be_nat s = be_nat (take i s @ [s ! i]) * 256 ^ k + be_nat (drop (Suc i) s)"
    unfolding l [symmetric] be_nat_append [symmetric] using s by simp
  moreover have "be_nat (drop (Suc i) s) < 256 ^ k"
    using be_nat_less [of "drop (Suc i) s"] unfolding l .
  ultimately have d: "be_nat s div 256 ^ k = be_nat (take i s) * 256 + of_char (s ! i)"
    by simp
  have "char_of (be_nat (take i s) * 256 + of_char (s ! i) :: nat) = s ! i"
    by (simp add: char_of_eq_iff take_bit_eq_mod)
  then show ?thesis unfolding k_def [symmetric] d .
qed

lemma length_fs_buffer [simp]: "length (fs_buffer n s) = n"
  by (auto simp: fs_buffer_def)

definition byte_sized :: "'a::len itself \<Rightarrow> bool" where
  "byte_sized _ \<longleftrightarrow> LENGTH('a) = 8 * (LENGTH('a) div 8)"

lemma unat_fs_of:
  assumes "byte_sized TYPE('a::len)"
  shows "unat (fs_of s :: 'a word) = be_nat (fs_buffer (fs_size_of TYPE('a)) s)"
proof -
  have "be_nat (fs_buffer (fs_size_of TYPE('a)) s) < 256 ^ fs_size_of TYPE('a)"
    by (metis be_nat_less length_fs_buffer)
  also have "(256::nat) ^ fs_size_of TYPE('a) = 2 ^ LENGTH('a)"
  proof -
    have "(2::nat) ^ LENGTH('a) = 2 ^ (8 * (LENGTH('a) div 8))" using assms by (simp add: byte_sized_def)
    also have "\<dots> = (2 ^ 8) ^ (LENGTH('a) div 8)" by (rule power_mult)
    finally show ?thesis by (simp add: fs_size_of_def)
  qed
  finally show ?thesis by (simp add: fs_of_def unat_of_nat take_bit_nat_eq_self)
qed

subsection \<open>Round trip and order\<close>

lemma fs_bytes_of:
  assumes "byte_sized TYPE('a::len)"
  shows "fs_bytes (fs_of s :: 'a word) = fs_buffer (fs_size_of TYPE('a)) s"
  using char_of_be_nat [of _ "fs_buffer (fs_size_of TYPE('a)) s"]
  by (intro nth_equalityI) (simp_all add: fs_bytes_def unat_fs_of [OF assms] Let_def del: One_nat_def)

lemma takeWhile_buffer:
  "takeWhile (\<lambda>c. c \<noteq> CHR 0x00) (fs_buffer n s) = takeWhile (\<lambda>c. c \<noteq> CHR 0x00) (take n s)"
proof (cases "length s \<le> n")
  case True
  have "takeWhile (\<lambda>c. c \<noteq> CHR 0x00) (s @ replicate k (CHR 0x00)) = takeWhile (\<lambda>c. c \<noteq> CHR 0x00) s" for k
    by (induction s) (auto simp: takeWhile_eq_Nil_iff)
  then show ?thesis using True by (simp add: fs_buffer_def)
qed (simp add: fs_buffer_def)

lemma fs_string_of:
  "byte_sized TYPE('a::len) \<Longrightarrow>
    fs_string (fs_of s :: 'a word) = takeWhile (\<lambda>c. c \<noteq> CHR 0x00) (take (fs_size_of TYPE('a)) s)"
  by (simp add: fs_string_def fs_bytes_of takeWhile_buffer)

lemma digits_less:
  assumes "x < B" "y < (B::nat)"
  shows "a * B + x < b * B + y \<longleftrightarrow> a < b \<or> (a = b \<and> x < y)"
proof (cases a b rule: linorder_cases)
  case less
  then have "a * B + B \<le> b * B" by (metis Suc_leI mult_Suc mult_le_mono1 add.commute)
  then show ?thesis using less assms by simp
next
  case greater
  then have "b * B + B \<le> a * B" by (metis Suc_leI mult_Suc mult_le_mono1 add.commute)
  then show ?thesis using greater assms by simp
qed (use assms in simp)

lemma buffer_Suc:
  "fs_buffer (Suc n) [] = CHR 0x00 # fs_buffer n []"
  "fs_buffer (Suc n) (c # s) = c # fs_buffer n s"
  by (simp_all add: fs_buffer_def)

definition nul_free :: "string \<Rightarrow> bool" where
  "nul_free s \<longleftrightarrow> CHR 0x00 \<notin> set s"

lemma of_char_pos: "CHR 0x00 \<noteq> c \<Longrightarrow> 0 < (of_char c :: nat)"
proof (rule ccontr)
  assume "CHR 0x00 \<noteq> c" and "\<not> 0 < (of_char c :: nat)"
  then have "(of_char c :: nat) = of_char (CHR 0x00)" by simp
  then show False using \<open>CHR 0x00 \<noteq> c\<close> by (simp only: of_char_eq_iff)
qed

lemma be_nat_buffer_less:
  assumes "length s \<le> n" "length t \<le> n" "nul_free s" "nul_free t"
  shows "be_nat (fs_buffer n s) < be_nat (fs_buffer n t) \<longleftrightarrow> s < t"
  using assms
proof (induction n arbitrary: s t)
  case 0
  then show ?case by simp
next
  case (Suc n)
  have b: "be_nat (fs_buffer n u) < 256 ^ n" for u
    by (metis be_nat_less length_fs_buffer)
  note cmp = digits_less [OF b b]
  show ?case
  proof (cases s; cases t)
    assume "s = []" "t = []"
    then show ?thesis by simp
  next
    fix d t' assume t: "s = []" "t = d # t'"
    have "0 < (of_char d :: nat)" by (rule of_char_pos) (use t Suc.prems in \<open>simp add: nul_free_def\<close>)
    then have "0 * 256 ^ n + be_nat (fs_buffer n []) < of_char d * 256 ^ n + be_nat (fs_buffer n t')"
      unfolding cmp by linarith
    then show ?thesis using t by (simp add: buffer_Suc be_nat_Cons)
  next
    fix c s' assume s: "s = c # s'" "t = []"
    have "0 < (of_char c :: nat)" by (rule of_char_pos) (use s Suc.prems in \<open>simp add: nul_free_def\<close>)
    then have "\<not> of_char c * 256 ^ n + be_nat (fs_buffer n s') < 0 * 256 ^ n + be_nat (fs_buffer n [])"
      unfolding cmp by linarith
    then show ?thesis using s by (simp add: buffer_Suc be_nat_Cons)
  next
    fix c s' d t' assume st: "s = c # s'" "t = d # t'"
    have "be_nat (fs_buffer n s') < be_nat (fs_buffer n t') \<longleftrightarrow> s' < t'"
      using st Suc.prems by (intro Suc.IH) (simp_all add: nul_free_def)
    then show ?thesis using st cmp by (simp add: buffer_Suc be_nat_Cons less_char_def)
  qed
qed

lemma fs_order:
  assumes "byte_sized TYPE('a::len)" "length s \<le> fs_size_of TYPE('a)" "length t \<le> fs_size_of TYPE('a)"
    "nul_free s" "nul_free t"
  shows "(fs_of s :: 'a word) < fs_of t \<longleftrightarrow> s < t"
  using be_nat_buffer_less [OF assms(2-5)] by (simp add: word_less_nat_alt unat_fs_of assms(1))

lemma fs_roundtrip:
  assumes "byte_sized TYPE('a::len)" "length s \<le> fs_size_of TYPE('a)" "nul_free s"
  shows "fs_string (fs_of s :: 'a word) = s"
proof -
  have "\<forall>c\<in>set s. c \<noteq> CHR 0x00" using assms(3) unfolding nul_free_def by metis
  then have "takeWhile (\<lambda>c. c \<noteq> CHR 0x00) s = s" by (simp add: takeWhile_eq_all_conv)
  then show ?thesis using assms by (simp add: fs_string_of)
qed

subsection \<open>The RFC 1035 check\<close>

definition letters :: string where
  "letters = ''abcdefghijklmnopqrstuvwxyzABCDEFGHIJKLMNOPQRSTUVWXYZ''"

definition digits :: string where
  "digits = ''0123456789''"

definition is_letter :: "char \<Rightarrow> bool" where
  "is_letter c \<longleftrightarrow> c \<in> set letters"

definition is_let_dig :: "char \<Rightarrow> bool" where
  "is_let_dig c \<longleftrightarrow> c \<in> set letters \<or> c \<in> set digits"

definition is_let_dig_hyp :: "char \<Rightarrow> bool" where
  "is_let_dig_hyp c \<longleftrightarrow> c \<in> set letters \<or> c \<in> set digits \<or> c = CHR ''-''"

text \<open>\<open>str.find_first_of('.', begin)\<close>, the length of the string when there is none.\<close>

definition find_dot :: "string \<Rightarrow> nat \<Rightarrow> nat" where
  "find_dot str b = b + length (takeWhile (\<lambda>c. c \<noteq> CHR ''.'') (drop b str))"

lemma find_dot_bounds: "find_dot str b - b = length (takeWhile (\<lambda>c. c \<noteq> CHR ''.'') (drop b str))"
  "b \<le> length str \<Longrightarrow> find_dot str b \<le> length str" "b \<le> find_dot str b"
  using length_takeWhile_le [of "\<lambda>c. c \<noteq> CHR ''.''" "drop b str"] by (auto simp: find_dot_def)

function rfc_loop :: "string \<Rightarrow> nat \<Rightarrow> bool" where
  "rfc_loop str b =
     (let e = find_dot str b in
      if e - b < 3 then False
      else if \<not> is_letter (str ! b) then False
      else if \<not> is_let_dig (str ! (e - 1)) then False
      else if \<not> list_all (\<lambda>i. is_let_dig_hyp (str ! i)) [b + 1..<e - 1] then False
      else if e = length str then True
      else rfc_loop str (e + 1))"
  by pat_completeness auto

termination
proof (relation "measure (\<lambda>(str, b). Suc (length str) - b)")
  fix str b e
  assume "e = find_dot str b" "\<not> e - b < 3"
  moreover from this have "b < length str" by (cases "length str \<le> b") (simp_all add: find_dot_def)
  ultimately show "((str, e + 1), str, b) \<in> measure (\<lambda>(str, b). Suc (length str) - b)"
    using find_dot_bounds [where b = b and str = str] by simp
qed simp

declare rfc_loop.simps [simp del]

definition is_valid_RFC_1035 :: "string \<Rightarrow> bool" where
  "is_valid_RFC_1035 str = rfc_loop str 0"

definition TAIYI_MIN_ACCOUNT_NAME_LENGTH :: nat where "TAIYI_MIN_ACCOUNT_NAME_LENGTH = 3"
definition TAIYI_MAX_ACCOUNT_NAME_LENGTH :: nat where "TAIYI_MAX_ACCOUNT_NAME_LENGTH = 16"
definition TAIYI_MIN_CONTRACT_NAME_LENGTH :: nat where "TAIYI_MIN_CONTRACT_NAME_LENGTH = 9"
definition TAIYI_MAX_CONTRACT_NAME_LENGTH :: nat where "TAIYI_MAX_CONTRACT_NAME_LENGTH = 128"
definition TAIYI_MIN_NFA_SYMBOL_LENGTH :: nat where "TAIYI_MIN_NFA_SYMBOL_LENGTH = 4"
definition TAIYI_MAX_NFA_SYMBOL_LENGTH :: nat where "TAIYI_MAX_NFA_SYMBOL_LENGTH = 128"

definition is_valid_account_name :: "string \<Rightarrow> bool" where
  "is_valid_account_name name =
     (if length name < TAIYI_MIN_ACCOUNT_NAME_LENGTH then False
      else if length name > TAIYI_MAX_ACCOUNT_NAME_LENGTH then False
      else is_valid_RFC_1035 name)"

definition is_valid_contract_name :: "string \<Rightarrow> bool" where
  "is_valid_contract_name name =
     (if length name < TAIYI_MIN_CONTRACT_NAME_LENGTH then False
      else if length name > TAIYI_MAX_CONTRACT_NAME_LENGTH then False
      else is_valid_RFC_1035 name)"

definition is_valid_nfa_symbol :: "string \<Rightarrow> bool" where
  "is_valid_nfa_symbol name =
     (if length name < TAIYI_MIN_NFA_SYMBOL_LENGTH then False
      else if length name > TAIYI_MAX_NFA_SYMBOL_LENGTH then False
      else is_valid_RFC_1035 name)"

subsection \<open>The grammar\<close>

text \<open>
  The grammar of the header: a domain is a dot separated sequence of labels, a label a letter,
  one or more letters, digits and hyphens, and a letter or digit.
\<close>

inductive label :: "string \<Rightarrow> bool" where
  label: "is_letter a \<Longrightarrow> m \<noteq> [] \<Longrightarrow> list_all is_let_dig_hyp m \<Longrightarrow> is_let_dig z \<Longrightarrow> label (a # m @ [z])"

inductive domain :: "string \<Rightarrow> bool" where
  one: "label l \<Longrightarrow> domain l"
| more: "label l \<Longrightarrow> domain d \<Longrightarrow> domain (l @ CHR ''.'' # d)"

lemma ldh_no_dot: "is_let_dig_hyp c \<Longrightarrow> c \<noteq> CHR ''.''"
  by (auto simp: is_let_dig_hyp_def letters_def digits_def)

lemma class_incl: "is_letter c \<Longrightarrow> is_let_dig_hyp c" "is_let_dig c \<Longrightarrow> is_let_dig_hyp c"
  by (auto simp: is_let_dig_hyp_def is_let_dig_def is_letter_def)

lemma label_no_dot: "label l \<Longrightarrow> c \<in> set l \<Longrightarrow> c \<noteq> CHR ''.''"
  by (erule label.cases) (auto simp: list_all_iff dest: class_incl ldh_no_dot)

lemma label_takeWhile:
  assumes "label l"
  shows "takeWhile (\<lambda>c. c \<noteq> CHR ''.'') l = l"
    "takeWhile (\<lambda>c. c \<noteq> CHR ''.'') (l @ CHR ''.'' # d) = l"
    "dropWhile (\<lambda>c. c \<noteq> CHR ''.'') l = []"
    "dropWhile (\<lambda>c. c \<noteq> CHR ''.'') (l @ CHR ''.'' # d) = CHR ''.'' # d"
  using label_no_dot [OF assms] by (simp_all add: takeWhile_eq_all_conv dropWhile_eq_Nil_conv)

lemma domain_split:
  "domain u \<longleftrightarrow> label (takeWhile (\<lambda>c. c \<noteq> CHR ''.'') u) \<and>
     (dropWhile (\<lambda>c. c \<noteq> CHR ''.'') u = [] \<or> domain (tl (dropWhile (\<lambda>c. c \<noteq> CHR ''.'') u)))"
  (is "_ \<longleftrightarrow> label ?l \<and> (?r = [] \<or> domain (tl ?r))")
proof
  assume "domain u"
  then show "label ?l \<and> (?r = [] \<or> domain (tl ?r))"
    by cases (simp_all add: label_takeWhile del: takeWhile_append dropWhile_append)
next
  assume a: "label ?l \<and> (?r = [] \<or> domain (tl ?r))"
  show "domain u"
  proof (cases ?r)
    case Nil
    then have "u = ?l" by (metis append_Nil2 takeWhile_dropWhile_id)
    then show ?thesis using a domain.one by metis
  next
    case (Cons c d)
    then have "c = CHR ''.''" using hd_dropWhile [of "\<lambda>c. c \<noteq> CHR ''.''" u] by auto
    then have "u = ?l @ CHR ''.'' # d" by (metis Cons takeWhile_dropWhile_id)
    then show ?thesis using a Cons domain.more by (metis list.sel(3) list.distinct(1))
  qed
qed

lemma label_nth:
  "label l \<longleftrightarrow> 3 \<le> length l \<and> is_letter (l ! 0) \<and> is_let_dig (l ! (length l - 1)) \<and>
     (\<forall>i. 1 \<le> i \<and> i < length l - 1 \<longrightarrow> is_let_dig_hyp (l ! i))"
proof
  assume "label l"
  then show "3 \<le> length l \<and> is_letter (l ! 0) \<and> is_let_dig (l ! (length l - 1)) \<and>
     (\<forall>i. 1 \<le> i \<and> i < length l - 1 \<longrightarrow> is_let_dig_hyp (l ! i))"
  proof cases
    case (label a m z)
    then show ?thesis
      by (auto simp: nth_append nth_Cons' list_all_length Suc_le_eq)
  qed
next
  assume a: "3 \<le> length l \<and> is_letter (l ! 0) \<and> is_let_dig (l ! (length l - 1)) \<and>
     (\<forall>i. 1 \<le> i \<and> i < length l - 1 \<longrightarrow> is_let_dig_hyp (l ! i))"
  define m where "m = butlast (tl l)"
  have l: "l = hd l # m @ [last l]"
    using a by (cases l) (auto simp: m_def)
  have "m \<noteq> []" using a l by (metis append_Nil length_Cons list.size(3) not_less_eq_eq numeral_3_eq_3 zero_le)
  moreover have "list_all is_let_dig_hyp m"
  proof (simp only: list_all_length, intro allI impI)
    fix n assume n: "n < length m"
    have "l ! Suc n = m ! n" by (subst l) (simp add: nth_append n)
    moreover have "length l = length m + 2" by (subst l) simp
    ultimately show "is_let_dig_hyp (m ! n)" using a n by (metis Suc_diff_1 Suc_less_eq add_2_eq_Suc' le_add1 plus_1_eq_Suc diff_Suc_1)
  qed
  moreover have "hd l = l ! 0" "last l = l ! (length l - 1)"
    using a by (simp_all add: hd_conv_nth last_conv_nth flip: length_greater_0_conv)
  ultimately show "label l" using label.label [of "hd l" m "last l"] a l by simp
qed

lemma rfc_loop_domain:
  "b \<le> length str \<Longrightarrow> rfc_loop str b \<longleftrightarrow> domain (drop b str)"
proof (induction str b rule: rfc_loop.induct)
  case (1 str b)
  define u where "u = drop b str"
  define l where "l = takeWhile (\<lambda>c. c \<noteq> CHR ''.'') u"
  define r where "r = dropWhile (\<lambda>c. c \<noteq> CHR ''.'') u"
  define e where "e = find_dot str b"
  have e: "e = b + length l" by (simp add: e_def l_def u_def find_dot_def)
  have u: "u = l @ r" by (simp add: l_def r_def)
  have len: "length str = b + length l + length r"
    using 1(2) arg_cong [OF u, of length] by (simp add: u_def)
  have nth: "str ! (b + i) = l ! i" if "i < length l" for i
  proof -
    have "str ! (b + i) = u ! i" using 1(2) by (simp add: u_def)
    then show ?thesis using that by (simp add: u nth_append)
  qed
  have last: "e \<noteq> length str \<longleftrightarrow> r \<noteq> []" by (simp add: e len)
  have rest: "drop (e + 1) str = tl r"
  proof -
    have "drop (e + 1) str = drop (length l + 1) u" by (simp add: e u_def add.commute add.left_commute)
    then show ?thesis by (simp add: u drop_Suc)
  qed
  have lab: "label l \<longleftrightarrow> \<not> e - b < 3 \<and> is_letter (str ! b) \<and> is_let_dig (str ! (e - 1)) \<and>
      list_all (\<lambda>i. is_let_dig_hyp (str ! i)) [b + 1..<e - 1]"
  proof (cases "3 \<le> length l")
    case True
    have p: "str ! b = l ! 0" using nth [of 0] True by (cases l) simp_all
    have q: "str ! (e - 1) = l ! (length l - 1)" using nth [of "length l - 1"] True by (simp add: e)
    have "list_all (\<lambda>i. is_let_dig_hyp (str ! i)) [b + 1..<e - 1] \<longleftrightarrow>
        (\<forall>i. 1 \<le> i \<and> i < length l - 1 \<longrightarrow> is_let_dig_hyp (l ! i))"
    proof -
      have "(\<forall>j. b + 1 \<le> j \<and> j < e - 1 \<longrightarrow> is_let_dig_hyp (str ! j)) \<longleftrightarrow>
          (\<forall>i. 1 \<le> i \<and> i < length l - 1 \<longrightarrow> is_let_dig_hyp (str ! (b + i)))"
        (is "?A \<longleftrightarrow> ?B")
      proof
        assume ?A
        then show ?B using True by (auto simp: e)
      next
        assume B: ?B
        show ?A
        proof (intro allI impI)
          fix j assume j: "b + 1 \<le> j \<and> j < e - 1"
          define i where "i = j - b"
          have "j = b + i" "1 \<le> i \<and> i < length l - 1" using j True by (auto simp: i_def e)
          then show "is_let_dig_hyp (str ! j)" using B by blast
        qed
      qed
      then show ?thesis using nth by (auto simp: list_all_iff Ball_def)
    qed
    then show ?thesis using p q True by (simp add: label_nth e)
  qed (simp add: label_nth e)
  have ih: "rfc_loop str (e + 1) \<longleftrightarrow> domain (tl r)" if "label l" "r \<noteq> []"
  proof -
    have "rfc_loop str (e + 1) \<longleftrightarrow> domain (drop (e + 1) str)"
      using that lab last len by (intro 1(1)) (simp_all add: e_def [symmetric] e Suc_le_eq)
    then show ?thesis using rest by simp
  qed
  have "rfc_loop str b \<longleftrightarrow> label l \<and> (e = length str \<or> rfc_loop str (e + 1))"
    unfolding lab rfc_loop.simps [of str b] Let_def e_def [symmetric] by simp
  also have "\<dots> \<longleftrightarrow> label l \<and> (r = [] \<or> domain (tl r))" using ih last by auto
  also have "\<dots> \<longleftrightarrow> domain u" unfolding domain_split [of u] l_def r_def ..
  finally show ?case by (simp add: u_def)
qed

lemma rfc_1035_grammar: "is_valid_RFC_1035 s \<longleftrightarrow> domain s"
  by (simp add: is_valid_RFC_1035_def rfc_loop_domain)

lemmas name_lengths =
  TAIYI_MIN_ACCOUNT_NAME_LENGTH_def TAIYI_MAX_ACCOUNT_NAME_LENGTH_def
  TAIYI_MIN_CONTRACT_NAME_LENGTH_def TAIYI_MAX_CONTRACT_NAME_LENGTH_def
  TAIYI_MIN_NFA_SYMBOL_LENGTH_def TAIYI_MAX_NFA_SYMBOL_LENGTH_def

lemma domain_chars: "domain s \<Longrightarrow> c \<in> set s \<Longrightarrow> is_let_dig_hyp c \<or> c = CHR ''.''"
  by (induction s rule: domain.induct) (auto elim!: label.cases simp: list_all_iff dest: class_incl)

lemma domain_nul_free: "domain s \<Longrightarrow> nul_free s"
  using domain_chars [of s "CHR 0x00"]
  by (auto simp: nul_free_def is_let_dig_hyp_def letters_def digits_def)

text \<open>C40: the index loops of the name checks accept exactly the dot separated sequences of labels
  of the grammar, with the lengths of each kind of name, and an accepted account name is kept
  whole by the fixed string it is stored in.
\<close>

theorem valid_names_grammar:
  "(is_valid_account_name s \<longleftrightarrow> domain s \<and> 3 \<le> length s \<and> length s \<le> 16 \<and>
      fs_string (fs_of s :: account_name_type) = s) \<and>
   (is_valid_contract_name s \<longleftrightarrow> domain s \<and> 9 \<le> length s \<and> length s \<le> 128) \<and>
   (is_valid_nfa_symbol s \<longleftrightarrow> domain s \<and> 4 \<le> length s \<and> length s \<le> 128)"
proof -
  have "fs_string (fs_of s :: u128) = s" if "domain s" "length s \<le> 16"
    using that by (intro fs_roundtrip domain_nul_free)
      (simp_all add: byte_sized_def fs_size_of_def)
  then show ?thesis
    by (auto simp: is_valid_account_name_def is_valid_contract_name_def is_valid_nfa_symbol_def
        name_lengths rfc_1035_grammar)
qed

text \<open>A name of at most 16 characters without NUL is read back as it was stored, and the order
  of stored names, a comparison of 128-bit integers, is the lexicographic order of their strings;
  a longer string is cut at 16 characters or at its first NUL.
\<close>

theorem fixed_string_order:
  assumes "length s \<le> 16" "length t \<le> 16" "nul_free s" "nul_free t"
  shows "fs_string (fs_of s :: account_name_type) = s \<and>
    ((fs_of s :: account_name_type) < fs_of t \<longleftrightarrow> s < t) \<and>
    ((fs_of s :: account_name_type) = fs_of t \<longleftrightarrow> s = t) \<and>
    fs_string (fs_of x :: account_name_type) = takeWhile (\<lambda>c. c \<noteq> CHR 0x00) (take 16 x)"
proof -
  have b: "byte_sized TYPE(128)" "fs_size_of TYPE(128) = 16"
    by (simp_all add: byte_sized_def fs_size_of_def)
  have r: "fs_string (fs_of s :: u128) = s" "fs_string (fs_of t :: u128) = t"
    using assms b by (simp_all add: fs_roundtrip)
  then have "(fs_of s :: u128) = fs_of t \<longleftrightarrow> s = t" by metis
  then show ?thesis using r fs_order [where 'a = 128, of s t] assms b
    by (simp add: fs_string_of)
qed

lemma fixed_string_order_witness:
  "(fs_of ''alice'' :: account_name_type) < fs_of ''bob'' \<and>
   fs_string (fs_of ''abcdefghijklmnopqrs'' :: account_name_type) = ''abcdefghijklmnop''"
  using fixed_string_order [of "''alice''" "''bob''" "''abcdefghijklmnopqrs''"]
  by (simp add: nul_free_def)

text \<open>The pair storage of the longer strings is ordered as the concatenated word.\<close>

lemma erpair_less_word_cat:
  "LENGTH('c) = LENGTH('a) + LENGTH('b) \<Longrightarrow>
   erpair_less (a :: 'a::len word, b :: 'b::len word) (c, d) \<longleftrightarrow>
     (word_cat a b :: 'c::len word) < word_cat c d"
proof -
  assume L: "LENGTH('c) = LENGTH('a) + LENGTH('b)"
  have v: "unat (word_cat x y :: 'c word) = unat x * 2 ^ LENGTH('b) + unat y"
    for x :: "'a word" and y :: "'b word"
  proof -
    have "uint x * 2 ^ LENGTH('b) + uint y < 2 ^ LENGTH('c)"
    proof -
      have "uint x < 2 ^ LENGTH('a)" "uint y < 2 ^ LENGTH('b)" by (rule uint_bounded)+
      then have "uint x + 1 \<le> 2 ^ LENGTH('a)" "uint y < 2 ^ LENGTH('b)" by linarith+
      then have "(uint x + 1) * 2 ^ LENGTH('b) \<le> 2 ^ LENGTH('a) * 2 ^ LENGTH('b)" by (intro mult_right_mono) simp_all
      then have "uint x * 2 ^ LENGTH('b) + 2 ^ LENGTH('b) \<le> 2 ^ LENGTH('c)"
        by (simp only: L power_add distrib_right mult_1)
      with \<open>uint y < 2 ^ LENGTH('b)\<close> show ?thesis by linarith
    qed
    moreover have "uint (word_cat x y :: 'c word) = take_bit LENGTH('c) (uint x * 2 ^ LENGTH('b) + uint y)"
    proof -
      have "(word_cat x y :: 'c word) = word_of_int (uint x * 2 ^ LENGTH('b) + uint y)"
  by (simp only: word_cat_eq push_bit_eq_mult ucast_eq of_int_add of_int_mult of_int_power of_int_numeral)
      then show ?thesis by (simp only: uint_word_of_int_eq)
    qed
    ultimately have "uint (word_cat x y :: 'c word) = uint x * 2 ^ LENGTH('b) + uint y"
      by (simp add: take_bit_int_eq_self)
    then show ?thesis by (intro of_nat_eq_iff [where 'a = int, THEN iffD1]) simp
  qed
  have "unat y < 2 ^ LENGTH('b)" for y :: "'b word" by (rule unsigned_less)
  then have "unat a * 2 ^ LENGTH('b) + unat b < unat c * 2 ^ LENGTH('b) + unat d \<longleftrightarrow>
      unat a < unat c \<or> (unat a = unat c \<and> unat b < unat d)"
    by (intro digits_less)
  then show ?thesis unfolding erpair_less_def word_less_nat_alt v by auto
qed

end
