(* ===== verification/Authority.thy ===== *)
theory Authority
  imports Table Names
begin

section \<open>Authorities and the check of signatures\<close>

text \<open>
  Authorities (protocol/authority.cpp), their copies in chain state (chain/shared_authority.cpp),
  the signature check \<open>sign_state\<close> (protocol/sign_state.cpp), \<open>verify_authority\<close>
  (protocol/transaction_util.hpp) and the signature functions of a transaction
  (protocol/transaction.cpp). A public key is an opaque number, its order the one of the
  \<open>flat_map\<close> it is a key of; recovering a key from a signature is a call into fc and a
  parameter. The account maps are tables in the order of the account names.
\<close>

type_synonym public_key_type = nat
type_synonym weight_type = u16

record authority =
  weight_threshold :: u32
  account_auths :: "(account_name_type, weight_type) tbl"
  key_auths :: "(public_key_type, weight_type) tbl"

definition add_key_authority :: "public_key_type \<Rightarrow> weight_type \<Rightarrow> authority \<Rightarrow> authority" where
  "add_key_authority k w a = a\<lparr>key_auths := tput k w (key_auths a)\<rparr>"

definition add_account_authority :: "account_name_type \<Rightarrow> weight_type \<Rightarrow> authority \<Rightarrow> authority" where
  "add_account_authority n w a = a\<lparr>account_auths := tput n w (account_auths a)\<rparr>"

definition get_keys :: "authority \<Rightarrow> public_key_type list" where
  "get_keys a = map fst (key_auths a)"

text \<open>The sum of the weights is kept in 64 bits.\<close>

definition add_weights :: "('k, weight_type) tbl \<Rightarrow> u64 \<Rightarrow> u64" where
  "add_weights t s = fold (\<lambda>(k, w) acc. acc + ucast w) t s"

definition is_impossible :: "authority \<Rightarrow> bool" where
  "is_impossible a =
     (add_weights (key_auths a) (add_weights (account_auths a) 0) < ucast (weight_threshold a))"

definition num_auths :: "authority \<Rightarrow> u32" where
  "num_auths a = of_nat (length (account_auths a) + length (key_auths a))"

definition clear_auths :: "authority \<Rightarrow> authority" where
  "clear_auths a = a\<lparr>account_auths := [], key_auths := []\<rparr>"

definition validate_authority :: "authority \<Rightarrow> unit res" where
  "validate_authority a = rfold (\<lambda>(n, w) _.
     rguard (is_valid_account_name (fs_string n)) (Assert ''is_valid_account_name'') (Inr ()))
     (account_auths a) ()"

definition authority_eq :: "authority \<Rightarrow> authority \<Rightarrow> bool" where
  "authority_eq a b \<longleftrightarrow> weight_threshold a = weight_threshold b \<and>
     account_auths a = account_auths b \<and> key_auths a = key_auths b"

definition TAIYI_MAX_AUTHORITY_MEMBERSHIP :: nat where
  "TAIYI_MAX_AUTHORITY_MEMBERSHIP = 40"

definition validate_auth_size :: "authority \<Rightarrow> unit res" where
  "validate_auth_size a = rguard (length (account_auths a) + length (key_auths a) \<le> TAIYI_MAX_AUTHORITY_MEMBERSHIP)
     (Assert ''Authority membership exceeded'') (Inr ())"

definition add_authority_accounts :: "account_name_type list \<Rightarrow> authority \<Rightarrow> account_name_type list" where
  "add_authority_accounts result a = fold (\<lambda>(n, w). insort_insert n) (account_auths a) result"

subsection \<open>Authorities in chain state\<close>

record shared_authority =
  sh_weight_threshold :: u32
  sh_account_auths :: "(account_name_type, weight_type) tbl"
  sh_key_auths :: "(public_key_type, weight_type) tbl"

text \<open>\<open>insert\<close> into a \<open>flat_map\<close> does not replace the value of a key that is present.\<close>

definition flat_insert :: "'k::linorder \<times> 'v \<Rightarrow> ('k, 'v) tbl \<Rightarrow> ('k, 'v) tbl" where
  "flat_insert x t = (if map_of t (fst x) = None then tput (fst x) (snd x) t else t)"

definition authority_of_shared :: "shared_authority \<Rightarrow> authority" where
  "authority_of_shared s =
     \<lparr>weight_threshold = sh_weight_threshold s,
      account_auths = fold flat_insert (sh_account_auths s) [],
      key_auths = fold flat_insert (sh_key_auths s) []\<rparr>"

definition sh_clear :: "shared_authority \<Rightarrow> shared_authority" where
  "sh_clear s = s\<lparr>sh_account_auths := [], sh_key_auths := []\<rparr>"

definition sh_assign :: "authority \<Rightarrow> shared_authority \<Rightarrow> shared_authority" where
  "sh_assign a s = (let s = sh_clear s in
     s\<lparr>sh_account_auths := fold flat_insert (account_auths a) (sh_account_auths s),
       sh_key_auths := fold flat_insert (key_auths a) (sh_key_auths s),
       sh_weight_threshold := weight_threshold a\<rparr>)"

definition sh_add_key :: "public_key_type \<Rightarrow> weight_type \<Rightarrow> shared_authority \<Rightarrow> shared_authority" where
  "sh_add_key k w s = s\<lparr>sh_key_auths := tput k w (sh_key_auths s)\<rparr>"

definition sh_add_account :: "account_name_type \<Rightarrow> weight_type \<Rightarrow> shared_authority \<Rightarrow> shared_authority" where
  "sh_add_account n w s = s\<lparr>sh_account_auths := tput n w (sh_account_auths s)\<rparr>"

definition sh_get_keys :: "shared_authority \<Rightarrow> public_key_type list" where
  "sh_get_keys s = map fst (sh_key_auths s)"

definition sh_is_impossible :: "shared_authority \<Rightarrow> bool" where
  "sh_is_impossible s =
     (add_weights (sh_key_auths s) (add_weights (sh_account_auths s) 0) < ucast (sh_weight_threshold s))"

definition sh_num_auths :: "shared_authority \<Rightarrow> u32" where
  "sh_num_auths s = of_nat (length (sh_account_auths s) + length (sh_key_auths s))"

definition sh_validate :: "shared_authority \<Rightarrow> unit res" where
  "sh_validate s = rfold (\<lambda>(n, w) _.
     rguard (is_valid_account_name (fs_string n)) (Assert ''is_valid_account_name'') (Inr ()))
     (sh_account_auths s) ()"

definition sh_eq :: "shared_authority \<Rightarrow> shared_authority \<Rightarrow> bool" where
  "sh_eq a b \<longleftrightarrow> sh_weight_threshold a = sh_weight_threshold b \<and>
     sh_account_auths a = sh_account_auths b \<and> sh_key_auths a = sh_key_auths b"

definition authority_eq_shared :: "authority \<Rightarrow> shared_authority \<Rightarrow> bool" where
  "authority_eq_shared a s = authority_eq a (authority_of_shared s)"

text \<open>Inserting the rows of a sorted table one by one into an empty one gives the table back.\<close>

lemma fold_flat_insert_append:
  "wf_table (t @ u) \<Longrightarrow> fold flat_insert u t = t @ (u :: ('k::linorder, 'v) tbl)"
proof (induction u arbitrary: t)
  case (Cons x u)
  obtain k v where x: "x = (k, v)" by (cases x)
  have less: "\<forall>j \<in> set (ids t). j < k" using Cons.prems x by (simp add: wf_table_def ids_def sorted_wrt_append)
  then have "k \<notin> set (ids t)" by auto
  then have none: "map_of t k = None" by (simp add: set_ids domIff)
  have "tput k v t = t @ [(k, v)]"
    using less by (induction t) (auto simp: ids_def)
  then have "flat_insert x t = t @ [x]" using none x by (simp add: flat_insert_def)
  moreover have "wf_table ((t @ [x]) @ u)" using Cons.prems by simp
  ultimately show ?case using Cons.IH [of "t @ [x]"] by simp
qed simp

lemma fold_flat_insert [simp]: "wf_table t \<Longrightarrow> fold flat_insert t [] = t"
  using fold_flat_insert_append [of "[]" t] by simp

definition wf_authority :: "authority \<Rightarrow> bool" where
  "wf_authority a \<longleftrightarrow> wf_table (account_auths a) \<and> wf_table (key_auths a)"

definition wf_shared :: "shared_authority \<Rightarrow> bool" where
  "wf_shared s \<longleftrightarrow> wf_table (sh_account_auths s) \<and> wf_table (sh_key_auths s)"

text \<open>The authority kept in chain state is a faithful copy: reading back what was assigned
  gives the authority, whatever was stored before, and every operation of the copy agrees with
  the operation of the authority it stands for.\<close>

theorem shared_authority_refines:
  assumes "wf_shared s" "wf_authority a" "wf_authority b"
  shows "authority_of_shared (sh_assign a s) = a \<and>
    authority_of_shared (sh_add_key k w s) = add_key_authority k w (authority_of_shared s) \<and>
    authority_of_shared (sh_add_account n w s) = add_account_authority n w (authority_of_shared s) \<and>
    authority_of_shared (sh_clear s) = clear_auths (authority_of_shared s) \<and>
    sh_get_keys s = get_keys (authority_of_shared s) \<and>
    sh_is_impossible s = is_impossible (authority_of_shared s) \<and>
    sh_num_auths s = num_auths (authority_of_shared s) \<and>
    sh_validate s = validate_authority (authority_of_shared s) \<and>
    authority_eq_shared a (sh_assign b s) = (a = b)"
proof -
  have wf: "wf_table (sh_account_auths s)" "wf_table (sh_key_auths s)"
    "wf_table (account_auths a)" "wf_table (key_auths a)"
    using assms by (simp_all add: wf_shared_def wf_authority_def)
  have assign: "authority_of_shared (sh_assign c s) = c" if "wf_authority c" for c
    using that by (simp add: authority_of_shared_def sh_assign_def sh_clear_def wf_authority_def)
  have s: "authority_of_shared s =
      \<lparr>weight_threshold = sh_weight_threshold s, account_auths = sh_account_auths s, key_auths = sh_key_auths s\<rparr>"
    using wf by (simp add: authority_of_shared_def)
  have eq: "authority_eq x y \<longleftrightarrow> x = y" for x y
    by (cases x; cases y) (simp add: authority_eq_def)
  show ?thesis
    unfolding authority_eq_shared_def assign [OF assms(2)] assign [OF assms(3)] eq using wf
    by (simp add: s)
      (simp add: authority_of_shared_def sh_add_key_def sh_add_account_def sh_clear_def clear_auths_def
        add_key_authority_def add_account_authority_def sh_get_keys_def get_keys_def sh_is_impossible_def
        is_impossible_def sh_num_auths_def num_auths_def sh_validate_def validate_authority_def)
qed

definition sample_authority :: authority where
  "sample_authority = \<lparr>weight_threshold = 2, account_auths = [(5, 1), (9, 1)], key_auths = [(1, 1)]\<rparr>"

definition sample_shared :: shared_authority where
  "sample_shared = \<lparr>sh_weight_threshold = 1, sh_account_auths = [(7, 1)], sh_key_auths = []\<rparr>"

lemma shared_authority_refines_witness:
  "authority_of_shared (sh_assign sample_authority sample_shared) = sample_authority \<and>
   sh_is_impossible sample_shared = is_impossible (authority_of_shared sample_shared)"
  using shared_authority_refines [of sample_shared sample_authority sample_authority]
  by (simp add: wf_shared_def wf_authority_def sample_authority_def sample_shared_def)

subsection \<open>sign state\<close>

type_synonym authority_getter = "account_name_type \<Rightarrow> authority res"

definition TAIYI_MAX_SIG_CHECK_DEPTH :: u32 where "TAIYI_MAX_SIG_CHECK_DEPTH = 2"
definition TAIYI_MAX_SIG_CHECK_ACCOUNTS :: u32 where "TAIYI_MAX_SIG_CHECK_ACCOUNTS = 125"

definition TAIYI_TEMP_ACCOUNT :: account_name_type where
  "TAIYI_TEMP_ACCOUNT = fs_of ''temp''"

record sign_state =
  get_active :: authority_getter
  available_keys :: "public_key_type list"
  provided_signatures :: "(public_key_type, bool) tbl"
  approved_by :: "account_name_type list"
  max_recursion :: u32
  max_membership :: u32
  max_account_auths :: u32

definition new_sign_state :: "public_key_type list \<Rightarrow> authority_getter \<Rightarrow> public_key_type list \<Rightarrow> sign_state" where
  "new_sign_state sigs get keys =
     \<lparr>get_active = get, available_keys = keys,
      provided_signatures = fold (\<lambda>k. tput k False) sigs [],
      approved_by = [TAIYI_TEMP_ACCOUNT],
      max_recursion = TAIYI_MAX_SIG_CHECK_DEPTH, max_membership = - 1, max_account_auths = - 1\<rparr>"

definition signed_by :: "public_key_type \<Rightarrow> sign_state \<Rightarrow> bool \<times> sign_state" where
  "signed_by k s =
     (case map_of (provided_signatures s) k of
        None \<Rightarrow>
          (if k \<in> set (available_keys s)
           then (True, s\<lparr>provided_signatures := tput k True (provided_signatures s)\<rparr>)
           else (False, s))
      | Some _ \<Rightarrow> (True, s\<lparr>provided_signatures := tput k True (provided_signatures s)\<rparr>))"

text \<open>The loop over the keys: an early return or the weight and membership counted so far.\<close>

fun keys_loop :: "u32 \<Rightarrow> (public_key_type \<times> weight_type) list \<Rightarrow> u32 \<Rightarrow> u64 \<Rightarrow> sign_state \<Rightarrow>
    (bool option \<times> u32 \<times> u64) \<times> sign_state" where
  "keys_loop thr [] tot memb s = ((None, tot, memb), s)"
| "keys_loop thr ((k, w) # ks) tot memb s =
     (let (signed, s) = signed_by k s;
          tot = (if signed then tot + ucast w else tot)
      in if signed \<and> tot \<ge> thr then ((Some True, tot, memb), s)
         else let memb = memb + 1
              in if max_membership s > 0 \<and> memb \<ge> ucast (max_membership s) then ((Some False, tot, memb), s)
                 else keys_loop thr ks tot memb s)"

text \<open>
  One turn of the loop over the accounts. The recursive call is \<open>None\<close> when \<open>depth\<close> has
  reached \<open>max_recursion\<close>.
\<close>

datatype visit = Skip | Return bool | Counted u32

type_synonym auth_check = "authority \<Rightarrow> u32 \<Rightarrow> sign_state \<Rightarrow> (bool \<times> u32 \<times> sign_state) res"

definition count_weight :: "u32 \<Rightarrow> u32 \<Rightarrow> weight_type \<Rightarrow> visit" where
  "count_weight thr tot w = (let tot = tot + ucast w in if tot \<ge> thr then Return True else Counted tot)"

definition visit_account ::
  "auth_check option \<Rightarrow> u32 \<Rightarrow> account_name_type \<Rightarrow> weight_type \<Rightarrow> u32 \<Rightarrow> u32 \<Rightarrow> sign_state \<Rightarrow>
     (visit \<times> u32 \<times> sign_state) res" where
  "visit_account check thr a w tot cnt s =
     (if a \<notin> set (approved_by s) then
        (case check of
           None \<Rightarrow> Inr (Skip, cnt, s)
         | Some f \<Rightarrow>
             if max_account_auths s > 0 \<and> cnt \<ge> max_account_auths s then Inr (Return False, cnt, s)
             else rbind (get_active s a) (\<lambda>auth.
                  rbind (f auth (cnt + 1) s) (\<lambda>(b, cnt, s).
                    if b then Inr (count_weight thr tot w, cnt, s\<lparr>approved_by := List.insert a (approved_by s)\<rparr>)
                    else Inr (Counted tot, cnt, s))))
      else Inr (count_weight thr tot w, cnt, s))"

fun accounts_loop ::
  "auth_check option \<Rightarrow> u32 \<Rightarrow> (account_name_type \<times> weight_type) list \<Rightarrow> u32 \<Rightarrow> u64 \<Rightarrow> u32 \<Rightarrow> sign_state \<Rightarrow>
     (bool \<times> u32 \<times> sign_state) res" where
  "accounts_loop check thr [] tot memb cnt s = Inr (tot \<ge> thr, cnt, s)"
| "accounts_loop check thr ((a, w) # as) tot memb cnt s =
     rbind (visit_account check thr a w tot cnt s) (\<lambda>(v, cnt, s).
       case v of
         Skip \<Rightarrow> accounts_loop check thr as tot memb cnt s
       | Return b \<Rightarrow> Inr (b, cnt, s)
       | Counted tot \<Rightarrow>
           (let memb = memb + 1
            in if max_membership s > 0 \<and> memb \<ge> ucast (max_membership s) then Inr (False, cnt, s)
               else accounts_loop check thr as tot memb cnt s))"

definition check_body :: "auth_check option \<Rightarrow> auth_check" where
  "check_body check auth cnt s =
     (case keys_loop (weight_threshold auth) (key_auths auth) 0 0 s of
        ((Some b, _), s) \<Rightarrow> Inr (b, cnt, s)
      | ((None, tot, memb), s) \<Rightarrow>
          accounts_loop check (weight_threshold auth) (account_auths auth) tot memb cnt s)"

text \<open>\<open>check_authority_impl\<close>; the argument is \<open>max_recursion - depth\<close>.\<close>

primrec check_authority_impl :: "nat \<Rightarrow> auth_check" where
  "check_authority_impl 0 = check_body None"
| "check_authority_impl (Suc n) = check_body (Some (check_authority_impl n))"

definition check_authority :: "authority \<Rightarrow> sign_state \<Rightarrow> (bool \<times> sign_state) res" where
  "check_authority auth s =
     rbind (check_authority_impl (unat (max_recursion s)) auth 0 s) (\<lambda>(b, cnt, s). Inr (b, s))"

definition check_authority_of :: "account_name_type \<Rightarrow> sign_state \<Rightarrow> (bool \<times> sign_state) res" where
  "check_authority_of name s =
     (if name \<in> set (approved_by s) then Inr (True, s)
      else rbind (get_active s name) (\<lambda>auth.
           rbind (check_authority_impl (unat (max_recursion s)) auth 1 s) (\<lambda>(b, cnt, s). Inr (b, s))))"

definition remove_unused_signatures :: "sign_state \<Rightarrow> bool \<times> sign_state" where
  "remove_unused_signatures s =
     (let remove_sigs = map fst (filter (\<lambda>(k, used). \<not> used) (provided_signatures s))
      in (remove_sigs \<noteq> [], s\<lparr>provided_signatures := tdels remove_sigs (provided_signatures s)\<rparr>))"

subsection \<open>What an approval means\<close>

definition weight_of :: "('k \<Rightarrow> bool) \<Rightarrow> ('k \<times> weight_type) list \<Rightarrow> nat" where
  "weight_of P t = sum_list (map (\<lambda>(k, w). if P k then unat w else 0) t)"

lemma weight_of_simps [simp]:
  "weight_of P [] = 0" "weight_of P ((k, w) # t) = (if P k then unat w else 0) + weight_of P t"
  by (simp_all add: weight_of_def)

lemma weight_of_mono: "(\<And>k. P k \<Longrightarrow> Q k) \<Longrightarrow> weight_of P t \<le> weight_of Q t"
  by (induction t) (auto intro: add_mono trans_le_add2)

text \<open>
  An authority is \<open>authorised\<close> when keys that can sign and accounts that are approved outright or
  whose own authority is authorised reach its threshold: the least such relation, of any depth.
  \<open>authorised_in n\<close> is the part of it that needs at most \<open>n\<close> levels of accounts.
\<close>

inductive authorised :: "(public_key_type \<Rightarrow> bool) \<Rightarrow> account_name_type set \<Rightarrow> authority_getter \<Rightarrow> authority \<Rightarrow> bool"
  for K A get where
  reach: "\<forall>a \<in> S. a \<in> A \<or> (\<exists>x. get a = Inr x \<and> authorised K A get x) \<Longrightarrow>
    unat (weight_threshold auth) \<le> weight_of K (key_auths auth) + weight_of (\<lambda>a. a \<in> S) (account_auths auth) \<Longrightarrow>
    authorised K A get auth"

primrec authorised_in :: "nat \<Rightarrow> (public_key_type \<Rightarrow> bool) \<Rightarrow> account_name_type set \<Rightarrow> authority_getter \<Rightarrow> authority \<Rightarrow> bool" where
  "authorised_in 0 K A get auth \<longleftrightarrow>
     unat (weight_threshold auth) \<le> weight_of K (key_auths auth) + weight_of (\<lambda>a. a \<in> A) (account_auths auth)"
| "authorised_in (Suc n) K A get auth \<longleftrightarrow>
     unat (weight_threshold auth) \<le> weight_of K (key_auths auth) +
       weight_of (\<lambda>a. a \<in> A \<or> (\<exists>x. get a = Inr x \<and> authorised_in n K A get x)) (account_auths auth)"

lemma authorised_in_sound: "authorised_in n K A get auth \<Longrightarrow> authorised K A get auth"
proof (induction n arbitrary: auth)
  case 0
  then show ?case by (intro authorised.reach [of A]) auto
next
  case (Suc n)
  then show ?case
    by (intro authorised.reach [of "{a. a \<in> A \<or> (\<exists>x. get a = Inr x \<and> authorised_in n K A get x)}"]) auto
qed

definition signable :: "sign_state \<Rightarrow> public_key_type \<Rightarrow> bool" where
  "signable s k \<longleftrightarrow> map_of (provided_signatures s) k \<noteq> None \<or> k \<in> set (available_keys s)"

definition approvable :: "(public_key_type \<Rightarrow> bool) \<Rightarrow> account_name_type set \<Rightarrow> authority_getter \<Rightarrow> account_name_type \<Rightarrow> bool" where
  "approvable K A get a \<longleftrightarrow> a \<in> A \<or> (\<exists>x. get a = Inr x \<and> authorised K A get x)"

definition check_inv :: "(public_key_type \<Rightarrow> bool) \<Rightarrow> account_name_type set \<Rightarrow> authority_getter \<Rightarrow> sign_state \<Rightarrow> bool" where
  "check_inv K A get s \<longleftrightarrow> get_active s = get \<and> (\<forall>k. signable s k \<longleftrightarrow> K k) \<and>
     A \<subseteq> set (approved_by s) \<and> (\<forall>a \<in> set (approved_by s). approvable K A get a)"

definition same_limits :: "sign_state \<Rightarrow> sign_state \<Rightarrow> bool" where
  "same_limits s t \<longleftrightarrow> max_recursion s = max_recursion t \<and> max_membership s = max_membership t \<and>
     max_account_auths s = max_account_auths t"

lemma same_limits_refl [simp]: "same_limits s s"
  by (simp add: same_limits_def)

lemma same_limits_trans: "same_limits s t \<Longrightarrow> same_limits t u \<Longrightarrow> same_limits s u"
  by (simp add: same_limits_def)

lemma authorised_iff:
  "authorised K A get auth \<longleftrightarrow> unat (weight_threshold auth) \<le>
     weight_of K (key_auths auth) + weight_of (approvable K A get) (account_auths auth)"
proof
  assume "authorised K A get auth"
  then show "unat (weight_threshold auth) \<le>
      weight_of K (key_auths auth) + weight_of (approvable K A get) (account_auths auth)"
  proof cases
    case (reach S)
    have "weight_of (\<lambda>a. a \<in> S) (account_auths auth) \<le> weight_of (approvable K A get) (account_auths auth)"
      using reach(1) by (intro weight_of_mono) (auto simp: approvable_def)
    then show ?thesis using reach(2) by linarith
  qed
qed (rule authorised.reach [of "{a. approvable K A get a}"], auto simp: approvable_def [abs_def])

lemma signed_by_eq:
  "signed_by k s = (signable s k,
     if signable s k then s\<lparr>provided_signatures := tput k True (provided_signatures s)\<rparr> else s)"
  by (auto simp: signed_by_def signable_def split: option.splits)

lemma signable_tput [simp]:
  "signable (s\<lparr>provided_signatures := tput k True (provided_signatures s)\<rparr>) j \<longleftrightarrow> j = k \<or> signable s j"
  by (auto simp: signable_def)

lemma signed_by_inv:
  assumes "check_inv K A get s" "signed_by k s = (b, s')"
  shows "check_inv K A get s'" "same_limits s s'" "b \<longleftrightarrow> K k"
proof -
  have k: "signable s j \<longleftrightarrow> K j" for j using assms(1) by (simp add: check_inv_def)
  have s': "b = K k" "s' = (if K k then s\<lparr>provided_signatures := tput k True (provided_signatures s)\<rparr> else s)"
    using assms(2) by (auto simp: signed_by_eq k)
  show "b \<longleftrightarrow> K k" by (rule s'(1))
  show "same_limits s s'" using s'(2) by (simp add: same_limits_def)
  show "check_inv K A get s'" using assms(1) s'(2) by (auto simp: check_inv_def)
qed

lemma unat_ucast_16 [simp]: "unat (ucast (w::u16) :: u32) = unat w"
proof -
  have "unat w < 2 ^ 16" using unsigned_less [of w] by simp
  then show ?thesis by (simp add: unsigned_ucast_eq take_bit_nat_eq_self)
qed

lemma unat_add_le: "unat (x + y :: 'a::len word) \<le> unat x + unat y"
  by (simp add: unat_word_ariths)

lemma keys_loop_sound:
  assumes "keys_loop thr ks tot memb s = ((e, tot', memb'), s')" "check_inv K A get s"
  shows "check_inv K A get s' \<and> same_limits s s' \<and>
    unat tot' \<le> unat tot + weight_of K ks \<and> (e = Some True \<longrightarrow> thr \<le> tot')"
  using assms
proof (induction thr ks tot memb s rule: keys_loop.induct)
  case (2 thr k w ks tot memb s)
  obtain b t where bt: "signed_by k s = (b, t)" by (cases "signed_by k s")
  define tot1 where "tot1 = (if b then tot + ucast w else tot)"
  note i = signed_by_inv [OF "2.prems"(2) bt]
  have le: "unat tot1 \<le> unat tot + (if K k then unat w else 0)"
    using unat_add_le [of tot "ucast w"] i(3) by (simp add: tot1_def)
  consider (hit) "b" "thr \<le> tot1"
    | (full) "\<not> (b \<and> thr \<le> tot1)" "max_membership t > 0 \<and> memb + 1 \<ge> ucast (max_membership t)"
    | (go) "\<not> (b \<and> thr \<le> tot1)" "\<not> (max_membership t > 0 \<and> memb + 1 \<ge> ucast (max_membership t))" by blast
  then show ?case
  proof cases
    case hit
    then have "e = Some True" "tot' = tot1" "s' = t" using "2.prems"(1) bt by (simp_all add: tot1_def Let_def)
    then show ?thesis using i le hit by simp
  next
    case full
    then have "e = Some False" "tot' = tot1" "s' = t" using "2.prems"(1) bt
      by (auto simp: tot1_def Let_def split: if_splits)
    then show ?thesis using i le by simp
  next
    case go
    have "keys_loop thr ks tot1 (memb + 1) t = ((e, tot', memb'), s')"
      using "2.prems"(1) bt go by (auto simp: tot1_def Let_def split: if_splits)
    then have "check_inv K A get s' \<and> same_limits t s' \<and>
        unat tot' \<le> unat tot1 + weight_of K ks \<and> (e = Some True \<longrightarrow> thr \<le> tot')"
      using "2.IH" [OF bt [symmetric] refl] go i(1) by (simp add: tot1_def)
    then show ?thesis using le i(2) same_limits_trans by fastforce
  qed
qed simp

definition call_sound :: "(public_key_type \<Rightarrow> bool) \<Rightarrow> account_name_type set \<Rightarrow> authority_getter \<Rightarrow> auth_check \<Rightarrow> bool" where
  "call_sound K A get f \<longleftrightarrow> (\<forall>x cnt s b cnt' s'. check_inv K A get s \<longrightarrow> f x cnt s = Inr (b, cnt', s') \<longrightarrow>
     check_inv K A get s' \<and> same_limits s s' \<and> (b \<longrightarrow> authorised K A get x))"

lemma call_soundD:
  "call_sound K A get f \<Longrightarrow> check_inv K A get s \<Longrightarrow> f x cnt s = Inr (b, cnt', s') \<Longrightarrow>
     check_inv K A get s' \<and> same_limits s s' \<and> (b \<longrightarrow> authorised K A get x)"
  by (simp add: call_sound_def)

definition visit_bound :: "visit \<Rightarrow> u32 \<Rightarrow> nat \<Rightarrow> bool" where
  "visit_bound v thr n \<longleftrightarrow> (case v of Skip \<Rightarrow> True | Return b \<Rightarrow> b \<longrightarrow> unat thr \<le> n | Counted t \<Rightarrow> unat t \<le> n)"

lemma visit_bound_count [simp]: "visit_bound (count_weight thr tot w) thr (unat tot + unat w)"
  using unat_add_le [of tot "ucast w"]
  by (auto simp: visit_bound_def count_weight_def Let_def word_le_nat_alt)

lemma check_inv_approve:
  "check_inv K A get s \<Longrightarrow> approvable K A get a \<Longrightarrow>
    check_inv K A get (s\<lparr>approved_by := List.insert a (approved_by s)\<rparr>)"
  by (auto simp: check_inv_def signable_def)

lemma visit_account_sound:
  assumes v: "visit_account check thr a w tot cnt s = Inr (v, cnt', s')" and inv: "check_inv K A get s"
    and f: "\<And>f. check = Some f \<Longrightarrow> call_sound K A get f"
  shows "check_inv K A get s' \<and> same_limits s s' \<and>
    (v = Skip \<or> visit_bound v thr (unat tot + (if approvable K A get a then unat w else 0)))"
proof (cases "a \<in> set (approved_by s)")
  case True
  then have "approvable K A get a" using inv by (simp add: check_inv_def)
  moreover have "v = count_weight thr tot w" "s' = s" using v True by (simp_all add: visit_account_def)
  ultimately show ?thesis using inv by simp
next
  case new: False
  show ?thesis
  proof (cases check)
    case None
    then show ?thesis using v new inv by (simp add: visit_account_def)
  next
    case (Some f)
    show ?thesis
    proof (cases "max_account_auths s > 0 \<and> cnt \<ge> max_account_auths s")
      case True
      then have "v = Return False" "s' = s" using v new Some by (simp_all add: visit_account_def)
      then show ?thesis using inv by (simp add: visit_bound_def)
    next
      case False
      obtain x b c t where x: "get a = Inr x" and r: "f x (cnt + 1) s = Inr (b, c, t)"
        and o: "(if b then Inr (count_weight thr tot w, c, t\<lparr>approved_by := List.insert a (approved_by t)\<rparr>)
                 else Inr (Counted tot, c, t)) = (Inr (v, cnt', s') :: (visit \<times> u32 \<times> sign_state) res)"
        using v new Some False inv unfolding visit_account_def check_inv_def by (auto split: if_splits)
      note i = call_soundD [OF f [OF Some] inv r]
      show ?thesis
      proof (cases b)
        case True
        then have ap: "approvable K A get a" using i x by (auto simp: approvable_def)
        have "v = count_weight thr tot w" "s' = t\<lparr>approved_by := List.insert a (approved_by t)\<rparr>"
          using o True by simp_all
        then show ?thesis using i ap by (simp add: check_inv_approve same_limits_def)
      next
        case False
        then have "v = Counted tot" "s' = t" using o by simp_all
        then show ?thesis using i by (simp add: visit_bound_def)
      qed
    qed
  qed
qed

lemma accounts_loop_sound:
  assumes "accounts_loop check thr as tot memb cnt s = Inr (b, cnt', s')" "check_inv K A get s"
    and "\<And>f. check = Some f \<Longrightarrow> call_sound K A get f"
  shows "check_inv K A get s' \<and> same_limits s s' \<and>
    (b \<longrightarrow> unat thr \<le> unat tot + weight_of (approvable K A get) as)"
  using assms(1,2)
proof (induction as arbitrary: tot memb cnt s)
  case Nil
  then show ?case by (auto simp: word_le_nat_alt)
next
  case (Cons x as)
  obtain a w where x: "x = (a, w)" by (cases x)
  obtain v c t where v: "visit_account check thr a w tot cnt s = Inr (v, c, t)"
    and rest: "(case v of
         Skip \<Rightarrow> accounts_loop check thr as tot memb c t
       | Return b \<Rightarrow> Inr (b, c, t)
       | Counted tot \<Rightarrow>
           (let memb = memb + 1
            in if max_membership t > 0 \<and> memb \<ge> ucast (max_membership t) then Inr (False, c, t)
               else accounts_loop check thr as tot memb c t)) = Inr (b, cnt', s')"
    using Cons.prems(1) x by auto
  note i = visit_account_sound [OF v Cons.prems(2) assms(3)]
  show ?case
  proof (cases v)
    case Skip
    then have "check_inv K A get s' \<and> same_limits t s' \<and>
        (b \<longrightarrow> unat thr \<le> unat tot + weight_of (approvable K A get) as)"
      using rest i by (intro Cons.IH) auto
    then show ?thesis using i x by (auto intro: same_limits_trans)
  next
    case (Return r)
    then show ?thesis using rest i x by (auto simp: visit_bound_def)
  next
    case (Counted t1)
    then have le: "unat t1 \<le> unat tot + (if approvable K A get a then unat w else 0)"
      using i by (simp add: visit_bound_def)
    show ?thesis
    proof (cases "max_membership t > 0 \<and> memb + 1 \<ge> ucast (max_membership t)")
      case True
      then show ?thesis using rest i Counted by (simp add: Let_def)
    next
      case False
      then have "accounts_loop check thr as t1 (memb + 1) c t = Inr (b, cnt', s')"
        using rest Counted by (simp add: Let_def split: if_splits)
      then have "check_inv K A get s' \<and> same_limits t s' \<and>
          (b \<longrightarrow> unat thr \<le> unat t1 + weight_of (approvable K A get) as)"
        using i by (intro Cons.IH) auto
      then show ?thesis using i x le by (auto intro: same_limits_trans)
    qed
  qed
qed

lemma check_body_sound:
  assumes "\<And>f. check = Some f \<Longrightarrow> call_sound K A get f"
  shows "call_sound K A get (check_body check)"
  unfolding call_sound_def
proof (intro allI impI)
  fix auth cnt s b cnt' s'
  assume inv: "check_inv K A get s" and run: "check_body check auth cnt s = Inr (b, cnt', s')"
  obtain e tot memb t where k: "keys_loop (weight_threshold auth) (key_auths auth) 0 0 s = ((e, tot, memb), t)"
    by (metis surj_pair)
  note i = keys_loop_sound [OF k inv]
  show "check_inv K A get s' \<and> same_limits s s' \<and> (b \<longrightarrow> authorised K A get auth)"
  proof (cases e)
    case None
    then have "accounts_loop check (weight_threshold auth) (account_auths auth) tot memb cnt t = Inr (b, cnt', s')"
      using run k by (simp add: check_body_def)
    then have "check_inv K A get s' \<and> same_limits t s' \<and>
        (b \<longrightarrow> unat (weight_threshold auth) \<le> unat tot + weight_of (approvable K A get) (account_auths auth))"
      using i assms by (intro accounts_loop_sound) auto
    then show ?thesis using i by (auto simp: authorised_iff intro: same_limits_trans)
  next
    case (Some r)
    then have "b = r" "s' = t" using run k by (simp_all add: check_body_def)
    then show ?thesis using i Some by (auto simp: authorised_iff word_le_nat_alt)
  qed
qed

lemma check_authority_impl_sound: "call_sound K A get (check_authority_impl n)"
  by (induction n) (auto intro!: check_body_sound)

text \<open>Completeness within the recursion depth, when the limits are off and no sum wraps around.\<close>

definition unlimited :: "sign_state \<Rightarrow> bool" where
  "unlimited s \<longleftrightarrow> max_membership s = 0 \<and> max_account_auths s = 0"

lemma unlimited_same: "same_limits s t \<Longrightarrow> unlimited s \<Longrightarrow> unlimited t"
  by (simp add: same_limits_def unlimited_def)

definition light :: "authority \<Rightarrow> bool" where
  "light a \<longleftrightarrow> weight_of (\<lambda>_. True) (key_auths a) + weight_of (\<lambda>_. True) (account_auths a) < 2 ^ 32"

definition call_complete :: "(public_key_type \<Rightarrow> bool) \<Rightarrow> account_name_type set \<Rightarrow> authority_getter \<Rightarrow> (authority \<Rightarrow> bool) \<Rightarrow> auth_check \<Rightarrow> bool" where
  "call_complete K A get H f \<longleftrightarrow> (\<forall>x cnt s. check_inv K A get s \<longrightarrow> unlimited s \<longrightarrow> light x \<longrightarrow>
     (\<exists>b cnt' s'. f x cnt s = Inr (b, cnt', s') \<and> (H x \<longrightarrow> b)))"

lemma call_completeD:
  "call_complete K A get H f \<Longrightarrow> check_inv K A get s \<Longrightarrow> unlimited s \<Longrightarrow> light x \<Longrightarrow>
     \<exists>b cnt' s'. f x cnt s = Inr (b, cnt', s') \<and> (H x \<longrightarrow> b)"
  by (simp add: call_complete_def)

lemma unat_add_exact: "unat x + unat y < 2 ^ 32 \<Longrightarrow> unat (x + y :: u32) = unat x + unat y"
  by (simp add: unat_word_ariths)

lemma keys_loop_complete:
  assumes "check_inv K A get s" "unlimited s" "unat tot + weight_of (\<lambda>_. True) ks < 2 ^ 32"
  shows "\<exists>e tot' memb' s'. keys_loop thr ks tot memb s = ((e, tot', memb'), s') \<and>
     (e = Some True \<or> (e = None \<and> unat tot' = unat tot + weight_of K ks))"
  using assms
proof (induction thr ks tot memb s rule: keys_loop.induct)
  case (2 thr k w ks tot memb s)
  obtain b t where bt: "signed_by k s = (b, t)" by (cases "signed_by k s")
  define tot1 where "tot1 = (if b then tot + ucast w else tot)"
  note i = signed_by_inv [OF "2.prems"(1) bt]
  have u: "unlimited t" using unlimited_same i(2) "2.prems"(2) by blast
  have e: "unat tot1 = unat tot + (if K k then unat w else 0)"
    using unat_add_exact [of tot "ucast w"] "2.prems"(3) i(3) by (simp add: tot1_def)
  show ?case
  proof (cases "b \<and> thr \<le> tot1")
    case True
    then have "keys_loop thr ((k, w) # ks) tot memb s = ((Some True, tot1, memb), t)"
      using bt unfolding tot1_def by (auto simp: Let_def)
    then show ?thesis by blast
  next
    case False
    have "\<exists>e tot' memb' s'. keys_loop thr ks tot1 (memb + 1) t = ((e, tot', memb'), s') \<and>
        (e = Some True \<or> (e = None \<and> unat tot' = unat tot1 + weight_of K ks))"
      using "2.IH" [OF bt [symmetric] refl] False i(1) u e "2.prems"(3)
      by (auto simp: tot1_def unlimited_def split: if_splits)
    moreover have "keys_loop thr ((k, w) # ks) tot memb s = keys_loop thr ks tot1 (memb + 1) t"
      using bt False u by (auto simp: tot1_def Let_def unlimited_def split: if_splits)
    ultimately show ?thesis using e by (auto simp: add.assoc)
  qed
qed simp

definition reachable_account :: "account_name_type set \<Rightarrow> authority_getter \<Rightarrow> (authority \<Rightarrow> bool) \<Rightarrow> auth_check option \<Rightarrow> account_name_type \<Rightarrow> bool" where
  "reachable_account A get H check a \<longleftrightarrow> a \<in> A \<or> (check \<noteq> None \<and> (\<exists>x. get a = Inr x \<and> H x))"

lemma visit_account_complete:
  assumes inv: "check_inv K A get s" "unlimited s"
    and f: "\<And>f. check = Some f \<Longrightarrow> call_sound K A get f \<and> call_complete K A get H f"
    and get: "\<And>a. \<exists>x. get a = Inr x \<and> light x"
  shows "\<exists>v cnt' s'. visit_account check thr a w tot cnt s = Inr (v, cnt', s') \<and> 
    (v = count_weight thr tot w \<or> (\<not> reachable_account A get H check a \<and> (v = Skip \<or> v = Counted tot)))"
proof (cases "a \<in> set (approved_by s)")
  case True
  then show ?thesis by (simp add: visit_account_def)
next
  case new: False
  then have "a \<notin> A" using inv by (auto simp: check_inv_def)
  show ?thesis
  proof (cases check)
    case None
    then show ?thesis using new \<open>a \<notin> A\<close> by (simp add: visit_account_def reachable_account_def)
  next
    case (Some f)
    obtain x where x: "get a = Inr x" "light x" using get by blast
    obtain b c t where r: "f x (cnt + 1) s = Inr (b, c, t)" and b: "H x \<longrightarrow> b"
      using call_completeD [OF _ inv x(2), of H f "cnt + 1"] f [OF Some] by blast
    have "visit_account check thr a w tot cnt s =
        (if b then Inr (count_weight thr tot w, c, t\<lparr>approved_by := List.insert a (approved_by t)\<rparr>)
         else Inr (Counted tot, c, t))"
      using new Some inv x r by (simp add: visit_account_def unlimited_def check_inv_def)
    then show ?thesis using b x Some \<open>a \<notin> A\<close> by (cases b) (auto simp: reachable_account_def)
  qed
qed

lemma accounts_loop_complete:
  assumes "check_inv K A get s" "unlimited s" "unat tot + weight_of (\<lambda>_. True) as < 2 ^ 32"
    and f: "\<And>f. check = Some f \<Longrightarrow> call_sound K A get f \<and> call_complete K A get H f"
    and get: "\<And>a. \<exists>x. get a = Inr x \<and> light x"
  shows "\<exists>b cnt' s'. accounts_loop check thr as tot memb cnt s = Inr (b, cnt', s') \<and>
    (unat thr \<le> unat tot + weight_of (reachable_account A get H check) as \<longrightarrow> b)"
  using assms(1-3)
proof (induction as arbitrary: tot memb cnt s)
  case Nil
  then show ?case by (simp add: word_le_nat_alt)
next
  case (Cons x as)
  let ?R = "reachable_account A get H check"
  obtain a w where x: "x = (a, w)" by (cases x)
  obtain v c t where v: "visit_account check thr a w tot cnt s = Inr (v, c, t)"
    and vw: "v = count_weight thr tot w \<or> (\<not> ?R a \<and> (v = Skip \<or> v = Counted tot))"
    using visit_account_complete [where thr = thr and a = a and w = w and tot = tot and cnt = cnt, OF Cons.prems(1,2) f get] by blast
  have i: "check_inv K A get t" "same_limits s t"
    using visit_account_sound [OF v Cons.prems(1)] f by auto
  have u: "unlimited t" using unlimited_same i(2) Cons.prems(2) by blast
  have e: "unat (tot + ucast w) = unat tot + unat w"
    using unat_add_exact [of tot "ucast w"] Cons.prems(3) x by simp
  have run: "accounts_loop check thr (x # as) tot memb cnt s = (case v of
         Skip \<Rightarrow> accounts_loop check thr as tot memb c t
       | Return b \<Rightarrow> Inr (b, c, t)
       | Counted tot \<Rightarrow> accounts_loop check thr as tot (memb + 1) c t)"
    using x v u by (auto simp: unlimited_def split: visit.split)
  show ?case
  proof (cases "v = count_weight thr tot w")
    case True
    show ?thesis
    proof (cases "tot + ucast w \<ge> thr")
      case hit: True
      then have "accounts_loop check thr (x # as) tot memb cnt s = Inr (True, c, t)"
        using run True by (simp add: count_weight_def)
      then show ?thesis by blast
    next
      case False
      then have c: "v = Counted (tot + ucast w)" using True by (simp add: count_weight_def)
      have "\<exists>b cnt' s'. accounts_loop check thr as (tot + ucast w) (memb + 1) c t = Inr (b, cnt', s') \<and>
          (unat thr \<le> unat (tot + ucast w) + weight_of ?R as \<longrightarrow> b)"
        using Cons.prems(3) x e by (intro Cons.IH [OF i(1) u]) simp
      then show ?thesis using run c e x by (auto split: if_splits)
    qed
  next
    case False
    then have nr: "\<not> ?R a" and v': "v = Skip \<or> v = Counted tot" using vw by blast+
    have "\<exists>b cnt' s'. accounts_loop check thr as tot m c t = Inr (b, cnt', s') \<and>
        (unat thr \<le> unat tot + weight_of ?R as \<longrightarrow> b)" for m
      using Cons.prems(3) x by (intro Cons.IH [OF i(1) u]) simp
    then show ?thesis using run v' nr x by auto
  qed
qed

lemma check_body_complete:
  assumes f: "\<And>f. check = Some f \<Longrightarrow> call_sound K A get f \<and> call_complete K A get H f"
    and get: "\<And>a. \<exists>x. get a = Inr x \<and> light x"
  shows "call_complete K A get (\<lambda>x. unat (weight_threshold x) \<le>
    weight_of K (key_auths x) + weight_of (reachable_account A get H check) (account_auths x)) (check_body check)"
  unfolding call_complete_def
proof (intro allI impI)
  fix x cnt s
  assume inv: "check_inv K A get s" "unlimited s" and light: "light x"
  obtain e tot memb t where k: "keys_loop (weight_threshold x) (key_auths x) 0 0 s = ((e, tot, memb), t)"
    and e: "e = Some True \<or> (e = None \<and> unat tot = weight_of K (key_auths x))"
    using keys_loop_complete [OF inv, of 0 "key_auths x" "weight_threshold x" 0] light
    by (auto simp: light_def)
  show "\<exists>b cnt' s'. check_body check x cnt s = Inr (b, cnt', s') \<and>
    (unat (weight_threshold x) \<le> weight_of K (key_auths x) +
       weight_of (reachable_account A get H check) (account_auths x) \<longrightarrow> b)"
  proof (cases "e = Some True")
    case True
    then have "check_body check x cnt s = Inr (True, cnt, t)" using k by (simp add: check_body_def)
    then show ?thesis by blast
  next
    case False
    then have n: "e = None" "unat tot = weight_of K (key_auths x)" using e by auto
    note i = keys_loop_sound [OF k inv(1)]
    have "weight_of K (key_auths x) \<le> weight_of (\<lambda>_. True) (key_auths x)" by (intro weight_of_mono) simp
    then have "unat tot + weight_of (\<lambda>_. True) (account_auths x) < 2 ^ 32" using light n by (simp add: light_def)
    then show ?thesis
      using accounts_loop_complete [where s = t and tot = tot and as = "account_auths x" and
          thr = "weight_threshold x" and memb = memb and cnt = cnt, OF _ _ _ f get]
        i n k unlimited_same inv(2) by (auto simp: check_body_def)
  qed
qed

lemma check_authority_impl_complete:
  assumes get: "\<And>a. \<exists>x. get a = Inr x \<and> light x"
  shows "call_complete K A get (authorised_in n K A get) (check_authority_impl n)"
proof (induction n)
  case 0
  have "reachable_account A get H None = (\<lambda>a. a \<in> A)" for H
    by (simp add: reachable_account_def fun_eq_iff)
  then show ?case using check_body_complete [of None K A get "\<lambda>_. True", OF _ get]
    by (simp add: call_complete_def)
next
  case (Suc n)
  let ?f = "check_authority_impl n"
  have "reachable_account A get (authorised_in n K A get) (Some ?f) =
      (\<lambda>a. a \<in> A \<or> (\<exists>x. get a = Inr x \<and> authorised_in n K A get x))"
    by (simp add: reachable_account_def fun_eq_iff)
  then show ?case using check_body_complete [of "Some ?f" K A get "authorised_in n K A get", OF _ get]
      Suc check_authority_impl_sound [of K A get n]
    by (simp add: call_complete_def)
qed

text \<open>The state a check starts from, with the keys that can sign and the accounts approved outright.\<close>

lemma map_of_provided: "map_of (fold (\<lambda>k. tput k v) sigs t) k = (if k \<in> set sigs then Some v else map_of t k)"
  by (induction sigs arbitrary: t) auto

definition fresh_state :: "public_key_type list \<Rightarrow> authority_getter \<Rightarrow> public_key_type list \<Rightarrow> u32 \<Rightarrow> u32 \<Rightarrow> u32 \<Rightarrow> sign_state" where
  "fresh_state sigs get keys r m c =
     (new_sign_state sigs get keys)\<lparr>max_recursion := r, max_membership := m, max_account_auths := c\<rparr>"

lemma fresh_state_inv:
  "check_inv (\<lambda>k. k \<in> set sigs \<union> set keys) {TAIYI_TEMP_ACCOUNT} get (fresh_state sigs get keys r m c)"
  by (auto simp: check_inv_def fresh_state_def new_sign_state_def signable_def map_of_provided approvable_def)

lemma check_authority_sound:
  assumes "check_inv K A get s" "check_authority auth s = Inr (b, s')"
  shows "check_inv K A get s' \<and> (b \<longrightarrow> authorised K A get auth)"
  using call_soundD [OF check_authority_impl_sound assms(1)] assms(2)
  by (fastforce simp: check_authority_def)

lemma check_authority_of_sound:
  assumes "check_inv K A get s" "check_authority_of a s = Inr (b, s')"
  shows "check_inv K A get s' \<and> (b \<longrightarrow> approvable K A get a)"
proof (cases "a \<in> set (approved_by s)")
  case True
  then show ?thesis using assms by (auto simp: check_authority_of_def check_inv_def)
next
  case False
  then obtain x c where x: "get a = Inr x"
    and r: "check_authority_impl (unat (max_recursion s)) x 1 s = Inr (b, c, s')"
    using assms by (auto simp: check_authority_of_def check_inv_def)
  show ?thesis using call_soundD [OF check_authority_impl_sound assms(1) r] x by (auto simp: approvable_def)
qed


definition sample_getter :: authority_getter where
  "sample_getter a = Inr (if a = 5 then \<lparr>weight_threshold = 1, account_auths = [(9, 1)], key_auths = []\<rparr>
     else \<lparr>weight_threshold = 1, account_auths = [], key_auths = [(unat a, 1)]\<rparr>)"


end
