(* ===== verification/Transaction.thy ===== *)
theory Transaction
  imports Authority
begin

section \<open>Verification of the authorities of a transaction\<close>

text \<open>
  \<open>verify_authority\<close> (protocol/transaction_util.hpp) and the functions of \<open>signed_transaction\<close>
  (protocol/transaction.cpp) over it. The class of operations is a parameter: a record of the
  member functions that \<open>static_variant\<close> dispatches to. A signature is opaque; the key it
  recovers to, with the digest and canonical form fixed, is a parameter that may throw.
\<close>

record 'op op_class =
  op_validate :: "'op \<Rightarrow> unit res"
  op_active :: "'op \<Rightarrow> account_name_type list"
  op_owner :: "'op \<Rightarrow> account_name_type list"
  op_posting :: "'op \<Rightarrow> account_name_type list"
  op_other :: "'op \<Rightarrow> authority list"

record auth_sets =
  required_active :: "account_name_type list"
  required_owner :: "account_name_type list"
  required_posting :: "account_name_type list"
  required_other :: "authority list"

definition no_auths :: auth_sets where
  "no_auths = \<lparr>required_active = [], required_owner = [], required_posting = [], required_other = []\<rparr>"

definition set_insert_all :: "'a::linorder list \<Rightarrow> 'a list \<Rightarrow> 'a list" where
  "set_insert_all xs t = fold insort_insert xs t"

definition auth_visitor :: "'op op_class \<Rightarrow> 'op \<Rightarrow> auth_sets \<Rightarrow> auth_sets" where
  "auth_visitor C v s =
     s\<lparr>required_active := set_insert_all (op_active C v) (required_active s),
       required_owner := set_insert_all (op_owner C v) (required_owner s),
       required_posting := set_insert_all (op_posting C v) (required_posting s),
       required_other := required_other s @ op_other C v\<rparr>"

definition get_required_authorities :: "'op op_class \<Rightarrow> 'op list \<Rightarrow> auth_sets \<Rightarrow> auth_sets" where
  "get_required_authorities C ops s = fold (auth_visitor C) ops s"

text \<open>\<open>a || b || c\<close> over checks that update the state: the first that holds ends it.\<close>

fun first_ok :: "(sign_state \<Rightarrow> (bool \<times> sign_state) res) list \<Rightarrow> sign_state \<Rightarrow> (bool \<times> sign_state) res" where
  "first_ok [] s = Inr (False, s)"
| "first_ok (f # fs) s = rbind (f s) (\<lambda>(b, s). if b then Inr (True, s) else first_ok fs s)"

definition check_getter :: "authority_getter \<Rightarrow> account_name_type \<Rightarrow> sign_state \<Rightarrow> (bool \<times> sign_state) res" where
  "check_getter get a s = rbind (get a) (\<lambda>auth. check_authority auth s)"

definition require :: "error \<Rightarrow> (sign_state \<Rightarrow> (bool \<times> sign_state) res) list \<Rightarrow> sign_state \<Rightarrow> sign_state res" where
  "require e fs s = rbind (first_ok fs s) (\<lambda>(b, s). rguard b e (Inr s))"

record getters =
  g_active :: authority_getter
  g_owner :: authority_getter
  g_posting :: authority_getter

record limits =
  l_recursion :: u32
  l_membership :: u32
  l_account_auths :: u32

record approvals =
  active_approvals :: "account_name_type list"
  owner_approvals :: "account_name_type list"
  posting_approvals :: "account_name_type list"

definition limited_state :: "public_key_type list \<Rightarrow> authority_getter \<Rightarrow> public_key_type list \<Rightarrow> limits \<Rightarrow> sign_state" where
  "limited_state sigs get keys L =
     (new_sign_state sigs get keys)\<lparr>max_recursion := l_recursion L, max_membership := l_membership L,
        max_account_auths := l_account_auths L\<rparr>"

definition pre_approve :: "account_name_type list \<Rightarrow> sign_state \<Rightarrow> sign_state" where
  "pre_approve names s = s\<lparr>approved_by := fold List.insert names (approved_by s)\<rparr>"

definition no_unused :: "sign_state \<Rightarrow> unit res" where
  "no_unused s = rguard (\<not> fst (remove_unused_signatures s)) Tx_irrelevant_sig (Inr ())"

definition verify_posting :: "public_key_type list \<Rightarrow> getters \<Rightarrow> limits \<Rightarrow> approvals \<Rightarrow> auth_sets \<Rightarrow> unit res" where
  "verify_posting sigs G L P r =
     rguard (required_active r = []) (Assert ''required_active.size() == 0'')
     (rguard (required_owner r = []) (Assert ''required_owner.size() == 0'')
     (rguard (required_other r = []) (Assert ''other.size() == 0'')
     (rbind (rfold (\<lambda>a. require Tx_missing_posting_auth
               [check_authority_of a, check_getter (g_active G) a, check_getter (g_owner G) a])
             (required_posting r) (pre_approve (posting_approvals P) (limited_state sigs (g_posting G) [] L)))
       no_unused)))"

definition verify_active :: "public_key_type list \<Rightarrow> getters \<Rightarrow> limits \<Rightarrow> approvals \<Rightarrow> auth_sets \<Rightarrow> unit res" where
  "verify_active sigs G L P r =
     rbind (rfold (\<lambda>auth. require Tx_missing_other_auth [check_authority auth]) (required_other r)
       (pre_approve (owner_approvals P) (pre_approve (active_approvals P) (limited_state sigs (g_active G) [] L)))) (\<lambda>s.
     rbind (rfold (\<lambda>a. require Tx_missing_active_auth [check_authority_of a, check_getter (g_owner G) a])
       (required_active r) s) (\<lambda>s.
     rbind (rfold (\<lambda>a s. if a \<in> set (owner_approvals P) then Inr s
                        else require Tx_missing_owner_auth [check_getter (g_owner G) a] s)
       (required_owner r) s)
     no_unused))"

definition verify_authority ::
  "'op op_class \<Rightarrow> 'op list \<Rightarrow> public_key_type list \<Rightarrow> getters \<Rightarrow> limits \<Rightarrow> approvals \<Rightarrow> unit res" where
  "verify_authority C ops sigs G L P =
     (let r = get_required_authorities C ops no_auths
      in if required_posting r \<noteq> [] then verify_posting sigs G L P r
         else verify_active sigs G L P r)"

subsection \<open>Transactions\<close>

record ('op, 'sig) transaction =
  tx_operations :: "'op list"
  tx_signatures :: "'sig list"

definition validate_transaction :: "'op op_class \<Rightarrow> ('op, 'sig) transaction \<Rightarrow> unit res" where
  "validate_transaction C tx =
     rguard (tx_operations tx \<noteq> []) (Assert ''A transaction must have at least one operation'')
     (rfold (\<lambda>v _. op_validate C v) (tx_operations tx) ())"

definition get_signature_keys :: "('sig \<Rightarrow> public_key_type res) \<Rightarrow> ('op, 'sig) transaction \<Rightarrow> public_key_type list res" where
  "get_signature_keys recover tx =
     rfold (\<lambda>sig result. rbind (recover sig) (\<lambda>k.
       rguard (k \<notin> set result) Tx_duplicate_sig (Inr (insort_insert k result))))
     (tx_signatures tx) []"

text \<open>The checks whose outcome is thrown away, run for the marks they leave.\<close>

definition try_check :: "(sign_state \<Rightarrow> (bool \<times> sign_state) res) \<Rightarrow> sign_state \<Rightarrow> sign_state res" where
  "try_check f s = rbind (f s) (\<lambda>(b, s). Inr s)"

definition available_provided :: "public_key_type list \<Rightarrow> sign_state \<Rightarrow> public_key_type list" where
  "available_provided keys s =
     set_insert_all (filter (\<lambda>k. k \<in> set keys) (ids (provided_signatures s))) []"

definition get_required_signatures ::
  "'op op_class \<Rightarrow> ('sig \<Rightarrow> public_key_type res) \<Rightarrow> ('op, 'sig) transaction \<Rightarrow> public_key_type list \<Rightarrow>
     getters \<Rightarrow> limits \<Rightarrow> public_key_type list res" where
  "get_required_signatures C recover tx keys G L =
     (let r = get_required_authorities C (tx_operations tx) no_auths
      in if required_posting r \<noteq> [] then
           rbind (get_signature_keys recover tx) (\<lambda>sigs.
           rguard (required_owner r = []) (Assert ''!required_owner.size()'')
           (rguard (required_active r = []) (Assert ''!required_active.size()'')
           (rbind (rfold (\<lambda>a. try_check (check_authority_of a)) (required_posting r)
              (limited_state sigs (g_posting G) keys L)) (\<lambda>s.
            Inr (available_provided keys (snd (remove_unused_signatures s)))))))
         else
           rbind (get_signature_keys recover tx) (\<lambda>sigs.
           rbind (rfold (\<lambda>auth. try_check (check_authority auth)) (required_other r)
              (limited_state sigs (g_active G) keys L)) (\<lambda>s.
           rbind (rfold (\<lambda>a. try_check (check_getter (g_owner G) a)) (required_owner r) s) (\<lambda>s.
           rbind (rfold (\<lambda>a. try_check (check_authority_of a)) (required_active r) s) (\<lambda>s.
           Inr (available_provided keys (snd (remove_unused_signatures s))))))))"

definition no_approvals :: approvals where
  "no_approvals = \<lparr>active_approvals = [], owner_approvals = [], posting_approvals = []\<rparr>"

definition is_missing_auth :: "error \<Rightarrow> bool" where
  "is_missing_auth e \<longleftrightarrow> e \<in> {Tx_missing_owner_auth, Tx_missing_active_auth, Tx_missing_posting_auth, Tx_missing_other_auth}"

definition minimize_step ::
  "(public_key_type list \<Rightarrow> unit res) \<Rightarrow> public_key_type \<Rightarrow> public_key_type list \<Rightarrow> public_key_type list res" where
  "minimize_step verify k result =
     (let result = remove1 k result
      in case verify result of
           Inr _ \<Rightarrow> Inr result
         | Inl e \<Rightarrow> if is_missing_auth e then Inr (insort_insert k result) else Inl e)"

definition minimize_required_signatures ::
  "'op op_class \<Rightarrow> ('sig \<Rightarrow> public_key_type res) \<Rightarrow> ('op, 'sig) transaction \<Rightarrow> public_key_type list \<Rightarrow>
     getters \<Rightarrow> limits \<Rightarrow> public_key_type list res" where
  "minimize_required_signatures C recover tx keys G L =
     rbind (get_required_signatures C recover tx keys G L) (\<lambda>s.
     rfold (minimize_step (\<lambda>result. verify_authority C (tx_operations tx) result G L no_approvals)) s s)"

definition verify_transaction_authority ::
  "'op op_class \<Rightarrow> ('sig \<Rightarrow> public_key_type res) \<Rightarrow> ('op, 'sig) transaction \<Rightarrow> getters \<Rightarrow> limits \<Rightarrow> unit res" where
  "verify_transaction_authority C recover tx G L =
     rbind (get_signature_keys recover tx) (\<lambda>sigs.
     verify_authority C (tx_operations tx) sigs G L no_approvals)"

subsection \<open>What a verified transaction has\<close>

lemma set_insert_all_simps [simp]:
  "set (set_insert_all xs t) = set xs \<union> set t"
  "sorted t \<Longrightarrow> sorted (set_insert_all xs t)"
  "distinct t \<Longrightarrow> distinct (set_insert_all xs t)"
  by (induction xs arbitrary: t)
    (auto simp: set_insert_all_def set_insort_insert sorted_insort_insert distinct_insort_insert)

lemma set_insert_all_Nil_iff: "set_insert_all xs t = [] \<longleftrightarrow> xs = [] \<and> t = []"
  by (metis set_insert_all_simps(1) set_empty Un_empty)

lemma get_required_sets:
  "set (required_active (get_required_authorities C ops s)) = set (required_active s) \<union> (\<Union>v \<in> set ops. set (op_active C v))"
  "set (required_owner (get_required_authorities C ops s)) = set (required_owner s) \<union> (\<Union>v \<in> set ops. set (op_owner C v))"
  "set (required_posting (get_required_authorities C ops s)) = set (required_posting s) \<union> (\<Union>v \<in> set ops. set (op_posting C v))"
  "set (required_other (get_required_authorities C ops s)) = set (required_other s) \<union> (\<Union>v \<in> set ops. set (op_other C v))"
  unfolding get_required_authorities_def by (induction ops arbitrary: s) (auto simp: auth_visitor_def)

definition chk :: "(public_key_type \<Rightarrow> bool) \<Rightarrow> account_name_type set \<Rightarrow> authority_getter \<Rightarrow> bool \<Rightarrow>
    (sign_state \<Rightarrow> (bool \<times> sign_state) res) \<Rightarrow> bool" where
  "chk K A get Q f \<longleftrightarrow> (\<forall>s b s'. check_inv K A get s \<longrightarrow> f s = Inr (b, s') \<longrightarrow> check_inv K A get s' \<and> (b \<longrightarrow> Q))"

lemma chk_check_authority: "(authorised K A get auth \<Longrightarrow> Q) \<Longrightarrow> chk K A get Q (check_authority auth)"
  unfolding chk_def using check_authority_sound by blast

lemma chk_check_of: "(approvable K A get a \<Longrightarrow> Q) \<Longrightarrow> chk K A get Q (check_authority_of a)"
  unfolding chk_def using check_authority_of_sound by blast

lemma chk_check_getter:
  assumes "\<And>x. g a = Inr x \<Longrightarrow> authorised K A get x \<Longrightarrow> Q"
  shows "chk K A get Q (check_getter g a)"
  unfolding chk_def check_getter_def
proof (intro allI impI)
  fix s b s' assume i: "check_inv K A get s" and r: "rbind (g a) (\<lambda>auth. check_authority auth s) = Inr (b, s')"
  from r obtain x where "g a = Inr x" "check_authority x s = Inr (b, s')" by auto
  then show "check_inv K A get s' \<and> (b \<longrightarrow> Q)" using check_authority_sound [OF i] assms by blast
qed

lemma chk_first_ok: "(\<And>f. f \<in> set fs \<Longrightarrow> chk K A get Q f) \<Longrightarrow> chk K A get Q (first_ok fs)"
proof (induction fs)
  case Nil
  then show ?case by (simp add: chk_def)
next
  case (Cons f fs)
  have f: "chk K A get Q f" and fs: "chk K A get Q (first_ok fs)" using Cons by simp_all
  show ?case unfolding chk_def
  proof (intro allI impI)
    fix s b s' assume i: "check_inv K A get s" and r: "first_ok (f # fs) s = Inr (b, s')"
    obtain c t where c: "f s = Inr (c, t)" and o: "(if c then Inr (True, t) else first_ok fs t) = Inr (b, s')"
      using r by auto
    have "check_inv K A get t \<and> (c \<longrightarrow> Q)" using f i c unfolding chk_def by blast
    then show "check_inv K A get s' \<and> (b \<longrightarrow> Q)" using o fs by (cases c) (auto simp: chk_def)
  qed
qed

lemma require_sound:
  assumes "\<And>f. f \<in> set fs \<Longrightarrow> chk K A get Q f" "check_inv K A get s" "require e fs s = Inr s'"
  shows "check_inv K A get s' \<and> Q"
proof -
  obtain b t where t: "first_ok fs s = Inr (b, t)" and b: "b" "s' = t"
    using assms(3) by (auto simp: require_def)
  then show ?thesis using chk_first_ok [of fs K A get Q] assms(1,2) unfolding chk_def by blast
qed

lemma rfold_require:
  assumes "\<And>a s s'. check_inv K A get s \<Longrightarrow> f a s = Inr s' \<Longrightarrow> check_inv K A get s' \<and> Q a"
    and "check_inv K A get s" "rfold f xs s = Inr s'"
  shows "check_inv K A get s' \<and> (\<forall>a \<in> set xs. Q a)"
  using assms(2,3)
proof (induction xs arbitrary: s)
  case Nil
  then show ?case by simp
next
  case (Cons x xs)
  obtain t where t: "f x s = Inr t" "rfold f xs t = Inr s'" using Cons.prems by auto
  have "check_inv K A get t \<and> Q x" using assms(1) Cons.prems(1) t(1) .
  then show ?case using Cons.IH [OF _ t(2)] by simp
qed

lemma limited_state_inv:
  "check_inv (\<lambda>k. k \<in> set sigs \<union> set keys) {TAIYI_TEMP_ACCOUNT} get (limited_state sigs get keys L)"
  using fresh_state_inv [of sigs keys get "l_recursion L" "l_membership L" "l_account_auths L"]
  by (simp add: fresh_state_def limited_state_def)

lemma set_fold_insert: "set (fold List.insert xs t) = set xs \<union> set t"
  by (induction xs arbitrary: t) auto

lemma authorised_mono:
  "authorised K A get x \<Longrightarrow> A \<subseteq> B \<Longrightarrow> authorised K B get x"
proof (induction rule: authorised.induct)
  case (reach S auth)
  then show ?case by (intro authorised.reach [of S]) auto
qed

lemma pre_approve_inv:
  assumes "check_inv K A get s"
  shows "check_inv K (A \<union> set names) get (pre_approve names s)"
proof -
  have "approvable K (A \<union> set names) get a" if "approvable K A get a" for a
    using that authorised_mono [of K A get _ "A \<union> set names"] by (auto simp: approvable_def)
  moreover have "approvable K (A \<union> set names) get a" if "a \<in> set names" for a
    using that by (simp add: approvable_def)
  ultimately show ?thesis using assms
    by (auto simp: check_inv_def pre_approve_def set_fold_insert signable_def)
qed

definition active_approved :: "approvals \<Rightarrow> account_name_type set" where
  "active_approved P = {TAIYI_TEMP_ACCOUNT} \<union> set (active_approvals P) \<union> set (owner_approvals P)"

definition posting_approved :: "approvals \<Rightarrow> account_name_type set" where
  "posting_approved P = {TAIYI_TEMP_ACCOUNT} \<union> set (posting_approvals P)"

definition active_ok :: "public_key_type list \<Rightarrow> getters \<Rightarrow> approvals \<Rightarrow> account_name_type \<Rightarrow> bool" where
  "active_ok sigs G P a \<longleftrightarrow> a \<in> active_approved P \<or>
     (\<exists>x. (g_active G a = Inr x \<or> g_owner G a = Inr x) \<and>
        authorised (\<lambda>k. k \<in> set sigs) (active_approved P) (g_active G) x)"

definition owner_ok :: "public_key_type list \<Rightarrow> getters \<Rightarrow> approvals \<Rightarrow> account_name_type \<Rightarrow> bool" where
  "owner_ok sigs G P a \<longleftrightarrow> a \<in> set (owner_approvals P) \<or>
     (\<exists>x. g_owner G a = Inr x \<and> authorised (\<lambda>k. k \<in> set sigs) (active_approved P) (g_active G) x)"

definition posting_ok :: "public_key_type list \<Rightarrow> getters \<Rightarrow> approvals \<Rightarrow> account_name_type \<Rightarrow> bool" where
  "posting_ok sigs G P a \<longleftrightarrow> a \<in> posting_approved P \<or>
     (\<exists>x. (g_posting G a = Inr x \<or> g_active G a = Inr x \<or> g_owner G a = Inr x) \<and>
        authorised (\<lambda>k. k \<in> set sigs) (posting_approved P) (g_posting G) x)"

definition other_ok :: "public_key_type list \<Rightarrow> getters \<Rightarrow> approvals \<Rightarrow> authority \<Rightarrow> bool" where
  "other_ok sigs G P x \<longleftrightarrow> authorised (\<lambda>k. k \<in> set sigs) (active_approved P) (g_active G) x"

lemma verify_posting_sound:
  assumes "verify_posting sigs G L P r = Inr ()"
  shows "required_active r = [] \<and> required_owner r = [] \<and> required_other r = [] \<and>
    (\<forall>a \<in> set (required_posting r). posting_ok sigs G P a)"
proof -
  let ?K = "\<lambda>k. k \<in> set sigs" and ?s = "pre_approve (posting_approvals P) (limited_state sigs (g_posting G) [] L)"
  have inv: "check_inv ?K (posting_approved P) (g_posting G) ?s"
    using pre_approve_inv [OF limited_state_inv [of sigs "[]" "g_posting G" L]] by (simp add: posting_approved_def)
  obtain t where t: "rfold (\<lambda>a. require Tx_missing_posting_auth
      [check_authority_of a, check_getter (g_active G) a, check_getter (g_owner G) a]) (required_posting r) ?s = Inr t"
    using assms by (auto simp: verify_posting_def)
  have "\<forall>a \<in> set (required_posting r). posting_ok sigs G P a"
  proof (rule conjunct2 [OF rfold_require [OF _ inv t]])
    fix a s s'
    assume i: "check_inv ?K (posting_approved P) (g_posting G) s"
      and req: "require Tx_missing_posting_auth
        [check_authority_of a, check_getter (g_active G) a, check_getter (g_owner G) a] s = Inr s'"
    show "check_inv ?K (posting_approved P) (g_posting G) s' \<and> posting_ok sigs G P a"
      by (rule require_sound [OF _ i req])
        (auto intro!: chk_check_of chk_check_getter simp: posting_ok_def approvable_def)
  qed
  then show ?thesis using assms by (auto simp: verify_posting_def)
qed

lemma verify_active_sound:
  assumes "verify_active sigs G L P r = Inr ()"
  shows "(\<forall>x \<in> set (required_other r). other_ok sigs G P x) \<and>
    (\<forall>a \<in> set (required_active r). active_ok sigs G P a) \<and>
    (\<forall>a \<in> set (required_owner r). owner_ok sigs G P a)"
proof -
  let ?K = "\<lambda>k. k \<in> set sigs"
  let ?I = "check_inv ?K (active_approved P) (g_active G)"
  let ?s = "pre_approve (owner_approvals P) (pre_approve (active_approvals P) (limited_state sigs (g_active G) [] L))"
  have inv: "?I ?s"
    using pre_approve_inv [OF pre_approve_inv [OF limited_state_inv [of sigs "[]" "g_active G" L]]]
    by (simp add: active_approved_def)
  obtain t u w where
    t: "rfold (\<lambda>auth. require Tx_missing_other_auth [check_authority auth]) (required_other r) ?s = Inr t" and
    u: "rfold (\<lambda>a. require Tx_missing_active_auth [check_authority_of a, check_getter (g_owner G) a])
       (required_active r) t = Inr u" and
    w: "rfold (\<lambda>a s. if a \<in> set (owner_approvals P) then Inr s
          else require Tx_missing_owner_auth [check_getter (g_owner G) a] s) (required_owner r) u = Inr w"
    using assms by (auto simp: verify_active_def)
  have 1: "?I t \<and> (\<forall>x \<in> set (required_other r). other_ok sigs G P x)"
  proof (rule rfold_require [OF _ inv t])
    fix x s s' assume i: "?I s" and req: "require Tx_missing_other_auth [check_authority x] s = Inr s'"
    show "?I s' \<and> other_ok sigs G P x"
      by (rule require_sound [OF _ i req]) (auto intro!: chk_check_authority simp: other_ok_def)
  qed
  have 2: "?I u \<and> (\<forall>a \<in> set (required_active r). active_ok sigs G P a)"
  proof (rule rfold_require [OF _ conjunct1 [OF 1] u])
    fix a s s'
    assume i: "?I s"
      and req: "require Tx_missing_active_auth [check_authority_of a, check_getter (g_owner G) a] s = Inr s'"
    show "?I s' \<and> active_ok sigs G P a"
      by (rule require_sound [OF _ i req])
        (auto intro!: chk_check_of chk_check_getter simp: active_ok_def approvable_def)
  qed
  have 3: "?I w \<and> (\<forall>a \<in> set (required_owner r). owner_ok sigs G P a)"
  proof (rule rfold_require [OF _ conjunct1 [OF 2] w])
    fix a s s'
    assume i: "?I s" and step: "(if a \<in> set (owner_approvals P) then Inr s
        else require Tx_missing_owner_auth [check_getter (g_owner G) a] s) = Inr s'"
    show "?I s' \<and> owner_ok sigs G P a"
    proof (cases "a \<in> set (owner_approvals P)")
      case True
      then show ?thesis using step i by (simp add: owner_ok_def)
    next
      case False
      then have req: "require Tx_missing_owner_auth [check_getter (g_owner G) a] s = Inr s'" using step by simp
      show ?thesis
        by (rule require_sound [OF _ i req]) (auto intro!: chk_check_getter simp: owner_ok_def)
    qed
  qed
  show ?thesis using 1 2 3 by blast
qed

lemma verify_authority_soundness:
  assumes "verify_authority C ops sigs G L P = Inr ()" "v \<in> set ops"
  shows "(\<forall>a \<in> set (op_active C v). active_ok sigs G P a) \<and>
    (\<forall>a \<in> set (op_owner C v). owner_ok sigs G P a) \<and>
    (\<forall>a \<in> set (op_posting C v). posting_ok sigs G P a) \<and>
    (\<forall>x \<in> set (op_other C v). other_ok sigs G P x)"
proof -
  let ?r = "get_required_authorities C ops no_auths"
  have sub: "set (op_active C v) \<subseteq> set (required_active ?r)" "set (op_owner C v) \<subseteq> set (required_owner ?r)"
    "set (op_posting C v) \<subseteq> set (required_posting ?r)" "set (op_other C v) \<subseteq> set (required_other ?r)"
    using assms(2) unfolding get_required_sets by auto
  show ?thesis
  proof (cases "required_posting ?r = []")
    case True
    then have "verify_active sigs G L P ?r = Inr ()" using assms(1) by (simp add: verify_authority_def)
    from verify_active_sound [OF this] show ?thesis using sub True by auto
  next
    case False
    then have "verify_posting sigs G L P ?r = Inr ()" using assms(1) by (simp add: verify_authority_def)
    from verify_posting_sound [OF this] show ?thesis using sub by auto
  qed
qed

text \<open>C4: when a transaction passes the verification, every authority that any of its operations
  requires is granted by the keys of its signatures: the active authorities by the account's
  active or owner authority, the owner ones by its owner authority, the posting ones by any of
  the three, the explicit ones by themselves; and no operation that needs a posting authority is
  in a transaction with one that needs another kind.\<close>

theorem verify_authority_sound:
  assumes "verify_authority C ops sigs G L P = Inr ()" "v \<in> set ops" "w \<in> set ops"
  shows "(\<forall>a \<in> set (op_active C v). active_ok sigs G P a) \<and>
    (\<forall>a \<in> set (op_owner C v). owner_ok sigs G P a) \<and>
    (\<forall>a \<in> set (op_posting C v). posting_ok sigs G P a) \<and>
    (\<forall>x \<in> set (op_other C v). other_ok sigs G P x) \<and>
    (op_posting C v = [] \<or> op_active C w = [] \<and> op_owner C w = [] \<and> op_other C w = [])"
proof -
  let ?r = "get_required_authorities C ops no_auths"
  have "op_active C w = [] \<and> op_owner C w = [] \<and> op_other C w = []" if "op_posting C v \<noteq> []"
  proof -
    have "set (op_posting C v) \<subseteq> set (required_posting ?r)" using assms(2) by (auto simp: get_required_sets)
    then have "required_posting ?r \<noteq> []" using that by auto
    then have "verify_posting sigs G L P ?r = Inr ()" using assms(1) by (simp add: verify_authority_def)
    then have e: "required_active ?r = []" "required_owner ?r = []" "required_other ?r = []"
      using verify_posting_sound by blast+
    have "set (op_active C w) \<subseteq> set (required_active ?r)" "set (op_owner C w) \<subseteq> set (required_owner ?r)"
      "set (op_other C w) \<subseteq> set (required_other ?r)"
      using assms(3) unfolding get_required_sets by auto
    then show ?thesis unfolding e by simp
  qed
  then show ?thesis using verify_authority_soundness [OF assms(1,2)] by blast
qed

text \<open>A transfer like operation of account 5, whose active authority is account 9's key.\<close>

definition sample_class :: "nat op_class" where
  "sample_class = \<lparr>op_validate = (\<lambda>_. Inr ()), op_active = (\<lambda>n. [of_nat n]), op_owner = (\<lambda>_. []),
     op_posting = (\<lambda>_. []), op_other = (\<lambda>_. [])\<rparr>"

definition sample_getters :: getters where
  "sample_getters = \<lparr>g_active = sample_getter, g_owner = sample_getter, g_posting = sample_getter\<rparr>"

definition sample_limits :: limits where
  "sample_limits = \<lparr>l_recursion = 2, l_membership = 40, l_account_auths = 125\<rparr>"

lemmas sample_simps = sample_class_def sample_getters_def sample_limits_def sample_getter_def no_approvals_def
  no_auths_def

lemma sample_sets: "get_required_authorities sample_class [5] no_auths = no_auths\<lparr>required_active := [5]\<rparr>"
  by (simp add: get_required_authorities_def auth_visitor_def sample_class_def no_auths_def set_insert_all_def
      insort_insert_key_def)

lemma temp_neq: "TAIYI_TEMP_ACCOUNT \<noteq> 5" "TAIYI_TEMP_ACCOUNT \<noteq> 9"
proof -
  have "replicate 12 (CHR 0x00) = [CHR 0x00, CHR 0x00, CHR 0x00, CHR 0x00, CHR 0x00, CHR 0x00,
      CHR 0x00, CHR 0x00, CHR 0x00, CHR 0x00, CHR 0x00, CHR 0x00]"
    by (simp add: numeral_eq_Suc)
  then show "TAIYI_TEMP_ACCOUNT \<noteq> 5" "TAIYI_TEMP_ACCOUNT \<noteq> 9"
    by (simp_all add: TAIYI_TEMP_ACCOUNT_def fs_of_def be_nat_def fs_buffer_def fs_size_of_def)
qed

lemma check_two_levels:
  "check_authority_impl 2 = check_body (Some (check_body (Some (check_body None))))"
  by (simp add: numeral_2_eq_2)

lemma sample_verifies: "verify_authority sample_class [5] [9] sample_getters sample_limits no_approvals = Inr ()"
proof -
  have c: "\<not> (125::u32) \<le> 1" by (simp add: word_le_nat_alt)
  show ?thesis
    unfolding verify_authority_def sample_sets
    by (auto simp: c verify_active_def sample_simps limited_state_def new_sign_state_def pre_approve_def
        require_def check_authority_of_def check_two_levels check_body_def signed_by_def visit_account_def count_weight_def
        no_unused_def remove_unused_signatures_def temp_neq [symmetric] Let_def)
qed

lemma verify_authority_sound_witness:
  "active_ok [9] sample_getters no_approvals 5"
  using verify_authority_sound [OF sample_verifies, of 5 5] by (simp add: sample_class_def)

subsection \<open>Minimising the signatures\<close>

lemma insort_remove1:
  "sorted xs \<Longrightarrow> distinct xs \<Longrightarrow> k \<in> set xs \<Longrightarrow> insort_insert k (remove1 k xs) = xs"
  by (simp add: insort_insert_key_def insort_remove1)

text \<open>A key that is kept was needed by a set of signatures that contains the result.\<close>

definition needed :: "(public_key_type list \<Rightarrow> unit res) \<Rightarrow> public_key_type list \<Rightarrow> public_key_type \<Rightarrow> bool" where
  "needed verify res k \<longleftrightarrow> (\<exists>T e. set res \<subseteq> set T \<and> k \<in> set T \<and>
     verify (remove1 k T) = Inl e \<and> is_missing_auth e)"

lemma minimize_loop:
  assumes "rfold (minimize_step V) ks res = Inr res'"
    and "sorted res" "distinct res" "set ks \<subseteq> set res" "distinct ks"
  shows "sorted res' \<and> distinct res' \<and> set res' \<subseteq> set res \<and> (res' = res \<or> V res' = Inr ()) \<and>
    (\<forall>k \<in> set ks \<inter> set res'. needed V res' k)"
  using assms
proof (induction ks arbitrary: res)
  case Nil
  then show ?case by simp
next
  case (Cons k ks)
  have k: "k \<in> set res" using Cons.prems by simp
  show ?case
  proof (cases "V (remove1 k res)")
    case (Inr u)
    have run: "rfold (minimize_step V) ks (remove1 k res) = Inr res'"
    proof -
      have "minimize_step V k res = Inr (remove1 k res)" using Inr by (simp add: minimize_step_def)
      then show ?thesis using Cons.prems(1) by simp
    qed
    have ih: "sorted res' \<and> distinct res' \<and> set res' \<subseteq> set (remove1 k res) \<and>
        (res' = remove1 k res \<or> V res' = Inr ()) \<and> (\<forall>j \<in> set ks \<inter> set res'. needed V res' j)"
      using Cons.prems by (intro Cons.IH [OF run]) (auto simp: sorted_remove1)
    moreover have "k \<notin> set res'" using ih Cons.prems(3) by auto
    moreover have "set (remove1 k res) \<subseteq> set res" by (rule set_remove1_subset)
    ultimately show ?thesis using Inr by (cases u) auto
  next
    case (Inl e)
    then have m: "is_missing_auth e" and run: "rfold (minimize_step V) ks res = Inr res'"
    proof -
      have "minimize_step V k res = (if is_missing_auth e then Inr res else Inl e)"
        using Inl insort_remove1 [OF Cons.prems(2,3) k] by (simp add: minimize_step_def)
      then show "is_missing_auth e" "rfold (minimize_step V) ks res = Inr res'"
        using Cons.prems(1) by (auto split: if_splits)
    qed
    have ih: "sorted res' \<and> distinct res' \<and> set res' \<subseteq> set res \<and> (res' = res \<or> V res' = Inr ()) \<and>
        (\<forall>j \<in> set ks \<inter> set res'. needed V res' j)"
      using Cons.prems by (intro Cons.IH [OF run]) auto
    moreover have "needed V res' k" using ih m Inl k by (auto simp: needed_def)
    ultimately show ?thesis by auto
  qed
qed

lemma get_required_sorted:
  assumes "get_required_signatures C recover tx keys G L = Inr s"
  shows "sorted s \<and> distinct s \<and> set s \<subseteq> set keys"
proof -
  obtain t where "s = available_provided keys t"
    using assms by (auto simp: get_required_signatures_def Let_def split: if_splits)
  then show ?thesis by (auto simp: available_provided_def)
qed

text \<open>C24: minimising signatures yields available keys only; either nothing could be dropped, or
  the smaller set itself passes the verification; and every key that is kept was needed:
  without it some set that contains the result lacks an authority.\<close>

theorem minimize_correct:
  assumes "minimize_required_signatures C recover tx keys G L = Inr r"
  defines "V \<equiv> \<lambda>result. verify_authority C (tx_operations tx) result G L no_approvals"
  shows "\<exists>s. get_required_signatures C recover tx keys G L = Inr s \<and>
    set r \<subseteq> set s \<and> set s \<subseteq> set keys \<and> distinct r \<and> (r = s \<or> V r = Inr ()) \<and> (\<forall>k \<in> set r. needed V r k)"
proof -
  obtain s where s: "get_required_signatures C recover tx keys G L = Inr s"
    and run: "rfold (minimize_step V) s s = Inr r"
    using assms(1) unfolding minimize_required_signatures_def V_def by auto
  have "sorted s" "distinct s" "set s \<subseteq> set keys" using get_required_sorted [OF s] by auto
  with minimize_loop [OF run] show ?thesis using s by blast
qed

definition sample_tx :: "(nat, nat) transaction" where
  "sample_tx = \<lparr>tx_operations = [5], tx_signatures = []\<rparr>"

lemma sample_required:
  "get_required_signatures sample_class Inr sample_tx [7, 9] sample_getters sample_limits = Inr [9]"
proof -
  have c: "\<not> (125::u32) \<le> 1" by (simp add: word_le_nat_alt)
  have t: "tx_operations sample_tx = [5]" "tx_signatures sample_tx = []" by (simp_all add: sample_tx_def)
  show ?thesis
    unfolding get_required_signatures_def t sample_sets
    by (auto simp: t get_signature_keys_def try_check_def
        sample_simps limited_state_def new_sign_state_def check_authority_of_def check_two_levels check_body_def
        signed_by_def visit_account_def count_weight_def remove_unused_signatures_def temp_neq [symmetric] Let_def c
        available_provided_def set_insert_all_def insort_insert_key_def)
qed

lemma sample_fails: "verify_authority sample_class [5] [] sample_getters sample_limits no_approvals = Inl Tx_missing_active_auth"
proof -
  have c: "\<not> (125::u32) \<le> 1" by (simp add: word_le_nat_alt)
  show ?thesis
    unfolding verify_authority_def sample_sets
    by (simp add: c verify_active_def sample_simps limited_state_def new_sign_state_def pre_approve_def
        require_def check_authority_of_def check_two_levels check_body_def signed_by_def visit_account_def count_weight_def
        check_getter_def check_authority_def
        no_unused_def remove_unused_signatures_def temp_neq [symmetric] Let_def)
qed

lemma minimize_correct_witness:
  "\<exists>s. get_required_signatures sample_class Inr sample_tx [7, 9] sample_getters sample_limits = Inr s \<and> set [9] \<subseteq> set s"
proof -
  have "minimize_required_signatures sample_class Inr sample_tx [7, 9] sample_getters sample_limits = Inr [9]"
  proof -
    have "tx_operations sample_tx = [5]" by (simp add: sample_tx_def)
    then have "minimize_step (\<lambda>r. verify_authority sample_class (tx_operations sample_tx) r sample_getters
        sample_limits no_approvals) 9 [9] = Inr [9]"
      using sample_fails by (simp add: minimize_step_def is_missing_auth_def insort_insert_key_def)
    then show ?thesis by (simp add: minimize_required_signatures_def sample_required)
  qed
  from minimize_correct [OF this] show ?thesis by blast
qed

end
