(* ===== verification/State.thy ===== *)
theory State
  imports Asset Transaction "HOL-Library.Product_Lexorder"
begin

section \<open>The state of the chain\<close>

text \<open>
  The objects of libraries/chain that the token economy, the simings, the accounts and the NFAs
  use, one record per object class with its default values, and the record of all indexes. An
  index is a table in the order of the key it is looked up by; object ids are kept where the
  code uses them. A \<open>time_point_sec\<close> is a number of seconds.
\<close>

type_synonym time_point_sec = nat

definition TIME_MAX :: time_point_sec where "TIME_MAX = 4294967295"

definition TAIYI_MAX_PROXY_RECURSION_DEPTH :: nat where "TAIYI_MAX_PROXY_RECURSION_DEPTH = 4"

abbreviation yang :: "int \<Rightarrow> asset" where "yang x \<equiv> mk_asset x YANG_SYMBOL"
abbreviation qis :: "int \<Rightarrow> asset" where "qis x \<equiv> mk_asset x QI_SYMBOL"

subsection \<open>Accounts\<close>

record account_object =
  acc_id :: nat
  memo_key :: public_key_type
  proxy :: account_name_type
  last_account_update :: time_point_sec
  acc_created :: time_point_sec
  recovery_account :: account_name_type
  last_account_recovery :: time_point_sec
  can_adore :: bool
  balance :: asset
  reward_yang_balance :: asset
  reward_qi_balance :: asset
  reward_feigang_balance :: asset
  qi :: asset
  delegated_qi :: asset
  received_qi :: asset
  qi_withdraw_rate :: asset
  next_qi_withdrawal_time :: time_point_sec
  withdrawn :: int
  to_withdraw :: int
  withdraw_routes :: u16
  proxied_vsf_adores :: "int list"
  simings_adored_for :: u16

definition new_account_object :: account_object where
  "new_account_object =
     \<lparr>acc_id = 0, memo_key = 0, proxy = 0, last_account_update = 0, acc_created = 0,
      recovery_account = 0, last_account_recovery = 0, can_adore = True, balance = yang 0,
      reward_yang_balance = yang 0, reward_qi_balance = qis 0, reward_feigang_balance = qis 0,
      qi = qis 0, delegated_qi = qis 0, received_qi = qis 0, qi_withdraw_rate = qis 0,
      next_qi_withdrawal_time = TIME_MAX, withdrawn = 0, to_withdraw = 0, withdraw_routes = 0,
      proxied_vsf_adores = replicate TAIYI_MAX_PROXY_RECURSION_DEPTH 0, simings_adored_for = 0\<rparr>"

record account_authority_object =
  auth_owner :: authority
  auth_active :: authority
  auth_posting :: authority
  last_owner_update :: time_point_sec

record qi_delegation_object =
  deleg_qi :: asset
  min_delegation_time :: time_point_sec

record qi_delegation_expiration_object =
  exp_delegator :: account_name_type
  exp_qi :: asset
  exp_expiration :: time_point_sec

record owner_authority_history_object =
  hist_account :: account_name_type
  previous_owner_authority :: authority
  last_valid_time :: time_point_sec

record account_recovery_request_object =
  new_owner_authority :: authority
  rec_expires :: time_point_sec

record change_recovery_account_request_object =
  chg_recovery_account :: account_name_type
  effective_on :: time_point_sec

record withdraw_qi_route_object =
  route_percent :: u16
  auto_vest :: bool

record reward_fund_object =
  fund_name :: account_name_type
  reward_balance :: asset
  fund_qi_balance :: asset
  fund_last_update :: time_point_sec
  percent_content_rewards :: u16

record account_regular_balance_object =
  bal_liquid :: asset
  bal_qi :: asset

record account_rewards_balance_object =
  pending_liquid :: asset
  pending_qi :: asset

subsection \<open>Simings\<close>

datatype siming_schedule_type = elected | timeshare | miner | none_scheduled

record chain_properties =
  account_creation_fee :: asset
  cp_maximum_block_size :: u32
  proposal_adopted_votes_threshold :: u32

record siming_object =
  sim_id :: nat
  sim_created :: time_point_sec
  sim_url :: string
  total_missed :: u32
  last_aslot :: u64
  last_confirmed_block_num :: u64
  signing_key :: public_key_type
  sim_props :: chain_properties
  adores :: int
  sim_schedule :: siming_schedule_type
  virtual_last_update :: u128
  virtual_position :: u128
  virtual_scheduled_time :: u128
  running_version :: u32
  hardfork_version_vote :: u32
  hardfork_time_vote :: time_point_sec

definition TAIYI_GENESIS_TIME :: time_point_sec where "TAIYI_GENESIS_TIME = 1762840800"
definition TAIYI_MIN_ACCOUNT_CREATION_FEE :: int where "TAIYI_MIN_ACCOUNT_CREATION_FEE = 1"
definition TAIYI_MAX_TRANSACTION_SIZE :: u32 where "TAIYI_MAX_TRANSACTION_SIZE = 1024 * 64"
definition TAIYI_MIN_BLOCK_SIZE_LIMIT :: u32 where "TAIYI_MIN_BLOCK_SIZE_LIMIT = TAIYI_MAX_TRANSACTION_SIZE"
definition TAIYI_PROPOSAL_ADOPTED_VOTES_THRESHOLD_INIT :: u32 where "TAIYI_PROPOSAL_ADOPTED_VOTES_THRESHOLD_INIT = 3"

definition default_chain_properties :: chain_properties where
  "default_chain_properties =
     \<lparr>account_creation_fee = yang TAIYI_MIN_ACCOUNT_CREATION_FEE,
      cp_maximum_block_size = TAIYI_MIN_BLOCK_SIZE_LIMIT * 2,
      proposal_adopted_votes_threshold = TAIYI_PROPOSAL_ADOPTED_VOTES_THRESHOLD_INIT\<rparr>"

definition new_siming_object :: siming_object where
  "new_siming_object =
     \<lparr>sim_id = 0, sim_created = 0, sim_url = '''', total_missed = 0, last_aslot = 0,
      last_confirmed_block_num = 0, signing_key = 0, sim_props = default_chain_properties, adores = 0,
      sim_schedule = none_scheduled, virtual_last_update = 0, virtual_position = 0,
      virtual_scheduled_time = - 1, running_version = 0, hardfork_version_vote = 0,
      hardfork_time_vote = TAIYI_GENESIS_TIME\<rparr>"

record siming_schedule_object =
  current_virtual_time :: u128
  next_shuffle_block_num :: u32
  current_shuffled_simings :: "account_name_type list"
  num_scheduled_simings :: u8
  median_props :: chain_properties
  majority_version :: u32
  max_adored_simings :: u8
  hardfork_required_simings :: u8

subsection \<open>Global properties\<close>

record dynamic_global_property_object =
  head_block_number :: u32
  head_time :: time_point_sec
  current_siming :: account_name_type
  current_supply :: asset
  total_qi :: asset
  pending_rewarded_qi :: asset
  pending_rewarded_feigang :: asset
  pending_cultivation_qi :: asset
  total_gold :: asset
  total_food :: asset
  total_wood :: asset
  total_fabric :: asset
  total_herb :: asset
  maximum_block_size :: u32
  current_aslot :: u64
  recent_slots_filled :: u128
  participation_count :: u8
  last_irreversible_block_num :: u32
  delegation_return_period :: u32
  next_maintenance_time :: time_point_sec
  xinsu_count :: u32
  content_reward_yang_percent :: u16
  content_reward_qi_fund_percent :: u16
  last_siming_production_reward :: asset

record hardfork_property_object =
  processed_hardforks :: "time_point_sec list"
  last_hardfork :: u32
  current_hardfork_version :: u32
  next_hardfork :: u32
  next_hardfork_time :: time_point_sec

subsection \<open>Values of the contract language\<close>

text \<open>
  \<open>lua_types\<close> of protocol/lua_types.hpp: numbers are the bits of a double, functions are summaries of their
  parameters, tables are lists of keys (one of the first four kinds) and values.
\<close>

datatype lua_types =
    Lua_int int
  | Lua_number u64
  | Lua_string string
  | Lua_bool bool
  | Lua_table "(lua_types \<times> lua_types) list"
  | Lua_function bool "string list"
  | Lua_memo string
  | Lua_asset asset

type_synonym lua_map = "(lua_types \<times> lua_types) list"

subsection \<open>NFAs\<close>

record nfa_symbol_object =
  sym_creator :: nat
  authority_account :: nat
  authority_nfa_symbol :: nat
  sym_name :: string
  sym_describe :: string
  default_contract :: nat
  sym_count :: u64
  max_count :: u64
  min_equivalent_qi :: u64
  is_sbt :: bool

record nfa_object =
  creator_account :: nat
  owner_account :: nat
  active_account :: nat
  symbol_id :: nat
  nfa_parent :: nat
  main_contract :: nat
  nfa_contract_data :: lua_map
  nfa_qi :: asset
  debt_value :: int
  debt_contract :: nat
  cultivation_value :: u64
  nfa_created :: time_point_sec
  next_tick_block :: u32

record nfa_material_object =
  mat_gold :: asset
  mat_food :: asset
  mat_wood :: asset
  mat_fabric :: asset
  mat_herb :: asset

subsection \<open>Zones, actors, the calendar and cultivations\<close>

text \<open>An id that is not set is the largest one, which no object has.\<close>

datatype E_ZONE_TYPE =
    XUKONG | YUANYE | HUPO | NONGTIAN | LINDI | MILIN | YUANLIN | SHANYUE | DONGXUE | SHILIN | QIULIN | TAOYUAN
  | SANGYUAN | XIAGU | ZAOZE | YAOYUAN | HAIYANG | SHAMO | HUANGYE | ANYUAN
  | DUHUI | MENPAI | SHIZHEN | GUANSAI | CUNZHUANG | ZONE_INVALID_TYPE

record zone_object =
  zone_nfa :: nat
  zone_name :: string
  zone_type :: E_ZONE_TYPE
  ref_prohibited_contract_zone :: nat

datatype E_ACTOR_STANDPOINT_TYPE = UPRIGHT | KINDNESS | MIDDLEBROW | REBEL | SOLIPSISM

record actor_object =
  actor_nfa :: nat
  actor_name :: string
  family_name :: string
  mid_name :: string
  last_name :: string
  age :: u16
  health :: u16
  health_max :: u16
  init_attribute_amount_max :: u16
  born :: bool
  gender :: int
  sexuality :: int
  fertility :: int
  born_time :: time_point_sec
  born_vyears :: int
  born_vmonths :: int
  born_vdays :: int
  born_vtod :: int
  born_vtimes :: int
  standpoint :: u32
  loyalty :: int
  location :: nat
  actor_base :: nat
  need_mating_target :: nat
  need_mating_end_block_num :: u32
  need_bullying_target :: nat
  need_bullying_end_block_num :: u32
  is_pregnant :: bool
  pregnant_father :: nat
  pregnant_mother :: nat
  pregnant_end_block_num :: u32
  pregnant_lock_end_block_num :: u32
  actor_last_update :: time_point_sec
  actor_next_tick_block :: u32

text \<open>The attributes of an actor in the order of the object, each with its value and its maximum.\<close>

record actor_core_attributes_object =
  attr_value :: "u16 list"
  attr_max :: "u16 list"
  attr_last_update :: time_point_sec
  attr_created :: time_point_sec

record tiandao_property_object =
  cruelty :: int
  enjoyment :: int
  decay :: int
  falsity :: int
  v_years :: u32
  v_months :: u32
  v_days :: u32
  v_timeonday :: u32
  v_times :: u32
  next_npc_born_time :: time_point_sec
  zone_grow_gold_speed_map :: "int list"
  zone_grow_food_speed_map :: "int list"
  zone_grow_wood_speed_map :: "int list"
  zone_grow_fabric_speed_map :: "int list"
  zone_grow_herb_speed_map :: "int list"
  zone_gold_max_map :: "int list"
  zone_food_max_map :: "int list"
  zone_wood_max_map :: "int list"
  zone_fabric_max_map :: "int list"
  zone_herb_max_map :: "int list"
  zone_moving_difficulty_map :: "int list"
  zone_type_connection_max_num_map :: "(E_ZONE_TYPE \<times> nat) list"
  amount_actor_last_vyear :: u32
  dead_actor_last_vyear :: u32

record cultivation_object =
  manager_nfa_id :: nat
  beneficiary_map :: "u32 table"
  participants :: "unit table"
  create_time :: u32
  start_deadline :: u32
  start_time :: u32
  last_update_time :: u32
  qi_accumulated :: int

subsection \<open>Contracts and proposals\<close>

record contract_object =
  contract_owner :: nat
  contract_name :: string
  current_version :: nat
  is_release :: bool
  contract_data :: lua_map
  contract_ABI :: lua_map
  lua_code_b_id :: nat
  creation_date :: time_point_sec

record contract_bin_code_object =
  code_contract :: nat
  lua_code_b :: string
  source_code :: string

record proposal_object =
  prop_creator :: nat
  prop_contract :: string
  prop_function :: string
  prop_values :: "lua_types list"
  end_date :: time_point_sec
  prop_subject :: string
  total_votes :: u64
  prop_removed :: bool

subsection \<open>Virtual operations and the database\<close>

text \<open>The virtual operations the database announces to its observers, in order.\<close>

datatype virtual_op =
    Fill_qi_withdraw account_name_type account_name_type asset asset
  | Producer_reward account_name_type asset
  | Reward_feigang account_name_type "nat option" account_name_type asset
  | Return_qi_delegation account_name_type asset
  | Hardfork_vop u32
  | Shutdown_siming account_name_type
  | Reward_cultivation account_name_type nat asset
  | Nfa_deposit_withdraw nat account_name_type asset asset
  | Tiandao_year_change u32 u32 u32 u32 u32
  | Tiandao_month_change u32 u32 u32
  | Tiandao_time_change u32 u32 u32
  | Proposal_execute string string "lua_types list" string
  | Create_proposal account_name_type string string "lua_types list" time_point_sec string
  | Update_proposal_votes account_name_type "int list" bool
  | Remove_proposal account_name_type "int list"
  | Nfa_convert_resources nat account_name_type asset asset bool
  | Nfa_asset_transfer nat account_name_type nat account_name_type asset
  | Nfa_transfer account_name_type account_name_type nat
  | Nfa_active_approve account_name_type account_name_type nat
  | Nfa_symbol_create account_name_type string string string u64 u64 bool
  | Nfa_symbol_authority_change account_name_type string string string
  | Zone_type_change account_name_type string nat string
  | Zone_connect account_name_type string nat string nat
  | Actor_born account_name_type string string nat

record chain =
  accounts :: "(account_name_type, account_object) tbl"
  next_account_id :: nat
  authorities :: "(account_name_type, account_authority_object) tbl"
  metadata :: "(nat, string) tbl"
  simings :: "(account_name_type, siming_object) tbl"
  next_siming_id :: nat
  siming_adores :: "(account_name_type \<times> account_name_type, unit) tbl"
  schedule :: siming_schedule_object
  gpo :: dynamic_global_property_object
  hardforks :: hardfork_property_object
  routes :: "(account_name_type \<times> account_name_type, withdraw_qi_route_object) tbl"
  reward_funds :: "reward_fund_object table"
  decline_requests :: "(account_name_type, time_point_sec) tbl"
  recovery_requests :: "(account_name_type, account_recovery_request_object) tbl"
  change_requests :: "(account_name_type, change_recovery_account_request_object) tbl"
  owner_history :: "owner_authority_history_object table"
  next_history_id :: nat
  delegations :: "(account_name_type \<times> account_name_type, qi_delegation_object) tbl"
  delegation_expirations :: "qi_delegation_expiration_object table"
  next_expiration_id :: nat
  regular_balances :: "(account_name_type \<times> asset_symbol_type, account_regular_balance_object) tbl"
  rewards_balances :: "(account_name_type \<times> asset_symbol_type, account_rewards_balance_object) tbl"
  nfa_symbols :: "nfa_symbol_object table"
  next_nfa_symbol_id :: nat
  nfas :: "nfa_object table"
  next_nfa_id :: nat
  nfa_materials :: "nfa_material_object table"
  nfa_balances :: "(nat \<times> asset_symbol_type, asset) tbl"
  xinsu_mark_nfa_symbol_id :: nat
  zones :: "zone_object table"
  zone_contract_permissions :: "(nat \<times> nat, bool) tbl"
  zone_connects :: "(nat \<times> nat, unit) tbl"
  actors :: "actor_object table"
  core_attributes :: "actor_core_attributes_object table"
  tiandao :: tiandao_property_object
  cultivations :: "cultivation_object table"
  next_cultivation_id :: nat
  contracts :: "contract_object table"
  next_contract_id :: nat
  contract_codes :: "contract_bin_code_object table"
  next_code_id :: nat
  proposals :: "proposal_object table"
  next_proposal_id :: nat
  proposal_votes :: "(nat \<times> nat, unit) tbl"
  vops :: "virtual_op list"

subsection \<open>Access\<close>

text \<open>\<open>get\<close> throws when there is no such object, \<open>find\<close> returns a null pointer.\<close>

definition find_account :: "chain \<Rightarrow> account_name_type \<Rightarrow> account_object option" where
  "find_account s n = map_of (accounts s) n"

definition get_account :: "chain \<Rightarrow> account_name_type \<Rightarrow> account_object res" where
  "get_account s n = (case map_of (accounts s) n of Some a \<Rightarrow> Inr a | None \<Rightarrow> Inl Out_of_range)"

definition find_siming :: "chain \<Rightarrow> account_name_type \<Rightarrow> siming_object option" where
  "find_siming s n = map_of (simings s) n"

definition get_siming :: "chain \<Rightarrow> account_name_type \<Rightarrow> siming_object res" where
  "get_siming s n = (case map_of (simings s) n of Some w \<Rightarrow> Inr w | None \<Rightarrow> Inl Out_of_range)"

definition put_account :: "account_name_type \<Rightarrow> account_object \<Rightarrow> chain \<Rightarrow> chain" where
  "put_account n a s = s\<lparr>accounts := tput n a (accounts s)\<rparr>"

definition put_siming :: "account_name_type \<Rightarrow> siming_object \<Rightarrow> chain \<Rightarrow> chain" where
  "put_siming n w s = s\<lparr>simings := tput n w (simings s)\<rparr>"

text \<open>\<open>modify\<close>: the change may throw.\<close>

definition modify_account :: "account_name_type \<Rightarrow> (account_object \<Rightarrow> account_object res) \<Rightarrow> chain \<Rightarrow> chain res" where
  "modify_account n f s = rbind (get_account s n) (\<lambda>a. rbind (f a) (\<lambda>a. Inr (put_account n a s)))"

definition modify_siming :: "account_name_type \<Rightarrow> (siming_object \<Rightarrow> siming_object res) \<Rightarrow> chain \<Rightarrow> chain res" where
  "modify_siming n f s = rbind (get_siming s n) (\<lambda>w. rbind (f w) (\<lambda>w. Inr (put_siming n w s)))"

definition modify_gpo :: "(dynamic_global_property_object \<Rightarrow> dynamic_global_property_object res) \<Rightarrow> chain \<Rightarrow> chain res" where
  "modify_gpo f s = rbind (f (gpo s)) (\<lambda>g. Inr (s\<lparr>gpo := g\<rparr>))"

definition push_vop :: "virtual_op \<Rightarrow> chain \<Rightarrow> chain" where
  "push_vop v s = s\<lparr>vops := vops s @ [v]\<rparr>"

definition head_block_time :: "chain \<Rightarrow> time_point_sec" where
  "head_block_time s = head_time (gpo s)"

definition head_block_num :: "chain \<Rightarrow> u32" where
  "head_block_num s = head_block_number (gpo s)"

text \<open>\<open>std::accumulate\<close> over the proxied adores, starting from the account's own qi.\<close>

definition siming_adore_weight :: "fc_lib \<Rightarrow> account_object \<Rightarrow> int res" where
  "siming_adore_weight F a = rfold (\<lambda>x acc. s_add F acc x) (proxied_vsf_adores a) (amount (qi a))"

definition proxied_vsf_adores_total :: "fc_lib \<Rightarrow> account_object \<Rightarrow> int res" where
  "proxied_vsf_adores_total F a = rfold (\<lambda>x acc. s_add F acc x) (proxied_vsf_adores a) 0"

lemma get_account_Inr [simp]: "get_account s n = Inr a \<longleftrightarrow> map_of (accounts s) n = Some a"
  by (simp add: get_account_def split: option.split)

lemma get_siming_Inr [simp]: "get_siming s n = Inr w \<longleftrightarrow> map_of (simings s) n = Some w"
  by (simp add: get_siming_def split: option.split)

end
