(* ===== verification/Ledger.thy ===== *)
theory Ledger
  imports State
begin

section \<open>Balances, qi and the adores that follow it\<close>

text \<open>
  The balance functions of chain/database.cpp and \<open>reward_feigang\<close> of chain/database_contract.cpp.
  YANG and QI live in the account object, every other asset in balance objects that exist only
  while they are not zero; each unit of qi counts as an adore for the simings of the account, or
  for its proxy up to four levels away.
\<close>

subsection \<open>Balance objects\<close>

definition has_balance_object :: "asset_symbol_type \<Rightarrow> bool" where
  "has_balance_object sy \<longleftrightarrow> space sy = fai_space \<or>
     sy \<in> {TAIYI_ASSET_NUM_GOLD, TAIYI_ASSET_NUM_FOOD, TAIYI_ASSET_NUM_WOOD,
            TAIYI_ASSET_NUM_FABRIC, TAIYI_ASSET_NUM_HERB}"

text \<open>What \<open>adjust_asset_balance\<close> uses of an object class and its balance operator.\<close>

record 'b balance_ops =
  bo_clear :: "asset_symbol_type \<Rightarrow> 'b res"
  bo_add :: "'b \<Rightarrow> 'b res"
  bo_combined :: "'b \<Rightarrow> (int \<times> bool) res"
  bo_validate :: "'b \<Rightarrow> bool res"

definition liquid_symbol :: "asset_symbol_type \<Rightarrow> asset_symbol_type res" where
  "liquid_symbol sy = rbind (is_qi sy) (\<lambda>q. if q then get_paired_symbol sy else Inr sy)"

definition adjust_asset_balance ::
  "chain \<Rightarrow> account_name_type \<Rightarrow> asset \<Rightarrow> bool \<Rightarrow> 'b balance_ops \<Rightarrow>
     (account_name_type \<times> asset_symbol_type, 'b) tbl \<Rightarrow> (account_name_type \<times> asset_symbol_type, 'b) tbl res" where
  "adjust_asset_balance s name delta check_account ops t =
     rbind (liquid_symbol (symbol delta)) (\<lambda>liq.
     case map_of t (name, liq) of
       None \<Rightarrow>
         rguard (amount delta \<ge> 0) (Assert ''Insufficient FA funds'')
         (if amount delta = 0 then Inr t
          else rbind (if check_account then get_account s name else Inr new_account_object) (\<lambda>_.
               rbind (bo_clear ops liq) (\<lambda>bo.
               rbind (bo_add ops bo) (\<lambda>bo.
               rbind (bo_validate ops bo) (\<lambda>_. Inr (tput (name, liq) bo t))))))
     | Some bo \<Rightarrow>
         rbind (bo_combined ops bo) (\<lambda>(result, is_all_zero).
         rguard (result \<ge> 0) (Assert ''Insufficient FA funds'')
         (if is_all_zero then Inr (tdel (name, liq) t)
          else rbind (bo_add ops bo) (\<lambda>bo. Inr (tput (name, liq) bo t)))))"

definition regular_balance_ops :: "fc_lib \<Rightarrow> asset \<Rightarrow> bool \<Rightarrow> account_regular_balance_object balance_ops" where
  "regular_balance_ops F delta q =
     \<lparr>bo_clear = (\<lambda>liq. rbind (get_paired_symbol liq) (\<lambda>p. Inr \<lparr>bal_liquid = mk_asset 0 liq, bal_qi = mk_asset 0 p\<rparr>)),
      bo_add = (\<lambda>bo. if q then rbind (asset_add F (bal_qi bo) delta) (\<lambda>x. Inr (bo\<lparr>bal_qi := x\<rparr>))
                     else rbind (asset_add F (bal_liquid bo) delta) (\<lambda>x. Inr (bo\<lparr>bal_liquid := x\<rparr>))),
      bo_combined = (\<lambda>bo. rbind (asset_add F (if q then bal_qi bo else bal_liquid bo) delta) (\<lambda>r.
         Inr (amount r, amount r = 0 \<and> (if q then amount (bal_liquid bo) else amount (bal_qi bo)) = 0))),
      bo_validate = (\<lambda>bo. rbind (get_paired_symbol (symbol (bal_qi bo))) (\<lambda>p. Inr (symbol (bal_liquid bo) = p)))\<rparr>"

definition rewards_balance_ops :: "fc_lib \<Rightarrow> asset \<Rightarrow> asset \<Rightarrow> account_rewards_balance_object balance_ops" where
  "rewards_balance_ops F liquid_delta share_delta = (let q = (amount share_delta \<noteq> 0) in
     \<lparr>bo_clear = (\<lambda>liq. rbind (get_paired_symbol liq) (\<lambda>p. Inr \<lparr>pending_liquid = mk_asset 0 liq, pending_qi = mk_asset 0 p\<rparr>)),
      bo_add = (\<lambda>bo. if q then rbind (asset_add F (pending_qi bo) share_delta) (\<lambda>x. Inr (bo\<lparr>pending_qi := x\<rparr>))
                     else rbind (asset_add F (pending_liquid bo) liquid_delta) (\<lambda>x. Inr (bo\<lparr>pending_liquid := x\<rparr>))),
      bo_combined = (\<lambda>bo. rbind
         (if q then rbind (asset_at_price F (pending_qi bo) TAIYI_QI_SHARE_PRICE) (\<lambda>x. asset_add F x liquid_delta)
          else asset_add F (pending_liquid bo) liquid_delta) (\<lambda>r.
         Inr (amount r, amount r = 0 \<and> (if q then amount (pending_liquid bo) else amount (pending_qi bo)) = 0))),
      bo_validate = (\<lambda>bo. rbind (get_paired_symbol (symbol (pending_qi bo))) (\<lambda>p. Inr (symbol (pending_liquid bo) = p)))\<rparr>)"

subsection \<open>Balances kept in the account\<close>

definition add_checked :: "fc_lib \<Rightarrow> asset \<Rightarrow> asset \<Rightarrow> bool \<Rightarrow> string \<Rightarrow> asset res" where
  "add_checked F a delta check_balance msg =
     rbind (asset_add F a delta) (\<lambda>x. rguard (\<not> check_balance \<or> amount x \<ge> 0) (Assert msg) (Inr x))"

definition modify_balance :: "fc_lib \<Rightarrow> account_name_type \<Rightarrow> asset \<Rightarrow> bool \<Rightarrow> chain \<Rightarrow> chain res" where
  "modify_balance F n delta check_balance =
     modify_account n (\<lambda>acnt.
       if symbol delta = TAIYI_ASSET_NUM_YANG then
         rbind (add_checked F (balance acnt) delta check_balance ''Insufficient YANG funds'')
           (\<lambda>x. Inr (acnt\<lparr>balance := x\<rparr>))
       else if symbol delta = TAIYI_ASSET_NUM_QI then
         rbind (add_checked F (qi acnt) delta check_balance ''Insufficient QI funds'')
           (\<lambda>x. Inr (acnt\<lparr>qi := x\<rparr>))
       else Inl (Assert ''invalid symbol''))"

definition modify_reward_balance ::
  "fc_lib \<Rightarrow> account_name_type \<Rightarrow> asset \<Rightarrow> asset \<Rightarrow> asset \<Rightarrow> bool \<Rightarrow> chain \<Rightarrow> chain res" where
  "modify_reward_balance F n value_delta share_delta feigang_delta check_balance =
     modify_account n (\<lambda>acnt.
       if symbol value_delta = TAIYI_ASSET_NUM_YANG then
         rbind (if amount share_delta = 0 then
                  rbind (add_checked F (reward_yang_balance acnt) value_delta check_balance ''Insufficient reward YANG funds'')
                    (\<lambda>x. Inr (acnt\<lparr>reward_yang_balance := x\<rparr>))
                else
                  rbind (add_checked F (reward_qi_balance acnt) share_delta check_balance ''Insufficient reward QI funds'')
                    (\<lambda>x. Inr (acnt\<lparr>reward_qi_balance := x\<rparr>))) (\<lambda>acnt.
         rbind (add_checked F (reward_feigang_balance acnt) feigang_delta check_balance ''Insufficient reward QI (Feigang) funds'')
           (\<lambda>x. Inr (acnt\<lparr>reward_feigang_balance := x\<rparr>)))
       else Inl (Assert ''invalid value symbol''))"

definition get_balance :: "chain \<Rightarrow> account_name_type \<Rightarrow> account_object \<Rightarrow> asset_symbol_type \<Rightarrow> asset res" where
  "get_balance s n a sy =
     (if sy = TAIYI_ASSET_NUM_YANG then Inr (balance a)
      else if sy = TAIYI_ASSET_NUM_QI then Inr (qi a)
      else rguard (has_balance_object sy) (Assert ''Invalid symbol'')
        (rbind (is_qi sy) (\<lambda>q.
         rbind (if q then get_paired_symbol sy else Inr sy) (\<lambda>liq.
         case map_of (regular_balances s) (n, liq) of
           None \<Rightarrow> Inr (mk_asset 0 sy)
         | Some bo \<Rightarrow> Inr (if q then bal_qi bo else bal_liquid bo)))))"

definition get_balance_of :: "chain \<Rightarrow> account_name_type \<Rightarrow> asset_symbol_type \<Rightarrow> asset res" where
  "get_balance_of s n sy = rbind (get_account s n) (\<lambda>a. get_balance s n a sy)"

definition check_available :: "fc_lib \<Rightarrow> account_name_type \<Rightarrow> asset \<Rightarrow> chain \<Rightarrow> unit res" where
  "check_available F n delta s =
     (if amount delta < 0 then
        rbind (get_balance_of s n (symbol delta)) (\<lambda>available.
        rbind (asset_neg F delta) (\<lambda>required.
        rbind (asset_cmp Ge available required) (\<lambda>b.
        rguard b (Assert ''Account does not have sufficient funds for balance adjustment'') (Inr ()))))
      else Inr ())"

definition adjust_regular :: "fc_lib \<Rightarrow> account_name_type \<Rightarrow> asset \<Rightarrow> bool \<Rightarrow> chain \<Rightarrow> chain res" where
  "adjust_regular F n delta check_account s =
     rbind (is_qi (symbol delta)) (\<lambda>q.
     rbind (adjust_asset_balance s n delta check_account (regular_balance_ops F delta q) (regular_balances s))
       (\<lambda>t. Inr (s\<lparr>regular_balances := t\<rparr>)))"

text \<open>The two overloads: by account object, whose existence is known, and by name.\<close>

definition adjust_balance :: "fc_lib \<Rightarrow> account_name_type \<Rightarrow> asset \<Rightarrow> chain \<Rightarrow> chain res" where
  "adjust_balance F n delta s =
     rbind (check_available F n delta s) (\<lambda>_.
     if has_balance_object (symbol delta) then adjust_regular F n delta False s
     else modify_balance F n delta True s)"

definition adjust_balance_of :: "fc_lib \<Rightarrow> account_name_type \<Rightarrow> asset \<Rightarrow> chain \<Rightarrow> chain res" where
  "adjust_balance_of F n delta s =
     rbind (check_available F n delta s) (\<lambda>_.
     if has_balance_object (symbol delta) then adjust_regular F n delta True s
     else rbind (get_account s n) (\<lambda>_. modify_balance F n delta True s))"

definition reward_symbols :: "asset \<Rightarrow> asset \<Rightarrow> asset \<Rightarrow> unit res" where
  "reward_symbols liquid_delta share_delta feigang_delta =
     rbind (is_qi (symbol liquid_delta)) (\<lambda>l.
     rbind (is_qi (symbol share_delta)) (\<lambda>q.
     rbind (is_qi (symbol feigang_delta)) (\<lambda>f.
     rguard (\<not> l \<and> q \<and> f) (Assert ''liquid_delta.symbol.is_qi() == false'') (Inr ()))))"

definition adjust_rewards ::
  "fc_lib \<Rightarrow> account_name_type \<Rightarrow> asset \<Rightarrow> asset \<Rightarrow> asset \<Rightarrow> bool \<Rightarrow> chain \<Rightarrow> chain res" where
  "adjust_rewards F n liquid_delta share_delta feigang_delta check_account s =
     rguard (amount feigang_delta = 0) (Assert ''not support feigang'')
     (rbind (adjust_asset_balance s n liquid_delta check_account (rewards_balance_ops F liquid_delta share_delta)
         (rewards_balances s))
       (\<lambda>t. Inr (s\<lparr>rewards_balances := t\<rparr>)))"

definition adjust_reward_balance ::
  "fc_lib \<Rightarrow> account_name_type \<Rightarrow> asset \<Rightarrow> asset \<Rightarrow> asset \<Rightarrow> chain \<Rightarrow> chain res" where
  "adjust_reward_balance F n liquid_delta share_delta feigang_delta s =
     rbind (reward_symbols liquid_delta share_delta feigang_delta) (\<lambda>_.
     if has_balance_object (symbol liquid_delta)
     then adjust_rewards F n liquid_delta share_delta feigang_delta False s
     else modify_reward_balance F n liquid_delta share_delta feigang_delta True s)"

definition adjust_reward_balance_of ::
  "fc_lib \<Rightarrow> account_name_type \<Rightarrow> asset \<Rightarrow> asset \<Rightarrow> asset \<Rightarrow> chain \<Rightarrow> chain res" where
  "adjust_reward_balance_of F n liquid_delta share_delta feigang_delta s =
     rbind (reward_symbols liquid_delta share_delta feigang_delta) (\<lambda>_.
     if has_balance_object (symbol liquid_delta)
     then adjust_rewards F n liquid_delta share_delta feigang_delta True s
     else rbind (get_account s n) (\<lambda>_. modify_reward_balance F n liquid_delta share_delta feigang_delta True s))"

subsection \<open>Adores\<close>

definition TAIYI_VIRTUAL_SCHEDULE_LAP_LENGTH :: u128 where
  "TAIYI_VIRTUAL_SCHEDULE_LAP_LENGTH = - 1"

definition adore_siming :: "fc_lib \<Rightarrow> u128 \<Rightarrow> int \<Rightarrow> int \<Rightarrow> siming_object \<Rightarrow> siming_object res" where
  "adore_siming F now limit delta w =
     (let pos = u_add F (virtual_position w)
                  (u_mul F (u_of_int F (adores w)) (u_sub F now (virtual_last_update w)))
      in rbind (s_add F (adores w) delta) (\<lambda>votes.
         rguard (votes \<le> limit) (Assert ''w.adores <= total_qi'')
         (rbind (u_div F (u_sub F TAIYI_VIRTUAL_SCHEDULE_LAP_LENGTH pos) (u_of_int F (votes + 1))) (\<lambda>lap.
          let time = u_add F now lap
          in Inr (w\<lparr>virtual_position := pos, virtual_last_update := now, adores := votes,
                    virtual_scheduled_time := (if time < now then - 1 else time)\<rparr>)))))"

definition adjust_siming_adore :: "fc_lib \<Rightarrow> account_name_type \<Rightarrow> int \<Rightarrow> chain \<Rightarrow> chain res" where
  "adjust_siming_adore F w delta s =
     modify_siming w (adore_siming F (current_virtual_time (schedule s)) (amount (total_qi (gpo s))) delta) s"

text \<open>The simings an account adores, in the order of the index by account and siming.\<close>

definition adored_by :: "chain \<Rightarrow> account_name_type \<Rightarrow> account_name_type list" where
  "adored_by s n = map snd (filter (\<lambda>(a, w). a = n) (ids (siming_adores s)))"

definition adjust_siming_adores :: "fc_lib \<Rightarrow> account_name_type \<Rightarrow> int \<Rightarrow> chain \<Rightarrow> chain res" where
  "adjust_siming_adores F n delta s = rfold (\<lambda>w. adjust_siming_adore F w delta) (adored_by s n) s"

text \<open>Both recursions run on the number of levels left, \<open>TAIYI_MAX_PROXY_RECURSION_DEPTH - depth\<close>.\<close>

definition add_at :: "fc_lib \<Rightarrow> nat \<Rightarrow> int \<Rightarrow> int list \<Rightarrow> int list res" where
  "add_at F i x xs = rbind (s_add F (xs ! i) x) (\<lambda>y. Inr (xs[i := y]))"

primrec adjust_proxied :: "fc_lib \<Rightarrow> nat \<Rightarrow> account_name_type \<Rightarrow> int \<Rightarrow> chain \<Rightarrow> chain res" where
  "adjust_proxied F 0 n delta s =
     rbind (get_account s n) (\<lambda>a. if proxy a \<noteq> 0 then Inr s else adjust_siming_adores F n delta s)"
| "adjust_proxied F (Suc left) n delta s =
     rbind (get_account s n) (\<lambda>a.
       if proxy a \<noteq> 0 then
         rbind (modify_account (proxy a) (\<lambda>p.
           rbind (add_at F (TAIYI_MAX_PROXY_RECURSION_DEPTH - Suc left) delta (proxied_vsf_adores p))
             (\<lambda>xs. Inr (p\<lparr>proxied_vsf_adores := xs\<rparr>))) s)
           (adjust_proxied F left (proxy a) delta)
       else adjust_siming_adores F n delta s)"

definition adjust_proxied_siming_adores :: "fc_lib \<Rightarrow> account_name_type \<Rightarrow> int \<Rightarrow> chain \<Rightarrow> chain res" where
  "adjust_proxied_siming_adores F = adjust_proxied F TAIYI_MAX_PROXY_RECURSION_DEPTH"

primrec adjust_proxied_array :: "fc_lib \<Rightarrow> nat \<Rightarrow> account_name_type \<Rightarrow> int list \<Rightarrow> chain \<Rightarrow> chain res" where
  "adjust_proxied_array F 0 n delta s =
     rbind (get_account s n) (\<lambda>a.
       if proxy a \<noteq> 0 then Inr s
       else rbind (rfold (\<lambda>i acc. s_add F acc (delta ! i)) (rev [0..<Suc 0]) 0) (\<lambda>d. adjust_siming_adores F n d s))"
| "adjust_proxied_array F (Suc left) n delta s =
     rbind (get_account s n) (\<lambda>a.
       if proxy a \<noteq> 0 then
         rbind (modify_account (proxy a) (\<lambda>p.
           rbind (rfold (\<lambda>i. add_at F (i + (TAIYI_MAX_PROXY_RECURSION_DEPTH - Suc left)) (delta ! i))
             (rev [0..<Suc left]) (proxied_vsf_adores p))
             (\<lambda>xs. Inr (p\<lparr>proxied_vsf_adores := xs\<rparr>))) s)
           (adjust_proxied_array F left (proxy a) delta)
       else rbind (rfold (\<lambda>i acc. s_add F acc (delta ! i)) (rev [0..<Suc (Suc left)]) 0)
              (\<lambda>d. adjust_siming_adores F n d s))"

definition adjust_proxied_siming_adores_array :: "fc_lib \<Rightarrow> account_name_type \<Rightarrow> int list \<Rightarrow> chain \<Rightarrow> chain res" where
  "adjust_proxied_siming_adores_array F = adjust_proxied_array F TAIYI_MAX_PROXY_RECURSION_DEPTH"

definition clear_siming_adores :: "account_name_type \<Rightarrow> chain \<Rightarrow> chain res" where
  "clear_siming_adores n s =
     modify_account n (\<lambda>a. Inr (a\<lparr>simings_adored_for := 0\<rparr>))
       (s\<lparr>siming_adores := tdels (map (Pair n) (adored_by s n)) (siming_adores s)\<rparr>)"

subsection \<open>New qi and qi paid for execution\<close>

definition create_qi2 ::
  "fc_lib \<Rightarrow> account_name_type \<Rightarrow> asset \<Rightarrow> bool \<Rightarrow> (asset \<Rightarrow> chain \<Rightarrow> chain) \<Rightarrow> chain \<Rightarrow> (asset \<times> chain) res" where
  "create_qi2 F to liquid to_reward_balance before_qi_callback s =
     rguard (symbol liquid = YANG_SYMBOL) (Assert ''liquid.symbol == YANG_SYMBOL'')
     (rbind (asset_at_price F liquid TAIYI_QI_SHARE_PRICE) (\<lambda>new_qi.
      let s = before_qi_callback new_qi s in
      rbind (if to_reward_balance then adjust_reward_balance F to liquid new_qi (qis 0) s
             else adjust_balance F to new_qi s) (\<lambda>s.
      rbind (modify_gpo (\<lambda>props.
               if to_reward_balance
               then rbind (asset_add F (pending_rewarded_qi props) new_qi) (\<lambda>x. Inr (props\<lparr>pending_rewarded_qi := x\<rparr>))
               else rbind (asset_add F (total_qi props) new_qi) (\<lambda>x. Inr (props\<lparr>total_qi := x\<rparr>))) s) (\<lambda>s.
      rbind (if to_reward_balance then Inr s else adjust_proxied_siming_adores F to (amount new_qi) s) (\<lambda>s.
      Inr (new_qi, s))))))"

definition create_qi :: "fc_lib \<Rightarrow> account_name_type \<Rightarrow> asset \<Rightarrow> bool \<Rightarrow> chain \<Rightarrow> (asset \<times> chain) res" where
  "create_qi F to liquid to_reward_balance = create_qi2 F to liquid to_reward_balance (\<lambda>_ s. s)"

definition reward_feigang :: "fc_lib \<Rightarrow> account_name_type \<Rightarrow> account_name_type \<Rightarrow> asset \<Rightarrow> chain \<Rightarrow> chain res" where
  "reward_feigang F to from feigang s =
     rguard (symbol feigang = QI_SYMBOL) (Assert ''feigang.symbol == QI_SYMBOL'')
     (rguard (amount feigang > 0) (Assert ''feigang.amount.value > 0'')
     (rbind (asset_neg F feigang) (\<lambda>neg.
      rbind (adjust_balance F from neg s) (\<lambda>s.
      rbind (adjust_proxied_siming_adores F from (amount neg) s) (\<lambda>s.
      rbind (modify_reward_balance F to (yang 0) (qis 0) feigang False
               (push_vop (Reward_feigang from None to feigang) s)) (\<lambda>s.
      modify_gpo (\<lambda>props.
        rbind (asset_add F (pending_rewarded_feigang props) feigang) (\<lambda>x.
        rbind (asset_sub F (total_qi props) feigang) (\<lambda>y.
        Inr (props\<lparr>pending_rewarded_feigang := x, total_qi := y\<rparr>)))) s))))))"

definition TAIYI_OWNER_AUTH_HISTORY_TRACKING_START_BLOCK_NUM :: u32 where
  "TAIYI_OWNER_AUTH_HISTORY_TRACKING_START_BLOCK_NUM = 1"

definition get_authorities :: "chain \<Rightarrow> account_name_type \<Rightarrow> account_authority_object res" where
  "get_authorities s n = (case map_of (authorities s) n of Some a \<Rightarrow> Inr a | None \<Rightarrow> Inl Out_of_range)"

definition update_owner_authority :: "account_name_type \<Rightarrow> authority \<Rightarrow> chain \<Rightarrow> chain res" where
  "update_owner_authority n owner s =
     rbind (get_authorities s n) (\<lambda>auth.
       let s = (if head_block_num s \<ge> TAIYI_OWNER_AUTH_HISTORY_TRACKING_START_BLOCK_NUM
                then s\<lparr>owner_history := tput (next_history_id s)
                         \<lparr>hist_account = n, previous_owner_authority = auth_owner auth,
                          last_valid_time = head_block_time s\<rparr> (owner_history s),
                       next_history_id := Suc (next_history_id s)\<rparr>
                else s)
       in Inr (s\<lparr>authorities := tput n (auth\<lparr>auth_owner := owner, last_owner_update := head_block_time s\<rparr>)
                   (authorities s)\<rparr>))"

end
