(* ===== verification/Sums.thy ===== *)
theory Sums
  imports Table
begin

section \<open>Sums over tables\<close>

text \<open>The total of a quantity over the rows of a table, and how one update of a row changes it.\<close>

definition tsum :: "('k \<Rightarrow> 'v \<Rightarrow> int) \<Rightarrow> ('k, 'v) tbl \<Rightarrow> int" where
  "tsum f t = sum_list (map (\<lambda>(k, v). f k v) t)"

lemma tsum_simps [simp]: "tsum f [] = 0" "tsum f ((k, v) # t) = f k v + tsum f t"
  by (simp_all add: tsum_def)

lemma map_of_None_less: "wf_table ((j, w) # t) \<Longrightarrow> i \<le> j \<Longrightarrow> map_of t i = None"
proof (rule ccontr)
  assume a: "wf_table ((j, w) # t)" "i \<le> j" "map_of t i \<noteq> None"
  then have "i \<in> set (ids t)" by (auto simp: set_ids)
  then show False using a(1,2) by auto
qed

lemma tsum_tput:
  assumes "wf_table t"
  shows "tsum f (tput i v t) = tsum f t + f i v - (case map_of t i of Some w \<Rightarrow> f i w | None \<Rightarrow> 0)"
  using assms
proof (induction i v t rule: tput.induct)
  case (1 i v)
  then show ?case by simp
next
  case (2 i v j w t)
  have n: "map_of t i = None" if "i \<le> j" using map_of_None_less [OF "2.prems" that] .
  show ?case using 2 n by (auto split: option.splits)
qed

lemma tsum_update: "wf_table t \<Longrightarrow> map_of t i = Some w \<Longrightarrow> tsum f (tput i v t) = tsum f t + f i v - f i w"
  by (simp add: tsum_tput)

lemma tsum_insert: "wf_table t \<Longrightarrow> map_of t i = None \<Longrightarrow> tsum f (tput i v t) = tsum f t + f i v"
  by (simp add: tsum_tput)

lemma tdel_absent: "map_of t i = None \<Longrightarrow> tdel i t = t"
  by (induction t) (auto simp: tdel_def split: if_splits)

lemma tsum_tdel:
  "wf_table t \<Longrightarrow> tsum f (tdel i t) = tsum f t - (case map_of t i of Some w \<Rightarrow> f i w | None \<Rightarrow> 0)"
proof (induction t)
  case Nil
  then show ?case by (simp add: tdel_def)
next
  case (Cons x t)
  obtain j w where x: "x = (j, w)" by (cases x)
  have "tdel i (x # t) = (if j = i then tdel i t else x # tdel i t)" by (simp add: tdel_def x)
  moreover have "map_of t i = None" if "j = i" by (rule map_of_None_less [of j w]) (use Cons.prems x that in simp_all)
  ultimately show ?case using Cons x by (auto simp: tdel_absent)
qed

lemma tsum_cong:
  assumes "wf_table t" "\<And>k v. map_of t k = Some v \<Longrightarrow> f k v = g k v"
  shows "tsum f t = tsum g t"
proof -
  have "f k v = g k v" if "(k, v) \<in> set t" for k v
    using assms(2) that wf_map_of_iff [OF assms(1)] by blast
  then show ?thesis unfolding tsum_def by (intro arg_cong [where f = sum_list] map_cong) auto
qed

lemma tsum_add: "tsum (\<lambda>k v. f k v + g k v) t = tsum f t + tsum g t"
  by (induction t) auto

lemma tsum_neg: "tsum (\<lambda>k v. - f k v) t = - tsum f t"
  by (induction t) auto

lemma tsum_zero [simp]: "tsum (\<lambda>k v. 0) t = 0"
  by (induction t) auto

lemma tsum_nonneg: "(\<And>k v. (k, v) \<in> set t \<Longrightarrow> 0 \<le> f k v) \<Longrightarrow> 0 \<le> tsum f t"
  by (induction t) (auto intro: add_nonneg_nonneg)

lemma tsum_mono: "(\<And>k v. (k, v) \<in> set t \<Longrightarrow> f k v \<le> g k v) \<Longrightarrow> tsum f t \<le> tsum g t"
proof (induction t)
  case (Cons x t)
  then show ?case by (cases x) (simp add: add_mono)
qed simp

lemma tsum_swap: "tsum (\<lambda>k v. tsum (\<lambda>j w. f k v j w) u) t = tsum (\<lambda>j w. tsum (\<lambda>k v. f k v j w) t) u"
  by (induction t) (auto simp: tsum_add)

text \<open>The sum of an indicator is the value at the one row it selects.\<close>

lemma tsum_at:
  "wf_table t \<Longrightarrow> tsum (\<lambda>k v. if k = i then x else 0) t = (if map_of t i \<noteq> None then x else 0)"
proof (induction t)
  case Nil
  then show ?case by simp
next
  case (Cons y t)
  obtain j w where y: "y = (j, w)" by (cases y)
  have "map_of t i = None" if "j = i" by (rule map_of_None_less [of j w]) (use Cons.prems y that in simp_all)
  then show ?case using Cons y by auto
qed

text \<open>A checked accumulation that does not throw computes the exact sum.\<close>

lemma rfold_sum:
  assumes "rfold g xs a = Inr b" and "\<And>x a b. x \<in> set xs \<Longrightarrow> g x a = Inr b \<Longrightarrow> v b = v a + h x"
  shows "v b = v a + (sum_list (map h xs) :: int)"
  using assms
proof (induction xs arbitrary: a)
  case Nil
  then show ?case by simp
next
  case (Cons x xs)
  obtain c where c: "g x a = Inr c" "rfold g xs c = Inr b" using Cons.prems(1) by auto
  have "v c = v a + h x" using Cons.prems(2) c(1) by (meson list.set_intros(1))
  moreover have "v b = v c + sum_list (map h xs)"
    by (rule Cons.IH [OF c(2)]) (meson Cons.prems(2) list.set_intros(2))
  ultimately show ?case by simp
qed

end
