(* ===== verification/Ledger_Invariant.thy ===== *)
theory Ledger_Invariant
  imports Ledger Sums
begin

section \<open>The books of the adores and the qi\<close>

text \<open>
  The invariant of the adores: the cell \<open>proxied_vsf_adores[j]\<close> of an account is the total of
  level \<open>j\<close> of the accounts that name it their proxy, where level 0 is an account's own qi and
  level \<open>j + 1\<close> its cell \<open>j\<close>; and the adores of a siming are the total weight of the accounts
  that adore it. \<open>books n D s\<close> says that this holds of \<open>s\<close> if each level \<open>j\<close> of account \<open>n\<close>
  is taken \<open>D j\<close> lower: the state in the middle of an operation that still has to propagate \<open>D\<close>.
\<close>

definition level :: "account_object \<Rightarrow> nat \<Rightarrow> int" where
  "level a j = (if j = 0 then amount (qi a) else proxied_vsf_adores a ! (j - 1))"

text \<open>
  The general form has a ghost amount \<open>f b j\<close> added to every level of every account: the
  books of a state in which those amounts are already taken as gone.
\<close>

definition glev :: "(account_name_type \<Rightarrow> nat \<Rightarrow> int) \<Rightarrow> account_name_type \<Rightarrow> (nat \<Rightarrow> int) \<Rightarrow> account_name_type \<Rightarrow> account_object \<Rightarrow> nat \<Rightarrow> int" where
  "glev f n D b a j = level a j + f b j - (if b = n then D j else 0)"

definition gproxied :: "(account_name_type \<Rightarrow> nat \<Rightarrow> int) \<Rightarrow> account_name_type \<Rightarrow> (nat \<Rightarrow> int) \<Rightarrow> account_name_type \<Rightarrow> nat \<Rightarrow> chain \<Rightarrow> int" where
  "gproxied f n D m j s = tsum (\<lambda>b x. if proxy x = m then glev f n D b x j else 0) (accounts s)"

definition gfull :: "(account_name_type \<Rightarrow> nat \<Rightarrow> int) \<Rightarrow> account_name_type \<Rightarrow> (nat \<Rightarrow> int) \<Rightarrow> account_name_type \<Rightarrow> account_object \<Rightarrow> int" where
  "gfull f n D b a = (\<Sum>j<5. glev f n D b a j)"

definition gadored :: "(account_name_type \<Rightarrow> nat \<Rightarrow> int) \<Rightarrow> account_name_type \<Rightarrow> (nat \<Rightarrow> int) \<Rightarrow> account_name_type \<Rightarrow> chain \<Rightarrow> int" where
  "gadored f n D w s =
     tsum (\<lambda>b x. if map_of (siming_adores s) (b, w) \<noteq> None then gfull f n D b x else 0) (accounts s)"

abbreviation no_ghost :: "account_name_type \<Rightarrow> nat \<Rightarrow> int" where "no_ghost \<equiv> \<lambda>_ _. 0"
abbreviation "lev \<equiv> glev no_ghost"
abbreviation "proxied_level \<equiv> gproxied no_ghost"
abbreviation "full_weight \<equiv> gfull no_ghost"
abbreviation "adored_weight \<equiv> gadored no_ghost"

definition shape :: "chain \<Rightarrow> bool" where
  "shape s \<longleftrightarrow> wf_table (accounts s) \<and> wf_table (siming_adores s) \<and> wf_table (simings s) \<and>
     map_of (accounts s) 0 = None \<and>
     (\<forall>n w. map_of (siming_adores s) (n, w) \<noteq> None \<longrightarrow> map_of (simings s) w \<noteq> None) \<and>
     (\<forall>n a. map_of (accounts s) n = Some a \<longrightarrow> length (proxied_vsf_adores a) = 4 \<and>
        (proxy a \<noteq> 0 \<longrightarrow> map_of (accounts s) (proxy a) \<noteq> None \<and> (\<forall>w. map_of (siming_adores s) (n, w) = None)))"

lemma shape_proxy:
  "shape s \<Longrightarrow> map_of (accounts s) n = Some a \<Longrightarrow> proxy a \<noteq> 0 \<Longrightarrow> \<exists>p. map_of (accounts s) (proxy a) = Some p"
  unfolding shape_def by blast

definition gbooks :: "(account_name_type \<Rightarrow> nat \<Rightarrow> int) \<Rightarrow> account_name_type \<Rightarrow> (nat \<Rightarrow> int) \<Rightarrow> chain \<Rightarrow> bool" where
  "gbooks f n D s \<longleftrightarrow> shape s \<and>
     (\<forall>m p j. map_of (accounts s) m = Some p \<longrightarrow> j < 4 \<longrightarrow>
        proxied_vsf_adores p ! j = gproxied f n D m j s) \<and>
     (\<forall>w sim. map_of (simings s) w = Some sim \<longrightarrow> adores sim = gadored f n D w s)"

definition gbalanced :: "(account_name_type \<Rightarrow> nat \<Rightarrow> int) \<Rightarrow> chain \<Rightarrow> bool" where
  "gbalanced f s \<longleftrightarrow> gbooks f 0 (\<lambda>_. 0) s"

abbreviation "books \<equiv> gbooks no_ghost"
abbreviation "balanced \<equiv> gbalanced no_ghost"

abbreviation (input) ghosted :: "(account_name_type \<Rightarrow> nat \<Rightarrow> int) \<Rightarrow> account_name_type \<Rightarrow> account_object \<Rightarrow> nat \<Rightarrow> int" where
  "ghosted f b a j \<equiv> level a j + f b j"

lemma lev_zero [simp]: "glev f n (\<lambda>_. 0) b a j = ghosted f b a j"
  by (simp add: glev_def)

lemma lev_none: "lev n (\<lambda>_. 0) b a j = level a j"
  by simp

lemma books_zero: "gbooks f n (\<lambda>_. 0) s \<longleftrightarrow> gbalanced f s"
  unfolding gbalanced_def gbooks_def gproxied_def gadored_def gfull_def lev_zero ..

definition single :: "nat \<Rightarrow> int \<Rightarrow> nat \<Rightarrow> int" where
  "single i d j = (if j = i then d else 0)"

definition shift :: "(nat \<Rightarrow> int) \<Rightarrow> nat \<Rightarrow> int" where
  "shift D j = (if j = 0 then 0 else D (j - 1))"

lemma shift_single [simp]: "shift (single i d) = single (Suc i) d"
  by (auto simp: shift_def single_def fun_eq_iff)

subsection \<open>Adjusting the simings of an account\<close>

lemma set_adored_by: "w \<in> set (adored_by s n) \<longleftrightarrow> map_of (siming_adores s) (n, w) \<noteq> None"
proof -
  have "w \<in> set (adored_by s n) \<longleftrightarrow> (n, w) \<in> set (ids (siming_adores s))"
    by (force simp: adored_by_def)
  then show ?thesis by (auto simp: set_ids)
qed

lemma distinct_adored_by: "wf_table (siming_adores s) \<Longrightarrow> distinct (adored_by s n)"
  using wf_distinct [of "siming_adores s"]
  by (auto simp: adored_by_def distinct_map inj_on_def)

definition votes_moved :: "chain \<Rightarrow> account_name_type set \<Rightarrow> int \<Rightarrow> (account_name_type, siming_object) tbl \<Rightarrow> bool" where
  "votes_moved s W d t \<longleftrightarrow> (wf_table (simings s) \<longrightarrow> wf_table t) \<and>
     (\<forall>x. map_option adores (map_of t x) = map_option (\<lambda>v. adores v + (if x \<in> W then d else 0)) (map_of (simings s) x))"

lemma votes_moved_trans:
  assumes "votes_moved s {w} d t" "votes_moved (s\<lparr>simings := t\<rparr>) W d u" "w \<notin> W"
  shows "votes_moved s (insert w W) d u"
proof -
  have "map_option adores (map_of u x) =
      map_option (\<lambda>v. adores v + (if x \<in> insert w W then d else 0)) (map_of (simings s) x)" for x
  proof -
    have 1: "map_option adores (map_of t x) = map_option (\<lambda>v. adores v + (if x = w then d else 0)) (map_of (simings s) x)"
      using assms(1) by (simp add: votes_moved_def)
    have 2: "map_option adores (map_of u x) = map_option (\<lambda>v. adores v + (if x \<in> W then d else 0)) (map_of t x)"
      using assms(2) by (simp add: votes_moved_def)
    show ?thesis using 1 2 assms(3)
      by (cases "map_of u x"; cases "map_of t x"; cases "map_of (simings s) x") auto
  qed
  then show ?thesis using assms(1,2) by (simp add: votes_moved_def)
qed

lemma adjust_siming_adore_effect:
  assumes "fc_laws F" "adjust_siming_adore F w d s = Inr s'"
  shows "\<exists>t. s' = s\<lparr>simings := t\<rparr> \<and> votes_moved s {w} d t"
proof -
  obtain v v' where v: "map_of (simings s) w = Some v"
    and v': "adore_siming F (current_virtual_time (schedule s)) (amount (total_qi (gpo s))) d v = Inr v'"
    and s': "s' = s\<lparr>simings := tput w v' (simings s)\<rparr>"
    using assms(2) by (auto simp: adjust_siming_adore_def modify_siming_def put_siming_def)
  have "adores v' = adores v + d"
    using v' assms(1) by (auto simp: adore_siming_def Let_def fc_simps)
  then have "votes_moved s {w} d (tput w v' (simings s))"
    using v by (auto simp: votes_moved_def option.map_ident)
  then show ?thesis using s' by blast
qed

lemma adjust_siming_adores_effect:
  assumes F: "fc_laws F" and run: "rfold (\<lambda>w. adjust_siming_adore F w d) ws s = Inr s'" and ws: "distinct ws"
  shows "\<exists>t. s' = s\<lparr>simings := t\<rparr> \<and> votes_moved s (set ws) d t"
  using run ws
proof (induction ws arbitrary: s)
  case Nil
  then show ?case by (intro exI [of _ "simings s"]) (simp add: votes_moved_def option.map_ident)
next
  case (Cons w ws)
  obtain s1 where s1: "adjust_siming_adore F w d s = Inr s1"
    and rest: "rfold (\<lambda>w. adjust_siming_adore F w d) ws s1 = Inr s'" using Cons.prems(1) by auto
  obtain t1 where t1: "s1 = s\<lparr>simings := t1\<rparr>" "votes_moved s {w} d t1"
    using adjust_siming_adore_effect [OF F s1] by blast
  obtain t where t: "s' = s1\<lparr>simings := t\<rparr>" "votes_moved s1 (set ws) d t"
    using Cons.IH [OF rest] Cons.prems(2) by auto
  have "votes_moved s (insert w (set ws)) d t"
    using votes_moved_trans [OF t1(2)] t(2) Cons.prems(2) t1(1) by simp
  moreover have "s' = s\<lparr>simings := t\<rparr>" using t(1) t1(1) by simp
  ultimately show ?case by auto
qed

lemma books_simings_effect:
  assumes b: "gbooks f n D s" and n: "map_of (accounts s) n = Some a" "proxy a = 0"
    and d: "d = (\<Sum>j<5. D j)"
    and s': "s' = s\<lparr>simings := t\<rparr>" "votes_moved s (set (adored_by s n)) d t"
  shows "gbalanced f s'"
  unfolding gbalanced_def gbooks_def
proof (intro conjI allI impI)
  have sh: "shape s" using b by (simp add: gbooks_def)
  have t: "map_option adores (map_of t x) =
      map_option (\<lambda>v. adores v + (if x \<in> set (adored_by s n) then d else 0)) (map_of (simings s) x)" for x
    using s'(2) by (simp add: votes_moved_def)
  have dom: "map_of t x = None \<longleftrightarrow> map_of (simings s) x = None" for x
    using arg_cong [OF t [of x], of "\<lambda>z. z = None"] by simp
  show "shape s'" using s' sh by (simp add: shape_def votes_moved_def dom)
  have wf: "wf_table (accounts s)" using sh by (simp add: shape_def)
  {
    fix m p and j :: nat assume m: "map_of (accounts s') m = Some p" and j: "j < 4"
    have "m \<noteq> 0" using m s' sh by (auto simp: shape_def)
    have "proxied_vsf_adores p ! j = gproxied f n D m j s" using b m j s' by (simp add: gbooks_def)
    also have "\<dots> = gproxied f 0 (\<lambda>_. 0) m j s'"
      unfolding gproxied_def using s'
      by (simp, intro tsum_cong [OF wf]) (use \<open>m \<noteq> 0\<close> n in \<open>auto simp: glev_def\<close>)
    finally show "proxied_vsf_adores p ! j = gproxied f 0 (\<lambda>_. 0) m j s'" .
  }
  {
    fix w sim' assume w: "map_of (simings s') w = Some sim'"
    then obtain sim where sim: "map_of (simings s) w = Some sim"
      and ad: "adores sim' = adores sim + (if w \<in> set (adored_by s n) then d else 0)"
      using t [of w] s' by (cases "map_of (simings s) w") auto
    let ?A = "\<lambda>b. map_of (siming_adores s) (b, w) \<noteq> None"
    have same: "accounts s' = accounts s" "siming_adores s' = siming_adores s" using s'(1) by simp_all
    have full: "gfull f 0 (\<lambda>_. 0) b x = gfull f n D b x + (if b = n then d else 0)" for b x
      by (simp add: gfull_def glev_def d sum_subtractf)
    have "gadored f 0 (\<lambda>_. 0) w s' =
        tsum (\<lambda>b x. (if ?A b then gfull f n D b x else 0) + (if b = n then (if ?A n then d else 0) else 0)) (accounts s)"
      unfolding gadored_def same full by (rule tsum_cong [OF wf]) auto
    also have "\<dots> = gadored f n D w s + (if ?A n then d else 0)"
      unfolding tsum_add tsum_at [OF wf] gadored_def using n by simp
    also have "\<dots> = adores sim'" using b sim ad by (simp add: gbooks_def set_adored_by)
    finally show "adores sim' = gadored f 0 (\<lambda>_. 0) w s'" ..
  }
qed

lemma adjust_siming_adores_books:
  assumes F: "fc_laws F" and b: "gbooks f n D s" "d = (\<Sum>j<5. D j)" and n: "map_of (accounts s) n = Some a" "proxy a = 0"
    and run: "adjust_siming_adores F n d s = Inr s'"
  shows "gbalanced f s' \<and> (\<exists>t. s' = s\<lparr>simings := t\<rparr>)"
proof -
  have sh: "shape s" using b by (simp add: gbooks_def)
  obtain t where t: "s' = s\<lparr>simings := t\<rparr>" "votes_moved s (set (adored_by s n)) d t"
    using adjust_siming_adores_effect [OF F run [unfolded adjust_siming_adores_def]]
      distinct_adored_by sh unfolding shape_def by blast
  then show ?thesis using books_simings_effect [OF b(1) n b(2) t] by blast
qed

subsection \<open>Propagating along the proxies\<close>

text \<open>One level up: the cells of the proxy take the changes, which are now changes of its next levels.\<close>

definition raise_cells :: "(nat \<Rightarrow> int) \<Rightarrow> account_object \<Rightarrow> account_object" where
  "raise_cells D p = p\<lparr>proxied_vsf_adores := map (\<lambda>j. proxied_vsf_adores p ! j + D j) [0..<4]\<rparr>"

lemma raise_cells_simps [simp]:
  "proxy (raise_cells D p) = proxy p" "qi (raise_cells D p) = qi p"
  "length (proxied_vsf_adores (raise_cells D p)) = 4"
  "j < 4 \<Longrightarrow> proxied_vsf_adores (raise_cells D p) ! j = proxied_vsf_adores p ! j + D j"
  by (simp_all add: raise_cells_def)

lemma level_raise: "j < 5 \<Longrightarrow> level (raise_cells D p) j = level p j + shift D j"
  by (cases j) (simp_all add: level_def shift_def)

lemma books_step:
  assumes b: "gbooks f n D s" and n: "map_of (accounts s) n = Some a" "proxy a \<noteq> 0"
    and p: "map_of (accounts s) (proxy a) = Some p"
  shows "gbooks f (proxy a) (shift D) (put_account (proxy a) (raise_cells D p) s)" (is "gbooks f ?q ?D ?s")
proof -
  have sh: "shape s" using b by (simp add: gbooks_def)
  have wf: "wf_table (accounts s)" using sh by (simp add: shape_def)
  have acc: "accounts ?s = tput ?q (raise_cells D p) (accounts s)" by (simp add: put_account_def)
  have levp: "glev f ?q ?D ?q (raise_cells D p) j = ghosted f ?q p j" if "j < 5" for j
    using level_raise [OF that] by (simp add: glev_def)
  have plev: "gproxied f ?q ?D m j ?s = gproxied f n D m j s + (if m = ?q then D j else 0)" if j: "j < 5" for m j
  proof -
    have "gproxied f ?q ?D m j ?s =
        tsum (\<lambda>b x. if proxy x = m then glev f ?q ?D b x j else 0) (accounts s)
          + (if proxy p = m then ghosted f ?q p j else 0) - (if proxy p = m then glev f ?q ?D ?q p j else 0)"
      unfolding gproxied_def acc tsum_update [OF wf p] using levp [OF j] by simp
    also have "\<dots> = tsum (\<lambda>b x. if proxy x = m then ghosted f b x j else 0) (accounts s)"
    proof -
      have "tsum (\<lambda>b x. if proxy x = m then glev f ?q ?D b x j else 0) (accounts s) =
          tsum (\<lambda>b x. (if proxy x = m then ghosted f b x j else 0) + (if b = ?q then (if proxy p = m then glev f ?q ?D ?q p j - ghosted f ?q p j else 0) else 0)) (accounts s)"
        by (rule tsum_cong [OF wf]) (use p in \<open>auto simp: glev_def\<close>)
      then show ?thesis unfolding tsum_add tsum_at [OF wf] using p by simp
    qed
    also have "\<dots> = tsum (\<lambda>b x. (if proxy x = m then glev f n D b x j else 0) + (if b = n then (if m = ?q then D j else 0) else 0)) (accounts s)"
      by (rule tsum_cong [OF wf]) (use n in \<open>auto simp: glev_def\<close>)
    also have "\<dots> = gproxied f n D m j s + (if m = ?q then D j else 0)"
      unfolding tsum_add tsum_at [OF wf] gproxied_def using n by simp
    finally show ?thesis .
  qed
  have aw: "gadored f ?q ?D w ?s = gadored f n D w s" for w
  proof -
    have sa: "siming_adores ?s = siming_adores s" by (simp add: put_account_def)
    have no_n: "map_of (siming_adores s) (n, w) = None" using sh n by (auto simp: shape_def)
    have fp: "gfull f ?q ?D ?q (raise_cells D p) = (\<Sum>j<5. ghosted f ?q p j)"
      unfolding gfull_def by (intro sum.cong refl levp) simp
    have fo: "gfull f ?q ?D b x = (\<Sum>j<5. ghosted f b x j)" if "b \<noteq> ?q" for b x
      unfolding gfull_def using that by (intro sum.cong refl) (simp add: glev_def)
    have fa: "gfull f n D b x = (\<Sum>j<5. ghosted f b x j)" if "map_of (siming_adores s) (b, w) = Some u" for b x u
      unfolding gfull_def using that no_n by (intro sum.cong refl) (auto simp: glev_def)
    let ?A = "\<lambda>b. map_of (siming_adores s) (b, w) \<noteq> None"
    have "gadored f ?q ?D w ?s = tsum (\<lambda>b x. if ?A b then gfull f ?q ?D b x else 0) (accounts s)
        + (if ?A ?q then gfull f ?q ?D ?q (raise_cells D p) else 0) - (if ?A ?q then gfull f ?q ?D ?q p else 0)"
      unfolding gadored_def acc sa by (rule tsum_update [OF wf p])
    also have "tsum (\<lambda>b x. if ?A b then gfull f ?q ?D b x else 0) (accounts s) =
        tsum (\<lambda>b x. (if ?A b then gfull f n D b x else 0) +
          (if b = ?q then (if ?A ?q then gfull f ?q ?D ?q p - (\<Sum>j<5. ghosted f ?q p j) else 0) else 0)) (accounts s)"
      by (rule tsum_cong [OF wf]) (use p fo fa in auto)
    finally show ?thesis unfolding tsum_add tsum_at [OF wf] gadored_def using p fp by simp
  qed
  show ?thesis
    unfolding gbooks_def
  proof (intro conjI allI impI)
    show "shape ?s" using sh p by (auto simp: shape_def put_account_def split: if_splits)
    fix m x and j :: nat assume m: "map_of (accounts ?s) m = Some x" and j: "j < 4"
    have "proxied_vsf_adores x ! j = gproxied f n D m j s + (if m = ?q then D j else 0)"
    proof (cases "m = ?q")
      case True
      then have "x = raise_cells D p" using m acc by simp
      then show ?thesis using b p j True by (simp add: gbooks_def)
    next
      case False
      then have "map_of (accounts s) m = Some x" using m acc by simp
      then show ?thesis using b j False by (simp add: gbooks_def)
    qed
    then show "proxied_vsf_adores x ! j = gproxied f ?q ?D m j ?s" using plev j by simp
  next
    fix w sim assume "map_of (simings ?s) w = Some sim"
    then show "adores sim = gadored f ?q ?D w ?s" using b aw by (simp add: gbooks_def put_account_def)
  qed
qed

lemma books_top:
  assumes b: "gbooks f n D s" and D: "\<And>j. j < 4 \<Longrightarrow> D j = 0" and n: "map_of (accounts s) n = Some a" "proxy a \<noteq> 0"
  shows "gbalanced f s"
proof -
  have sh: "shape s" and wf: "wf_table (accounts s)" using b by (auto simp: gbooks_def shape_def)
  have "gproxied f n D m j s = gproxied f 0 (\<lambda>_. 0) m j s" if "j < 4" for m j
    unfolding gproxied_def using D [OF that] by (intro tsum_cong [OF wf]) (simp add: glev_def)
  moreover have "gadored f n D w s = gadored f 0 (\<lambda>_. 0) w s" for w
  proof -
    have "map_of (siming_adores s) (n, w) = None" using sh n by (auto simp: shape_def)
    then have "gfull f n D b x = gfull f 0 (\<lambda>_. 0) b x" if "map_of (siming_adores s) (b, w) = Some u" for b x u
      unfolding gfull_def using that by (intro sum.cong refl) (auto simp: glev_def)
    then show ?thesis unfolding gadored_def by (intro tsum_cong [OF wf]) auto
  qed
  ultimately show ?thesis using b by (simp add: gbalanced_def gbooks_def)
qed

text \<open>The recursion completes the books, whatever the shape of the proxy graph.\<close>

definition only_adores :: "chain \<Rightarrow> chain \<Rightarrow> bool" where
  "only_adores s s' \<longleftrightarrow> s'\<lparr>accounts := [], simings := []\<rparr> = s\<lparr>accounts := [], simings := []\<rparr> \<and>
     (\<forall>n. map_option (\<lambda>a. a\<lparr>proxied_vsf_adores := []\<rparr>) (map_of (accounts s') n) =
          map_option (\<lambda>a. a\<lparr>proxied_vsf_adores := []\<rparr>) (map_of (accounts s) n))"

lemma only_adores_refl [simp]: "only_adores s s"
  by (simp add: only_adores_def)

lemma only_adores_trans: "only_adores s t \<Longrightarrow> only_adores t u \<Longrightarrow> only_adores s u"
  by (simp add: only_adores_def)

lemma only_adores_simings: "only_adores s (s\<lparr>simings := t\<rparr>)"
  by (simp add: only_adores_def)

lemma only_adores_put: "map_of (accounts s) q = Some p \<Longrightarrow> only_adores s (put_account q (raise_cells D p) s)"
  by (auto simp: only_adores_def put_account_def raise_cells_def)

lemma add_at_raise:
  assumes "fc_laws F" "add_at F i d xs = Inr ys" "length xs = 4" "i < 4"
  shows "ys = map (\<lambda>j. xs ! j + single i d j) [0..<4]"
  using assms by (intro nth_equalityI) (auto simp: add_at_def fc_simps single_def nth_list_update)

lemma adjust_proxied_books:
  assumes F: "fc_laws F"
  shows "left \<le> 4 \<Longrightarrow> gbooks f n (single (4 - left) d) s \<Longrightarrow> adjust_proxied F left n d s = Inr s' \<Longrightarrow>
    gbalanced f s' \<and> only_adores s s'"
proof (induction left arbitrary: n s)
  case 0
  obtain a where a: "map_of (accounts s) n = Some a" using 0 by auto
  show ?case
  proof (cases "proxy a = 0")
    case True
    then have "adjust_siming_adores F n d s = Inr s'" using 0 a by simp
    moreover have "d = (\<Sum>j<5. single 4 d j)" by (simp add: single_def)
    ultimately show ?thesis
      using adjust_siming_adores_books [OF F 0(2) _ a True] only_adores_simings by fastforce
  next
    case False
    then show ?thesis using 0 a books_top [OF 0(2) _ a False] by (auto simp: single_def)
  qed
next
  case (Suc left)
  let ?i = "4 - Suc left"
  obtain a where a: "map_of (accounts s) n = Some a" using Suc.prems by auto
  show ?case
  proof (cases "proxy a = 0")
    case True
    then have "adjust_siming_adores F n d s = Inr s'" using Suc.prems a by simp
    moreover have "d = (\<Sum>j<5. single ?i d j)"
    proof -
      have "3 - left < (5::nat)" by linarith
      then show ?thesis by (simp add: single_def)
    qed
    ultimately show ?thesis
      using adjust_siming_adores_books [OF F Suc.prems(2) _ a True] only_adores_simings by fastforce
  next
    case False
    have sh: "shape s" using Suc.prems(2) by (simp add: gbooks_def)
    obtain p where p: "map_of (accounts s) (proxy a) = Some p" using shape_proxy [OF sh a False] by blast
    have len: "length (proxied_vsf_adores p) = 4" using sh p by (auto simp: shape_def)
    obtain xs where xs: "add_at F ?i d (proxied_vsf_adores p) = Inr xs"
      and run: "adjust_proxied F left (proxy a) d (put_account (proxy a) (p\<lparr>proxied_vsf_adores := xs\<rparr>) s) = Inr s'"
      using Suc.prems(3) a p False by (auto simp: modify_account_def TAIYI_MAX_PROXY_RECURSION_DEPTH_def)
    have raise: "p\<lparr>proxied_vsf_adores := xs\<rparr> = raise_cells (single ?i d) p"
      using add_at_raise [OF F xs len] by (simp add: raise_cells_def)
    have "gbooks f (proxy a) (single (Suc ?i) d) (put_account (proxy a) (raise_cells (single ?i d) p) s)"
      using books_step [OF Suc.prems(2) a False p] by simp
    moreover have "Suc ?i = 4 - left" using Suc.prems(1) by simp
    ultimately have "gbalanced f s' \<and> only_adores (put_account (proxy a) (raise_cells (single ?i d) p) s) s'"
      using Suc.IH [OF _ _ run [unfolded raise]] Suc.prems(1) by simp
    then show ?thesis using only_adores_put [OF p] only_adores_trans by blast
  qed
qed

text \<open>The variant with a change for every level, shifted by the depth reached.\<close>

definition from_depth :: "nat \<Rightarrow> int list \<Rightarrow> nat \<Rightarrow> int" where
  "from_depth k delta j = (if k \<le> j then delta ! (j - k) else 0)"

lemma shift_from_depth [simp]: "shift (from_depth k delta) = from_depth (Suc k) delta"
proof
  fix j show "shift (from_depth k delta) j = from_depth (Suc k) delta j"
    by (cases j) (simp_all add: shift_def from_depth_def)
qed

lemma add_cells:
  assumes F: "fc_laws F"
  shows "rfold (\<lambda>i. add_at F (i + k) (delta ! i)) (rev [0..<m]) xs = Inr ys \<Longrightarrow> k + m \<le> length xs \<Longrightarrow>
    length ys = length xs \<and> (\<forall>j < length xs. ys ! j = xs ! j + (if k \<le> j \<and> j < k + m then delta ! (j - k) else 0))"
proof (induction m arbitrary: xs)
  case 0
  then show ?case by simp
next
  case (Suc m)
  obtain zs where z: "add_at F (m + k) (delta ! m) xs = Inr zs"
    and rest: "rfold (\<lambda>i. add_at F (i + k) (delta ! i)) (rev [0..<m]) zs = Inr ys"
    using Suc.prems(1) by auto
  have zs: "zs = xs[m + k := xs ! (m + k) + delta ! m]" using z F by (auto simp: add_at_def fc_simps)
  have ih: "length ys = length zs \<and> (\<forall>j < length zs. ys ! j = zs ! j + (if k \<le> j \<and> j < k + m then delta ! (j - k) else 0))"
    using Suc.IH [OF rest] Suc.prems(2) zs by simp
  show ?case
  proof (intro conjI allI impI)
    show "length ys = length xs" using ih zs by simp
    fix j assume j: "j < length xs"
    consider "j = m + k" | "j \<noteq> m + k" by blast
    then show "ys ! j = xs ! j + (if k \<le> j \<and> j < k + Suc m then delta ! (j - k) else 0)"
    proof cases
      case 1
      then show ?thesis using ih zs j by simp
    next
      case 2
      then have "zs ! j = xs ! j" using zs by simp
      moreover have "k \<le> j \<and> j < k + m \<longleftrightarrow> k \<le> j \<and> j < k + Suc m" using 2 by auto
      ultimately show ?thesis using ih zs j by simp
    qed
  qed
qed

lemma sum_delta:
  assumes "fc_laws F" "rfold (\<lambda>i acc. s_add F acc (delta ! i)) (rev [0..<m]) 0 = Inr d"
  shows "d = (\<Sum>i<m. delta ! i)"
proof -
  have "d = 0 + sum_list (map (\<lambda>i. delta ! i) (rev [0..<m]))"
    by (rule rfold_sum [OF assms(2), where v = "\<lambda>x. x" and h = "\<lambda>i. delta ! i"]) (use assms(1) in \<open>auto simp: fc_simps\<close>)
  then show ?thesis by (simp add: rev_map [symmetric] sum_list_rev interv_sum_list_conv_sum_set_nat atLeast0LessThan)
qed

lemma sum_from_depth: "k \<le> 4 \<Longrightarrow> (\<Sum>j<5. from_depth k delta j) = (\<Sum>i<5 - k. delta ! i)"
proof -
  assume k: "k \<le> 4"
  have "(\<Sum>j<5. from_depth k delta j) = (\<Sum>j\<in>{k..<5}. delta ! (j - k))"
    by (intro sum.mono_neutral_cong_right) (auto simp: from_depth_def)
  also have "\<dots> = (\<Sum>i\<in>{0..<5 - k}. delta ! i)"
    using sum.shift_bounds_nat_ivl [of "\<lambda>j. delta ! (j - k)" 0 k "5 - k"] k by simp
  finally show ?thesis by (simp add: atLeast0LessThan)
qed

lemma adjust_proxied_array_books:
  assumes F: "fc_laws F"
  shows "left \<le> 4 \<Longrightarrow> gbooks f n (from_depth (4 - left) delta) s \<Longrightarrow> adjust_proxied_array F left n delta s = Inr s' \<Longrightarrow>
    gbalanced f s' \<and> only_adores s s'"
proof (induction left arbitrary: n s)
  case 0
  obtain a where a: "map_of (accounts s) n = Some a" using 0 by auto
  show ?case
  proof (cases "proxy a = 0")
    case True
    obtain d where d: "rfold (\<lambda>i acc. s_add F acc (delta ! i)) (rev [0..<Suc 0]) 0 = Inr d"
      and run: "adjust_siming_adores F n d s = Inr s'" using 0 a True by auto
    have "d = (\<Sum>j<5. from_depth 4 delta j)" unfolding sum_from_depth [OF order_refl] sum_delta [OF F d] by simp
    then show ?thesis
      using adjust_siming_adores_books [OF F 0(2) _ a True run] only_adores_simings by fastforce
  next
    case False
    then show ?thesis using 0 a books_top [OF 0(2) _ a False] by (auto simp: from_depth_def)
  qed
next
  case (Suc left)
  let ?k = "4 - Suc left"
  have k: "?k \<le> 4" "5 - ?k = Suc (Suc left)" "?k + Suc left = 4" using Suc.prems(1) by auto
  obtain a where a: "map_of (accounts s) n = Some a" using Suc.prems by auto
  show ?case
  proof (cases "proxy a = 0")
    case True
    obtain d where d: "rfold (\<lambda>i acc. s_add F acc (delta ! i)) (rev [0..<Suc (Suc left)]) 0 = Inr d"
      and run: "adjust_siming_adores F n d s = Inr s'"
      using Suc.prems a True unfolding adjust_proxied_array.simps by auto
    have "d = (\<Sum>j<5. from_depth ?k delta j)" unfolding sum_from_depth [OF k(1)] sum_delta [OF F d] k(2) ..
    then show ?thesis
      using adjust_siming_adores_books [OF F Suc.prems(2) _ a True run] only_adores_simings by fastforce
  next
    case False
    have sh: "shape s" using Suc.prems(2) by (simp add: gbooks_def)
    obtain p where p: "map_of (accounts s) (proxy a) = Some p" using shape_proxy [OF sh a False] by blast
    have len: "length (proxied_vsf_adores p) = 4" using sh p by (auto simp: shape_def)
    obtain xs where xs: "rfold (\<lambda>i. add_at F (i + ?k) (delta ! i)) (rev [0..<Suc left]) (proxied_vsf_adores p) = Inr xs"
      and run: "adjust_proxied_array F left (proxy a) delta (put_account (proxy a) (p\<lparr>proxied_vsf_adores := xs\<rparr>) s) = Inr s'"
      using Suc.prems(3) a p False unfolding adjust_proxied_array.simps TAIYI_MAX_PROXY_RECURSION_DEPTH_def
      by (auto simp: modify_account_def)
    have cells: "length xs = 4 \<and> (\<forall>j<4. xs ! j = proxied_vsf_adores p ! j + (if ?k \<le> j then delta ! (j - ?k) else 0))"
      using add_cells [OF F xs] len k(3) by auto
    have raise: "p\<lparr>proxied_vsf_adores := xs\<rparr> = raise_cells (from_depth ?k delta) p"
    proof -
      have "xs = map (\<lambda>j. proxied_vsf_adores p ! j + from_depth ?k delta j) [0..<4]"
        using cells by (intro nth_equalityI) (auto simp: from_depth_def)
      then show ?thesis by (simp add: raise_cells_def)
    qed
    have "gbooks f (proxy a) (from_depth (Suc ?k) delta) (put_account (proxy a) (raise_cells (from_depth ?k delta) p) s)"
      using books_step [OF Suc.prems(2) a False p] by simp
    moreover have "Suc ?k = 4 - left" using Suc.prems(1) by simp
    ultimately have "gbalanced f s' \<and> only_adores (put_account (proxy a) (raise_cells (from_depth ?k delta) p) s) s'"
      using Suc.IH [OF _ _ run [unfolded raise]] Suc.prems(1) by simp
    then show ?thesis using only_adores_put [OF p] only_adores_trans by blast
  qed
qed

subsection \<open>The adores of all accounts are their qi\<close>

lemma proxied_total:
  assumes "shape s"
  shows "tsum (\<lambda>m p. proxied_level 0 (\<lambda>_. 0) m j s) (accounts s) =
    tsum (\<lambda>b x. if proxy x \<noteq> 0 then level x j else 0) (accounts s)"
proof -
  have wf: "wf_table (accounts s)" using assms by (simp add: shape_def)
  have "tsum (\<lambda>m p. proxied_level 0 (\<lambda>_. 0) m j s) (accounts s) =
      tsum (\<lambda>b x. tsum (\<lambda>m p. if m = proxy x then level x j else 0) (accounts s)) (accounts s)"
    unfolding gproxied_def lev_none by (subst tsum_swap) (simp only: eq_commute)
  also have "\<dots> = tsum (\<lambda>b x. if proxy x \<noteq> 0 then level x j else 0) (accounts s)"
  proof (rule tsum_cong [OF wf])
    fix b x assume x: "map_of (accounts s) b = Some x"
    have "map_of (accounts s) (proxy x) \<noteq> None \<longleftrightarrow> proxy x \<noteq> 0"
      using assms x unfolding shape_def by metis
    then show "tsum (\<lambda>m p. if m = proxy x then level x j else 0) (accounts s) = (if proxy x \<noteq> 0 then level x j else 0)"
      unfolding tsum_at [OF wf] by simp
  qed
  finally show ?thesis .
qed

lemma list4_cases:
  "(\<And>p q r u. xs = [p, q, r, u] \<Longrightarrow> P) \<Longrightarrow> (length xs \<noteq> 4 \<Longrightarrow> P) \<Longrightarrow> P"
proof (cases "length xs = 4")
  case True
  assume "\<And>p q r u. xs = [p, q, r, u] \<Longrightarrow> P"
  moreover have "xs = [xs ! 0, xs ! 1, xs ! 2, xs ! 3]"
    using True by (intro nth_equalityI) (auto simp: less_Suc_eq numeral_eq_Suc)
  ultimately show P by blast
qed

definition total_vsf_adores :: "chain \<Rightarrow> int" where
  "total_vsf_adores s = tsum (\<lambda>n a. if proxy a = 0 then amount (qi a) + sum_list (proxied_vsf_adores a)
     else proxied_vsf_adores a ! 3) (accounts s)"

lemma balanced_total:
  assumes "balanced s"
  shows "total_vsf_adores s = tsum (\<lambda>n a. amount (qi a)) (accounts s)"
proof -
  have sh: "shape s" and wf: "wf_table (accounts s)" using assms by (auto simp: gbalanced_def gbooks_def shape_def)
  define S where "S j = tsum (\<lambda>b x. if proxy x \<noteq> 0 then level x j else 0) (accounts s)" for j
  define T where "T j = tsum (\<lambda>b x. if proxy x = 0 then level x j else 0) (accounts s)" for j
  have split: "tsum (\<lambda>b x. level x j) (accounts s) = S j + T j" for j
    unfolding S_def T_def tsum_add [symmetric] by (rule tsum_cong [OF wf]) simp
  have up: "tsum (\<lambda>b x. level x (Suc j)) (accounts s) = S j" if "j < 4" for j
  proof -
    have "tsum (\<lambda>b x. level x (Suc j)) (accounts s) = tsum (\<lambda>m p. proxied_level 0 (\<lambda>_. 0) m j s) (accounts s)"
      using assms that by (intro tsum_cong [OF wf]) (auto simp: gbalanced_def gbooks_def level_def)
    then show ?thesis unfolding proxied_total [OF sh] S_def .
  qed
  have e: "S j = S (Suc j) + T (Suc j)" if "j < 4" for j
    using up [OF that] split [of "Suc j"] by simp
  have s0: "S 0 = S 1 + T 1" "S 1 = S 2 + T 2" "S 2 = S 3 + T 3" "S 3 = S 4 + T 4"
    using e [of 0] e [of 1] e [of 2] e [of 3] by (simp_all add: numeral_eq_Suc)
  have "tsum (\<lambda>n a. amount (qi a)) (accounts s) = S 0 + T 0"
    using split [of 0] by (simp add: level_def)
  moreover have "total_vsf_adores s = S 4 + (T 0 + T 1 + T 2 + T 3 + T 4)"
  proof -
    have l: "length (proxied_vsf_adores x) = 4" if "map_of (accounts s) b = Some x" for b x
      using sh that by (auto simp: shape_def)
    have w: "amount (qi x) + sum_list (proxied_vsf_adores x) = level x 0 + level x 1 + level x 2 + level x 3 + level x 4"
      if len: "length (proxied_vsf_adores x) = 4" for x
    proof -
      obtain p q r u where "proxied_vsf_adores x = [p, q, r, u]"
        using len by (cases "proxied_vsf_adores x" rule: list4_cases) simp_all
      then show ?thesis by (simp add: level_def)
    qed
    have "total_vsf_adores s = tsum (\<lambda>b x. (if proxy x \<noteq> 0 then level x 4 else 0) +
       ((if proxy x = 0 then level x 0 else 0) + (if proxy x = 0 then level x 1 else 0) +
        (if proxy x = 0 then level x 2 else 0) + (if proxy x = 0 then level x 3 else 0) +
        (if proxy x = 0 then level x 4 else 0))) (accounts s)"
      unfolding total_vsf_adores_def
    proof (rule tsum_cong [OF wf])
      fix b x assume x: "map_of (accounts s) b = Some x"
      have "level x 4 = proxied_vsf_adores x ! 3" by (simp add: level_def)
      then show "(if proxy x = 0 then amount (qi x) + sum_list (proxied_vsf_adores x) else proxied_vsf_adores x ! 3) =
        (if proxy x \<noteq> 0 then level x 4 else 0) + ((if proxy x = 0 then level x 0 else 0) +
          (if proxy x = 0 then level x 1 else 0) + (if proxy x = 0 then level x 2 else 0) +
          (if proxy x = 0 then level x 3 else 0) + (if proxy x = 0 then level x 4 else 0))"
        using w [OF l [OF x]] by simp
    qed
    then show ?thesis unfolding tsum_add S_def T_def .
  qed
  ultimately show ?thesis using s0 by simp
qed

subsection \<open>The ledger\<close>

text \<open>
  \<open>worth\<close> is all YANG and QI, pending rewards, funds, NFAs and what they cultivate with included, in QI at the fixed rate
  of 1000 QI a YANG (the smallest units). \<open>ledger_ok\<close> are the equations of the audit that the
  operations of the token economy maintain.
\<close>

definition total_of :: "(account_object \<Rightarrow> asset) \<Rightarrow> chain \<Rightarrow> int" where
  "total_of g s = tsum (\<lambda>n a. amount (g a)) (accounts s)"

definition fund_of :: "(reward_fund_object \<Rightarrow> asset) \<Rightarrow> chain \<Rightarrow> int" where
  "fund_of g s = tsum (\<lambda>i f. amount (g f)) (reward_funds s)"

definition nfa_qi_total :: "chain \<Rightarrow> int" where
  "nfa_qi_total s = tsum (\<lambda>i x. amount (nfa_qi x)) (nfas s)"

definition cultivated :: "chain \<Rightarrow> int" where
  "cultivated s = tsum (\<lambda>i x. i64_of_u64 (cultivation_value x)) (nfas s)"

definition worth :: "chain \<Rightarrow> int" where
  "worth s = 1000 * (total_of balance s + total_of reward_yang_balance s + fund_of reward_balance s) +
     total_of qi s + total_of reward_qi_balance s + total_of reward_feigang_balance s +
     fund_of fund_qi_balance s + nfa_qi_total s + cultivated s"

definition ledger_ok :: "chain \<Rightarrow> bool" where
  "ledger_ok s \<longleftrightarrow> balanced s \<and>
     amount (total_qi (gpo s)) = total_of qi s + nfa_qi_total s \<and>
     amount (pending_rewarded_feigang (gpo s)) = total_of reward_feigang_balance s \<and>
     amount (pending_rewarded_qi (gpo s)) = total_of reward_qi_balance s + fund_of fund_qi_balance s \<and>
     amount (pending_cultivation_qi (gpo s)) = cultivated s"

lemma only_adores_total:
  assumes "only_adores s s'" "wf_table (accounts s)" "wf_table (accounts s')"
    and "\<And>a. g (a\<lparr>proxied_vsf_adores := []\<rparr>) = g a"
  shows "total_of g s' = total_of g s"
proof -
  have idx: "ids t = ids u" if "wf_table t" "wf_table u" "dom (map_of t) = dom (map_of u)" for t u :: "(account_name_type, account_object) tbl"
    using that by (metis set_ids wf_table_def strict_sorted_equal)
  let ?m = "map (\<lambda>(k, a). (k, a\<lparr>proxied_vsf_adores := []\<rparr>))"
  have mo: "map_of (?m t) n = map_option (\<lambda>a. a\<lparr>proxied_vsf_adores := []\<rparr>) (map_of t n)" for t n
    by (induction t) auto
  have wf: "wf_table (?m t) \<longleftrightarrow> wf_table t" for t :: "(account_name_type, account_object) tbl"
    by (simp add: wf_table_def ids_def comp_def case_prod_beta)
  have "?m (accounts s') = ?m (accounts s)"
    using assms(1,2,3) by (intro wf_table_ext) (auto simp: wf mo only_adores_def fun_eq_iff)
  moreover have "total_of g u = tsum (\<lambda>n a. amount (g a)) (?m (accounts u))" for u
    unfolding total_of_def tsum_def using assms(4) by (simp add: comp_def split_def)
  ultimately show ?thesis by simp
qed

subsection \<open>Effects of the balance functions\<close>

lemma native_no_object [simp]: "\<not> has_balance_object YANG_SYMBOL" "\<not> has_balance_object QI_SYMBOL"
  by (simp_all add: has_balance_object_def space_def native_nums)

lemma check_available_qi:
  assumes "fc_laws F" "check_available F n (qis x) s = Inr u" "x < 0" "map_of (accounts s) n = Some a"
  shows "0 \<le> amount (qi a) + x"
  using assms by (auto simp: check_available_def get_balance_of_def get_balance_def asset_cmp_def fc_simps)

lemma modify_qi_effect:
  assumes "fc_laws F" "modify_balance F n (qis x) c s = Inr s'"
  obtains a where "map_of (accounts s) n = Some a" "symbol (qi a) = QI_SYMBOL"
    "c \<longrightarrow> 0 \<le> amount (qi a) + x" "s' = put_account n (a\<lparr>qi := qis (amount (qi a) + x)\<rparr>) s"
  using assms by (auto simp: modify_balance_def modify_account_def add_checked_def)

lemma modify_yang_effect:
  assumes "fc_laws F" "modify_balance F n (yang x) c s = Inr s'"
  obtains a where "map_of (accounts s) n = Some a" "symbol (balance a) = YANG_SYMBOL"
    "c \<longrightarrow> 0 \<le> amount (balance a) + x" "s' = put_account n (a\<lparr>balance := yang (amount (balance a) + x)\<rparr>) s"
  using assms by (auto simp: modify_balance_def modify_account_def add_checked_def)

lemma adjust_native: 
  "adjust_balance F n (qis x) s = Inr s' \<Longrightarrow> modify_balance F n (qis x) True s = Inr s'"
  "adjust_balance F n (yang x) s = Inr s' \<Longrightarrow> modify_balance F n (yang x) True s = Inr s'"
  "adjust_balance_of F n (qis x) s = Inr s' \<Longrightarrow> modify_balance F n (qis x) True s = Inr s'"
  "adjust_balance_of F n (yang x) s = Inr s' \<Longrightarrow> modify_balance F n (yang x) True s = Inr s'"
  by (auto simp: adjust_balance_def adjust_balance_of_def)

lemma total_put:
  assumes "wf_table (accounts s)" "map_of (accounts s) n = Some a"
  shows "total_of g (put_account n a' s) = total_of g s + amount (g a') - amount (g a)"
  by (simp add: total_of_def put_account_def tsum_update [OF assms])

lemma put_same_simps [simp]:
  "fund_of g (put_account n a s) = fund_of g s" "nfa_qi_total (put_account n a s) = nfa_qi_total s"
  "gpo (put_account n a s) = gpo s" "simings (put_account n a s) = simings s"
  "siming_adores (put_account n a s) = siming_adores s"
  "fund_of g (s\<lparr>gpo := p\<rparr>) = fund_of g s" "nfa_qi_total (s\<lparr>gpo := p\<rparr>) = nfa_qi_total s"
  "total_of h (s\<lparr>gpo := p\<rparr>) = total_of h s"
  "fund_of g (push_vop v s) = fund_of g s" "nfa_qi_total (push_vop v s) = nfa_qi_total s"
  "total_of h (push_vop v s) = total_of h s" "gpo (push_vop v s) = gpo s" "accounts (push_vop v s) = accounts s"
  by (simp_all add: fund_of_def nfa_qi_total_def cultivated_def put_account_def total_of_def push_vop_def)

text \<open>A change of an account that keeps its proxy and cells leaves the books open by the change of its qi.\<close>

lemma books_put:
  assumes b: "balanced s" and a: "map_of (accounts s) n = Some a"
    and a': "proxy a' = proxy a" "proxied_vsf_adores a' = proxied_vsf_adores a"
  shows "books n (single 0 (amount (qi a') - amount (qi a))) (put_account n a' s)"
proof -
  let ?d = "amount (qi a') - amount (qi a)" and ?s = "put_account n a' s"
  have sh: "shape s" using b by (simp add: gbalanced_def gbooks_def)
  have wf: "wf_table (accounts s)" using sh by (simp add: shape_def)
  have acc: "accounts ?s = tput n a' (accounts s)" by (simp add: put_account_def)
  have lv: "lev n (single 0 ?d) n a' j = level a j" for j
    using a' by (simp add: glev_def level_def single_def)
  have lo: "lev n (single 0 ?d) b x j = level x j" if "b \<noteq> n" for b x j using that by (simp add: glev_def)
  have keep: "tsum (\<lambda>b x. f b x (lev n (single 0 ?d) b x)) (tput n a' (accounts s)) = tsum (\<lambda>b x. f b x (level x)) (accounts s)"
    if "f n a' (level a) = f n a (level a)" for f :: "account_name_type \<Rightarrow> account_object \<Rightarrow> (nat \<Rightarrow> int) \<Rightarrow> int"
  proof -
    have "tsum (\<lambda>b x. f b x (lev n (single 0 ?d) b x)) (accounts s) =
        tsum (\<lambda>b x. f b x (level x) + (if b = n then f n a (lev n (single 0 ?d) n a) - f n a (level a) else 0)) (accounts s)"
    proof (rule tsum_cong [OF wf])
      fix b x assume "map_of (accounts s) b = Some x"
      moreover have "lev n (single 0 ?d) b x = level x" if "b \<noteq> n" using lo [OF that] by auto
      ultimately show "f b x (lev n (single 0 ?d) b x) =
          f b x (level x) + (if b = n then f n a (lev n (single 0 ?d) n a) - f n a (level a) else 0)"
        using a by (cases "b = n") auto
    qed
    moreover have "lev n (single 0 ?d) n a' = level a" using lv by auto
    ultimately show ?thesis unfolding tsum_update [OF wf a] tsum_add tsum_at [OF wf] using a that by simp
  qed
  have plev: "proxied_level n (single 0 ?d) m j ?s = proxied_level 0 (\<lambda>_. 0) m j s" for m j
    unfolding gproxied_def acc lev_none
    using keep [of "\<lambda>b x l. if proxy x = m then l j else 0"] a' by simp
  have aw: "adored_weight n (single 0 ?d) w ?s = adored_weight 0 (\<lambda>_. 0) w s" for w
    unfolding gadored_def acc gfull_def lev_none put_same_simps
    using keep [of "\<lambda>b x l. if map_of (siming_adores s) (b, w) \<noteq> None then (\<Sum>j<5. l j) else 0"] by simp
  show ?thesis
    unfolding gbooks_def
  proof (intro conjI allI impI)
    show "shape ?s" using sh a a' by (auto simp: shape_def put_account_def split: if_splits)
    fix m x and j :: nat assume m: "map_of (accounts ?s) m = Some x" and j: "j < 4"
    obtain y where "map_of (accounts s) m = Some y" "proxied_vsf_adores x = proxied_vsf_adores y"
      using m acc a a' by (cases "m = n") auto
    then show "proxied_vsf_adores x ! j = proxied_level n (single 0 ?d) m j ?s"
      using b j plev by (simp add: gbalanced_def gbooks_def)
  next
    fix w sim assume "map_of (simings ?s) w = Some sim"
    then show "adores sim = adored_weight n (single 0 ?d) w ?s" using b aw by (simp add: gbalanced_def gbooks_def)
  qed
qed

lemma single_zero [simp]: "single i 0 = (\<lambda>_. 0)"
  by (auto simp: single_def)

lemma books_gpo [simp]: "gbooks f n D (s\<lparr>gpo := p\<rparr>) = gbooks f n D s" "gbooks f n D (push_vop v s) = gbooks f n D s"
  by (simp_all add: gbooks_def shape_def gproxied_def gadored_def push_vop_def)

lemma balanced_wf: "balanced s \<Longrightarrow> wf_table (accounts s)" "books n D s \<Longrightarrow> wf_table (accounts s)"
  by (simp_all add: gbalanced_def gbooks_def shape_def)

subsection \<open>Qi that moves keeps the ledger\<close>

definition same_totals :: "chain \<Rightarrow> chain \<Rightarrow> bool" where
  "same_totals s s' \<longleftrightarrow> gpo s' = gpo s \<and> reward_funds s' = reward_funds s \<and> nfas s' = nfas s \<and>
     total_of balance s' = total_of balance s \<and> total_of qi s' = total_of qi s \<and>
     total_of reward_yang_balance s' = total_of reward_yang_balance s \<and>
     total_of reward_qi_balance s' = total_of reward_qi_balance s \<and>
     total_of reward_feigang_balance s' = total_of reward_feigang_balance s"

lemma same_totals_refl [simp]: "same_totals s s"
  by (simp add: same_totals_def)

lemma same_totals_trans: "same_totals s t \<Longrightarrow> same_totals t u \<Longrightarrow> same_totals s u"
  by (simp add: same_totals_def)

lemma same_totals_ledger:
  "same_totals s s' \<Longrightarrow> ledger_ok s \<Longrightarrow> balanced s' \<Longrightarrow> ledger_ok s' \<and> worth s' = worth s"
  by (simp add: same_totals_def ledger_ok_def worth_def fund_of_def nfa_qi_total_def cultivated_def)

lemma only_adores_totals:
  assumes "only_adores s s'" "wf_table (accounts s)" "wf_table (accounts s')"
  shows "same_totals s s'"
proof -
  have e: "s'\<lparr>accounts := [], simings := []\<rparr> = s\<lparr>accounts := [], simings := []\<rparr>"
    using assms(1) by (simp add: only_adores_def)
  have "gpo s' = gpo s" "reward_funds s' = reward_funds s" "nfas s' = nfas s"
    using arg_cong [OF e, of gpo] arg_cong [OF e, of reward_funds] arg_cong [OF e, of nfas] by simp_all
  then show ?thesis unfolding same_totals_def using only_adores_total [OF assms] by simp
qed

lemma adjust_adores_effect:
  assumes F: "fc_laws F" and b: "books n (single 0 x) s" and run: "adjust_proxied_siming_adores F n x s = Inr s'"
  shows "balanced s' \<and> same_totals s s' \<and> only_adores s s'"
proof -
  have "balanced s' \<and> only_adores s s'"
    using adjust_proxied_books [OF F order_refl, of no_ghost n x s s'] b run
    by (simp add: adjust_proxied_siming_adores_def TAIYI_MAX_PROXY_RECURSION_DEPTH_def)
  then show ?thesis using only_adores_totals balanced_wf b by blast
qed

text \<open>A change of an account that leaves its qi, proxy and cells alone keeps the books.\<close>

lemma put_balanced:
  "balanced s \<Longrightarrow> map_of (accounts s) n = Some a \<Longrightarrow> proxy a' = proxy a \<Longrightarrow>
    proxied_vsf_adores a' = proxied_vsf_adores a \<Longrightarrow> amount (qi a') = amount (qi a) \<Longrightarrow> balanced (put_account n a' s)"
  using books_put [of s n a a'] by (simp add: books_zero)

lemma total_gpo [simp]: "total_of g (s\<lparr>gpo := p\<rparr>) = total_of g s"
  by (simp add: total_of_def)

lemma cultivated_frame [simp]:
  "cultivated (s\<lparr>gpo := p\<rparr>) = cultivated s" "cultivated (push_vop v s) = cultivated s"
  "cultivated (put_account n a s) = cultivated s" "cultivated (s\<lparr>reward_funds := t\<rparr>) = cultivated s"
  by (simp_all add: cultivated_def push_vop_def put_account_def)

text \<open>Nor does any of this change who is whose proxy.\<close>

definition links :: "chain \<Rightarrow> account_name_type \<Rightarrow> (account_name_type \<times> nat) option" where
  "links s n = map_option (\<lambda>a. (proxy a, acc_id a)) (map_of (accounts s) n)"

definition same_proxies :: "chain \<Rightarrow> chain \<Rightarrow> bool" where
  "same_proxies s s' \<longleftrightarrow> links s' = links s \<and> next_account_id s' = next_account_id s"

lemma same_proxies_refl [simp]: "same_proxies s s"
  by (simp add: same_proxies_def)

lemma same_proxies_trans: "same_proxies s t \<Longrightarrow> same_proxies t u \<Longrightarrow> same_proxies s u"
  by (simp add: same_proxies_def)

lemma same_proxies_accounts:
  "accounts s' = accounts s \<Longrightarrow> next_account_id s' = next_account_id s \<Longrightarrow> same_proxies s s'"
  by (simp add: same_proxies_def links_def fun_eq_iff)

lemma only_adores_proxies: "only_adores s s' \<Longrightarrow> same_proxies s s'"
proof -
  assume o: "only_adores s s'"
  then have e: "s'\<lparr>accounts := [], simings := []\<rparr> = s\<lparr>accounts := [], simings := []\<rparr>"
    and m: "map_option (\<lambda>a. a\<lparr>proxied_vsf_adores := []\<rparr>) (map_of (accounts s') n) =
          map_option (\<lambda>a. a\<lparr>proxied_vsf_adores := []\<rparr>) (map_of (accounts s) n)" for n
    by (simp_all add: only_adores_def)
  have "links s' n = links s n" for n
    using arg_cong [OF m [of n], of "map_option (\<lambda>a. (proxy a, acc_id a))"] by (simp add: links_def option.map_comp comp_def)
  then show ?thesis using arg_cong [OF e, of next_account_id] by (simp add: same_proxies_def fun_eq_iff)
qed

lemma put_proxies:
  "map_of (accounts s) n = Some a \<Longrightarrow> proxy a' = proxy a \<Longrightarrow> acc_id a' = acc_id a \<Longrightarrow> same_proxies s (put_account n a' s)"
  by (auto simp: same_proxies_def links_def put_account_def fun_eq_iff)

lemma same_proxies_gpo [simp]:
  "same_proxies s (t\<lparr>gpo := p\<rparr>) = same_proxies s t" "same_proxies s (push_vop v t) = same_proxies s t"
  "same_proxies (t\<lparr>gpo := p\<rparr>) s = same_proxies t s" "same_proxies (push_vop v t) s = same_proxies t s"
  by (simp_all add: same_proxies_def links_def push_vop_def fun_eq_iff)

lemma create_qi_effect:
  assumes F: "fc_laws F" and ok: "ledger_ok s" and x: "0 \<le> x" "x * 1000 < 2 ^ 63"
    and run: "create_qi F n (yang x) False s = Inr (v, s')"
  shows "v = qis (1000 * x) \<and> ledger_ok s' \<and> worth s' = worth s + 1000 * x \<and>
    current_supply (gpo s') = current_supply (gpo s) \<and> same_proxies s s'"
proof -
  have b: "balanced s" using ok by (simp add: ledger_ok_def)
  obtain s1 p s2 where s1: "adjust_balance F n (qis (1000 * x)) s = Inr s1"
    and p: "asset_add F (total_qi (gpo s1)) (qis (1000 * x)) = Inr p"
    and s2: "s2 = s1\<lparr>gpo := gpo s1\<lparr>total_qi := p\<rparr>\<rparr>"
    and run2: "adjust_proxied_siming_adores F n (1000 * x) s2 = Inr s'" and v: "v = qis (1000 * x)"
    using run yang_to_qi [OF F x] by (auto simp: create_qi_def create_qi2_def modify_gpo_def)
  obtain a where a: "map_of (accounts s) n = Some a"
    and s1': "s1 = put_account n (a\<lparr>qi := qis (amount (qi a) + 1000 * x)\<rparr>) s"
    using modify_qi_effect [OF F adjust_native(1) [OF s1]] by blast
  have "books n (single 0 (1000 * x)) s2"
    using books_put [OF b a, of "a\<lparr>qi := qis (amount (qi a) + 1000 * x)\<rparr>"] s1' s2 by simp
  then have e: "balanced s'" "same_totals s2 s'" "same_proxies s2 s'"
    using adjust_adores_effect [OF F _ run2] only_adores_proxies by blast+
  have "same_proxies s s1" unfolding s1' by (rule put_proxies [OF a]) simp_all
  then have sp: "same_proxies s s'" using same_proxies_trans [OF _ e(3)] s2 by simp
  have t: "total_of g s2 = total_of g s + amount (g (a\<lparr>qi := qis (amount (qi a) + 1000 * x)\<rparr>)) - amount (g a)" for g
    unfolding s2 total_gpo s1' by (rule total_put [OF balanced_wf(1) [OF b] a])
  have g: "gpo s2 = (gpo s)\<lparr>total_qi := p\<rparr>" "amount p = amount (total_qi (gpo s)) + 1000 * x"
    using s2 s1' p F by simp_all
  have k: "reward_funds s2 = reward_funds s" "nfas s2 = nfas s" unfolding s2 s1' by (simp_all add: put_account_def)
  have "ledger_ok s' \<and> worth s' = worth s + 1000 * x"
    using ok e g k t unfolding ledger_ok_def worth_def same_totals_def fund_of_def nfa_qi_total_def cultivated_def by simp
  then show ?thesis using v g e(2) sp by (simp add: same_totals_def)
qed

lemma reward_feigang_effect:
  assumes F: "fc_laws F" and ok: "ledger_ok s" and run: "reward_feigang F to from f s = Inr s'"
  shows "ledger_ok s' \<and> worth s' = worth s \<and> current_supply (gpo s') = current_supply (gpo s) \<and> same_proxies s s'"
proof -
  have b: "balanced s" using ok by (simp add: ledger_ok_def)
  define x where "x = amount f"
  have f: "f = qis x" and "x > 0" using run by (auto simp: reward_feigang_def x_def mk_asset_def)
  obtain s1 s2 s3 p q where s1: "adjust_balance F from (qis (- x)) s = Inr s1"
    and s2: "adjust_proxied_siming_adores F from (- x) s1 = Inr s2"
    and s3: "modify_reward_balance F to (yang 0) (qis 0) f False (push_vop (Reward_feigang from None to f) s2) = Inr s3"
    and p: "asset_add F (pending_rewarded_feigang (gpo s3)) f = Inr p"
    and q: "asset_sub F (total_qi (gpo s3)) f = Inr q"
    and s': "s' = s3\<lparr>gpo := gpo s3\<lparr>pending_rewarded_feigang := p, total_qi := q\<rparr>\<rparr>"
    using run F by (auto simp: reward_feigang_def modify_gpo_def f)
  obtain a where a: "map_of (accounts s) from = Some a"
    and s1': "s1 = put_account from (a\<lparr>qi := qis (amount (qi a) - x)\<rparr>) s"
    using modify_qi_effect [OF F adjust_native(1) [OF s1]] by auto
  have "books from (single 0 (- x)) s1"
    using books_put [OF b a, of "a\<lparr>qi := qis (amount (qi a) - x)\<rparr>"] s1' by simp
  then have e: "balanced s2" "same_totals s1 s2" "same_proxies s1 s2"
    using adjust_adores_effect [OF F _ s2] only_adores_proxies by blast+
  obtain c where c: "map_of (accounts s2) to = Some c"
    and s3': "s3 = put_account to (c\<lparr>reward_yang_balance := yang (amount (reward_yang_balance c)),
        reward_feigang_balance := qis (amount (reward_feigang_balance c) + x)\<rparr>) (push_vop (Reward_feigang from None to f) s2)"
    using s3 F by (auto simp: modify_reward_balance_def modify_account_def add_checked_def f mk_asset_def)
  have t1: "total_of g s1 = total_of g s + amount (g (a\<lparr>qi := qis (amount (qi a) - x)\<rparr>)) - amount (g a)" for g
    unfolding s1' by (rule total_put [OF balanced_wf(1) [OF b] a])
  have wf2: "wf_table (accounts (push_vop (Reward_feigang from None to f) s2))" using balanced_wf(1) [OF e(1)] by simp
  have t3: "total_of g s3 = total_of g s2 + amount (g (c\<lparr>reward_yang_balance := yang (amount (reward_yang_balance c)),
        reward_feigang_balance := qis (amount (reward_feigang_balance c) + x)\<rparr>)) - amount (g c)" for g
    unfolding s3' total_put [OF wf2, of to c] using c by (simp add: total_put [OF wf2])
  have "balanced (push_vop (Reward_feigang from None to f) s2)" using e(1) by (simp add: gbalanced_def)
  then have b3: "balanced s3" unfolding s3' using c by (intro put_balanced) simp_all
  have "same_proxies s s1" unfolding s1' by (rule put_proxies [OF a]) simp_all
  moreover have "same_proxies (push_vop (Reward_feigang from None to f) s2) s3"
    unfolding s3' by (rule put_proxies) (use c in \<open>simp_all add: push_vop_def\<close>)
  ultimately have sp: "same_proxies s s'" using same_proxies_trans [OF _ e(3)] same_proxies_trans [of s s2 s3] s' by simp
  have g3: "gpo s3 = gpo s" "reward_funds s3 = reward_funds s" "nfas s3 = nfas s"
    using e(2) s1' s3' by (simp_all add: same_totals_def put_account_def push_vop_def)
  have q': "amount q = amount (total_qi (gpo s)) - x" "amount p = amount (pending_rewarded_feigang (gpo s)) + x"
    using p q F g3 f by simp_all
  have b': "balanced s'" using b3 s' by (simp add: gbalanced_def)
  show ?thesis
    using ok b' q' g3 e(2) sp unfolding ledger_ok_def worth_def same_totals_def s'
    by (simp add: t3 t1 fund_of_def nfa_qi_total_def cultivated_def)
qed

end
