(* ===== verification/Operations.thy ===== *)
theory Operations
  imports State
begin

section \<open>The operations of the protocol\<close>

text \<open>
  protocol/taiyi_operations.hpp: one record per operation structure, the variant of all
  operations in the order of protocol/operations.hpp, and for each the stateless checks of
  taiyi_operations.cpp and the authorities it requires. The checks on text and the decoding of
  byte vectors are fc's and are a record of parameters. Virtual operations are never accepted
  from a transaction. Contract arguments (\<open>lua_types\<close>) are kept as bytes: only the contract
  engine reads them. The unused \<open>extensions\<close> sets are left out.
\<close>

record op_lib =
  is_utf8 :: "string \<Rightarrow> bool"
  json_valid :: "string \<Rightarrow> bool"
  unpack_asset :: "u8 list \<Rightarrow> asset res"
  unpack_uint32 :: "u8 list \<Rightarrow> u32 res"
  unpack_key :: "u8 list \<Rightarrow> public_key_type res"
  unpack_string :: "u8 list \<Rightarrow> string res"

definition TAIYI_100_PERCENT :: u16 where "TAIYI_100_PERCENT = 10000"
definition TAIYI_MAX_MEMO_SIZE :: nat where "TAIYI_MAX_MEMO_SIZE = 2048"
definition TAIYI_MAX_SIMING_URL_LENGTH :: nat where "TAIYI_MAX_SIMING_URL_LENGTH = 2048"
definition TAIYI_CUSTOM_OP_ID_MAX_LENGTH :: nat where "TAIYI_CUSTOM_OP_ID_MAX_LENGTH = 32"
definition TAIYI_NULL_ACCOUNT :: account_name_type where "TAIYI_NULL_ACCOUNT = fs_of ''null''"

subsection \<open>Structures\<close>

record account_create_operation =
  ac_fee :: asset
  ac_creator :: account_name_type
  ac_new_account_name :: account_name_type
  ac_owner :: authority
  ac_active :: authority
  ac_posting :: authority
  ac_memo_key :: public_key_type
  ac_json_metadata :: string

record account_update_operation =
  au_account :: account_name_type
  au_owner :: "authority option"
  au_active :: "authority option"
  au_posting :: "authority option"
  au_memo_key :: public_key_type
  au_json_metadata :: string

record transfer_operation =
  tr_from :: account_name_type
  tr_to :: account_name_type
  tr_amount :: asset
  tr_memo :: string

record transfer_to_qi_operation =
  tq_from :: account_name_type
  tq_to :: account_name_type
  tq_amount :: asset

record withdraw_qi_operation =
  wq_account :: account_name_type
  wq_qi :: asset

record set_withdraw_qi_route_operation =
  wr_from_account :: account_name_type
  wr_to_account :: account_name_type
  wr_percent :: u16
  wr_auto_vest :: bool

record delegate_qi_operation =
  dq_delegator :: account_name_type
  dq_delegatee :: account_name_type
  dq_qi :: asset

text \<open>A legacy asset is an amount with the serialised form of its symbol, which is always YANG.\<close>

record legacy_taiyi_asset =
  leg_amount :: int
  leg_ser :: u64

definition leg_is_canon :: "legacy_taiyi_asset \<Rightarrow> bool" where
  "leg_is_canon l \<longleftrightarrow> leg_ser l = YANG_SYMBOL_SER"

definition leg_to_asset :: "bool \<Rightarrow> legacy_taiyi_asset \<Rightarrow> asset res" where
  "leg_to_asset force_canon l =
     rguard (\<not> force_canon \<or> leg_is_canon l) (Assert ''Must use canonical YANG symbol serialization'')
       (Inr (mk_asset (leg_amount l) YANG_SYMBOL))"

definition leg_from_amount :: "int \<Rightarrow> legacy_taiyi_asset" where
  "leg_from_amount x = \<lparr>leg_amount = x, leg_ser = YANG_SYMBOL_SER\<rparr>"

definition leg_from_asset :: "asset \<Rightarrow> legacy_taiyi_asset res" where
  "leg_from_asset a = rguard (symbol a = YANG_SYMBOL) (Assert ''a.symbol == YANG_SYMBOL'') (Inr (leg_from_amount (amount a)))"

text \<open>The serialised forms that old blocks contain are accepted besides the canonical one.\<close>

definition YANG_SYMBOL_U64 :: u64 where
  "YANG_SYMBOL_U64 = 0x59 OR push_bit 8 0x41 OR push_bit 16 0x4E OR push_bit 24 0x47"

definition legacy_sers :: "u64 list" where
  "legacy_sers =
     [1 OR push_bit 8 YANG_SYMBOL_U64, 2 OR push_bit 8 YANG_SYMBOL_U64, 5 OR push_bit 8 YANG_SYMBOL_U64,
      3 OR push_bit 8 0x30 OR push_bit 16 0x2E OR push_bit 24 0x30 OR push_bit 32 0x30 OR push_bit 40 0x31,
      3 OR push_bit 8 0x36 OR push_bit 16 0x2E OR push_bit 24 0x30 OR push_bit 32 0x30 OR push_bit 40 0x30]"

definition leg_pack :: "u64 \<Rightarrow> u8 list res" where
  "leg_pack ser = rguard (ser = YANG_SYMBOL_SER \<or> ser \<in> set legacy_sers) (Assert ''Cannot serialize legacy symbol'')
     (Inr (le_bytes64 ser))"

definition leg_unpack :: "u8 list \<Rightarrow> (u64 \<times> u8 list) res" where
  "leg_unpack s =
     rbind (stream_read4 s) (\<lambda>(lo, s).
     rbind (stream_read4 s) (\<lambda>(hi, s).
     let ser = lo OR push_bit 32 hi in
     rguard (ser = YANG_SYMBOL_SER \<or> ser \<in> set legacy_sers) (Assert ''Cannot deserialize legacy symbol'')
       (Inr (ser, s))))"

record legacy_chain_properties =
  lcp_account_creation_fee :: legacy_taiyi_asset
  lcp_maximum_block_size :: u32
  lcp_proposal_adopted_votes_threshold :: u32

record siming_update_operation =
  su_owner :: account_name_type
  su_url :: string
  su_block_signing_key :: public_key_type
  su_props :: legacy_chain_properties

record siming_set_properties_operation =
  sp_owner :: account_name_type
  sp_props :: "(string \<times> u8 list) list"

record account_siming_adore_operation =
  sa_account :: account_name_type
  sa_siming :: account_name_type
  sa_approve :: bool

record account_siming_proxy_operation =
  px_account :: account_name_type
  px_proxy :: account_name_type

record decline_adoring_rights_operation =
  da_account :: account_name_type
  da_decline :: bool

record custom_operation =
  cu_required_auths :: "account_name_type list"
  cu_id :: u16
  cu_data :: "u8 list"

record custom_json_operation =
  cj_required_auths :: "account_name_type list"
  cj_required_posting_auths :: "account_name_type list"
  cj_id :: string
  cj_json :: string

record request_account_recovery_operation =
  rr_recovery_account :: account_name_type
  rr_account_to_recover :: account_name_type
  rr_new_owner_authority :: authority

record recover_account_operation =
  rc_account_to_recover :: account_name_type
  rc_new_owner_authority :: authority
  rc_recent_owner_authority :: authority

record change_recovery_account_operation =
  cr_account_to_recover :: account_name_type
  cr_new_recovery_account :: account_name_type

record claim_reward_balance_operation =
  cl_account :: account_name_type
  cl_reward_yang :: asset
  cl_reward_qi :: asset
  cl_reward_feigang :: asset

record create_contract_operation =
  cc_owner :: account_name_type
  cc_name :: string
  cc_data :: string

record revise_contract_operation =
  rv_reviser :: account_name_type
  rv_contract_name :: string
  rv_data :: string

record release_contract_operation =
  rl_owner :: account_name_type
  rl_contract_name :: string

record call_contract_function_operation =
  cf_caller :: account_name_type
  cf_contract_name :: string
  cf_function_name :: string
  cf_value_list :: "u8 list list"
  cf_extensions :: "string list"

record action_nfa_operation =
  na_caller :: account_name_type
  na_id :: int
  na_action :: string
  na_value_list :: "u8 list list"
  na_extensions :: "string list"

datatype operation =
    Account_create account_create_operation
  | Account_update account_update_operation
  | Transfer transfer_operation
  | Transfer_to_qi transfer_to_qi_operation
  | Withdraw_qi withdraw_qi_operation
  | Set_withdraw_qi_route set_withdraw_qi_route_operation
  | Delegate_qi delegate_qi_operation
  | Siming_update siming_update_operation
  | Siming_set_properties siming_set_properties_operation
  | Account_siming_adore account_siming_adore_operation
  | Account_siming_proxy account_siming_proxy_operation
  | Decline_adoring_rights decline_adoring_rights_operation
  | Custom custom_operation
  | Custom_json custom_json_operation
  | Request_account_recovery request_account_recovery_operation
  | Recover_account recover_account_operation
  | Change_recovery_account change_recovery_account_operation
  | Claim_reward_balance claim_reward_balance_operation
  | Create_contract create_contract_operation
  | Revise_contract revise_contract_operation
  | Release_contract release_contract_operation
  | Call_contract_function call_contract_function_operation
  | Action_nfa action_nfa_operation
  | Virtual_operation virtual_op

subsection \<open>Checks\<close>

definition validate_account_name :: "account_name_type \<Rightarrow> unit res" where
  "validate_account_name n = rguard (is_valid_account_name (fs_string n)) (Assert ''Account name is invalid'') (Inr ())"

definition validate_metadata :: "op_lib \<Rightarrow> string \<Rightarrow> unit res" where
  "validate_metadata L j =
     (if length j > 0
      then rguard (is_utf8 L j) (Assert ''JSON Metadata not formatted in UTF8'')
           (rguard (json_valid L j) (Assert ''JSON Metadata not valid JSON'') (Inr ()))
      else Inr ())"

definition validate_account_create :: "op_lib \<Rightarrow> account_create_operation \<Rightarrow> unit res" where
  "validate_account_create L op =
     rbind (validate_account_name (ac_new_account_name op)) (\<lambda>_.
     rguard (symbol (ac_fee op) = YANG_SYMBOL) (Assert ''Account creation fee must be YANG'')
     (rbind (validate_authority (ac_owner op)) (\<lambda>_.
      rbind (validate_authority (ac_active op)) (\<lambda>_.
      rbind (validate_metadata L (ac_json_metadata op)) (\<lambda>_.
      rbind (asset_cmp Ge (ac_fee op) (yang 0)) (\<lambda>b.
      rguard b (Assert ''Account creation fee cannot be negative'') (Inr ())))))))"

definition validate_account_update :: "op_lib \<Rightarrow> account_update_operation \<Rightarrow> unit res" where
  "validate_account_update L op =
     rbind (validate_account_name (au_account op)) (\<lambda>_. validate_metadata L (au_json_metadata op))"

definition validate_transfer :: "op_lib \<Rightarrow> transfer_operation \<Rightarrow> unit res" where
  "validate_transfer L op =
     rbind (validate_account_name (tr_from op)) (\<lambda>_.
     rbind (validate_account_name (tr_to op)) (\<lambda>_.
     rbind (is_qi (symbol (tr_amount op))) (\<lambda>q.
     rguard (\<not> q) (Assert ''Transfer of qi is not allowed.'')
     (rguard (amount (tr_amount op) > 0) (Assert ''Cannot transfer a negative amount (aka: stealing)'')
     (rguard (length (tr_memo op) < TAIYI_MAX_MEMO_SIZE) (Assert ''Memo is too large'')
     (rguard (is_utf8 L (tr_memo op)) (Assert ''Memo is not UTF8'') (Inr ())))))))"

definition validate_transfer_to_qi :: "transfer_to_qi_operation \<Rightarrow> unit res" where
  "validate_transfer_to_qi op =
     rbind (validate_account_name (tq_from op)) (\<lambda>_.
     rguard (symbol (tq_amount op) = YANG_SYMBOL) (Assert ''Amount must be YANG'')
     (rbind (if tq_to op \<noteq> 0 then validate_account_name (tq_to op) else Inr ()) (\<lambda>_.
      rguard (amount (tq_amount op) > 0) (Assert ''Must transfer a nonzero amount'') (Inr ()))))"

definition validate_withdraw_qi :: "withdraw_qi_operation \<Rightarrow> unit res" where
  "validate_withdraw_qi op =
     rbind (validate_account_name (wq_account op)) (\<lambda>_.
     rguard (symbol (wq_qi op) = QI_SYMBOL) (Assert ''Amount must be QI'') (Inr ()))"

definition validate_set_withdraw_qi_route :: "set_withdraw_qi_route_operation \<Rightarrow> unit res" where
  "validate_set_withdraw_qi_route op =
     rbind (validate_account_name (wr_from_account op)) (\<lambda>_.
     rbind (validate_account_name (wr_to_account op)) (\<lambda>_.
     rguard (wr_percent op \<le> TAIYI_100_PERCENT) (Assert ''Percent must be valid taiyi percent'') (Inr ())))"

definition validate_legacy_properties :: "bool \<Rightarrow> legacy_chain_properties \<Rightarrow> unit res" where
  "validate_legacy_properties force_canon p =
     rguard (\<not> force_canon \<or> leg_is_canon (lcp_account_creation_fee p)) (Assert ''account_creation_fee.symbol.is_canon()'')
     (rguard (leg_amount (lcp_account_creation_fee p) \<ge> TAIYI_MIN_ACCOUNT_CREATION_FEE)
        (Assert ''account_creation_fee.amount >= TAIYI_MIN_ACCOUNT_CREATION_FEE'')
     (rguard (lcp_maximum_block_size p \<ge> TAIYI_MIN_BLOCK_SIZE_LIMIT)
        (Assert ''maximum_block_size >= TAIYI_MIN_BLOCK_SIZE_LIMIT'')
     (rguard (lcp_proposal_adopted_votes_threshold p \<ge> 1)
        (Assert ''proposal_adopted_votes_threshold >= 1'') (Inr ()))))"

definition validate_url :: "op_lib \<Rightarrow> string \<Rightarrow> unit res" where
  "validate_url L u =
     rguard (length u \<le> TAIYI_MAX_SIMING_URL_LENGTH) (Assert ''URL is too long'')
     (rguard (length u > 0) (Assert ''URL size must be greater than 0'')
     (rguard (is_utf8 L u) (Assert ''URL is not valid UTF8'') (Inr ())))"

definition validate_siming_update :: "op_lib \<Rightarrow> siming_update_operation \<Rightarrow> unit res" where
  "validate_siming_update L op =
     rbind (validate_account_name (su_owner op)) (\<lambda>_.
     rbind (validate_url L (su_url op)) (\<lambda>_.
     validate_legacy_properties False (su_props op)))"

text \<open>A property that is present is decoded and checked.\<close>

definition check_prop ::
  "(string \<times> u8 list) list \<Rightarrow> string \<Rightarrow> (u8 list \<Rightarrow> 'a res) \<Rightarrow> ('a \<Rightarrow> unit res) \<Rightarrow> unit res" where
  "check_prop props k unpack check =
     (case map_of props k of None \<Rightarrow> Inr () | Some v \<Rightarrow> rbind (unpack v) check)"

definition validate_siming_set_properties :: "op_lib \<Rightarrow> siming_set_properties_operation \<Rightarrow> unit res" where
  "validate_siming_set_properties L op = (let ps = sp_props op in
     rbind (validate_account_name (sp_owner op)) (\<lambda>_.
     rguard (map_of ps ''key'' \<noteq> None) (Assert ''No signing key provided'')
     (rbind (check_prop ps ''account_creation_fee'' (unpack_asset L) (\<lambda>fee.
         rguard (symbol fee = YANG_SYMBOL) (Assert ''account_creation_fee must be in YANG'')
         (rguard (amount fee \<ge> TAIYI_MIN_ACCOUNT_CREATION_FEE)
            (Assert ''account_creation_fee smaller than minimum account creation fee'') (Inr ())))) (\<lambda>_.
      rbind (check_prop ps ''maximum_block_size'' (unpack_uint32 L) (\<lambda>n.
         rguard (n \<ge> TAIYI_MIN_BLOCK_SIZE_LIMIT) (Assert ''maximum_block_size smaller than minimum max block size'') (Inr ()))) (\<lambda>_.
      rbind (check_prop ps ''proposal_adopted_votes_threshold'' (unpack_uint32 L) (\<lambda>n.
         rguard (n \<ge> 1) (Assert ''proposal_adopted_votes_threshold smaller than 1'') (Inr ()))) (\<lambda>_.
      rbind (check_prop ps ''new_signing_key'' (unpack_key L) (\<lambda>_. Inr ())) (\<lambda>_.
      check_prop ps ''url'' (unpack_string L) (validate_url L))))))))"

definition validate_account_siming_adore :: "account_siming_adore_operation \<Rightarrow> unit res" where
  "validate_account_siming_adore op =
     rbind (validate_account_name (sa_account op)) (\<lambda>_. validate_account_name (sa_siming op))"

definition validate_account_siming_proxy :: "account_siming_proxy_operation \<Rightarrow> unit res" where
  "validate_account_siming_proxy op =
     rbind (validate_account_name (px_account op)) (\<lambda>_.
     rbind (if fs_size (px_proxy op) \<noteq> 0 then validate_account_name (px_proxy op) else Inr ()) (\<lambda>_.
     rguard (px_proxy op \<noteq> px_account op) (Assert ''Cannot proxy to self'') (Inr ())))"

definition validate_custom :: "custom_operation \<Rightarrow> unit res" where
  "validate_custom op = rguard (length (cu_required_auths op) > 0) (Assert ''at least one account must be specified'') (Inr ())"

definition validate_custom_json :: "op_lib \<Rightarrow> custom_json_operation \<Rightarrow> unit res" where
  "validate_custom_json L op =
     rguard (length (cj_required_auths op) + length (cj_required_posting_auths op) > 0)
       (Assert ''at least one account must be specified'')
     (rguard (length (cj_id op) \<le> TAIYI_CUSTOM_OP_ID_MAX_LENGTH) (Assert ''Operation ID length exceeded'')
     (rguard (is_utf8 L (cj_json op)) (Assert ''JSON Metadata not formatted in UTF8'')
     (rguard (json_valid L (cj_json op)) (Assert ''JSON Metadata not valid JSON'') (Inr ()))))"

definition validate_request_account_recovery :: "request_account_recovery_operation \<Rightarrow> unit res" where
  "validate_request_account_recovery op =
     rbind (validate_account_name (rr_recovery_account op)) (\<lambda>_.
     rbind (validate_account_name (rr_account_to_recover op)) (\<lambda>_.
     validate_authority (rr_new_owner_authority op)))"

definition validate_recover_account :: "recover_account_operation \<Rightarrow> unit res" where
  "validate_recover_account op =
     rbind (validate_account_name (rc_account_to_recover op)) (\<lambda>_.
     rguard (\<not> authority_eq (rc_new_owner_authority op) (rc_recent_owner_authority op))
       (Assert ''Cannot set new owner authority to the recent owner authority'')
     (rguard (\<not> is_impossible (rc_new_owner_authority op)) (Assert ''new owner authority cannot be impossible'')
     (rguard (\<not> is_impossible (rc_recent_owner_authority op)) (Assert ''recent owner authority cannot be impossible'')
     (rguard (weight_threshold (rc_new_owner_authority op) \<noteq> 0) (Assert ''new owner authority cannot be trivial'')
     (rbind (validate_authority (rc_new_owner_authority op)) (\<lambda>_.
      validate_authority (rc_recent_owner_authority op)))))))"

definition validate_change_recovery_account :: "change_recovery_account_operation \<Rightarrow> unit res" where
  "validate_change_recovery_account op =
     rbind (validate_account_name (cr_account_to_recover op)) (\<lambda>_. validate_account_name (cr_new_recovery_account op))"

definition validate_claim_reward_balance :: "claim_reward_balance_operation \<Rightarrow> unit res" where
  "validate_claim_reward_balance op =
     rbind (validate_account_name (cl_account op)) (\<lambda>_.
     rguard (symbol (cl_reward_yang op) = YANG_SYMBOL) (Assert ''Reward yang must be YANG'')
     (rguard (symbol (cl_reward_qi op) = QI_SYMBOL) (Assert ''Reward qi must be QI'')
     (rguard (symbol (cl_reward_feigang op) = QI_SYMBOL) (Assert ''Reward feigang must be QI'')
     (rguard (amount (cl_reward_yang op) \<ge> 0) (Assert ''Cannot claim a negative yang amount'')
     (rguard (amount (cl_reward_qi op) \<ge> 0) (Assert ''Cannot claim a negative qi amount'')
     (rguard (amount (cl_reward_feigang op) \<ge> 0) (Assert ''Cannot claim a negative feigang amount'')
     (rguard (amount (cl_reward_yang op) > 0 \<or> amount (cl_reward_qi op) > 0 \<or> amount (cl_reward_feigang op) > 0)
        (Assert ''Must claim something.'') (Inr ()))))))))"

definition validate_delegate_qi :: "delegate_qi_operation \<Rightarrow> unit res" where
  "validate_delegate_qi op =
     rbind (validate_account_name (dq_delegator op)) (\<lambda>_.
     rbind (validate_account_name (dq_delegatee op)) (\<lambda>_.
     rguard (dq_delegator op \<noteq> dq_delegatee op) (Assert ''You cannot delegate QI to yourself'')
     (rguard (symbol (dq_qi op) = QI_SYMBOL) (Assert ''Delegation must be QI'')
     (rbind (asset_cmp Ge (dq_qi op) (qis 0)) (\<lambda>b.
      rguard b (Assert ''Delegation cannot be negative'') (Inr ()))))))"

definition validate_contract :: "account_name_type \<Rightarrow> string \<Rightarrow> unit res" where
  "validate_contract n contract =
     rbind (validate_account_name n) (\<lambda>_.
     rguard (take 9 contract = ''contract.'') (Assert ''memcmp(name.data(), contract., 9) == 0'')
     (rguard (is_valid_contract_name contract) (Assert ''contract name is invalid'') (Inr ())))"

fun validate_op :: "op_lib \<Rightarrow> operation \<Rightarrow> unit res" where
  "validate_op L (Account_create op) = validate_account_create L op"
| "validate_op L (Account_update op) = validate_account_update L op"
| "validate_op L (Transfer op) = validate_transfer L op"
| "validate_op L (Transfer_to_qi op) = validate_transfer_to_qi op"
| "validate_op L (Withdraw_qi op) = validate_withdraw_qi op"
| "validate_op L (Set_withdraw_qi_route op) = validate_set_withdraw_qi_route op"
| "validate_op L (Delegate_qi op) = validate_delegate_qi op"
| "validate_op L (Siming_update op) = validate_siming_update L op"
| "validate_op L (Siming_set_properties op) = validate_siming_set_properties L op"
| "validate_op L (Account_siming_adore op) = validate_account_siming_adore op"
| "validate_op L (Account_siming_proxy op) = validate_account_siming_proxy op"
| "validate_op L (Decline_adoring_rights op) = validate_account_name (da_account op)"
| "validate_op L (Custom op) = validate_custom op"
| "validate_op L (Custom_json op) = validate_custom_json L op"
| "validate_op L (Request_account_recovery op) = validate_request_account_recovery op"
| "validate_op L (Recover_account op) = validate_recover_account op"
| "validate_op L (Change_recovery_account op) = validate_change_recovery_account op"
| "validate_op L (Claim_reward_balance op) = validate_claim_reward_balance op"
| "validate_op L (Create_contract op) = validate_contract (cc_owner op) (cc_name op)"
| "validate_op L (Revise_contract op) = validate_contract (rv_reviser op) (rv_contract_name op)"
| "validate_op L (Release_contract op) = validate_contract (rl_owner op) (rl_contract_name op)"
| "validate_op L (Call_contract_function op) = validate_contract (cf_caller op) (cf_contract_name op)"
| "validate_op L (Action_nfa op) = validate_account_name (na_caller op)"
| "validate_op L (Virtual_operation v) = Inl (Assert ''This is a virtual operation'')"

subsection \<open>Required authorities\<close>

fun required_active_of :: "operation \<Rightarrow> account_name_type list" where
  "required_active_of (Account_create op) = [ac_creator op]"
| "required_active_of (Account_update op) = (if au_owner op = None then [au_account op] else [])"
| "required_active_of (Transfer op) = [tr_from op]"
| "required_active_of (Transfer_to_qi op) = [tq_from op]"
| "required_active_of (Withdraw_qi op) = [wq_account op]"
| "required_active_of (Set_withdraw_qi_route op) = [wr_from_account op]"
| "required_active_of (Delegate_qi op) = [dq_delegator op]"
| "required_active_of (Siming_update op) = [su_owner op]"
| "required_active_of (Account_siming_adore op) = [sa_account op]"
| "required_active_of (Account_siming_proxy op) = [px_account op]"
| "required_active_of (Custom op) = cu_required_auths op"
| "required_active_of (Custom_json op) = cj_required_auths op"
| "required_active_of (Request_account_recovery op) = [rr_recovery_account op]"
| "required_active_of (Create_contract op) = [cc_owner op]"
| "required_active_of (Revise_contract op) = [rv_reviser op]"
| "required_active_of (Release_contract op) = [rl_owner op]"
| "required_active_of (Call_contract_function op) = [cf_caller op]"
| "required_active_of (Action_nfa op) = [na_caller op]"
| "required_active_of _ = []"

fun required_owner_of :: "operation \<Rightarrow> account_name_type list" where
  "required_owner_of (Account_update op) = (if au_owner op \<noteq> None then [au_account op] else [])"
| "required_owner_of (Change_recovery_account op) = [cr_account_to_recover op]"
| "required_owner_of (Decline_adoring_rights op) = [da_account op]"
| "required_owner_of _ = []"

fun required_posting_of :: "operation \<Rightarrow> account_name_type list" where
  "required_posting_of (Custom_json op) = cj_required_posting_auths op"
| "required_posting_of (Claim_reward_balance op) = [cl_account op]"
| "required_posting_of _ = []"

definition authority_of_key :: "u32 \<Rightarrow> public_key_type \<Rightarrow> weight_type \<Rightarrow> authority" where
  "authority_of_key threshold k w =
     add_key_authority k w \<lparr>weight_threshold = threshold, account_auths = [], key_auths = []\<rparr>"

definition authority_of_account :: "u32 \<Rightarrow> account_name_type \<Rightarrow> weight_type \<Rightarrow> authority" where
  "authority_of_account threshold n w =
     add_account_authority n w \<lparr>weight_threshold = threshold, account_auths = [], key_auths = []\<rparr>"

text \<open>The signing key of a \<open>siming_set_properties_operation\<close> is decoded, which may throw.\<close>

fun required_other_of :: "op_lib \<Rightarrow> operation \<Rightarrow> authority list res" where
  "required_other_of L (Siming_set_properties op) =
     (case map_of (sp_props op) ''key'' of
        Some v \<Rightarrow> rbind (unpack_key L v) (\<lambda>k. Inr [authority_of_key 1 k 1])
      | None \<Rightarrow> Inr [authority_of_account 1 TAIYI_NULL_ACCOUNT 1])"
| "required_other_of L (Recover_account op) = Inr [rc_new_owner_authority op, rc_recent_owner_authority op]"
| "required_other_of L _ = Inr []"

definition taiyi_ops :: "op_lib \<Rightarrow> operation op_class" where
  "taiyi_ops L =
     \<lparr>op_validate = validate_op L, op_active = required_active_of, op_owner = required_owner_of,
      op_posting = required_posting_of,
      op_other = (\<lambda>op. case required_other_of L op of Inr as \<Rightarrow> as | Inl _ \<Rightarrow> [])\<rparr>"

text \<open>
  The authorities of all operations are collected before any is checked, so an operation whose
  key cannot be decoded makes the whole check throw.
\<close>

definition verify_operations ::
  "op_lib \<Rightarrow> operation list \<Rightarrow> public_key_type list \<Rightarrow> getters \<Rightarrow> limits \<Rightarrow> approvals \<Rightarrow> unit res" where
  "verify_operations L ops sigs G M P =
     rbind (rfold (\<lambda>op _. rbind (required_other_of L op) (\<lambda>_. Inr ())) ops ())
       (\<lambda>_. verify_authority (taiyi_ops L) ops sigs G M P)"

definition is_virtual_operation :: "operation \<Rightarrow> bool" where
  "is_virtual_operation op = (case op of Virtual_operation v \<Rightarrow> True | _ \<Rightarrow> False)"

definition is_market_operation :: "operation \<Rightarrow> bool" where
  "is_market_operation op = (case op of Transfer t \<Rightarrow> True | Transfer_to_qi t \<Rightarrow> True | _ \<Rightarrow> False)"


subsection \<open>Every accepted operation is somebody's\<close>

lemma validated_requires:
  assumes "validate_op L op = Inr ()" "required_other_of L op = Inr xs"
  shows "required_active_of op \<noteq> [] \<or> required_owner_of op \<noteq> [] \<or> required_posting_of op \<noteq> [] \<or> xs \<noteq> []"
proof (cases op)
  case (Siming_set_properties p)
  then show ?thesis using assms
    by (auto simp: validate_siming_set_properties_def Let_def)
next
  case (Custom_json j)
  then show ?thesis using assms by (auto simp: validate_custom_json_def)
qed (use assms in \<open>auto simp: validate_custom_def\<close>)

lemma virtual_never_validates: "validate_op L op = Inr () \<Longrightarrow> \<not> is_virtual_operation op"
  by (cases op) (simp_all add: is_virtual_operation_def)

lemma verify_operations_parts:
  assumes "verify_operations L ops sigs G M P = Inr ()"
  shows "verify_authority (taiyi_ops L) ops sigs G M P = Inr ()"
    and "op \<in> set ops \<Longrightarrow> \<exists>xs. required_other_of L op = Inr xs"
proof -
  have loop: "rfold (\<lambda>op _. rbind (required_other_of L op) (\<lambda>_. Inr ())) ops () = Inr ()"
    and "verify_authority (taiyi_ops L) ops sigs G M P = Inr ()"
    using assms by (auto simp: verify_operations_def)
  then show "verify_authority (taiyi_ops L) ops sigs G M P = Inr ()" by simp
  show "\<exists>xs. required_other_of L op = Inr xs" if "op \<in> set ops"
    using loop that by (induction ops) auto
qed


definition sample_op_lib :: op_lib where
  "sample_op_lib = \<lparr>is_utf8 = (\<lambda>_. True), json_valid = (\<lambda>_. True), unpack_asset = (\<lambda>_. Inl Out_of_range),
     unpack_uint32 = (\<lambda>_. Inl Out_of_range), unpack_key = (\<lambda>_. Inl Out_of_range), unpack_string = (\<lambda>_. Inl Out_of_range)\<rparr>"

definition sample_custom :: operation where
  "sample_custom = Custom \<lparr>cu_required_auths = [5], cu_id = 0, cu_data = []\<rparr>"

lemma sample_custom_verifies:
  "verify_operations sample_op_lib [sample_custom] [9] sample_getters sample_limits no_approvals = Inr ()"
proof -
  have "get_required_authorities (taiyi_ops sample_op_lib) [sample_custom] no_auths =
      get_required_authorities sample_class [5] no_auths"
    by (simp add: get_required_authorities_def auth_visitor_def sample_class_def no_auths_def set_insert_all_def
        insort_insert_key_def taiyi_ops_def sample_custom_def)
  then have "verify_authority (taiyi_ops sample_op_lib) [sample_custom] [9] sample_getters sample_limits no_approvals = Inr ()"
    using sample_verifies unfolding verify_authority_def by simp
  then show ?thesis by (simp add: verify_operations_def sample_custom_def)
qed


end
