(* ===== verification/Evaluators.thy ===== *)
theory Evaluators
  imports Ledger Operations
begin

section \<open>The evaluators\<close>

text \<open>
  chain/taiyi_evaluator.cpp: what each operation does to the chain, one definition per
  \<open>do_apply\<close>, for the full node build (not \<open>IS_LOW_MEM\<close>, not \<open>IS_TEST_NET\<close>). Creating an
  object whose unique key is taken throws, as the container refuses it. Points in time are
  natural numbers of seconds, so the wrap of a 32 bit time in the year 2106 is not modelled.
  Interpreters of custom operations are plug-ins and a parameter.
\<close>

definition TAIYI_DAO_ACCOUNT :: account_name_type where "TAIYI_DAO_ACCOUNT = fs_of ''zuowang.dao''"
definition TAIYI_MAX_ACCOUNT_CREATION_FEE :: int where "TAIYI_MAX_ACCOUNT_CREATION_FEE = 1000000000"
definition TAIYI_SOFT_MAX_BLOCK_SIZE :: u32 where "TAIYI_SOFT_MAX_BLOCK_SIZE = 2 * 1024 * 1024"
definition TAIYI_CUSTOM_OP_DATA_MAX_LENGTH :: nat where "TAIYI_CUSTOM_OP_DATA_MAX_LENGTH = 8192"
definition TAIYI_USEMANA_EXECUTION_SCALE :: int where "TAIYI_USEMANA_EXECUTION_SCALE = 1"
definition TAIYI_QI_WITHDRAW_INTERVALS :: int where "TAIYI_QI_WITHDRAW_INTERVALS = 4"
definition TAIYI_QI_WITHDRAW_INTERVAL_SECONDS :: nat where "TAIYI_QI_WITHDRAW_INTERVAL_SECONDS = 60 * 60 * 24 * 7"
definition TAIYI_MAX_WITHDRAW_ROUTES :: u16 where "TAIYI_MAX_WITHDRAW_ROUTES = 10"
definition TAIYI_MAX_ACCOUNT_SIMING_ADORES :: u16 where "TAIYI_MAX_ACCOUNT_SIMING_ADORES = 30"
definition TAIYI_OWNER_UPDATE_LIMIT :: nat where "TAIYI_OWNER_UPDATE_LIMIT = 60 * 60"
definition TAIYI_OWNER_AUTH_RECOVERY_PERIOD :: nat where "TAIYI_OWNER_AUTH_RECOVERY_PERIOD = 30 * 24 * 60 * 60"
definition TAIYI_ACCOUNT_RECOVERY_REQUEST_EXPIRATION_PERIOD :: nat where
  "TAIYI_ACCOUNT_RECOVERY_REQUEST_EXPIRATION_PERIOD = 24 * 60 * 60"
definition TAIYI_MIN_PERMLINK_LENGTH :: nat where "TAIYI_MIN_PERMLINK_LENGTH = 0"
definition TAIYI_MAX_PERMLINK_LENGTH :: nat where "TAIYI_MAX_PERMLINK_LENGTH = 256"

definition not_unique :: error where
  "not_unique = Logic_error ''could not insert object, most likely a uniqueness constraint was violated''"

text \<open>\<open>a - b > limit\<close> on points in time: the difference is a signed duration.\<close>

definition later_than :: "time_point_sec \<Rightarrow> time_point_sec \<Rightarrow> nat \<Rightarrow> bool" where
  "later_than a b limit \<longleftrightarrow> int a - int b > int limit"

definition validate_permlink_0_1 :: "string \<Rightarrow> unit res" where
  "validate_permlink_0_1 permlink =
     rguard (length permlink > TAIYI_MIN_PERMLINK_LENGTH \<and> length permlink < TAIYI_MAX_PERMLINK_LENGTH)
       (Assert ''Permlink is not a valid size.'')
     (rfold (\<lambda>c _. rguard (c \<in> set ''abcdefghijklmnopqrstuvwxyz0123456789-'') (Assert ''Invalid permlink character'') (Inr ()))
        permlink ())"

subsection \<open>Simings\<close>

definition copy_legacy_chain_properties :: "bool \<Rightarrow> legacy_chain_properties \<Rightarrow> chain_properties \<Rightarrow> chain_properties res" where
  "copy_legacy_chain_properties force_canon src dest =
     rbind (leg_to_asset force_canon (lcp_account_creation_fee src)) (\<lambda>fee.
     Inr (dest\<lparr>account_creation_fee := fee, cp_maximum_block_size := lcp_maximum_block_size src,
       proposal_adopted_votes_threshold := lcp_proposal_adopted_votes_threshold src\<rparr>))"

definition siming_fee :: "fc_lib \<Rightarrow> chain \<Rightarrow> asset res" where
  "siming_fee F s = (let r = last_siming_production_reward (gpo s) in
     if symbol r = QI_SYMBOL then rbind (s_mul F 7 (amount r)) (\<lambda>x. Inr (qis x))
     else rguard (symbol r = YANG_SYMBOL) (Assert ''props.last_siming_production_reward.symbol == YANG_SYMBOL'')
       (rbind (s_mul F (amount r) 7) (\<lambda>x. asset_at_price F (yang x) TAIYI_QI_SHARE_PRICE)))"

definition apply_siming_update :: "fc_lib \<Rightarrow> siming_update_operation \<Rightarrow> chain \<Rightarrow> chain res" where
  "apply_siming_update F op s =
     rbind (get_account s (su_owner op)) (\<lambda>owner.
     rguard (leg_is_canon (lcp_account_creation_fee (su_props op))) (Assert ''account_creation_fee.symbol.is_canon()'')
     (rguard (leg_amount (lcp_account_creation_fee (su_props op)) \<le> TAIYI_MAX_ACCOUNT_CREATION_FEE)
        (Assert ''account_creation_fee greater than maximum account creation fee'')
     (rguard (lcp_maximum_block_size (su_props op) \<le> TAIYI_SOFT_MAX_BLOCK_SIZE)
        (Assert ''Max block size cannot be more than 2MiB'')
     (case map_of (simings s) (su_owner op) of
        Some w \<Rightarrow> modify_siming (su_owner op) (\<lambda>w.
          rbind (copy_legacy_chain_properties False (su_props op) (sim_props w)) (\<lambda>p.
          Inr (w\<lparr>sim_url := su_url op, signing_key := su_block_signing_key op, sim_props := p\<rparr>))) s
      | None \<Rightarrow>
          rbind (siming_fee F s) (\<lambda>need_fee.
          rguard (amount (qi owner) \<ge> amount need_fee)
            (Assert ''Owner account does not have enough qi for siming registration'')
          (rbind (get_account s TAIYI_DAO_ACCOUNT) (\<lambda>_.
           rbind (reward_feigang F TAIYI_DAO_ACCOUNT (su_owner op) need_fee s) (\<lambda>s.
           rbind (copy_legacy_chain_properties False (su_props op) default_chain_properties) (\<lambda>p.
           Inr (s\<lparr>simings := tput (su_owner op) (new_siming_object\<lparr>sim_id := next_siming_id s,
                    sim_url := su_url op, signing_key := su_block_signing_key op,
                    sim_created := head_block_time s, sim_props := p\<rparr>) (simings s),
                  next_siming_id := Suc (next_siming_id s)\<rparr>))))))))))"

definition prop_changed ::
  "(string \<times> u8 list) list \<Rightarrow> string \<Rightarrow> (u8 list \<Rightarrow> 'a res) \<Rightarrow> 'a option res" where
  "prop_changed props k unpack =
     (case map_of props k of None \<Rightarrow> Inr None | Some v \<Rightarrow> rbind (unpack v) (\<lambda>x. Inr (Some x)))"

definition apply_siming_set_properties :: "op_lib \<Rightarrow> siming_set_properties_operation \<Rightarrow> chain \<Rightarrow> chain res" where
  "apply_siming_set_properties L op s = (let ps = sp_props op in
     rbind (get_siming s (sp_owner op)) (\<lambda>siming.
     rbind (case map_of ps ''key'' of None \<Rightarrow> Inl Out_of_range | Some v \<Rightarrow> unpack_key L v) (\<lambda>key.
     rguard (key = signing_key siming) (Assert ''key does not match siming signing key.'')
     (rbind (prop_changed ps ''account_creation_fee'' (unpack_asset L)) (\<lambda>fee.
      rguard (case fee of None \<Rightarrow> True | Some f \<Rightarrow> amount f \<le> TAIYI_MAX_ACCOUNT_CREATION_FEE)
        (Assert ''account_creation_fee greater than maximum account creation fee'')
     (rbind (prop_changed ps ''maximum_block_size'' (unpack_uint32 L)) (\<lambda>block_size.
      rbind (prop_changed ps ''proposal_adopted_votes_threshold'' (unpack_uint32 L)) (\<lambda>votes.
      rbind (prop_changed ps ''new_signing_key'' (unpack_key L)) (\<lambda>new_key.
      rbind (prop_changed ps ''url'' (unpack_string L)) (\<lambda>url.
      modify_siming (sp_owner op) (\<lambda>w. Inr (
        w\<lparr>sim_props := (sim_props w)
             \<lparr>account_creation_fee := (case fee of None \<Rightarrow> account_creation_fee (sim_props w) | Some f \<Rightarrow> f),
              cp_maximum_block_size := (case block_size of None \<Rightarrow> cp_maximum_block_size (sim_props w) | Some n \<Rightarrow> n),
              proposal_adopted_votes_threshold :=
                (case votes of None \<Rightarrow> proposal_adopted_votes_threshold (sim_props w) | Some n \<Rightarrow> n)\<rparr>,
           signing_key := (case new_key of None \<Rightarrow> signing_key w | Some k \<Rightarrow> k),
           sim_url := (case url of None \<Rightarrow> sim_url w | Some u \<Rightarrow> u)\<rparr>)) s))))))))))"

subsection \<open>Accounts\<close>

definition verify_authority_accounts_exist :: "chain \<Rightarrow> authority \<Rightarrow> unit res" where
  "verify_authority_accounts_exist s auth =
     rfold (\<lambda>(n, w) _. rguard (find_account s n \<noteq> None) (Assert ''New authority references non-existing account'') (Inr ()))
       (account_auths auth) ()"

definition initialize_account_object ::
  "public_key_type \<Rightarrow> dynamic_global_property_object \<Rightarrow> account_name_type \<Rightarrow> account_object \<Rightarrow> account_object" where
  "initialize_account_object key props recovery acc =
     (let acc = acc\<lparr>memo_key := key, acc_created := head_time props\<rparr>
      in if recovery \<noteq> TAIYI_TEMP_ACCOUNT then acc\<lparr>recovery_account := recovery\<rparr> else acc)"

definition create_account :: "account_name_type \<Rightarrow> account_object \<Rightarrow> chain \<Rightarrow> chain res" where
  "create_account n acc s =
     rguard (map_of (accounts s) n = None) not_unique
       (Inr (s\<lparr>accounts := tput n (acc\<lparr>acc_id := next_account_id s\<rparr>) (accounts s),
              next_account_id := Suc (next_account_id s)\<rparr>))"

definition apply_account_create :: "fc_lib \<Rightarrow> account_create_operation \<Rightarrow> chain \<Rightarrow> chain res" where
  "apply_account_create F op s =
     rbind (get_account s (ac_creator op)) (\<lambda>_.
     rbind (asset_cmp Le (ac_fee op) (yang TAIYI_MAX_ACCOUNT_CREATION_FEE)) (\<lambda>b.
     rguard b (Assert ''Account creation fee cannot be too large'')
     (rguard (asset_eq (ac_fee op) (account_creation_fee (median_props (schedule s))))
        (Assert ''Must pay the exact account creation fee'')
     (rbind (rfold (\<lambda>a _. validate_auth_size a) [ac_owner op, ac_active op, ac_posting op] ()) (\<lambda>_.
      rbind (rfold (\<lambda>a _. verify_authority_accounts_exist s a) [ac_owner op, ac_active op, ac_posting op] ()) (\<lambda>_.
      rbind (asset_neg F (ac_fee op)) (\<lambda>neg.
      rbind (adjust_balance F (ac_creator op) neg s) (\<lambda>s.
      let id = next_account_id s in
      rbind (create_account (ac_new_account_name op)
        (initialize_account_object (ac_memo_key op) (gpo s) (ac_creator op) new_account_object) s) (\<lambda>s.
      let s = s\<lparr>metadata := tput id (ac_json_metadata op) (metadata s),
                authorities := tput (ac_new_account_name op)
                  \<lparr>auth_owner = ac_owner op, auth_active = ac_active op, auth_posting = ac_posting op,
                   last_owner_update = 0\<rparr> (authorities s)\<rparr>
      in if amount (ac_fee op) > 0
         then rbind (create_qi F (ac_new_account_name op) (ac_fee op) False s) (\<lambda>(v, s). Inr s)
         else Inr s)))))))))"

definition check_authority_option :: "(authority \<Rightarrow> unit res) \<Rightarrow> authority option \<Rightarrow> unit res" where
  "check_authority_option f a = (case a of None \<Rightarrow> Inr () | Some a \<Rightarrow> f a)"

definition apply_account_update :: "account_update_operation \<Rightarrow> chain \<Rightarrow> chain res" where
  "apply_account_update op s =
     rguard (au_account op \<noteq> TAIYI_TEMP_ACCOUNT) (Assert ''Cannot update temp account.'')
     (rbind (check_authority_option validate_authority (au_posting op)) (\<lambda>_.
      rbind (get_account s (au_account op)) (\<lambda>account.
      rbind (get_authorities s (au_account op)) (\<lambda>account_auth.
      rbind (rfold (\<lambda>a _. check_authority_option validate_auth_size a) [au_owner op, au_active op, au_posting op] ()) (\<lambda>_.
      rbind (case au_owner op of
               None \<Rightarrow> Inr s
             | Some owner \<Rightarrow>
                 rguard (later_than (head_block_time s) (last_owner_update account_auth) TAIYI_OWNER_UPDATE_LIMIT)
                   (Assert ''Owner authority can only be updated once an hour.'')
                 (rbind (verify_authority_accounts_exist s owner) (\<lambda>_.
                  update_owner_authority (au_account op) owner s))) (\<lambda>s.
      rbind (rfold (\<lambda>a _. check_authority_option (verify_authority_accounts_exist s) a) [au_active op, au_posting op] ()) (\<lambda>_.
      rbind (modify_account (au_account op) (\<lambda>acc. Inr (
               (if au_memo_key op \<noteq> 0 then acc\<lparr>memo_key := au_memo_key op\<rparr> else acc)
                 \<lparr>last_account_update := head_block_time s\<rparr>)) s) (\<lambda>s.
      rbind (if length (au_json_metadata op) > 0
             then rguard (map_of (metadata s) (acc_id account) \<noteq> None) Out_of_range
                  (Inr (s\<lparr>metadata := tput (acc_id account) (au_json_metadata op) (metadata s)\<rparr>))
             else Inr s) (\<lambda>s.
      if au_active op \<noteq> None \<or> au_posting op \<noteq> None
      then rbind (get_authorities s (au_account op)) (\<lambda>auth.
           Inr (s\<lparr>authorities := tput (au_account op)
             (auth\<lparr>auth_active := (case au_active op of None \<Rightarrow> auth_active auth | Some a \<Rightarrow> a),
                   auth_posting := (case au_posting op of None \<Rightarrow> auth_posting auth | Some a \<Rightarrow> a)\<rparr>) (authorities s)\<rparr>))
      else Inr s)))))))))"

subsection \<open>Transfers and qi\<close>

text \<open>The fee of the operations that cost qi, paid to the DAO account.\<close>

definition pay_treasury :: "fc_lib \<Rightarrow> account_name_type \<Rightarrow> int \<Rightarrow> int \<Rightarrow> chain \<Rightarrow> chain res" where
  "pay_treasury F from need_qi used_qi s =
     rbind (get_account s from) (\<lambda>a.
     rguard (amount (qi a) \<ge> need_qi) (Assert ''From account does not have enough qi to operation.'')
     (rbind (get_account s TAIYI_DAO_ACCOUNT) (\<lambda>_. reward_feigang F TAIYI_DAO_ACCOUNT from (qis used_qi) s)))"

definition apply_transfer :: "fc_lib \<Rightarrow> transfer_operation \<Rightarrow> chain \<Rightarrow> chain res" where
  "apply_transfer F op s =
     rguard (symbol (tr_amount op) = YANG_SYMBOL \<or> tr_to op \<noteq> TAIYI_DAO_ACCOUNT) (Assert ''Can only transfer YANG to the DAO'')
     (let used_qi = 10 * TAIYI_USEMANA_EXECUTION_SCALE;
          need_qi = used_qi + (if symbol (tr_amount op) = QI_SYMBOL then amount (tr_amount op) else 0)
      in rbind (pay_treasury F (tr_from op) need_qi used_qi s) (\<lambda>s.
         rbind (asset_neg F (tr_amount op)) (\<lambda>neg.
         rbind (adjust_balance_of F (tr_from op) neg s)
           (adjust_balance_of F (tr_to op) (tr_amount op)))))"

definition apply_transfer_to_qi :: "fc_lib \<Rightarrow> transfer_to_qi_operation \<Rightarrow> chain \<Rightarrow> chain res" where
  "apply_transfer_to_qi F op s =
     rbind (get_account s (tq_from op)) (\<lambda>_.
     let to = (if fs_size (tq_to op) \<noteq> 0 then tq_to op else tq_from op); used_qi = 10 * TAIYI_USEMANA_EXECUTION_SCALE in
     rbind (get_account s to) (\<lambda>_.
     rbind (pay_treasury F (tq_from op) used_qi used_qi s) (\<lambda>s.
     rbind (asset_neg F (tq_amount op)) (\<lambda>neg.
     rbind (adjust_balance F (tq_from op) neg s) (\<lambda>s.
     rbind (create_qi F to (tq_amount op) False s) (\<lambda>(v, s). Inr s))))))"

definition new_withdraw_rate :: "fc_lib \<Rightarrow> int \<Rightarrow> int res" where
  "new_withdraw_rate F x =
     rbind (s_div F x TAIYI_QI_WITHDRAW_INTERVALS) (\<lambda>r.
     let r = (if r = 0 then 1 else r) in
     rbind (s_mul F r TAIYI_QI_WITHDRAW_INTERVALS) (\<lambda>p.
     if p < x then s_add F r 1 else Inr r))"

definition apply_withdraw_qi :: "fc_lib \<Rightarrow> withdraw_qi_operation \<Rightarrow> chain \<Rightarrow> chain res" where
  "apply_withdraw_qi F op s =
     rguard (amount (wq_qi op) \<ge> 0) (Assert ''Cannot withdraw negative Qi'')
     (let used_qi = 10 * TAIYI_USEMANA_EXECUTION_SCALE in
      rbind (get_account s (wq_account op)) (\<lambda>_.
      rbind (pay_treasury F (wq_account op) used_qi used_qi s) (\<lambda>s.
      rbind (get_account s (wq_account op)) (\<lambda>account.
      rbind (asset_sub F (qi account) (delegated_qi account)) (\<lambda>free.
      rbind (asset_cmp Ge free (wq_qi op)) (\<lambda>b.
      rguard b (Assert ''Account does not have sufficient Qi for withdraw.'')
      (if amount (wq_qi op) = 0 then
         rguard (amount (qi_withdraw_rate account) \<noteq> 0) (Assert ''This operation would not change the qi withdraw rate.'')
         (modify_account (wq_account op) (\<lambda>a. Inr (
            a\<lparr>qi_withdraw_rate := qis 0, next_qi_withdrawal_time := TIME_MAX, to_withdraw := 0, withdrawn := 0\<rparr>)) s)
       else
         modify_account (wq_account op) (\<lambda>a.
           rbind (new_withdraw_rate F (amount (wq_qi op))) (\<lambda>r.
           rbind (asset_cmp Ne (qi_withdraw_rate account) (qis r)) (\<lambda>b.
           rguard b (Assert ''This operation would not change the qi withdraw rate.'')
           (Inr (a\<lparr>qi_withdraw_rate := qis r,
                   next_qi_withdrawal_time := head_block_time s + TAIYI_QI_WITHDRAW_INTERVAL_SECONDS,
                   to_withdraw := amount (wq_qi op), withdrawn := 0\<rparr>))))) s)))))))"

definition routes_of :: "chain \<Rightarrow> account_name_type \<Rightarrow> withdraw_qi_route_object list" where
  "routes_of s n = map snd (filter (\<lambda>((f, t), r). f = n \<and> t > 0) (routes s))"

definition apply_set_withdraw_qi_route :: "set_withdraw_qi_route_operation \<Rightarrow> chain \<Rightarrow> chain res" where
  "apply_set_withdraw_qi_route op s = (let from = wr_from_account op; to = wr_to_account op;
       route = \<lparr>route_percent = wr_percent op, auto_vest = wr_auto_vest op\<rparr> in
     rbind (get_account s from) (\<lambda>from_account.
     rbind (get_account s to) (\<lambda>_.
     rguard (to \<noteq> TAIYI_DAO_ACCOUNT) (Assert ''Cannot withdraw qi to the DAO'')
     (rbind (if map_of (routes s) (from, to) = None then
               rguard (wr_percent op \<noteq> 0) (Assert ''Cannot create a 0% destination.'')
               (rguard (withdraw_routes from_account < TAIYI_MAX_WITHDRAW_ROUTES)
                  (Assert ''Account already has the maximum number of routes.'')
               (modify_account from (\<lambda>a. Inr (a\<lparr>withdraw_routes := withdraw_routes a + 1\<rparr>))
                  (s\<lparr>routes := tput (from, to) route (routes s)\<rparr>)))
             else if wr_percent op = 0 then
               modify_account from (\<lambda>a. Inr (a\<lparr>withdraw_routes := withdraw_routes a - 1\<rparr>))
                 (s\<lparr>routes := tdel (from, to) (routes s)\<rparr>)
             else Inr (s\<lparr>routes := tput (from, to) route (routes s)\<rparr>)) (\<lambda>s.
      rguard (fold (\<lambda>r total_percent. total_percent + route_percent r) (routes_of s from) 0 \<le> TAIYI_100_PERCENT)
        (Assert ''More than 100% of qi withdrawals allocated to destinations.'') (Inr s))))))"

text \<open>
  An account's power less what it delegated; during a withdrawal, less this week's part. The
  code computes in plain 64 bit integers.
\<close>

definition get_effective_qi :: "account_object \<Rightarrow> int" where
  "get_effective_qi a =
     (let e = amount (qi a) + amount (received_qi a) - amount (delegated_qi a)
      in if next_qi_withdrawal_time a \<noteq> TIME_MAX
         then e - min (amount (qi_withdraw_rate a)) (to_withdraw a - withdrawn a) else e)"

definition available_to_delegate :: "fc_lib \<Rightarrow> account_object \<Rightarrow> asset res" where
  "available_to_delegate F d =
     rbind (s_sub F (get_effective_qi d) (amount (received_qi d))) (\<lambda>own.
     let avail = (qi d)\<lparr>amount := min (amount (qi d)) own\<rparr> in
     rbind (s_sub F (to_withdraw d) (withdrawn d)) (\<lambda>left.
     if next_qi_withdrawal_time d < TIME_MAX \<and> left > amount (qi_withdraw_rate d) then
       rbind (asset_sub F (qis (min (amount (qi_withdraw_rate d)) (to_withdraw d - withdrawn d))) (qis left))
         (asset_add F avail)
     else Inr avail))"

definition delegation_minimum :: "fc_lib \<Rightarrow> int \<Rightarrow> chain \<Rightarrow> asset res" where
  "delegation_minimum F k s =
     rbind (s_div F (amount (account_creation_fee (median_props (schedule s)))) k) (\<lambda>x.
     asset_at_price F (yang x) TAIYI_QI_SHARE_PRICE)"

definition adjust_delegated :: "fc_lib \<Rightarrow> account_name_type \<Rightarrow> asset \<Rightarrow> chain \<Rightarrow> chain res" where
  "adjust_delegated F n delta = modify_account n (\<lambda>a. rbind (asset_add F (delegated_qi a) delta) (\<lambda>x. Inr (a\<lparr>delegated_qi := x\<rparr>)))"

definition adjust_received :: "fc_lib \<Rightarrow> account_name_type \<Rightarrow> asset \<Rightarrow> chain \<Rightarrow> chain res" where
  "adjust_received F n delta = modify_account n (\<lambda>a. rbind (asset_add F (received_qi a) delta) (\<lambda>x. Inr (a\<lparr>received_qi := x\<rparr>)))"

definition require_cmp :: "cmp_op \<Rightarrow> asset \<Rightarrow> asset \<Rightarrow> string \<Rightarrow> 'a res \<Rightarrow> 'a res" where
  "require_cmp c x y msg k = rbind (asset_cmp c x y) (\<lambda>b. rguard b (Assert msg) k)"

definition apply_delegate_qi :: "fc_lib \<Rightarrow> delegate_qi_operation \<Rightarrow> chain \<Rightarrow> chain res" where
  "apply_delegate_qi F op s = (let from = dq_delegator op; to = dq_delegatee op; x = dq_qi op in
     rbind (get_account s from) (\<lambda>delegator.
     rbind (get_account s to) (\<lambda>_.
     rbind (available_to_delegate F delegator) (\<lambda>available_shares.
     rbind (delegation_minimum F 3 s) (\<lambda>min_delegation.
     rbind (delegation_minimum F 30 s) (\<lambda>min_update.
     case map_of (delegations s) (from, to) of
       None \<Rightarrow>
         require_cmp Ge available_shares x ''Account does not have enough mana to delegate.''
         (require_cmp Ge x min_delegation ''Account must delegate a minimum''
         (rbind (adjust_delegated F from x
             (s\<lparr>delegations := tput (from, to) \<lparr>deleg_qi = x, min_delegation_time = head_block_time s\<rparr> (delegations s)\<rparr>))
           (adjust_received F to x)))
     | Some delegation \<Rightarrow>
         rbind (asset_cmp Ge x (deleg_qi delegation)) (\<lambda>increasing.
         if increasing then
           rbind (asset_sub F x (deleg_qi delegation)) (\<lambda>delta.
           require_cmp Ge delta min_update ''Taiyi Qi increase is not enough of a difference.''
           (require_cmp Ge available_shares delta ''Account does not have enough mana to delegate.''
           (rbind (adjust_delegated F from delta s) (\<lambda>s.
            rbind (adjust_received F to delta s) (\<lambda>s.
            Inr (s\<lparr>delegations := tput (from, to) (delegation\<lparr>deleg_qi := x\<rparr>) (delegations s)\<rparr>))))))
         else
           rbind (asset_sub F (deleg_qi delegation) x) (\<lambda>delta.
           rbind (if amount x > 0 then
                    require_cmp Ge delta min_update ''Taiyi Qi decrease is not enough of a difference.''
                    (require_cmp Ge x min_delegation ''Delegation must be removed or leave minimum delegation amount'' (Inr ()))
                  else rguard (amount (deleg_qi delegation) > 0)
                    (Assert ''Delegation would set qi to zero, but it is already zero'') (Inr ())) (\<lambda>_.
           let s = s\<lparr>delegation_expirations := tput (next_expiration_id s)
                        \<lparr>exp_delegator = from, exp_qi = delta,
                         exp_expiration = max (head_block_time s + unat (delegation_return_period (gpo s)))
                           (min_delegation_time delegation)\<rparr> (delegation_expirations s),
                      next_expiration_id := Suc (next_expiration_id s)\<rparr> in
           rbind (modify_account to (\<lambda>a. rbind (asset_sub F (received_qi a) delta) (\<lambda>y. Inr (a\<lparr>received_qi := y\<rparr>))) s) (\<lambda>s.
           Inr (if amount x > 0
                then s\<lparr>delegations := tput (from, to) (delegation\<lparr>deleg_qi := x\<rparr>) (delegations s)\<rparr>
                else s\<lparr>delegations := tdel (from, to) (delegations s)\<rparr>)))))))))))"

subsection \<open>Adores and proxies\<close>

text \<open>
  The walk along the new proxy's own proxies. Each step adds an account to the set or throws, and
  the set may hold four, so the walk ends.
\<close>

lemma length_insort_new: "x \<notin> set xs \<Longrightarrow> length (insort_insert x xs) = Suc (length xs)"
  by (simp add: insort_insert_key_def)

function proxy_walk :: "chain \<Rightarrow> account_object \<Rightarrow> nat list \<Rightarrow> unit res" where
  "proxy_walk s cprox proxy_chain =
     (if fs_size (proxy cprox) \<noteq> 0 then
        case get_account s (proxy cprox) of
          Inl e \<Rightarrow> Inl e
        | Inr next \<Rightarrow>
            if acc_id next \<in> set proxy_chain then Inl (Assert ''This proxy would create a proxy loop.'')
            else if length (insort_insert (acc_id next) proxy_chain) \<le> TAIYI_MAX_PROXY_RECURSION_DEPTH
            then proxy_walk s next (insort_insert (acc_id next) proxy_chain)
            else Inl (Assert ''Proxy chain is too long.'')
      else Inr ())"
  by pat_completeness auto
termination
  by (relation "measure (\<lambda>(s, a, xs). TAIYI_MAX_PROXY_RECURSION_DEPTH - length xs)")
    (auto simp: length_insort_new TAIYI_MAX_PROXY_RECURSION_DEPTH_def)

declare proxy_walk.simps [simp del]

definition own_levels :: "fc_lib \<Rightarrow> account_object \<Rightarrow> int list res" where
  "own_levels F a = rbind (s_neg F (amount (qi a))) (\<lambda>d.
     rbind (rfold (\<lambda>i xs. rbind (s_neg F (proxied_vsf_adores a ! i)) (\<lambda>d. Inr (xs @ [d])))
       [0..<TAIYI_MAX_PROXY_RECURSION_DEPTH] [d]) Inr)"

definition negate_all :: "fc_lib \<Rightarrow> int list \<Rightarrow> int list res" where
  "negate_all F ds = rfold (\<lambda>d xs. rbind (s_neg F d) (\<lambda>d. Inr (xs @ [d]))) ds []"

definition apply_account_siming_proxy :: "fc_lib \<Rightarrow> account_siming_proxy_operation \<Rightarrow> chain \<Rightarrow> chain res" where
  "apply_account_siming_proxy F op s = (let n = px_account op in
     rbind (get_account s n) (\<lambda>account.
     rguard (proxy account \<noteq> px_proxy op) (Assert ''Proxy must change.'')
     (rguard (can_adore account) (Assert ''Account has declined the ability to adore and cannot proxy adores.'')
     (rbind (own_levels F account) (\<lambda>delta.
      rbind (adjust_proxied_siming_adores_array F n delta s) (\<lambda>s.
      if fs_size (px_proxy op) \<noteq> 0 then
        rbind (get_account s (px_proxy op)) (\<lambda>new_proxy.
        rbind (proxy_walk s new_proxy (insort_insert (acc_id new_proxy) [acc_id account])) (\<lambda>_.
        rbind (clear_siming_adores n s) (\<lambda>s.
        rbind (modify_account n (\<lambda>a. Inr (a\<lparr>proxy := px_proxy op\<rparr>)) s) (\<lambda>s.
        rbind (negate_all F delta) (\<lambda>delta.
        adjust_proxied_siming_adores_array F n delta s)))))
      else modify_account n (\<lambda>a. Inr (a\<lparr>proxy := px_proxy op\<rparr>)) s))))))"

definition apply_account_siming_adore :: "fc_lib \<Rightarrow> account_siming_adore_operation \<Rightarrow> chain \<Rightarrow> chain res" where
  "apply_account_siming_adore F op s = (let n = sa_account op; w = sa_siming op in
     rbind (get_account s n) (\<lambda>adorer.
     rguard (fs_size (proxy adorer) = 0) (Assert ''A proxy is currently set, please clear the proxy before adoring for a siming.'')
     (rguard (sa_approve op \<longrightarrow> can_adore adorer) (Assert ''Account has declined its adoring rights.'')
     (rbind (get_siming s w) (\<lambda>_.
      if map_of (siming_adores s) (n, w) = None then
        rguard (sa_approve op) (Assert ''Vote does not exist, user must indicate a desire to approve siming.'')
        (rguard (simings_adored_for adorer < TAIYI_MAX_ACCOUNT_SIMING_ADORES) (Assert ''Account has adored for too many simings.'')
        (rbind (siming_adore_weight F adorer) (\<lambda>x.
         rbind (adjust_siming_adore F w x (s\<lparr>siming_adores := tput (n, w) () (siming_adores s)\<rparr>))
           (modify_account n (\<lambda>a. Inr (a\<lparr>simings_adored_for := simings_adored_for a + 1\<rparr>))))))
      else
        rguard (\<not> sa_approve op) (Assert ''Vote currently exists, user must indicate a desire to reject siming.'')
        (rbind (siming_adore_weight F adorer) (\<lambda>x.
         rbind (s_neg F x) (\<lambda>d.
         rbind (adjust_siming_adore F w d s) (\<lambda>s.
         rbind (modify_account n (\<lambda>a. Inr (a\<lparr>simings_adored_for := simings_adored_for a - 1\<rparr>)) s) (\<lambda>s.
         Inr (s\<lparr>siming_adores := tdel (n, w) (siming_adores s)\<rparr>)))))))))))"

definition apply_decline_adoring_rights :: "decline_adoring_rights_operation \<Rightarrow> chain \<Rightarrow> chain res" where
  "apply_decline_adoring_rights op s = (let n = da_account op in
     rbind (get_account s n) (\<lambda>_.
     if da_decline op then
       rguard (map_of (decline_requests s) n = None) (Assert ''Cannot create new request because one already exists.'')
       (Inr (s\<lparr>decline_requests := tput n (head_block_time s + TAIYI_OWNER_AUTH_RECOVERY_PERIOD) (decline_requests s)\<rparr>))
     else
       rguard (map_of (decline_requests s) n \<noteq> None) (Assert ''Cannot cancel the request because it does not exist.'')
       (Inr (s\<lparr>decline_requests := tdel n (decline_requests s)\<rparr>))))"

subsection \<open>Custom operations\<close>

datatype interpreted = Done | Threw_fc error | Threw_other

record env =
  env_fc :: fc_lib
  env_lib :: op_lib
  env_producing :: bool
  env_interpreter :: "string \<Rightarrow> (custom_json_operation \<Rightarrow> chain \<Rightarrow> chain \<times> interpreted) option"
  env_contract :: "operation \<Rightarrow> chain \<Rightarrow> chain res"

definition apply_custom :: "env \<Rightarrow> custom_operation \<Rightarrow> chain \<Rightarrow> chain res" where
  "apply_custom E op s =
     rguard (env_producing E \<longrightarrow> length (cu_data op) \<le> TAIYI_CUSTOM_OP_DATA_MAX_LENGTH) (Assert ''Operation data is too long'')
     (rguard (length (cu_required_auths op) \<le> TAIYI_MAX_AUTHORITY_MEMBERSHIP) (Assert ''Authority membership exceeded'') (Inr s))"

definition apply_custom_json :: "env \<Rightarrow> custom_json_operation \<Rightarrow> chain \<Rightarrow> chain res" where
  "apply_custom_json E op s =
     rguard (env_producing E \<longrightarrow> length (cj_json op) \<le> TAIYI_CUSTOM_OP_DATA_MAX_LENGTH) (Assert ''Operation JSON is too long'')
     (rguard (length (cj_required_auths op) + length (cj_required_posting_auths op) \<le> TAIYI_MAX_AUTHORITY_MEMBERSHIP)
        (Assert ''Authority membership exceeded'')
     (case env_interpreter E (cj_id op) of
        None \<Rightarrow> Inr s
      | Some eval \<Rightarrow>
          (case eval op s of
             (s', Done) \<Rightarrow> Inr s'
           | (s', Threw_fc e) \<Rightarrow> if env_producing E then Inl e else Inr s'
           | (s', Threw_other) \<Rightarrow> Inr s')))"

subsection \<open>Recovery\<close>

text \<open>The index of the simings by adores, most adored first. Its first element is undefined when
  there is no siming; the model has an error there.\<close>

definition by_adore_name :: "chain \<Rightarrow> account_name_type list" where
  "by_adore_name s = map fst (sort_key (\<lambda>(n, w). (- adores w, n)) (simings s))"

definition top_siming :: "chain \<Rightarrow> account_name_type res" where
  "top_siming s = (case by_adore_name s of [] \<Rightarrow> Inl Out_of_range | n # ns \<Rightarrow> Inr n)"

definition authority_accounts_known :: "authority \<Rightarrow> chain \<Rightarrow> unit res" where
  "authority_accounts_known a s = rfold (\<lambda>(n, w) _. rbind (get_account s n) (\<lambda>_. Inr ())) (account_auths a) ()"

definition apply_request_account_recovery :: "request_account_recovery_operation \<Rightarrow> chain \<Rightarrow> chain res" where
  "apply_request_account_recovery op s = (let n = rr_account_to_recover op; new = rr_new_owner_authority op;
       request = \<lparr>new_owner_authority = new,
         rec_expires = head_block_time s + TAIYI_ACCOUNT_RECOVERY_REQUEST_EXPIRATION_PERIOD\<rparr> in
     rbind (get_account s n) (\<lambda>account_to_recover.
     rbind (if fs_size (recovery_account account_to_recover) \<noteq> 0
            then rguard (recovery_account account_to_recover = rr_recovery_account op)
              (Assert ''Cannot recover an account that does not have you as there recovery partner.'') (Inr ())
            else rbind (top_siming s) (\<lambda>t. rguard (t = rr_recovery_account op)
              (Assert ''Top siming must recover an account with no recovery partner.'') (Inr ()))) (\<lambda>_.
     if map_of (recovery_requests s) n = None then
       rguard (\<not> is_impossible new) (Assert ''Cannot recover using an impossible authority.'')
       (rguard (weight_threshold new \<noteq> 0) (Assert ''Cannot recover using an open authority.'')
       (rbind (validate_auth_size new) (\<lambda>_.
        rbind (authority_accounts_known new s) (\<lambda>_.
        Inr (s\<lparr>recovery_requests := tput n request (recovery_requests s)\<rparr>)))))
     else if weight_threshold new = 0 then
       Inr (s\<lparr>recovery_requests := tdel n (recovery_requests s)\<rparr>)
     else
       rguard (\<not> is_impossible new) (Assert ''Cannot recover using an impossible authority.'')
       (rbind (authority_accounts_known new s) (\<lambda>_.
        Inr (s\<lparr>recovery_requests := tput n request (recovery_requests s)\<rparr>))))))"

definition in_owner_history :: "chain \<Rightarrow> account_name_type \<Rightarrow> authority \<Rightarrow> bool" where
  "in_owner_history s n a \<longleftrightarrow>
     list_ex (\<lambda>(i, h). hist_account h = n \<and> authority_eq (previous_owner_authority h) a) (owner_history s)"

definition apply_recover_account :: "recover_account_operation \<Rightarrow> chain \<Rightarrow> chain res" where
  "apply_recover_account op s = (let n = rc_account_to_recover op in
     rbind (get_account s n) (\<lambda>account.
     rguard (later_than (head_block_time s) (last_account_recovery account) TAIYI_OWNER_UPDATE_LIMIT)
       (Assert ''Owner authority can only be updated once an hour.'')
     (case map_of (recovery_requests s) n of
        None \<Rightarrow> Inl (Assert ''There are no active recovery requests for this account.'')
      | Some request \<Rightarrow>
          rguard (authority_eq (new_owner_authority request) (rc_new_owner_authority op))
            (Assert ''New owner authority does not match recovery request.'')
          (rguard (in_owner_history s n (rc_recent_owner_authority op))
             (Assert ''Recent authority not found in authority history.'')
          (rbind (update_owner_authority n (rc_new_owner_authority op)
                    (s\<lparr>recovery_requests := tdel n (recovery_requests s)\<rparr>))
             (modify_account n (\<lambda>a. Inr (a\<lparr>last_account_recovery := head_block_time s\<rparr>))))))))"

definition apply_change_recovery_account :: "change_recovery_account_operation \<Rightarrow> chain \<Rightarrow> chain res" where
  "apply_change_recovery_account op s = (let n = cr_account_to_recover op;
       request = \<lparr>chg_recovery_account = cr_new_recovery_account op,
         effective_on = head_block_time s + TAIYI_OWNER_AUTH_RECOVERY_PERIOD\<rparr> in
     rbind (get_account s (cr_new_recovery_account op)) (\<lambda>_.
     rbind (get_account s n) (\<lambda>account_to_recover.
     if map_of (change_requests s) n = None then
       Inr (s\<lparr>change_requests := tput n request (change_requests s)\<rparr>)
     else if recovery_account account_to_recover \<noteq> cr_new_recovery_account op then
       Inr (s\<lparr>change_requests := tput n request (change_requests s)\<rparr>)
     else Inr (s\<lparr>change_requests := tdel n (change_requests s)\<rparr>))))"

subsection \<open>Rewards\<close>

definition apply_claim_reward_balance :: "fc_lib \<Rightarrow> claim_reward_balance_operation \<Rightarrow> chain \<Rightarrow> chain res" where
  "apply_claim_reward_balance F op s = (let n = cl_account op in
     rbind (get_account s n) (\<lambda>acnt.
     require_cmp Le (cl_reward_yang op) (reward_yang_balance acnt) ''Cannot claim that much YANG.''
     (require_cmp Le (cl_reward_qi op) (reward_qi_balance acnt) ''Cannot claim that much QI.''
     (require_cmp Le (cl_reward_feigang op) (reward_feigang_balance acnt) ''Cannot claim that much QI(Feigang).''
     (rbind (asset_neg F (cl_reward_yang op)) (\<lambda>neg_yang.
      rbind (adjust_reward_balance F n neg_yang (qis 0) (qis 0) s) (\<lambda>s.
      rbind (adjust_balance F n (cl_reward_yang op) s) (\<lambda>s.
      rbind (asset_neg F (cl_reward_qi op)) (\<lambda>neg_qi.
      rbind (adjust_reward_balance F n (yang 0) neg_qi (qis 0) s) (\<lambda>s.
      rbind (adjust_balance F n (cl_reward_qi op) s) (\<lambda>s.
      rbind (asset_neg F (cl_reward_feigang op)) (\<lambda>neg_feigang.
      rbind (adjust_reward_balance F n (yang 0) (qis 0) neg_feigang s) (\<lambda>s.
      rbind (adjust_balance F n (cl_reward_feigang op) s) (\<lambda>s.
      rbind (adjust_proxied_siming_adores F n (amount (cl_reward_feigang op)) s) (\<lambda>s.
      rbind (modify_gpo (\<lambda>g.
         rbind (asset_add F (cl_reward_qi op) (cl_reward_feigang op)) (\<lambda>both.
         rbind (asset_add F (total_qi g) both) (\<lambda>t.
         rbind (asset_sub F (pending_rewarded_qi g) (cl_reward_qi op)) (\<lambda>q.
         rbind (asset_sub F (pending_rewarded_feigang g) (cl_reward_feigang op)) (\<lambda>f.
         Inr (g\<lparr>total_qi := t, pending_rewarded_qi := q, pending_rewarded_feigang := f\<rparr>)))))) s) (\<lambda>s.
      rbind (s_add F (amount (cl_reward_qi op)) (amount (cl_reward_feigang op))) (\<lambda>d.
      adjust_proxied_siming_adores F n d s)))))))))))))))))"

subsection \<open>All evaluators\<close>

text \<open>The contract and NFA evaluators run scripts; the whole of them is the parameter \<open>env_contract\<close>.\<close>

fun evaluate :: "env \<Rightarrow> operation \<Rightarrow> chain \<Rightarrow> chain res" where
  "evaluate E (Account_create op) = apply_account_create (env_fc E) op"
| "evaluate E (Account_update op) = apply_account_update op"
| "evaluate E (Transfer op) = apply_transfer (env_fc E) op"
| "evaluate E (Transfer_to_qi op) = apply_transfer_to_qi (env_fc E) op"
| "evaluate E (Withdraw_qi op) = apply_withdraw_qi (env_fc E) op"
| "evaluate E (Set_withdraw_qi_route op) = apply_set_withdraw_qi_route op"
| "evaluate E (Delegate_qi op) = apply_delegate_qi (env_fc E) op"
| "evaluate E (Siming_update op) = apply_siming_update (env_fc E) op"
| "evaluate E (Siming_set_properties op) = apply_siming_set_properties (env_lib E) op"
| "evaluate E (Account_siming_adore op) = apply_account_siming_adore (env_fc E) op"
| "evaluate E (Account_siming_proxy op) = apply_account_siming_proxy (env_fc E) op"
| "evaluate E (Decline_adoring_rights op) = apply_decline_adoring_rights op"
| "evaluate E (Custom op) = apply_custom E op"
| "evaluate E (Custom_json op) = apply_custom_json E op"
| "evaluate E (Request_account_recovery op) = apply_request_account_recovery op"
| "evaluate E (Recover_account op) = apply_recover_account op"
| "evaluate E (Change_recovery_account op) = apply_change_recovery_account op"
| "evaluate E (Claim_reward_balance op) = apply_claim_reward_balance (env_fc E) op"
| "evaluate E (Virtual_operation v) = (\<lambda>s. Inl (Assert ''No registered evaluator for operation''))"
| "evaluate E op = env_contract E op"

end
