(* ===== verification/Evaluator_Ledger.thy ===== *)
theory Evaluator_Ledger
  imports Ledger_Invariant Evaluators
begin

section \<open>The evaluators keep the books\<close>

text \<open>
  Every evaluator but the one that claims rewards keeps the equations of the audit, the worth of
  all balances and the acyclic graph of proxies. \<open>kept\<close> is that step, and an operation that
  leaves the accounts' balances and adores alone has it by \<open>kept_view\<close> or \<open>kept_put\<close>.
\<close>

subsection \<open>Proxies\<close>

definition proxy_rel :: "chain \<Rightarrow> (account_name_type \<times> account_name_type) set" where
  "proxy_rel s = {(n, m). \<exists>i. links s n = Some (m, i) \<and> m \<noteq> 0}"

definition proxies_ok :: "chain \<Rightarrow> bool" where
  "proxies_ok s \<longleftrightarrow> acyclic (proxy_rel s) \<and>
     (\<forall>n p i. links s n = Some (p, i) \<longrightarrow> i < next_account_id s \<and> (p \<noteq> 0 \<longrightarrow> fs_size p \<noteq> 0)) \<and>
     (\<forall>n m p q i. links s n = Some (p, i) \<longrightarrow> links s m = Some (q, i) \<longrightarrow> n = m)"

lemma proxies_ok_cong: "same_proxies s s' \<Longrightarrow> proxies_ok s' = proxies_ok s"
  by (simp add: proxies_ok_def proxy_rel_def same_proxies_def)

definition chain_ok :: "chain \<Rightarrow> bool" where
  "chain_ok s \<longleftrightarrow> ledger_ok s \<and> proxies_ok s"

text \<open>\<open>moved k\<close>: the worth changes by \<open>k\<close>, in QI.\<close>

definition moved :: "int \<Rightarrow> chain \<Rightarrow> chain \<Rightarrow> bool" where
  "moved k s s' \<longleftrightarrow>
     (chain_ok s \<longrightarrow> chain_ok s' \<and> worth s' = worth s + k \<and> current_supply (gpo s') = current_supply (gpo s))"

abbreviation kept :: "chain \<Rightarrow> chain \<Rightarrow> bool" where
  "kept \<equiv> moved 0"

lemma kept_def: "kept s s' \<longleftrightarrow> (chain_ok s \<longrightarrow> chain_ok s' \<and> worth s' = worth s \<and> current_supply (gpo s') = current_supply (gpo s))"
  by (simp add: moved_def)

lemma kept_refl [simp, intro]: "kept s s"
  by (simp add: kept_def)

lemma moved_trans: "moved k s t \<Longrightarrow> moved l t u \<Longrightarrow> moved (k + l) s u"
  by (simp add: moved_def)

lemma kept_trans [trans]: "kept s t \<Longrightarrow> kept t u \<Longrightarrow> kept s u"
  using moved_trans [of 0 s t 0 u] by simp

subsection \<open>Frames\<close>

text \<open>What the ledger depends on.\<close>

definition view where
  "view s = (accounts s, simings s, siming_adores s, gpo s, reward_funds s, nfas s)"

lemma view_ledger:
  assumes "view s' = view s"
  shows "gbooks f n D s' = gbooks f n D s" "ledger_ok s' = ledger_ok s" "worth s' = worth s" "links s' = links s"
proof -
  have e: "accounts s' = accounts s" "simings s' = simings s" "siming_adores s' = siming_adores s"
    "gpo s' = gpo s" "reward_funds s' = reward_funds s" "nfas s' = nfas s"
    using assms by (simp_all add: view_def)
  show b: "gbooks f n D s' = gbooks f n D s" for f n D
    unfolding gbooks_def shape_def gproxied_def gadored_def e ..
  show "ledger_ok s' = ledger_ok s" "worth s' = worth s"
    unfolding ledger_ok_def gbalanced_def b worth_def total_of_def fund_of_def nfa_qi_total_def cultivated_def e by (rule refl)+
  show "links s' = links s" unfolding links_def e ..
qed

lemma kept_view: "view s' = view s \<Longrightarrow> next_account_id s' = next_account_id s \<Longrightarrow> kept s s'"
proof -
  assume v: "view s' = view s" "next_account_id s' = next_account_id s"
  have "same_proxies s s'" using v(2) view_ledger(4) [OF v(1)] by (simp add: same_proxies_def)
  then show ?thesis
    using view_ledger(2,3) [OF v(1)] v(1) proxies_ok_cong by (simp add: kept_def chain_ok_def view_def)
qed

lemma view_updates [simp]:
  "view (s\<lparr>metadata := x1\<rparr>) = view s" "view (s\<lparr>authorities := x2\<rparr>) = view s" "view (s\<lparr>routes := x3\<rparr>) = view s"
  "view (s\<lparr>schedule := x4\<rparr>) = view s" "view (s\<lparr>hardforks := x5\<rparr>) = view s" "view (s\<lparr>decline_requests := x6\<rparr>) = view s"
  "view (s\<lparr>recovery_requests := x7\<rparr>) = view s" "view (s\<lparr>change_requests := x8\<rparr>) = view s"
  "view (s\<lparr>owner_history := x9\<rparr>) = view s" "view (s\<lparr>next_history_id := x10\<rparr>) = view s"
  "view (s\<lparr>delegations := x11\<rparr>) = view s" "view (s\<lparr>delegation_expirations := x12\<rparr>) = view s"
  "view (s\<lparr>next_expiration_id := x13\<rparr>) = view s" "view (s\<lparr>regular_balances := x14\<rparr>) = view s"
  "view (s\<lparr>rewards_balances := x15\<rparr>) = view s" "view (s\<lparr>vops := x16\<rparr>) = view s" "view (push_vop v s) = view s"
  "view (s\<lparr>next_siming_id := x17\<rparr>) = view s" "view (s\<lparr>next_account_id := x18\<rparr>) = view s"
  by (simp_all add: view_def push_vop_def)

lemma kept_irrelevant:
  "view s' = view s \<Longrightarrow> next_account_id s' = next_account_id s \<Longrightarrow> kept s' t \<Longrightarrow> kept s t"
  using kept_view kept_trans by blast

text \<open>The part of an account that the ledger depends on.\<close>

definition same_core :: "account_object \<Rightarrow> account_object \<Rightarrow> bool" where
  "same_core a a' \<longleftrightarrow> proxy a' = proxy a \<and> proxied_vsf_adores a' = proxied_vsf_adores a \<and> acc_id a' = acc_id a \<and>
     amount (qi a') = amount (qi a) \<and> amount (balance a') = amount (balance a) \<and>
     amount (reward_yang_balance a') = amount (reward_yang_balance a) \<and>
     amount (reward_qi_balance a') = amount (reward_qi_balance a) \<and>
     amount (reward_feigang_balance a') = amount (reward_feigang_balance a)"

lemma put_view [simp]:
  "reward_funds (put_account n a s) = reward_funds s" "nfas (put_account n a s) = nfas s" "gpo (put_account n a s) = gpo s"
  by (simp_all add: put_account_def)

lemma kept_put:
  assumes a: "map_of (accounts s) n = Some a" and c: "same_core a a'"
  shows "kept s (put_account n a' s)"
  unfolding kept_def
proof
  assume ok: "chain_ok s"
  then have l: "ledger_ok s" and b: "balanced s" by (simp_all add: chain_ok_def ledger_ok_def)
  have "total_of g (put_account n a' s) = total_of g s" if "amount (g a') = amount (g a)" for g
    using total_put [OF balanced_wf(1) [OF b] a] that by simp
  then have "same_totals s (put_account n a' s)" using c by (simp add: same_totals_def same_core_def)
  moreover have "balanced (put_account n a' s)" by (rule put_balanced [OF b a]) (use c in \<open>simp_all add: same_core_def\<close>)
  ultimately have "ledger_ok (put_account n a' s) \<and> worth (put_account n a' s) = worth s"
    using same_totals_ledger [OF _ l] by blast
  moreover have "same_proxies s (put_account n a' s)" by (rule put_proxies [OF a]) (use c in \<open>simp_all add: same_core_def\<close>)
  ultimately show "chain_ok (put_account n a' s) \<and> worth (put_account n a' s) = worth s \<and>
      current_supply (gpo (put_account n a' s)) = current_supply (gpo s)"
    using ok proxies_ok_cong by (simp add: chain_ok_def)
qed

lemma kept_modify_account:
  assumes "modify_account n f s = Inr s'" and "\<And>a a'. map_of (accounts s) n = Some a \<Longrightarrow> f a = Inr a' \<Longrightarrow> same_core a a'"
  shows "kept s s'"
  using assms kept_put by (auto simp: modify_account_def)

text \<open>Simings whose adores stay.\<close>

lemma balanced_simings:
  assumes "balanced s" "wf_table t" "\<And>w. map_option adores (map_of t w) = map_option adores (map_of (simings s) w)"
  shows "balanced (s\<lparr>simings := t\<rparr>)"
proof -
  have dom: "map_of t x = None \<longleftrightarrow> map_of (simings s) x = None" for x
    using arg_cong [OF assms(3) [of x], of "\<lambda>z. z = None"] by simp
  have sh: "shape (s\<lparr>simings := t\<rparr>)" using assms(1,2) by (simp add: gbalanced_def gbooks_def shape_def dom)
  show ?thesis
    unfolding gbalanced_def gbooks_def
  proof (intro conjI allI impI sh)
    fix m p and j :: nat assume "map_of (accounts (s\<lparr>simings := t\<rparr>)) m = Some p" "j < 4"
    then show "proxied_vsf_adores p ! j = proxied_level 0 (\<lambda>_. 0) m j (s\<lparr>simings := t\<rparr>)"
      using assms(1) by (simp add: gbalanced_def gbooks_def gproxied_def)
  next
    fix w sim assume "map_of (simings (s\<lparr>simings := t\<rparr>)) w = Some sim"
    then obtain sim' where "map_of (simings s) w = Some sim'" "adores sim' = adores sim"
      using assms(3) [of w] by (cases "map_of (simings s) w") auto
    then show "adores sim = adored_weight 0 (\<lambda>_. 0) w (s\<lparr>simings := t\<rparr>)"
      using assms(1) by (simp add: gbalanced_def gbooks_def gadored_def)
  qed
qed

lemma kept_balanced:
  assumes "chain_ok s \<Longrightarrow> balanced s'" "accounts s' = accounts s" "gpo s' = gpo s" "reward_funds s' = reward_funds s"
    "nfas s' = nfas s" "next_account_id s' = next_account_id s"
  shows "kept s s'"
proof -
  have "same_totals s s'" using assms by (simp add: same_totals_def total_of_def)
  moreover have "same_proxies s s'" using assms by (intro same_proxies_accounts)
  ultimately show ?thesis
    using same_totals_ledger assms(1,3) proxies_ok_cong by (simp add: kept_def chain_ok_def)
qed

lemma kept_modify_siming:
  assumes run: "modify_siming n f s = Inr s'"
    and same: "\<And>w w'. map_of (simings s) n = Some w \<Longrightarrow> f w = Inr w' \<Longrightarrow> adores w' = adores w"
  shows "kept s s'"
proof -
  obtain w w' where w: "map_of (simings s) n = Some w" "f w = Inr w'" and s': "s' = s\<lparr>simings := tput n w' (simings s)\<rparr>"
    using run by (auto simp: modify_siming_def put_siming_def)
  show ?thesis
  proof (rule kept_balanced)
    assume "chain_ok s"
    then have b: "balanced s" by (simp add: chain_ok_def ledger_ok_def)
    then have "wf_table (simings s)" by (simp add: gbalanced_def gbooks_def shape_def)
    then show "balanced s'" unfolding s' using w same [OF w] by (intro balanced_simings [OF b]) auto
  qed (simp_all add: s')
qed

lemma kept_new_siming:
  assumes "map_of (simings s) n = None" "adores w = 0" "s' = s\<lparr>simings := tput n w (simings s), next_siming_id := i\<rparr>"
  shows "kept s s'"
proof (rule kept_balanced)
  assume "chain_ok s"
  then have b: "balanced s" by (simp add: chain_ok_def ledger_ok_def)
  then have sh: "shape s" by (simp add: gbalanced_def gbooks_def)
  have none: "map_of (siming_adores s) (m, n) = None" for m
    using sh assms(1) unfolding shape_def by blast
  have sh': "shape s'" using sh assms(3) by (simp add: shape_def)
  show "balanced s'"
    unfolding gbalanced_def gbooks_def
  proof (intro conjI allI impI sh')
    fix m p and j :: nat assume "map_of (accounts s') m = Some p" "j < 4"
    then show "proxied_vsf_adores p ! j = proxied_level 0 (\<lambda>_. 0) m j s'"
      using b assms(3) by (simp add: gbalanced_def gbooks_def gproxied_def)
  next
    fix v sim assume "map_of (simings s') v = Some sim"
    then show "adores sim = adored_weight 0 (\<lambda>_. 0) v s'"
      using b assms none by (cases "v = n") (simp_all add: gbalanced_def gbooks_def gadored_def)
  qed
qed (simp_all add: assms(3))

subsection \<open>Moving tokens\<close>

lemma kept_reward_feigang: "fc_laws F \<Longrightarrow> reward_feigang F to from f s = Inr s' \<Longrightarrow> kept s s'"
  unfolding kept_def chain_ok_def by (metis reward_feigang_effect proxies_ok_cong)

lemma moved_create_qi:
  assumes "fc_laws F" "create_qi F n (yang x) False s = Inr (v, s')" "0 \<le> x" "x * 1000 < 2 ^ 63"
  shows "moved (1000 * x) s s'"
  unfolding moved_def chain_ok_def using create_qi_effect [OF assms(1) _ assms(3,4,2)] proxies_ok_cong by metis

lemma moved_modify_yang:
  assumes F: "fc_laws F" and run: "modify_balance F n (yang x) c s = Inr s'"
  shows "moved (1000 * x) s s'"
  unfolding moved_def
proof
  assume ok: "chain_ok s"
  then have l: "ledger_ok s" and b: "balanced s" by (simp_all add: chain_ok_def ledger_ok_def)
  obtain a where a: "map_of (accounts s) n = Some a"
    and s': "s' = put_account n (a\<lparr>balance := yang (amount (balance a) + x)\<rparr>) s"
    using modify_yang_effect [OF F run] by blast
  have t: "total_of g s' = total_of g s + amount (g (a\<lparr>balance := yang (amount (balance a) + x)\<rparr>)) - amount (g a)" for g
    unfolding s' by (rule total_put [OF balanced_wf(1) [OF b] a])
  have "balanced s'" unfolding s' by (rule put_balanced [OF b a]) simp_all
  then have "ledger_ok s' \<and> worth s' = worth s + 1000 * x"
    using l t unfolding ledger_ok_def worth_def by (simp add: s' fund_of_def nfa_qi_total_def cultivated_def)
  moreover have "same_proxies s s'" unfolding s' by (rule put_proxies [OF a]) simp_all
  ultimately show "chain_ok s' \<and> worth s' = worth s + 1000 * x \<and> current_supply (gpo s') = current_supply (gpo s)"
    using ok proxies_ok_cong by (simp add: chain_ok_def s')
qed

lemma moved_adjust_yang:
  assumes F: "fc_laws F"
  shows "adjust_balance F n (yang x) s = Inr s' \<Longrightarrow> moved (1000 * x) s s'"
    and "adjust_balance_of F n (yang x) s = Inr s' \<Longrightarrow> moved (1000 * x) s s'"
  using moved_modify_yang [OF F] by (auto simp: adjust_balance_def adjust_balance_of_def)

text \<open>Assets with a balance object live in another index.\<close>

lemma kept_adjust_object:
  assumes "adjust_balance_of F n delta s = Inr s'" "has_balance_object (symbol delta)"
  shows "kept s s'"
  using assms by (auto simp: adjust_balance_of_def adjust_regular_def intro!: kept_view)

lemma kept_pay_treasury: "fc_laws F \<Longrightarrow> pay_treasury F n x y s = Inr s' \<Longrightarrow> kept s s'"
  using kept_reward_feigang by (auto simp: pay_treasury_def)

lemma is_qi_qi [simp]: "is_qi QI_SYMBOL = Inr True"
  by (simp add: is_qi_def space_def native_nums)

lemma kept_transfer:
  assumes F: "fc_laws F" and v: "validate_transfer L op = Inr ()" and run: "apply_transfer F op s = Inr s'"
  shows "kept s s'"
proof -
  let ?d = "tr_amount op"
  have nq: "is_qi (symbol ?d) = Inr False" using v by (auto simp: validate_transfer_def)
  obtain s1 neg s2 where s1: "pay_treasury F (tr_from op) (10 * TAIYI_USEMANA_EXECUTION_SCALE +
        (if symbol ?d = QI_SYMBOL then amount ?d else 0)) (10 * TAIYI_USEMANA_EXECUTION_SCALE) s = Inr s1"
    and neg: "asset_neg F ?d = Inr neg" and s2: "adjust_balance_of F (tr_from op) neg s1 = Inr s2"
    and s3: "adjust_balance_of F (tr_to op) ?d s2 = Inr s'"
    using run by (auto simp: apply_transfer_def Let_def)
  have neg': "neg = mk_asset (- amount ?d) (symbol ?d)" using neg F by (auto simp: asset_neg_def fc_simps)
  have "kept s1 s'"
  proof (cases "has_balance_object (symbol ?d)")
    case True
    then show ?thesis using kept_trans [OF kept_adjust_object [OF s2] kept_adjust_object [OF s3]] neg' by (simp add: mk_asset_def)
  next
    case False
    have "symbol ?d \<noteq> QI_SYMBOL" using nq by auto
    then have "symbol ?d = YANG_SYMBOL"
      using s3 False by (auto simp: adjust_balance_of_def modify_balance_def modify_account_def split: if_splits)
    then have d: "?d = yang (amount ?d)" and n: "neg = yang (- amount ?d)" using neg' by (simp_all add: mk_asset_def)
    show ?thesis
      using moved_trans [OF moved_adjust_yang(2) [OF F s2 [unfolded n]] moved_adjust_yang(2) [OF F, of "tr_to op" "amount ?d"]] s3 d
      by simp
  qed
  then show ?thesis using kept_trans [OF kept_pay_treasury [OF F s1]] by blast
qed

lemma kept_transfer_to_qi:
  assumes F: "fc_laws F" and v: "validate_transfer_to_qi op = Inr ()" "amount (tq_amount op) * 1000 < 2 ^ 63"
    and run: "apply_transfer_to_qi F op s = Inr s'"
  shows "kept s s'"
proof -
  define x where "x = amount (tq_amount op)"
  have d: "tq_amount op = yang x" and "0 \<le> x" using v by (auto simp: validate_transfer_to_qi_def x_def mk_asset_def)
  obtain u w s1 neg s2 z to where s1: "pay_treasury F (tq_from op) u w s = Inr s1"
    and neg: "asset_neg F (yang x) = Inr neg" and s2: "adjust_balance F (tq_from op) neg s1 = Inr s2"
    and s3: "create_qi F to (yang x) False s2 = Inr (z, s')"
    using run by (auto simp: apply_transfer_to_qi_def Let_def d)
  have "neg = yang (- x)" using neg F by (auto simp: asset_neg_def fc_simps mk_asset_def)
  then have "moved (1000 * (- x) + 1000 * x) s1 s'"
    using moved_trans [OF moved_adjust_yang(1) [OF F] moved_create_qi [OF F s3]] s2 v(2) \<open>0 \<le> x\<close> x_def by blast
  then show ?thesis using kept_trans [OF kept_pay_treasury [OF F s1]] by simp
qed

subsection \<open>Operations that move nothing\<close>

text \<open>Rules that follow the code of an evaluator down to the states it returns.\<close>

definition moves :: "int \<Rightarrow> chain \<Rightarrow> chain res \<Rightarrow> bool" where
  "moves k s r \<longleftrightarrow> (\<forall>s'. r = Inr s' \<longrightarrow> moved k s s')"

abbreviation keeps :: "chain \<Rightarrow> chain res \<Rightarrow> bool" where
  "keeps \<equiv> moves 0"

lemma keeps_def: "keeps s r \<longleftrightarrow> (\<forall>s'. r = Inr s' \<longrightarrow> kept s s')"
  by (simp add: moves_def)

lemma moves_step: "moves k s m \<Longrightarrow> (\<And>t. m = Inr t \<Longrightarrow> moves l t (f t)) \<Longrightarrow> k + l = j \<Longrightarrow> moves j s (rbind m f)"
  unfolding moves_def using moved_trans by force

lemma keeps_Inl: "keeps s (Inl e)" and keeps_Inr: "kept s s' \<Longrightarrow> keeps s (Inr s')"
  by (simp_all add: keeps_def)

lemma keeps_view: "view s' = view s \<Longrightarrow> next_account_id s' = next_account_id s \<Longrightarrow> keeps s (Inr s')"
  by (intro keeps_Inr kept_view)

lemma keeps_guard: "(b \<Longrightarrow> moves k s r) \<Longrightarrow> moves k s (rguard b e r)"
  by (simp add: moves_def rguard_def)

lemma keeps_value: "(\<And>x. m = Inr x \<Longrightarrow> moves k s (f x)) \<Longrightarrow> moves k s (rbind m f)"
  by (cases m) (simp_all add: moves_def)

lemma keeps_step: "keeps s m \<Longrightarrow> (\<And>t. m = Inr t \<Longrightarrow> keeps t (f t)) \<Longrightarrow> keeps s (rbind m f)"
  by (rule moves_step) auto

lemma keeps_if: "(b \<Longrightarrow> keeps s r) \<Longrightarrow> (\<not> b \<Longrightarrow> keeps s r') \<Longrightarrow> keeps s (if b then r else r')"
  by simp

lemma keeps_option:
  "(x = None \<Longrightarrow> keeps s r) \<Longrightarrow> (\<And>y. x = Some y \<Longrightarrow> keeps s (f y)) \<Longrightarrow> keeps s (case x of None \<Rightarrow> r | Some y \<Rightarrow> f y)"
  by (simp split: option.split)

lemma keeps_require: "keeps s k \<Longrightarrow> keeps s (require_cmp c x y msg k)"
  by (simp add: require_cmp_def keeps_guard keeps_value)

lemma keeps_modify:
  assumes "view t = view s" "next_account_id t = next_account_id s" "\<And>a a'. f a = Inr a' \<Longrightarrow> same_core a a'"
  shows "keeps s (modify_account n f t)"
  unfolding keeps_def
proof (intro allI impI)
  fix s' assume "modify_account n f t = Inr s'"
  then have "kept t s'" by (rule kept_modify_account) (use assms(3) in blast)
  then show "kept s s'" by (rule kept_irrelevant [OF assms(1,2)])
qed

lemma keeps_modify_pure:
  "view t = view s \<Longrightarrow> next_account_id t = next_account_id s \<Longrightarrow> (\<And>a. same_core a (f a)) \<Longrightarrow>
    keeps s (modify_account n (\<lambda>a. Inr (f a)) t)"
  by (rule keeps_modify) auto

lemma keeps_siming: "(\<And>w w'. f w = Inr w' \<Longrightarrow> adores w' = adores w) \<Longrightarrow> keeps s (modify_siming n f s)"
  unfolding keeps_def using kept_modify_siming by blast

lemmas keeps_intros = keeps_Inl keeps_view keeps_guard keeps_if keeps_option keeps_require

lemma keeps_pay_treasury: "fc_laws F \<Longrightarrow> keeps s (pay_treasury F n x y s)"
  using kept_pay_treasury by (simp add: keeps_def)

lemma keeps_delegated:
  "view t = view s \<Longrightarrow> next_account_id t = next_account_id s \<Longrightarrow> keeps s (adjust_delegated F n d t)"
  "view t = view s \<Longrightarrow> next_account_id t = next_account_id s \<Longrightarrow> keeps s (adjust_received F n d t)"
  unfolding adjust_delegated_def adjust_received_def by (rule keeps_modify; auto simp: same_core_def)+

lemma keeps_set_withdraw_qi_route: "keeps s (apply_set_withdraw_qi_route op s)"
  unfolding apply_set_withdraw_qi_route_def Let_def
  apply (rule keeps_value)+
  apply (rule keeps_guard)
  apply (rule keeps_step)
   apply (intro keeps_intros keeps_modify_pure; simp add: same_core_def)
  by (intro keeps_intros; simp)

lemma keeps_withdraw_qi:
  assumes "fc_laws F"
  shows "keeps s (apply_withdraw_qi F op s)"
  unfolding apply_withdraw_qi_def Let_def
  apply (rule keeps_guard)
  apply (rule keeps_value)
  apply (rule keeps_step [OF keeps_pay_treasury [OF assms]])
  apply (rule keeps_value)+
  apply (intro keeps_intros keeps_modify; auto simp: same_core_def)
  done

lemma keeps_update_owner: "keeps s (update_owner_authority n a s)"
  unfolding update_owner_authority_def Let_def by (rule keeps_value) (rule keeps_view; simp)

lemma keeps_account_update: "keeps s (apply_account_update op s)"
  unfolding apply_account_update_def
  apply (rule keeps_guard)
  apply (rule keeps_value, rule keeps_value, rule keeps_value, rule keeps_value)
  apply (rule keeps_step)
   apply (intro keeps_intros keeps_value keeps_update_owner; simp)
  apply (rule keeps_value)
  apply (rule keeps_step)
   apply (rule keeps_modify_pure; simp add: same_core_def)
  apply (rule keeps_step)
   apply (intro keeps_intros; simp)
  by (intro keeps_intros keeps_value; simp)

lemma keeps_delegate_qi: "keeps s (apply_delegate_qi F op s)"
  unfolding apply_delegate_qi_def Let_def
  apply (rule keeps_value, rule keeps_value, rule keeps_value, rule keeps_value, rule keeps_value)
  apply (rule keeps_option)
   apply (rule keeps_require, rule keeps_require)
   apply (rule keeps_step)
    apply (rule keeps_delegated; simp)
   apply (rule keeps_delegated; simp)
  apply (rule keeps_value, rule keeps_if)
   apply (rule keeps_value, rule keeps_require, rule keeps_require)
   apply (rule keeps_step)
    apply (rule keeps_delegated; simp)
   apply (rule keeps_step)
    apply (rule keeps_delegated; simp)
   apply (rule keeps_view; simp)
  apply (rule keeps_value, rule keeps_value)
  apply (rule keeps_step)
   apply (rule keeps_modify; auto simp: same_core_def)
  by (rule keeps_view; simp)

lemma keeps_siming_set_properties: "keeps s (apply_siming_set_properties L op s)"
  unfolding apply_siming_set_properties_def Let_def
  by (intro keeps_value keeps_guard keeps_siming) auto

definition siming_names :: "chain \<Rightarrow> account_name_type set" where
  "siming_names s = dom (map_of (simings s))"

lemma siming_names_put [simp]: "siming_names (put_account n a s) = siming_names s" "siming_names (push_vop v s) = siming_names s"
  by (simp_all add: siming_names_def put_account_def push_vop_def)

lemma modify_siming_dom: "modify_siming n f s = Inr s' \<Longrightarrow> siming_names s' = siming_names s"
  by (auto simp: modify_siming_def put_siming_def siming_names_def split: if_splits)

lemma adjust_siming_adores_dom:
  assumes "adjust_siming_adores F n d s = Inr s'"
  shows "siming_names s' = siming_names s"
  by (rule rfold_invariant [OF assms [unfolded adjust_siming_adores_def]])
    (simp_all add: adjust_siming_adore_def modify_siming_dom)

lemma adjust_proxied_dom: "adjust_proxied F left n d s = Inr s' \<Longrightarrow> siming_names s' = siming_names s"
proof (induction left arbitrary: n s)
  case 0
  obtain a where "map_of (accounts s) n = Some a" using 0 by auto
  then show ?case using 0 adjust_siming_adores_dom by (cases "proxy a = 0") auto
next
  case (Suc left)
  obtain a where a: "map_of (accounts s) n = Some a" using Suc.prems by auto
  show ?case
  proof (cases "proxy a = 0")
    case True
    then show ?thesis using Suc.prems a adjust_siming_adores_dom by simp
  next
    case False
    then obtain p where "adjust_proxied F left (proxy a) d (put_account (proxy a) p s) = Inr s'"
      using Suc.prems a by (auto simp: modify_account_def)
    from Suc.IH [OF this] show ?thesis by simp
  qed
qed

lemma reward_feigang_dom:
  assumes "reward_feigang F to from f s = Inr s'"
  shows "siming_names s' = siming_names s"
proof -
  obtain neg s1 s2 s3 where s1: "adjust_balance F from neg s = Inr s1"
    and s2: "adjust_proxied_siming_adores F from (amount neg) s1 = Inr s2"
    and s3: "modify_reward_balance F to (yang 0) (qis 0) f False (push_vop (Reward_feigang from None to f) s2) = Inr s3"
    and s': "simings s' = simings s3"
    using assms by (auto simp: reward_feigang_def modify_gpo_def)
  have "siming_names s1 = siming_names s"
    using s1 by (auto simp: adjust_balance_def adjust_regular_def modify_balance_def modify_account_def siming_names_def put_account_def split: if_splits)
  moreover have "siming_names s3 = siming_names s2"
    using s3 by (auto simp: modify_reward_balance_def modify_account_def siming_names_def put_account_def push_vop_def split: if_splits)
  moreover have "siming_names s2 = siming_names s1" using adjust_proxied_dom s2 by (simp add: adjust_proxied_siming_adores_def)
  ultimately show ?thesis using s' by (simp add: siming_names_def)
qed

lemma kept_register_siming:
  assumes "map_of (simings s) n = None" "reward_feigang F to from f s = Inr t" "adores w = 0"
    and "s' = t\<lparr>simings := tput n w (simings t), next_siming_id := i\<rparr>"
  shows "kept t s'"
proof (rule kept_new_siming [OF _ assms(3,4)])
  have "n \<notin> siming_names t" using reward_feigang_dom [OF assms(2)] assms(1) by (simp add: siming_names_def domIff)
  then show "map_of (simings t) n = None" by (simp add: siming_names_def domIff)
qed

lemma keeps_siming_update:
  assumes "fc_laws F"
  shows "keeps s (apply_siming_update F op s)"
  unfolding apply_siming_update_def
  apply (rule keeps_value, rule keeps_guard, rule keeps_guard, rule keeps_guard, rule keeps_option)
   apply (rule keeps_value, rule keeps_guard, rule keeps_value, rule keeps_step)
    apply (simp add: keeps_def kept_reward_feigang [OF assms])
   apply (rule keeps_value, rule keeps_Inr)
   apply (rule kept_register_siming [OF _ _ _ refl], assumption, assumption, simp add: new_siming_object_def)
  apply (rule keeps_siming, auto)
  done

lemma keeps_recoveries:
  "keeps s (apply_request_account_recovery op1 s)" "keeps s (apply_recover_account op2 s)"
  "keeps s (apply_change_recovery_account op3 s)" "keeps s (apply_decline_adoring_rights op4 s)"
  "keeps s (apply_custom E op5 s)"
proof -
  show "keeps s (apply_request_account_recovery op1 s)"
    unfolding apply_request_account_recovery_def Let_def by (intro keeps_value keeps_intros; simp)
  show "keeps s (apply_recover_account op2 s)"
    unfolding apply_recover_account_def Let_def
    apply (rule keeps_value, rule keeps_guard, rule keeps_option, rule keeps_Inl, rule keeps_guard, rule keeps_guard)
    apply (rule keeps_step)
     apply (unfold update_owner_authority_def Let_def)
     apply (rule keeps_value, rule keeps_view; simp)
    by (rule keeps_modify_pure; simp add: same_core_def)
  show "keeps s (apply_change_recovery_account op3 s)"
    unfolding apply_change_recovery_account_def Let_def by (intro keeps_value keeps_intros; simp)
  show "keeps s (apply_decline_adoring_rights op4 s)"
    unfolding apply_decline_adoring_rights_def Let_def by (intro keeps_value keeps_intros; simp)
  show "keeps s (apply_custom E op5 s)"
    unfolding apply_custom_def by (intro keeps_intros; simp)
qed

subsection \<open>New accounts\<close>

definition blank_account :: "account_object \<Rightarrow> bool" where
  "blank_account a \<longleftrightarrow> proxy a = 0 \<and> proxied_vsf_adores a = [0, 0, 0, 0] \<and> amount (qi a) = 0 \<and> amount (balance a) = 0 \<and>
     amount (reward_yang_balance a) = 0 \<and> amount (reward_qi_balance a) = 0 \<and> amount (reward_feigang_balance a) = 0"

lemma blank_level: "blank_account a \<Longrightarrow> j < 5 \<Longrightarrow> level a j = 0"
  by (auto simp: blank_account_def level_def numeral_eq_Suc less_Suc_eq)

lemma balanced_new_account:
  assumes b: "balanced s" and n: "map_of (accounts s) n = None" "n \<noteq> 0" and a: "blank_account a"
    and s': "s' = s\<lparr>accounts := tput n a (accounts s), next_account_id := i\<rparr>"
  shows "balanced s'"
  unfolding gbalanced_def gbooks_def
proof (intro conjI allI impI)
  have sh: "shape s" and wf: "wf_table (accounts s)" using b by (auto simp: gbalanced_def gbooks_def shape_def)
  have acc: "accounts s' = tput n a (accounts s)" "siming_adores s' = siming_adores s" "simings s' = simings s" using s' by simp_all
  have none: "proxy x \<noteq> n" if "map_of (accounts s) b = Some x" for b x
    using sh that n unfolding shape_def by (metis option.discI)
  have pl: "proxied_level 0 (\<lambda>_. 0) m j s' = (if m = n then 0 else proxied_level 0 (\<lambda>_. 0) m j s)" if "m \<noteq> 0" for m j
  proof -
    have "proxied_level 0 (\<lambda>_. 0) m j s' = proxied_level 0 (\<lambda>_. 0) m j s"
      unfolding gproxied_def acc tsum_insert [OF wf n(1)] using a that by (simp add: blank_account_def)
    moreover have "proxied_level 0 (\<lambda>_. 0) n j s = tsum (\<lambda>b x. 0) (accounts s)"
      unfolding gproxied_def by (rule tsum_cong [OF wf]) (simp add: none)
    ultimately show ?thesis by simp
  qed
  show "shape s'" using sh n a by (auto simp: shape_def acc blank_account_def)
  fix m p and j :: nat assume m: "map_of (accounts s') m = Some p" and j: "j < 4"
  have "m \<noteq> 0" using m n sh acc by (auto simp: shape_def split: if_splits)
  then show "proxied_vsf_adores p ! j = proxied_level 0 (\<lambda>_. 0) m j s'"
    using m j b a acc pl by (auto simp: gbalanced_def gbooks_def blank_account_def numeral_eq_Suc less_Suc_eq split: if_splits)
next
  have wf: "wf_table (accounts s)" using b by (auto simp: gbalanced_def gbooks_def shape_def)
  fix w sim assume "map_of (simings s') w = Some sim"
  moreover have "full_weight 0 (\<lambda>_. 0) n a = 0" using blank_level [OF a] by (simp add: gfull_def)
  ultimately show "adores sim = adored_weight 0 (\<lambda>_. 0) w s'"
    using b s' by (simp add: gbalanced_def gbooks_def gadored_def tsum_insert [OF wf n(1)])
qed

lemma proxies_ok_new_account:
  assumes ok: "proxies_ok s" and n: "map_of (accounts s) n = None" and a: "proxy a = 0" "acc_id a = next_account_id s"
    and s': "s' = s\<lparr>accounts := tput n a (accounts s), next_account_id := Suc (next_account_id s)\<rparr>"
  shows "proxies_ok s'"
proof -
  have l: "links s' = (links s)(n \<mapsto> (0, next_account_id s))" using a by (auto simp: s' links_def fun_eq_iff)
  have ln: "links s n = None" using n by (simp add: links_def)
  have "proxy_rel s' = proxy_rel s" unfolding proxy_rel_def l using ln by (auto split: if_splits)
  moreover have nx: "next_account_id s' = Suc (next_account_id s)" using s' by simp
  ultimately show ?thesis using ok unfolding proxies_ok_def l by (fastforce split: if_splits)
qed

lemma kept_create_account:
  assumes run: "create_account n acc s = Inr s'" and n: "n \<noteq> 0" and a: "blank_account acc"
  shows "kept s s'"
  unfolding kept_def
proof
  assume ok: "chain_ok s"
  then have l: "ledger_ok s" and b: "balanced s" and p: "proxies_ok s" by (simp_all add: chain_ok_def ledger_ok_def)
  have fresh: "map_of (accounts s) n = None"
    and s': "s' = s\<lparr>accounts := tput n (acc\<lparr>acc_id := next_account_id s\<rparr>) (accounts s), next_account_id := Suc (next_account_id s)\<rparr>"
    using run by (auto simp: create_account_def)
  have blank: "blank_account (acc\<lparr>acc_id := next_account_id s\<rparr>)" using a by (simp add: blank_account_def)
  have t: "total_of g s' = total_of g s" if "amount (g (acc\<lparr>acc_id := next_account_id s\<rparr>)) = 0" for g
    using that by (simp add: total_of_def s' tsum_insert [OF balanced_wf(1) [OF b] fresh])
  have "same_totals s s'" unfolding same_totals_def using blank by (simp add: t blank_account_def) (simp add: s')
  then have "ledger_ok s' \<and> worth s' = worth s"
    using same_totals_ledger l balanced_new_account [OF b fresh n blank s'] by blast
  moreover have "proxies_ok s'" by (rule proxies_ok_new_account [OF p fresh _ _ s']) (use a in \<open>simp_all add: blank_account_def\<close>)
  ultimately show "chain_ok s' \<and> worth s' = worth s \<and> current_supply (gpo s') = current_supply (gpo s)"
    by (simp add: chain_ok_def s')
qed

lemma initialized_blank: "blank_account (initialize_account_object k g r new_account_object)"
  by (simp add: initialize_account_object_def Let_def blank_account_def new_account_object_def
      TAIYI_MAX_PROXY_RECURSION_DEPTH_def numeral_eq_Suc mk_asset_def)

lemma fs_size_zero [simp]: "fs_size (0 :: account_name_type) = 0"
proof -
  have "fs_bytes (0 :: account_name_type) = CHR 0x00 # map (\<lambda>i. CHR 0x00) [1..<16]"
    by (simp add: fs_bytes_def fs_size_of_def Let_def upt_conv_Cons char_of_def)
  then show ?thesis by (simp add: fs_size_def)
qed

lemma valid_name_nonempty: "validate_account_name n = Inr () \<Longrightarrow> fs_size n \<noteq> 0"
  by (auto simp: validate_account_name_def is_valid_account_name_def fs_size_def fs_string_def
      TAIYI_MIN_ACCOUNT_NAME_LENGTH_def split: if_splits)

lemma valid_name_nonzero: "validate_account_name n = Inr () \<Longrightarrow> n \<noteq> 0"
  using valid_name_nonempty by fastforce

lemma keeps_account_create:
  assumes F: "fc_laws F" and v: "validate_account_create L op = Inr ()"
  shows "keeps s (apply_account_create F op s)"
proof -
  define x where "x = amount (ac_fee op)"
  have fee: "ac_fee op = yang x" and x: "0 \<le> x" and n: "ac_new_account_name op \<noteq> 0"
    using v valid_name_nonzero by (auto simp: validate_account_create_def x_def mk_asset_def asset_cmp_def)
  have pay: "moves (1000 * (- x)) t (adjust_balance F m neg t)" if "asset_neg F (ac_fee op) = Inr neg" for m neg t
  proof -
    have "neg = yang (- x)" using that F by (auto simp: fee asset_neg_def fc_simps)
    then show ?thesis using moved_adjust_yang(1) [OF F, of m "- x"] by (simp add: moves_def)
  qed
  have create: "keeps t (create_account (ac_new_account_name op) (initialize_account_object k g r new_account_object) t)" for k g r t
    using kept_create_account [OF _ n initialized_blank] by (simp add: keeps_def)
  have give: "moves (1000 * x) t
      (if amount (ac_fee op) > 0 then rbind (create_qi F (ac_new_account_name op) (ac_fee op) False t') (\<lambda>(v, s). Inr s) else Inr t')"
    if t': "view t' = view t" "next_account_id t' = next_account_id t" and small: "x \<le> 1000000000" for t t'
    using moved_trans [OF kept_view [OF t'] moved_create_qi [OF F _ x]] kept_view [OF t'] small x by (auto simp: moves_def fee)
  show ?thesis
    unfolding apply_account_create_def Let_def
    apply (rule keeps_value, rule keeps_value, rule keeps_guard, rule keeps_guard, rule keeps_value, rule keeps_value, rule keeps_value)
    apply (rule moves_step, rule pay, assumption)
     apply (rule moves_step, rule create)
      apply (rule give, simp, simp, simp add: fee asset_cmp_def TAIYI_MAX_ACCOUNT_CREATION_FEE_def, rule refl, simp)
    done
qed

subsection \<open>Adores\<close>

lemma full_weight_levels: "length (proxied_vsf_adores a) = 4 \<Longrightarrow>
    full_weight 0 (\<lambda>_. 0) b a = amount (qi a) + sum_list (proxied_vsf_adores a)"
proof -
  assume len: "length (proxied_vsf_adores a) = 4"
  obtain p q r u where "proxied_vsf_adores a = [p, q, r, u]"
    using len by (cases "proxied_vsf_adores a" rule: list4_cases) simp_all
  then show ?thesis by (simp add: gfull_def level_def eval_nat_numeral)
qed

lemma adore_weight_value:
  assumes "fc_laws F" "siming_adore_weight F a = Inr x"
  shows "x = amount (qi a) + sum_list (proxied_vsf_adores a)"
  using rfold_sum [OF assms(2) [unfolded siming_adore_weight_def], where v = "\<lambda>x. x" and h = "\<lambda>x. x"] assms(1)
  by (auto simp: fc_simps)

lemma balanced_adore:
  assumes b: "balanced s" and a: "map_of (accounts s) n = Some a" "proxy a = 0" and w: "map_of (simings s) w \<noteq> None"
    and A: "wf_table A" "\<And>x. map_of A x = (if x = (n, w) then v else map_of (siming_adores s) x)"
    and t: "votes_moved s {w} d t"
    and d: "d = (if v = None then 0 else full_weight 0 (\<lambda>_. 0) n a) -
                (if map_of (siming_adores s) (n, w) = None then 0 else full_weight 0 (\<lambda>_. 0) n a)"
  shows "balanced (s\<lparr>siming_adores := A, simings := t\<rparr>)" (is "balanced ?s")
  unfolding gbalanced_def gbooks_def
proof (intro conjI allI impI)
  have sh: "shape s" using b by (simp add: gbalanced_def gbooks_def)
  then have wf: "wf_table (accounts s)" by (simp add: shape_def)
  have tx: "map_option adores (map_of t x) = map_option (\<lambda>v. adores v + (if x \<in> {w} then d else 0)) (map_of (simings s) x)" for x
    using t by (simp add: votes_moved_def)
  have dom: "map_of t x = None \<longleftrightarrow> map_of (simings s) x = None" for x
    using arg_cong [OF tx [of x], of "\<lambda>z. z = None"] by simp
  show "shape ?s" using sh A t a w unfolding shape_def votes_moved_def by (simp add: dom)
  {
    fix m p and j :: nat assume "map_of (accounts ?s) m = Some p" "j < 4"
    then show "proxied_vsf_adores p ! j = proxied_level 0 (\<lambda>_. 0) m j ?s"
      using b by (simp add: gbalanced_def gbooks_def gproxied_def)
  }
  fix u sim assume "map_of (simings ?s) u = Some sim"
  then obtain sim' where sim': "map_of (simings s) u = Some sim'" "adores sim = adores sim' + (if u = w then d else 0)"
    using tx [of u] by (cases "map_of (simings s) u") auto
  have same: "accounts ?s = accounts s" "siming_adores ?s = A" by simp_all
  have "adored_weight 0 (\<lambda>_. 0) u ?s =
      tsum (\<lambda>b x. (if map_of (siming_adores s) (b, u) \<noteq> None then full_weight 0 (\<lambda>_. 0) b x else 0) +
        (if b = n then (if u = w then d else 0) else 0)) (accounts s)"
    unfolding gadored_def same by (rule tsum_cong [OF wf]) (use a d in \<open>auto simp: A\<close>)
  then show "adores sim = adored_weight 0 (\<lambda>_. 0) u ?s"
    unfolding tsum_add tsum_at [OF wf] using sim' b a by (simp add: gbalanced_def gbooks_def gadored_def)
qed

lemma kept_adore:
  assumes F: "fc_laws F" and a: "map_of (accounts s) n = Some a" "fs_size (proxy a) = 0"
    and x: "siming_adore_weight F a = Inr x"
    and d: "d = (if v = None then 0 else x) - (if map_of (siming_adores s) (n, w) = None then 0 else x)"
    and run: "adjust_siming_adore F w d s0 = Inr s1" and s0: "s0 = s\<lparr>siming_adores := B\<rparr>"
    and A: "wf_table (siming_adores s) \<Longrightarrow> wf_table A" "\<And>x. map_of A x = (if x = (n, w) then v else map_of (siming_adores s) x)"
  shows "kept s (s1\<lparr>siming_adores := A\<rparr>)"
proof -
  obtain t where t: "s1 = s0\<lparr>simings := t\<rparr>" "votes_moved s0 {w} d t"
    using adjust_siming_adore_effect [OF F run] by blast
  have w: "map_of (simings s) w \<noteq> None" using run s0 by (auto simp: adjust_siming_adore_def modify_siming_def)
  have vm: "votes_moved s {w} d t" using t(2) s0 by (simp add: votes_moved_def)
  have e: "s1\<lparr>siming_adores := A\<rparr> = s\<lparr>siming_adores := A, simings := t\<rparr>" using t(1) s0 by simp
  show ?thesis
    unfolding e
  proof (rule kept_balanced)
    assume ok: "chain_ok s"
    then have b: "balanced s" and sh: "shape s" by (simp_all add: chain_ok_def ledger_ok_def gbalanced_def gbooks_def)
    have "proxy a = 0" using ok a unfolding chain_ok_def proxies_ok_def links_def by fastforce
    moreover have "x = full_weight 0 (\<lambda>_. 0) n a"
      using adore_weight_value [OF F x] full_weight_levels sh a by (simp add: shape_def)
    moreover have "wf_table A" using A(1) sh by (simp add: shape_def)
    ultimately show "balanced (s\<lparr>siming_adores := A, simings := t\<rparr>)"
      using balanced_adore [OF b a(1) _ w _ A(2) vm] d by simp
  qed simp_all
qed

lemma keeps_account_siming_adore:
  assumes F: "fc_laws F"
  shows "keeps s (apply_account_siming_adore F op s)"
  unfolding keeps_def
proof (intro allI impI)
  fix s' assume run: "apply_account_siming_adore F op s = Inr s'"
  let ?n = "sa_account op" and ?w = "sa_siming op"
  have mp: "kept t u" if "modify_account ?n (\<lambda>a. Inr (a\<lparr>simings_adored_for := f a\<rparr>)) t = Inr u" for f t u
    by (rule kept_modify_account [OF that]) (auto simp: same_core_def)
  obtain a where a: "map_of (accounts s) ?n = Some a" "fs_size (proxy a) = 0"
    using run by (auto simp: apply_account_siming_adore_def Let_def)
  show "kept s s'"
  proof (cases "map_of (siming_adores s) (?n, ?w) = None")
    case True
    obtain x s1 where x: "siming_adore_weight F a = Inr x"
      and s1: "adjust_siming_adore F ?w x (s\<lparr>siming_adores := tput (?n, ?w) () (siming_adores s)\<rparr>) = Inr s1"
      and s': "modify_account ?n (\<lambda>a. Inr (a\<lparr>simings_adored_for := simings_adored_for a + 1\<rparr>)) s1 = Inr s'"
      using run a True by (auto simp: apply_account_siming_adore_def Let_def)
    have "siming_adores s1 = tput (?n, ?w) () (siming_adores s)"
      using s1 by (auto simp: adjust_siming_adore_def modify_siming_def put_siming_def)
    then have "s1 = s1\<lparr>siming_adores := tput (?n, ?w) () (siming_adores s)\<rparr>" by simp
    moreover have "kept s (s1\<lparr>siming_adores := tput (?n, ?w) () (siming_adores s)\<rparr>)"
      by (rule kept_adore [OF F a x _ s1 refl, where v = "Some ()"]) (use True in auto)
    ultimately show ?thesis using mp [OF s'] kept_trans by metis
  next
    case False
    obtain x s1 s2 where x: "siming_adore_weight F a = Inr x"
      and s1: "adjust_siming_adore F ?w (- x) s = Inr s1"
      and s2: "modify_account ?n (\<lambda>a. Inr (a\<lparr>simings_adored_for := simings_adored_for a - 1\<rparr>)) s1 = Inr s2"
      and s': "s' = s2\<lparr>siming_adores := tdel (?n, ?w) (siming_adores s2)\<rparr>"
      using run a False F by (auto simp: apply_account_siming_adore_def Let_def fc_simps)
    have same: "siming_adores s1 = siming_adores s"
      using s1 by (auto simp: adjust_siming_adore_def modify_siming_def put_siming_def)
    have s'': "modify_account ?n (\<lambda>a. Inr (a\<lparr>simings_adored_for := simings_adored_for a - 1\<rparr>))
        (s1\<lparr>siming_adores := tdel (?n, ?w) (siming_adores s)\<rparr>) = Inr s'"
      using s2 s' same by (auto simp: modify_account_def put_account_def)
    have "kept s (s1\<lparr>siming_adores := tdel (?n, ?w) (siming_adores s)\<rparr>)"
      by (rule kept_adore [OF F a x _ s1 [folded same], where v = None and B = "siming_adores s"]) (use False in auto)
    then show ?thesis using mp [OF s''] kept_trans by blast
  qed
qed

end
