(* ===== verification/Proxy_Ledger.thy ===== *)
theory Proxy_Ledger
  imports Evaluator_Ledger
begin

section \<open>Changing a proxy keeps the books\<close>

text \<open>
  The evaluator first takes all levels of the account from its old proxies, then moves it and
  gives the levels to the new ones. In between, the books hold with the account's own levels
  taken as gone (a ghost). The walk along the new proxies keeps the graph of proxies acyclic.
\<close>

lemma gbooks_cong:
  assumes "\<And>b x j. j < 5 \<Longrightarrow> glev f n D b x j = glev g m E b x j"
  shows "gbooks f n D s = gbooks g m E s"
proof -
  have "gproxied f n D k j s = gproxied g m E k j s" if "j < 4" for k j
  proof -
    have "glev f n D b x j = glev g m E b x j" for b x using assms that by simp
    then show ?thesis unfolding gproxied_def by presburger
  qed
  moreover have "gadored f n D w s = gadored g m E w s" for w
  proof -
    have "gfull f n D b x = gfull g m E b x" for b x unfolding gfull_def using assms by simp
    then show ?thesis unfolding gadored_def by presburger
  qed
  ultimately show ?thesis by (simp add: gbooks_def)
qed

definition taken :: "account_name_type \<Rightarrow> int list \<Rightarrow> account_name_type \<Rightarrow> nat \<Rightarrow> int" where
  "taken n delta b j = (if b = n \<and> j < 5 then delta ! j else 0)"

lemma gbooks_take: "gbooks (taken n delta) n (from_depth 0 delta) s \<longleftrightarrow> balanced s"
  unfolding gbalanced_def by (rule gbooks_cong) (simp add: glev_def taken_def from_depth_def)

lemma gbooks_give:
  assumes "length delta = 5"
  shows "books n (from_depth 0 (map uminus delta)) s \<longleftrightarrow> gbalanced (taken n delta) s"
  unfolding gbalanced_def by (rule gbooks_cong) (use assms in \<open>simp add: glev_def taken_def from_depth_def\<close>)

text \<open>An account without levels may change its proxy and its adores.\<close>

lemma gbalanced_replace:
  assumes b: "gbalanced f s" and a: "map_of (accounts s) n = Some a"
    and z: "\<And>j. j < 5 \<Longrightarrow> level a j + f n j = 0"
    and a': "amount (qi a') = amount (qi a)" "proxied_vsf_adores a' = proxied_vsf_adores a"
    and A: "wf_table A" "\<And>b w. b \<noteq> n \<Longrightarrow> map_of A (b, w) = map_of (siming_adores s) (b, w)"
      "\<And>w. map_of A (n, w) \<noteq> None \<Longrightarrow> map_of (siming_adores s) (n, w) \<noteq> None"
    and p: "proxy a' \<noteq> 0 \<Longrightarrow> map_of (accounts s) (proxy a') \<noteq> None \<and> (\<forall>w. map_of A (n, w) = None)"
    and s': "s' = s\<lparr>accounts := tput n a' (accounts s), siming_adores := A\<rparr>"
  shows "gbalanced f s'"
  unfolding gbalanced_def gbooks_def
proof (intro conjI allI impI)
  have sh: "shape s" using b by (simp add: gbalanced_def gbooks_def)
  then have wf: "wf_table (accounts s)" by (simp add: shape_def)
  have acc: "accounts s' = tput n a' (accounts s)" "siming_adores s' = A" "simings s' = simings s" by (simp_all add: s')
  have z': "level a' j + f n j = 0" if "j < 5" for j
  proof -
    have "level a' j = level a j" using a' by (simp add: level_def)
    then show ?thesis using z [OF that] by simp
  qed
  have "map_of (simings s) w \<noteq> None" if "map_of A (b, w) \<noteq> None" for b w
  proof -
    have "map_of (siming_adores s) (b, w) \<noteq> None" using A(2,3) that by (cases "b = n") auto
    then show ?thesis using sh unfolding shape_def by blast
  qed
  moreover have "map_of (accounts s) 0 = None" "n \<noteq> 0" using sh a by (auto simp: shape_def)
  moreover have "length (proxied_vsf_adores x) = 4" "proxy x \<noteq> 0 \<Longrightarrow> map_of (accounts s') (proxy x) \<noteq> None \<and> (\<forall>w. map_of A (m, w) = None)"
    if "map_of (accounts s') m = Some x" for m x
  proof -
    show "length (proxied_vsf_adores x) = 4" using that sh a a' acc by (auto simp: shape_def split: if_splits)
    assume px: "proxy x \<noteq> 0"
    show "map_of (accounts s') (proxy x) \<noteq> None \<and> (\<forall>w. map_of A (m, w) = None)"
    proof (cases "m = n")
      case True
      then show ?thesis using that acc p px by auto
    next
      case False
      then have "map_of (accounts s) m = Some x" using that acc by simp
      then have "map_of (accounts s) (proxy x) \<noteq> None" "\<And>w. map_of (siming_adores s) (m, w) = None"
        using sh px unfolding shape_def by blast+
      then show ?thesis using False A(2) acc by auto
    qed
  qed
  ultimately show "shape s'" using sh A(1) wf unfolding shape_def acc by (simp add: s')
  have pl: "gproxied f 0 (\<lambda>_. 0) m j s' = gproxied f 0 (\<lambda>_. 0) m j s" if "j < 4" for m j
    unfolding gproxied_def acc(1) tsum_update [OF wf a] using z z' that by simp
  have al: "gadored f 0 (\<lambda>_. 0) w s' = gadored f 0 (\<lambda>_. 0) w s" for w
  proof -
    have "gfull f 0 (\<lambda>_. 0) n a' = 0" "gfull f 0 (\<lambda>_. 0) n a = 0" using z z' by (simp_all add: gfull_def)
    then show ?thesis
      unfolding gadored_def acc(1,2) tsum_update [OF wf a]
      by (simp, intro tsum_cong [OF wf]) (use A(2) a in \<open>metis option.inject\<close>)
  qed
  {
    fix m x and j :: nat assume m: "map_of (accounts s') m = Some x" and j: "j < 4"
    obtain y where "map_of (accounts s) m = Some y" "proxied_vsf_adores y = proxied_vsf_adores x"
      using m a a' acc by (cases "m = n") auto
    then show "proxied_vsf_adores x ! j = gproxied f 0 (\<lambda>_. 0) m j s'"
      using b j pl [OF j] unfolding gbalanced_def gbooks_def by metis
  }
  fix w sim assume "map_of (simings s') w = Some sim"
  then show "adores sim = gadored f 0 (\<lambda>_. 0) w s'" using b al acc by (simp add: gbalanced_def gbooks_def)
qed

text \<open>Once it has neither a proxy nor adores, its levels count nowhere.\<close>

lemma gbalanced_idle:
  assumes b: "gbalanced (taken n delta) s" and a: "map_of (accounts s) n = Some a" "proxy a = 0"
    and none: "\<And>w. map_of (siming_adores s) (n, w) = None"
  shows "balanced s"
  unfolding gbalanced_def gbooks_def
proof (intro conjI allI impI)
  show sh: "shape s" using b by (simp add: gbalanced_def gbooks_def)
  then have wf: "wf_table (accounts s)" by (simp add: shape_def)
  {
    fix m x and j :: nat assume m: "map_of (accounts s) m = Some x" and j: "j < 4"
    have "m \<noteq> 0" using sh m by (auto simp: shape_def)
    then have "gproxied (taken n delta) 0 (\<lambda>_. 0) m j s = proxied_level 0 (\<lambda>_. 0) m j s"
      unfolding gproxied_def using a by (intro tsum_cong [OF wf]) (auto simp: taken_def)
    then show "proxied_vsf_adores x ! j = proxied_level 0 (\<lambda>_. 0) m j s"
      using b m j by (simp add: gbalanced_def gbooks_def)
  }
  fix w sim assume w: "map_of (simings s) w = Some sim"
  have "gadored (taken n delta) 0 (\<lambda>_. 0) w s = adored_weight 0 (\<lambda>_. 0) w s"
    unfolding gadored_def
  proof (rule tsum_cong [OF wf])
    fix k v assume "map_of (accounts s) k = Some v"
    have "gfull (taken n delta) 0 (\<lambda>_. 0) k v = full_weight 0 (\<lambda>_. 0) k v" if "k \<noteq> n"
      using that by (simp add: gfull_def taken_def)
    then show "(if map_of (siming_adores s) (k, w) \<noteq> None then gfull (taken n delta) 0 (\<lambda>_. 0) k v else 0) =
        (if map_of (siming_adores s) (k, w) \<noteq> None then full_weight 0 (\<lambda>_. 0) k v else 0)"
      using none by (cases "k = n") simp_all
  qed
  then show "adores sim = adored_weight 0 (\<lambda>_. 0) w s" using b w by (simp add: gbalanced_def gbooks_def)
qed

subsection \<open>The graph\<close>

lemma proxy_rel_step: "map_of (accounts s) n = Some a \<Longrightarrow> (n, m) \<in> proxy_rel s \<longleftrightarrow> m = proxy a \<and> m \<noteq> 0"
  by (auto simp: proxy_rel_def links_def)

lemma same_proxies_rel: "same_proxies s s' \<Longrightarrow> proxy_rel s' = proxy_rel s"
  by (simp add: proxy_rel_def same_proxies_def)

text \<open>The propagation only touches the accounts along the proxies.\<close>

lemma adjust_siming_adores_accounts:
  assumes "adjust_siming_adores F m d s = Inr s'"
  shows "accounts s' = accounts s"
  by (rule rfold_invariant [OF assms [unfolded adjust_siming_adores_def]])
    (auto simp: adjust_siming_adore_def modify_siming_def put_siming_def)

lemma array_untouched:
  "adjust_proxied_array F left m delta s = Inr s' \<Longrightarrow> (m, n) \<notin> (proxy_rel s)\<^sup>+ \<Longrightarrow> map_of (accounts s') n = map_of (accounts s) n"
proof (induction left arbitrary: m s)
  case 0
  obtain a where "map_of (accounts s) m = Some a" using 0 by auto
  then show ?case using 0 by (cases "proxy a = 0") (auto dest: adjust_siming_adores_accounts)
next
  case (Suc left)
  obtain a where a: "map_of (accounts s) m = Some a" using Suc.prems by auto
  show ?case
  proof (cases "proxy a = 0")
    case True
    obtain d where "adjust_siming_adores F m d s = Inr s'"
      using Suc.prems(1) a True unfolding adjust_proxied_array.simps by auto
    then show ?thesis using adjust_siming_adores_accounts by simp
  next
    case False
    then have e: "(m, proxy a) \<in> proxy_rel s" using proxy_rel_step [OF a] by simp
    obtain p xs where p: "map_of (accounts s) (proxy a) = Some p"
      and run: "adjust_proxied_array F left (proxy a) delta (put_account (proxy a) (p\<lparr>proxied_vsf_adores := xs\<rparr>) s) = Inr s'"
      using Suc.prems(1) a False unfolding adjust_proxied_array.simps by (auto simp: modify_account_def)
    let ?s = "put_account (proxy a) (p\<lparr>proxied_vsf_adores := xs\<rparr>) s"
    have rel: "proxy_rel ?s = proxy_rel s" by (rule same_proxies_rel [OF put_proxies [OF p]]) simp_all
    have "(proxy a, n) \<notin> (proxy_rel s)\<^sup>+" using Suc.prems(2) e by (meson trancl_into_trancl2)
    then have "map_of (accounts s') n = map_of (accounts ?s) n" using Suc.IH [OF run] rel by simp
    moreover have "proxy a \<noteq> n" using Suc.prems(2) e by auto
    ultimately show ?thesis by (simp add: put_account_def)
  qed
qed

text \<open>The walk that succeeds has not met the account whose proxy changes.\<close>

lemma walk_avoids:
  "proxy_walk s c ch = Inr () \<Longrightarrow> map_of (accounts s) m = Some c \<Longrightarrow> proxies_ok s \<Longrightarrow>
    map_of (accounts s) n = Some a \<Longrightarrow> acc_id a \<in> set ch \<Longrightarrow> (m, n) \<notin> (proxy_rel s)\<^sup>+"
proof (induction s c ch arbitrary: m rule: proxy_walk.induct)
  case (1 s c ch)
  show ?case
  proof
    assume "(m, n) \<in> (proxy_rel s)\<^sup>+"
    then obtain k where k: "(m, k) \<in> proxy_rel s" "k = n \<or> (k, n) \<in> (proxy_rel s)\<^sup>+"
      by (cases rule: converse_tranclE) auto
    then have kp: "k = proxy c" "k \<noteq> 0" using proxy_rel_step [OF "1.prems"(2)] by auto
    have "links s m = Some (proxy c, acc_id c)" using "1.prems"(2) by (simp add: links_def)
    then have fs: "fs_size (proxy c) \<noteq> 0" using "1.prems"(3) kp unfolding proxies_ok_def by blast
    have walk: "(case get_account s (proxy c) of
          Inl e \<Rightarrow> Inl e
        | Inr next \<Rightarrow>
            if acc_id next \<in> set ch then Inl (Assert ''This proxy would create a proxy loop.'')
            else if length (insort_insert (acc_id next) ch) \<le> TAIYI_MAX_PROXY_RECURSION_DEPTH
            then proxy_walk s next (insort_insert (acc_id next) ch)
            else Inl (Assert ''Proxy chain is too long.'')) = Inr ()"
      using "1.prems"(1) fs by (simp only: proxy_walk.simps [of s c ch] if_True simp_thms)
    then obtain d where gd: "get_account s (proxy c) = Inr d" by (cases "get_account s (proxy c)") simp_all
    then have d: "map_of (accounts s) (proxy c) = Some d" by simp
    have nd: "acc_id d \<notin> set ch" and le: "length (insort_insert (acc_id d) ch) \<le> TAIYI_MAX_PROXY_RECURSION_DEPTH"
      and rest: "proxy_walk s d (insort_insert (acc_id d) ch) = Inr ()"
      using walk unfolding gd by (simp_all split: if_splits)
    have "k \<noteq> n" using d nd "1.prems"(4,5) kp by auto
    moreover have "(proxy c, n) \<notin> (proxy_rel s)\<^sup>+"
      by (rule "1.IH" [OF fs gd nd le rest d "1.prems"(3,4)]) (simp add: set_insort_insert "1.prems"(5))
    ultimately show False using k kp by blast
  qed
qed

lemma proxies_ok_change:
  assumes ok: "proxies_ok s" and n: "links s n = Some (q, i)"
    and l: "links s' = (links s)(n \<mapsto> (p, i))" "next_account_id s' = next_account_id s"
    and p: "p \<noteq> 0 \<Longrightarrow> fs_size p \<noteq> 0 \<and> p \<noteq> n \<and> (p, n) \<notin> (proxy_rel s)\<^sup>+"
  shows "proxies_ok s'"
proof -
  have "acyclic (proxy_rel s')"
  proof (cases "p = 0")
    case True
    have "proxy_rel s' \<subseteq> proxy_rel s" unfolding proxy_rel_def l using True by (auto split: if_splits)
    then show ?thesis using ok acyclic_subset by (auto simp: proxies_ok_def)
  next
    case False
    have "proxy_rel s' \<subseteq> insert (n, p) (proxy_rel s)" unfolding proxy_rel_def l by (auto split: if_splits)
    moreover have "(p, n) \<notin> (proxy_rel s)\<^sup>*" using p [OF False] by (auto simp: rtrancl_eq_or_trancl)
    ultimately show ?thesis using ok acyclic_subset [of "insert (n, p) (proxy_rel s)"] acyclic_insert by (auto simp: proxies_ok_def)
  qed
  moreover have "\<forall>m r k. links s' m = Some (r, k) \<longrightarrow> k < next_account_id s' \<and> (r \<noteq> 0 \<longrightarrow> fs_size r \<noteq> 0)"
    using ok n p unfolding proxies_ok_def l by (auto split: if_splits)
  moreover have "\<forall>m k r t j. links s' m = Some (r, j) \<longrightarrow> links s' k = Some (t, j) \<longrightarrow> m = k"
    using ok n unfolding proxies_ok_def l(1) fun_upd_apply by (metis option.inject prod.inject)
  ultimately show ?thesis by (simp add: proxies_ok_def)
qed

subsection \<open>The evaluator\<close>

lemma own_levels_value:
  assumes F: "fc_laws F" and len: "length (proxied_vsf_adores a) = 4" and run: "own_levels F a = Inr delta"
  shows "length delta = 5" "j < 5 \<Longrightarrow> delta ! j = - level a j"
proof -
  obtain p q r u where c: "proxied_vsf_adores a = [p, q, r, u]"
    using len by (cases "proxied_vsf_adores a" rule: list4_cases) simp_all
  have up: "[0..<TAIYI_MAX_PROXY_RECURSION_DEPTH] = [0, 1, 2, 3]"
    by (simp add: TAIYI_MAX_PROXY_RECURSION_DEPTH_def upt_conv_Cons)
  have d: "delta = [- amount (qi a), - p, - q, - r, - u]"
    using run F unfolding own_levels_def up by (auto simp: c fc_simps)
  show "length delta = 5" by (simp add: d)
  show "delta ! j = - level a j" if "j < 5"
    using that by (auto simp: d level_def c numeral_eq_Suc less_Suc_eq)
qed

lemma negate_all_value:
  assumes F: "fc_laws F" and run: "negate_all F ds = Inr es"
  shows "es = map uminus ds"
proof -
  have "rfold (\<lambda>d xs. rbind (s_neg F d) (\<lambda>d. Inr (xs @ [d]))) ds xs = Inr es \<Longrightarrow> es = xs @ map uminus ds" for xs
  proof (induction ds arbitrary: xs)
    case (Cons d ds)
    have "rfold (\<lambda>d xs. rbind (s_neg F d) (\<lambda>d. Inr (xs @ [d]))) ds (xs @ [- d]) = Inr es"
      using Cons.prems F by (auto simp: s_neg_law)
    from Cons.IH [OF this] show ?case by simp
  qed simp
  then show ?thesis using run unfolding negate_all_def by fastforce
qed

lemma adored_cleared:
  "map_of (tdels (map (Pair n) (adored_by s n)) (siming_adores s)) (b, w) = (if b = n then None else map_of (siming_adores s) (b, w))"
  using set_adored_by [of w s n] by (auto simp: map_of_tdels restrict_map_def)

lemma keeps_account_siming_proxy:
  assumes F: "fc_laws F" and v: "px_proxy op \<noteq> px_account op" "px_proxy op = 0 \<or> fs_size (px_proxy op) \<noteq> 0"
    and run: "apply_account_siming_proxy F op s = Inr s'"
  shows "kept s s'"
  unfolding kept_def
proof
  let ?n = "px_account op" and ?p = "px_proxy op"
  assume ok: "chain_ok s"
  then have b: "balanced s" and sh: "shape s" and pr: "proxies_ok s" and l: "ledger_ok s"
    by (simp_all add: chain_ok_def ledger_ok_def gbalanced_def gbooks_def)
  obtain a delta s1 where a: "map_of (accounts s) ?n = Some a" and ne: "proxy a \<noteq> ?p"
    and delta: "own_levels F a = Inr delta" and s1: "adjust_proxied_siming_adores_array F ?n delta s = Inr s1"
    and rest: "(if fs_size ?p \<noteq> 0 then
        rbind (get_account s1 ?p) (\<lambda>new_proxy.
        rbind (proxy_walk s1 new_proxy (insort_insert (acc_id new_proxy) [acc_id a])) (\<lambda>_.
        rbind (clear_siming_adores ?n s1) (\<lambda>s.
        rbind (modify_account ?n (\<lambda>a. Inr (a\<lparr>proxy := ?p\<rparr>)) s) (\<lambda>s.
        rbind (negate_all F delta) (\<lambda>delta.
        adjust_proxied_siming_adores_array F ?n delta s)))))
      else modify_account ?n (\<lambda>a. Inr (a\<lparr>proxy := ?p\<rparr>)) s1) = Inr s'"
    using run by (auto simp: apply_account_siming_proxy_def Let_def)
  have len: "length (proxied_vsf_adores a) = 4" using sh a by (simp add: shape_def)
  note d5 = own_levels_value(1) [OF F len delta] and dl = own_levels_value(2) [OF F len delta]
  have acyc: "(?n, ?n) \<notin> (proxy_rel s)\<^sup>+" using pr by (auto simp: proxies_ok_def acyclic_def)
  have run1: "adjust_proxied_array F 4 ?n delta s = Inr s1"
    using s1 by (simp add: adjust_proxied_siming_adores_array_def TAIYI_MAX_PROXY_RECURSION_DEPTH_def)
  have e1: "gbalanced (taken ?n delta) s1" "only_adores s s1"
    using adjust_proxied_array_books [OF F order_refl, of "taken ?n delta" ?n delta s s1] run1 gbooks_take b by simp_all
  have a1: "map_of (accounts s1) ?n = Some a" using array_untouched [OF run1 acyc] a by simp
  have sp1: "same_proxies s s1" using only_adores_proxies [OF e1(2)] .
  have pr1: "proxies_ok s1" using pr proxies_ok_cong [OF sp1] by simp
  have z: "level a j + taken ?n delta ?n j = 0" if "j < 5" for j using dl [OF that] that by (simp add: taken_def)
  have sh1: "shape s1" using e1(1) by (simp add: gbalanced_def gbooks_def)
  have wf: "wf_table (accounts s)" "wf_table (accounts s1)" "wf_table (siming_adores s1)"
    using sh sh1 by (simp_all add: shape_def)
  have t1: "same_totals s s1" by (rule only_adores_totals [OF e1(2) wf(1,2)])
  have ln: "links s1 ?n = Some (proxy a, acc_id a)" using a1 by (simp add: links_def)
  show "chain_ok s' \<and> worth s' = worth s \<and> current_supply (gpo s') = current_supply (gpo s)"
  proof (cases "fs_size ?p = 0")
    case True
    then have p0: "?p = 0" using v(2) by simp
    have s': "s' = s1\<lparr>accounts := tput ?n (a\<lparr>proxy := 0\<rparr>) (accounts s1), siming_adores := siming_adores s1\<rparr>"
      using rest True a1 p0 by (auto simp: modify_account_def put_account_def)
    have none: "map_of (siming_adores s1) (?n, w) = None" for w using sh1 a1 ne p0 by (auto simp: shape_def)
    have g: "gbalanced (taken ?n delta) s'"
      by (rule gbalanced_replace [OF e1(1) a1 z _ _ wf(3) _ _ _ s']) simp_all
    have b': "balanced s'" by (rule gbalanced_idle [OF g, where a = "a\<lparr>proxy := 0\<rparr>"]) (simp_all add: s' none)
    have "links s' = (links s1)(?n \<mapsto> (0, acc_id a))" by (auto simp: s' links_def fun_eq_iff)
    from proxies_ok_change [OF pr1 ln this] have pr': "proxies_ok s'" by (simp add: s')
    have "s' = put_account ?n (a\<lparr>proxy := 0\<rparr>) s1" by (simp add: s' put_account_def)
    then have "same_totals s1 s'" using total_put [OF wf(2) a1] by (simp add: same_totals_def)
    then have t': "same_totals s s'" using same_totals_trans [OF t1] by blast
    then show ?thesis using same_totals_ledger [OF t' l b'] pr' by (simp add: chain_ok_def same_totals_def)
  next
    case False
    then have p0: "?p \<noteq> 0" by auto
    obtain c u s3 where c: "map_of (accounts s1) ?p = Some c"
      and walk: "proxy_walk s1 c (insort_insert (acc_id c) [acc_id a]) = Inr u"
      and s3: "s3 = s1\<lparr>accounts := tput ?n (a\<lparr>simings_adored_for := 0, proxy := ?p\<rparr>) (accounts s1),
          siming_adores := tdels (map (Pair ?n) (adored_by s1 ?n)) (siming_adores s1)\<rparr>"
      and run3: "adjust_proxied_array F 4 ?n (map uminus delta) s3 = Inr s'"
    proof -
      assume *: "\<And>c u s3. map_of (accounts s1) ?p = Some c \<Longrightarrow> proxy_walk s1 c (insort_insert (acc_id c) [acc_id a]) = Inr u \<Longrightarrow>
          s3 = s1\<lparr>accounts := tput ?n (a\<lparr>simings_adored_for := 0, proxy := ?p\<rparr>) (accounts s1),
          siming_adores := tdels (map (Pair ?n) (adored_by s1 ?n)) (siming_adores s1)\<rparr> \<Longrightarrow>
          adjust_proxied_array F 4 ?n (map uminus delta) s3 = Inr s' \<Longrightarrow> thesis"
      obtain c u s2 s3 es where c: "map_of (accounts s1) ?p = Some c" "proxy_walk s1 c (insort_insert (acc_id c) [acc_id a]) = Inr u"
        and s2: "clear_siming_adores ?n s1 = Inr s2" and s3: "modify_account ?n (\<lambda>a. Inr (a\<lparr>proxy := ?p\<rparr>)) s2 = Inr s3"
        and es: "negate_all F delta = Inr es" and r: "adjust_proxied_siming_adores_array F ?n es s3 = Inr s'"
        using rest False by auto
      have tt: "tput ?n x (tput ?n y t) = tput ?n x t" if "wf_table t" for x y and t :: "(account_name_type, account_object) tbl"
        using that by (intro wf_table_ext) auto
      have "s3 = s1\<lparr>accounts := tput ?n (a\<lparr>simings_adored_for := 0, proxy := ?p\<rparr>) (accounts s1),
          siming_adores := tdels (map (Pair ?n) (adored_by s1 ?n)) (siming_adores s1)\<rparr>"
        using s2 s3 a1 by (auto simp: clear_siming_adores_def modify_account_def put_account_def tt [OF wf(2)])
      then show thesis
        using * [OF c] r negate_all_value [OF F es]
        by (simp add: adjust_proxied_siming_adores_array_def TAIYI_MAX_PROXY_RECURSION_DEPTH_def)
    qed
    have g: "gbalanced (taken ?n delta) s3"
      by (rule gbalanced_replace [OF e1(1) a1 z _ _ _ _ _ _ s3]) (use wf(3) c in \<open>simp_all add: adored_cleared\<close>)
    have "gbooks no_ghost ?n (from_depth 0 (map uminus delta)) s3" using g gbooks_give [OF d5] by simp
    then have e3: "balanced s'" "only_adores s3 s'"
      using adjust_proxied_array_books [OF F order_refl, of no_ghost ?n "map uminus delta" s3 s'] run3 by simp_all
    have l3: "links s3 = (links s1)(?n \<mapsto> (?p, acc_id a))" by (auto simp: s3 links_def fun_eq_iff)
    have "(?p, ?n) \<notin> (proxy_rel s1)\<^sup>+"
      using walk_avoids [OF _ c pr1 a1] walk by (simp add: set_insort_insert)
    then have pr3: "proxies_ok s3"
      by (intro proxies_ok_change [OF pr1 ln l3]) (use v(1) False in \<open>simp_all add: s3\<close>)
    then have pr': "proxies_ok s'" using proxies_ok_cong [OF only_adores_proxies [OF e3(2)]] by simp
    have g3: "gpo s3 = gpo s1" "reward_funds s3 = reward_funds s1" "nfas s3 = nfas s1" by (simp_all add: s3)
    have tot: "total_of h s3 = total_of h s1" if "h (a\<lparr>simings_adored_for := 0, proxy := ?p\<rparr>) = h a" for h
      using that by (simp add: total_of_def s3 tsum_update [OF wf(2) a1])
    have t13: "same_totals s1 s3" unfolding same_totals_def by (intro conjI g3 tot) simp_all
    have wf3: "wf_table (accounts s3)" "wf_table (accounts s')" using wf(2) s3 balanced_wf(1) [OF e3(1)] by simp_all
    have t': "same_totals s s'"
      using same_totals_trans [OF t1 same_totals_trans [OF t13 only_adores_totals [OF e3(2) wf3]]] .
    then show ?thesis using same_totals_ledger [OF t' l e3(1)] pr' by (simp add: chain_ok_def same_totals_def)
  qed
qed

end
