(* ===== verification/Sample.thy ===== *)
theory Sample
  imports Proxy_Ledger
begin

section \<open>A small chain\<close>

text \<open>
  The concrete state the examples of the later theories run on: Alice, who adores the siming
  Carol and has rewards to claim, Bob, whose proxy is Alice, and the DAO account.
\<close>

definition n_alice :: account_name_type where "n_alice = 0x616c6963650000000000000000000000"
definition n_bob :: account_name_type where "n_bob = 0x626f6200000000000000000000000000"
definition n_carol :: account_name_type where "n_carol = 0x6361726f6c0000000000000000000000"
definition n_cultivation :: account_name_type where "n_cultivation = 0x63756c7469766174696f6e0000000000"
definition n_dao :: account_name_type where "n_dao = 0x7a756f77616e672e64616f0000000000"

lemmas n_defs = n_alice_def n_bob_def n_carol_def n_dao_def

lemma n_distinct:
  "n_alice \<noteq> n_bob" "n_alice \<noteq> n_carol" "n_alice \<noteq> n_dao" "n_bob \<noteq> n_carol" "n_bob \<noteq> n_dao" "n_carol \<noteq> n_dao"
  "n_alice \<noteq> 0" "n_bob \<noteq> 0" "n_carol \<noteq> 0" "n_dao \<noteq> 0"
  by (simp_all add: n_defs)

lemma zeros: "replicate 5 (CHR 0x00) = [CHR 0x00, CHR 0x00, CHR 0x00, CHR 0x00, CHR 0x00]"
  "replicate 11 (CHR 0x00) = [CHR 0x00, CHR 0x00, CHR 0x00, CHR 0x00, CHR 0x00, CHR 0x00, CHR 0x00, CHR 0x00, CHR 0x00,
     CHR 0x00, CHR 0x00]"
  "replicate 13 (CHR 0x00) = [CHR 0x00, CHR 0x00, CHR 0x00, CHR 0x00, CHR 0x00, CHR 0x00, CHR 0x00, CHR 0x00, CHR 0x00,
     CHR 0x00, CHR 0x00, CHR 0x00, CHR 0x00]"
  by (simp_all add: numeral_eq_Suc)

lemma names_of:
  "TAIYI_DAO_ACCOUNT = n_dao" "n_dao = fs_of ''zuowang.dao''" "n_alice = fs_of ''alice''" "n_bob = fs_of ''bob''" "n_carol = fs_of ''carol''"
  by (simp_all add: TAIYI_DAO_ACCOUNT_def n_defs fs_of_def be_nat_def fs_buffer_def fs_size_of_def zeros)

lemma valid_strings:
  "is_valid_account_name ''alice''" "is_valid_account_name ''bob''" "is_valid_account_name ''carol''"
  "is_valid_account_name ''zuowang.dao''"
  by code_simp+

lemma n_valid:
  "validate_account_name n_alice = Inr ()" "validate_account_name n_bob = Inr ()"
  "validate_account_name n_carol = Inr ()" "validate_account_name n_dao = Inr ()"
  using valid_strings
  by (simp_all add: names_of(2-) validate_account_name_def fs_string_of byte_sized_def fs_size_of_def)

definition acc_alice :: account_object where
  "acc_alice = new_account_object\<lparr>acc_id := 0, balance := yang 50000, qi := qis 900, reward_yang_balance := yang 3,
     reward_qi_balance := qis 5, reward_feigang_balance := qis 7, proxied_vsf_adores := [100, 0, 0, 0],
     simings_adored_for := 1\<rparr>"

definition acc_bob :: account_object where
  "acc_bob = new_account_object\<lparr>acc_id := 1, qi := qis 100, proxy := n_alice\<rparr>"

definition acc_dao :: account_object where
  "acc_dao = new_account_object\<lparr>acc_id := 2, qi := qis 500\<rparr>"

definition sample_gpo :: dynamic_global_property_object where
  "sample_gpo =
     \<lparr>head_block_number = 10, head_time = 1762850000, current_siming = n_carol, current_supply = yang 50004,
      total_qi = qis 1500, pending_rewarded_qi = qis 5, pending_rewarded_feigang = qis 7, pending_cultivation_qi = qis 0,
      total_gold = mk_asset 0 TAIYI_ASSET_NUM_GOLD, total_food = mk_asset 0 TAIYI_ASSET_NUM_FOOD,
      total_wood = mk_asset 0 TAIYI_ASSET_NUM_WOOD, total_fabric = mk_asset 0 TAIYI_ASSET_NUM_FABRIC,
      total_herb = mk_asset 0 TAIYI_ASSET_NUM_HERB, maximum_block_size = 131072, current_aslot = 10,
      recent_slots_filled = 1023, participation_count = 10, last_irreversible_block_num = 5,
      delegation_return_period = 432000, next_maintenance_time = 1762850000, xinsu_count = 1, content_reward_yang_percent = 1500, content_reward_qi_fund_percent = 7500,
      last_siming_production_reward = yang 1\<rparr>"

definition sample_schedule :: siming_schedule_object where
  "sample_schedule =
     \<lparr>current_virtual_time = 0, next_shuffle_block_num = 1, current_shuffled_simings = [n_carol], num_scheduled_simings = 1,
      median_props = default_chain_properties, majority_version = 0, max_adored_simings = 21, hardfork_required_simings = 17\<rparr>"

definition sample_hardforks :: hardfork_property_object where
  "sample_hardforks = \<lparr>processed_hardforks = [TAIYI_GENESIS_TIME], last_hardfork = 0, current_hardfork_version = 0,
     next_hardfork = 0, next_hardfork_time = 0\<rparr>"

definition sample_tiandao :: tiandao_property_object where
  "sample_tiandao =
     \<lparr>cruelty = 0, enjoyment = 0, decay = 0, falsity = 0, v_years = 1, v_months = 1, v_days = 1, v_timeonday = 0, v_times = 21,
      next_npc_born_time = 0, zone_grow_gold_speed_map = [], zone_grow_food_speed_map = [], zone_grow_wood_speed_map = [],
      zone_grow_fabric_speed_map = [], zone_grow_herb_speed_map = [], zone_gold_max_map = [], zone_food_max_map = [],
      zone_wood_max_map = [], zone_fabric_max_map = [], zone_herb_max_map = [], zone_moving_difficulty_map = replicate 25 1,
      zone_type_connection_max_num_map = [], amount_actor_last_vyear = 0, dead_actor_last_vyear = 0\<rparr>"

definition sample_chain :: chain where
  "sample_chain =
     \<lparr>accounts = [(n_alice, acc_alice), (n_bob, acc_bob), (n_dao, acc_dao)], next_account_id = 3,
      authorities = [], metadata = [], simings = [(n_carol, new_siming_object\<lparr>adores := 1000, signing_key := 4\<rparr>)],
      next_siming_id = 1, siming_adores = [((n_alice, n_carol), ())], schedule = sample_schedule, gpo = sample_gpo,
      hardforks = sample_hardforks, routes = [], reward_funds = [], decline_requests = [], recovery_requests = [],
      change_requests = [], owner_history = [], next_history_id = 0, delegations = [], delegation_expirations = [],
      next_expiration_id = 0, regular_balances = [], rewards_balances = [], nfa_symbols = [], next_nfa_symbol_id = 0,
      nfas = [], next_nfa_id = 0, nfa_materials = [],
      nfa_balances = [], xinsu_mark_nfa_symbol_id = 0, zones = [], zone_contract_permissions = [], zone_connects = [],
      actors = [], core_attributes = [],
      tiandao = sample_tiandao, cultivations = [], next_cultivation_id = 0, contracts = [], next_contract_id = 0,
      contract_codes = [], next_code_id = 0, proposals = [],
      next_proposal_id = 0, proposal_votes = [], vops = []\<rparr>"

lemmas acc_simps = acc_alice_def acc_bob_def acc_dao_def new_account_object_def TAIYI_MAX_PROXY_RECURSION_DEPTH_def

lemma replicate_4: "replicate 4 x = [x, x, x, x]"
  by (simp add: numeral_eq_Suc)

lemma sum_5: "(\<Sum>j<(5::nat). f j) = f 0 + f 1 + f 2 + f 3 + (f 4 :: int)"
  by (simp add: eval_nat_numeral)

lemma less_4: "j < (4::nat) \<longleftrightarrow> j = 0 \<or> j = 1 \<or> j = 2 \<or> j = 3"
  by auto

lemma sample_shape: "shape sample_chain"
  by (auto simp: shape_def sample_chain_def acc_simps n_defs replicate_4 split: if_splits)

lemma sample_balanced: "balanced sample_chain"
  unfolding gbalanced_def gbooks_def
proof (intro conjI allI impI sample_shape)
  fix m p and j :: nat assume "map_of (accounts sample_chain) m = Some p" "j < 4"
  then show "proxied_vsf_adores p ! j = proxied_level 0 (\<lambda>_. 0) m j sample_chain"
    by (auto simp: sample_chain_def gproxied_def level_def acc_simps n_defs replicate_4 less_4 split: if_splits)
next
  fix w sim assume "map_of (simings sample_chain) w = Some sim"
  then show "adores sim = adored_weight 0 (\<lambda>_. 0) w sample_chain"
    by (auto simp: sample_chain_def gadored_def gfull_def sum_5 level_def acc_simps n_defs replicate_4 split: if_splits)
qed

lemma sample_links:
  "links sample_chain = [n_alice \<mapsto> (0, 0), n_bob \<mapsto> (n_alice, 1), n_dao \<mapsto> (0, 2)]"
  by (auto simp: links_def sample_chain_def acc_simps n_defs fun_eq_iff)

lemma sample_ok: "chain_ok sample_chain"
proof -
  have l: "ledger_ok sample_chain"
    unfolding ledger_ok_def
    by (intro conjI sample_balanced)
      (simp_all add: sample_chain_def sample_gpo_def total_of_def fund_of_def nfa_qi_total_def cultivated_def acc_simps)
  have "proxy_rel sample_chain = {(n_bob, n_alice)}"
    by (auto simp: proxy_rel_def sample_links n_defs split: if_splits)
  moreover have "n_alice \<noteq> n_bob" by (simp add: n_defs)
  moreover have "acyclic {}" by (simp add: acyclic_def)
  ultimately have a: "acyclic (proxy_rel sample_chain)" by simp
  have "fs_size n_alice \<noteq> 0" by (rule valid_name_nonempty [OF n_valid(1)])
  moreover have "next_account_id sample_chain = 3" by (simp add: sample_chain_def)
  ultimately have "proxies_ok sample_chain"
    using a n_distinct unfolding proxies_ok_def sample_links by (auto split: if_splits)
  then show ?thesis using l by (simp add: chain_ok_def)
qed

text \<open>What it takes to run an evaluator on it with \<open>simp\<close>.\<close>

lemmas run_simps = modify_account_def modify_siming_def modify_gpo_def put_account_def put_siming_def sample_chain_def
  adjust_siming_adores_def adjust_siming_adore_def adore_siming_def Let_def sample_gpo_def sample_schedule_def
  new_siming_object_def fc_ref_def in_i64_def checked_def acc_simps replicate_4 n_defs TAIYI_VIRTUAL_SCHEDULE_LAP_LENGTH_def
  asset_add_def asset_sub_def asset_neg_def asset_cmp_def add_checked_def modify_balance_def modify_reward_balance_def
  adjust_balance_def adjust_reward_balance_def reward_symbols_def check_available_def get_balance_of_def get_balance_def
  adjust_proxied_siming_adores_def adored_by_def require_cmp_def ids_def

end
