(* ===== verification/Evaluation.thy ===== *)
theory Evaluation
  imports Sample
begin

section \<open>What the evaluators do to the ledger\<close>

text \<open>
  The reward claim, whose adores are counted wrongly, and the properties of all evaluators
  together: the operations that keep the books, and the names that lock an account.
\<close>

subsection \<open>Claiming rewards\<close>

text \<open>How an account changed: liquid, pending liquid, pending qi, pending feigang and qi.\<close>

definition credited :: "account_object \<Rightarrow> account_object \<Rightarrow> int \<Rightarrow> int \<Rightarrow> int \<Rightarrow> int \<Rightarrow> int \<Rightarrow> bool" where
  "credited a a' y ry rq rf q \<longleftrightarrow> proxy a' = proxy a \<and> proxied_vsf_adores a' = proxied_vsf_adores a \<and> acc_id a' = acc_id a \<and>
     amount (balance a') = amount (balance a) + y \<and>
     amount (reward_yang_balance a') = amount (reward_yang_balance a) + ry \<and>
     amount (reward_qi_balance a') = amount (reward_qi_balance a) + rq \<and>
     amount (reward_feigang_balance a') = amount (reward_feigang_balance a) + rf \<and>
     amount (qi a') = amount (qi a) + q"

definition credits :: "account_name_type \<Rightarrow> chain \<Rightarrow> chain \<Rightarrow> int \<Rightarrow> int \<Rightarrow> int \<Rightarrow> int \<Rightarrow> int \<Rightarrow> bool" where
  "credits n s s' y ry rq rf q \<longleftrightarrow>
     (\<exists>a a'. map_of (accounts s) n = Some a \<and> s' = put_account n a' s \<and> credited a a' y ry rq rf q)"

lemma tput_tput: "wf_table t \<Longrightarrow> tput k x (tput k y t) = tput k x t"
  by (intro wf_table_ext) auto

lemma creditsI:
  "map_of (accounts s) n = Some a \<Longrightarrow> s' = put_account n a' s \<Longrightarrow> credited a a' y ry rq rf q \<Longrightarrow> credits n s s' y ry rq rf q"
  unfolding credits_def by blast

lemma credits_trans:
  assumes wf: "wf_table (accounts s)" and st: "credits n s t y ry rq rf q" and tu: "credits n t u y' ry' rq' rf' q'"
  shows "credits n s u (y + y') (ry + ry') (rq + rq') (rf + rf') (q + q')"
proof -
  obtain a a' where a: "map_of (accounts s) n = Some a" "t = put_account n a' s" "credited a a' y ry rq rf q"
    using st unfolding credits_def by blast
  obtain b b' where b: "map_of (accounts t) n = Some b" "u = put_account n b' t" "credited b b' y' ry' rq' rf' q'"
    using tu unfolding credits_def by blast
  have "b = a'" using a b by (simp add: put_account_def)
  then have "credited a b' (y + y') (ry + ry') (rq + rq') (rf + rf') (q + q')" using a(3) b(3) by (simp add: credited_def)
  moreover have "u = put_account n b' s" using a b by (simp add: put_account_def tput_tput [OF wf])
  ultimately show ?thesis by (rule creditsI [OF a(1), rotated])
qed

lemma adjust_reward_credits:
  assumes F: "fc_laws F" and run: "adjust_reward_balance F n (yang x) (qis y) (qis z) s = Inr s'" and "y = 0 \<or> x = 0"
  shows "credits n s s' 0 x y z 0"
proof -
  have "modify_reward_balance F n (yang x) (qis y) (qis z) True s = Inr s'"
    using run by (auto simp: adjust_reward_balance_def)
  then show ?thesis
    using F assms(3) unfolding modify_reward_balance_def modify_account_def add_checked_def
    by (cases "y = 0") (auto intro!: creditsI simp: credited_def)
qed

lemma adjust_balance_credits:
  assumes F: "fc_laws F"
  shows "adjust_balance F n (yang x) s = Inr s' \<Longrightarrow> credits n s s' x 0 0 0 0"
    and "adjust_balance F n (qis x) s = Inr s' \<Longrightarrow> credits n s s' 0 0 0 0 x"
proof -
  show "credits n s s' x 0 0 0 0" if run: "adjust_balance F n (yang x) s = Inr s'"
  proof -
    obtain a where "map_of (accounts s) n = Some a" "s' = put_account n (a\<lparr>balance := yang (amount (balance a) + x)\<rparr>) s"
      using modify_yang_effect [OF F adjust_native(2) [OF run]] by blast
    then show ?thesis by (rule creditsI) (simp add: credited_def)
  qed
  show "credits n s s' 0 0 0 0 x" if run: "adjust_balance F n (qis x) s = Inr s'"
  proof -
    obtain a where "map_of (accounts s) n = Some a" "s' = put_account n (a\<lparr>qi := qis (amount (qi a) + x)\<rparr>) s"
      using modify_qi_effect [OF F adjust_native(1) [OF run]] by blast
    then show ?thesis by (rule creditsI) (simp add: credited_def)
  qed
qed

definition ghost0 :: "account_name_type \<Rightarrow> int \<Rightarrow> account_name_type \<Rightarrow> nat \<Rightarrow> int" where
  "ghost0 n x b j = (if b = n \<and> j = 0 then x else 0)"

lemma ghost0_books: "gbooks (ghost0 n x) n (single 0 y) s \<longleftrightarrow> books n (single 0 (y - x)) s"
  by (rule gbooks_cong) (auto simp: glev_def ghost0_def single_def)

lemma ghost0_balanced: "gbalanced (ghost0 n x) s \<longleftrightarrow> books n (single 0 (- x)) s"
  using ghost0_books [of n x 0 s] gbooks_cong [of "ghost0 n x" 0 "\<lambda>_. 0" "ghost0 n x" n "single 0 0"]
  by (simp add: gbalanced_def glev_def)

text \<open>Propagating \<open>d\<close> of the \<open>x\<close> that are due leaves \<open>x - d\<close>.\<close>

lemma adjust_part:
  assumes F: "fc_laws F" and b: "books n (single 0 x) s" and run: "adjust_proxied_siming_adores F n d s = Inr s'"
  shows "books n (single 0 (x - d)) s'" "only_adores s s'"
proof -
  have "gbooks (ghost0 n (d - x)) n (single 0 d) s" using b by (simp add: ghost0_books)
  then have "gbalanced (ghost0 n (d - x)) s' \<and> only_adores s s'"
    using adjust_proxied_books [OF F order_refl, of "ghost0 n (d - x)" n d s s'] run
    by (simp add: adjust_proxied_siming_adores_def TAIYI_MAX_PROXY_RECURSION_DEPTH_def)
  then show "books n (single 0 (x - d)) s'" "only_adores s s'" by (simp_all add: ghost0_balanced)
qed

lemma claim_effect:
  assumes F: "fc_laws F" and v: "validate_claim_reward_balance op = Inr ()" and ok: "chain_ok s"
    and run: "apply_claim_reward_balance F op s = Inr s'"
  defines "n \<equiv> cl_account op" and "f \<equiv> amount (cl_reward_feigang op)"
  shows "books n (single 0 (- f)) s'"
    and "worth s' = worth s" "current_supply (gpo s') = current_supply (gpo s)" "proxies_ok s'"
    and "balanced s' \<Longrightarrow> ledger_ok s'" "same_proxies s s'" "siming_adores s' = siming_adores s"
proof -
  define y q where yq: "y = amount (cl_reward_yang op)" "q = amount (cl_reward_qi op)"
  have sym: "cl_reward_yang op = yang y" "cl_reward_qi op = qis q" "cl_reward_feigang op = qis f"
    using v by (auto simp: validate_claim_reward_balance_def yq f_def mk_asset_def)
  have b: "balanced s" and l: "ledger_ok s" and pr: "proxies_ok s" using ok by (simp_all add: chain_ok_def ledger_ok_def)
  have wf: "wf_table (accounts s)" by (rule balanced_wf(1) [OF b])
  obtain s1 s2 s3 s4 s5 s6 s7 s8 t p u where
    st: "adjust_reward_balance F n (yang (- y)) (qis 0) (qis 0) s = Inr s1"
      "adjust_balance F n (yang y) s1 = Inr s2"
      "adjust_reward_balance F n (yang 0) (qis (- q)) (qis 0) s2 = Inr s3"
      "adjust_balance F n (qis q) s3 = Inr s4"
      "adjust_reward_balance F n (yang 0) (qis 0) (qis (- f)) s4 = Inr s5"
      "adjust_balance F n (qis f) s5 = Inr s6"
    and s7: "adjust_proxied_siming_adores F n f s6 = Inr s7"
    and g: "asset_add F (total_qi (gpo s7)) (qis (q + f)) = Inr t"
      "asset_sub F (pending_rewarded_qi (gpo s7)) (qis q) = Inr p"
      "asset_sub F (pending_rewarded_feigang (gpo s7)) (qis f) = Inr u"
    and s8: "s8 = s7\<lparr>gpo := (gpo s7)\<lparr>total_qi := t, pending_rewarded_qi := p, pending_rewarded_feigang := u\<rparr>\<rparr>"
    and s': "adjust_proxied_siming_adores F n (q + f) s8 = Inr s'"
  proof -
    assume *: "\<And>s1 s2 s3 s4 s5 s6 s7 t p u s8. adjust_reward_balance F n (yang (- y)) (qis 0) (qis 0) s = Inr s1 \<Longrightarrow>
      adjust_balance F n (yang y) s1 = Inr s2 \<Longrightarrow> adjust_reward_balance F n (yang 0) (qis (- q)) (qis 0) s2 = Inr s3 \<Longrightarrow>
      adjust_balance F n (qis q) s3 = Inr s4 \<Longrightarrow> adjust_reward_balance F n (yang 0) (qis 0) (qis (- f)) s4 = Inr s5 \<Longrightarrow>
      adjust_balance F n (qis f) s5 = Inr s6 \<Longrightarrow> adjust_proxied_siming_adores F n f s6 = Inr s7 \<Longrightarrow>
      asset_add F (total_qi (gpo s7)) (qis (q + f)) = Inr t \<Longrightarrow> asset_sub F (pending_rewarded_qi (gpo s7)) (qis q) = Inr p \<Longrightarrow>
      asset_sub F (pending_rewarded_feigang (gpo s7)) (qis f) = Inr u \<Longrightarrow>
      s8 = s7\<lparr>gpo := (gpo s7)\<lparr>total_qi := t, pending_rewarded_qi := p, pending_rewarded_feigang := u\<rparr>\<rparr> \<Longrightarrow>
      adjust_proxied_siming_adores F n (q + f) s8 = Inr s' \<Longrightarrow> thesis"
    have neg: "asset_neg F (mk_asset k z) = Inr m \<longleftrightarrow> in_i64 (- k) \<and> m = mk_asset (- k) z" for k z m
      using F by (auto simp: asset_neg_def fc_simps)
    have add: "asset_add F (qis q) (qis f) = Inr m \<longleftrightarrow> in_i64 (q + f) \<and> m = qis (q + f)" for m
      using F by auto
    show thesis
      using run unfolding apply_claim_reward_balance_def Let_def require_cmp_def modify_gpo_def n_def [symmetric] sym
      by (auto simp: neg add s_add_law [OF F] intro: *)
  qed
  have wfc: "wf_table (accounts v)" if "credits n s v y1 y2 y3 y4 y5" for v y1 y2 y3 y4 y5
    using that wf by (auto simp: credits_def put_account_def)
  note c1 = adjust_reward_credits [OF F st(1), simplified] and c2 = adjust_balance_credits(1) [OF F st(2)]
    and c3 = adjust_reward_credits [OF F st(3), simplified] and c4 = adjust_balance_credits(2) [OF F st(4)]
    and c5 = adjust_reward_credits [OF F st(5), simplified] and c6 = adjust_balance_credits(2) [OF F st(6)]
  have "credits n s s6 y (- y) (- q) (- f) (q + f)"
    using credits_trans [OF wf credits_trans [OF wf credits_trans [OF wf credits_trans [OF wf credits_trans [OF wf c1 c2] c3] c4] c5] c6]
    by simp
  then obtain a a' where a: "map_of (accounts s) n = Some a" "s6 = put_account n a' s" "credited a a' y (- y) (- q) (- f) (q + f)"
    unfolding credits_def by blast
  have b6: "books n (single 0 (q + f)) s6"
    using books_put [OF b a(1), of a'] a(2,3) by (simp add: credited_def)
  note p7 = adjust_part [OF F b6 s7]
  have b7: "books n (single 0 q) s8" using p7(1) s8 by simp
  note p8 = adjust_part [OF F b7 s']
  show "books n (single 0 (- f)) s'" using p8(1) by simp
  have wf6: "wf_table (accounts s6)" "wf_table (accounts s7)" "wf_table (accounts s8)" "wf_table (accounts s')"
    using balanced_wf(2) b6 p7(1) b7 p8(1) by blast+
  have t7: "same_totals s6 s7" by (rule only_adores_totals [OF p7(2) wf6(1,2)])
  have t8: "same_totals s8 s'" by (rule only_adores_totals [OF p8(2) wf6(3,4)])
  have t6: "total_of h s6 = total_of h s + amount (h a') - amount (h a)" for h
    unfolding a(2) by (rule total_put [OF wf a(1)])
  have gp: "gpo s7 = gpo s" "reward_funds s7 = reward_funds s" "nfas s7 = nfas s"
    using t7 a(2) by (simp_all add: same_totals_def)
  have g': "amount t = amount (total_qi (gpo s)) + (q + f)" "amount p = amount (pending_rewarded_qi (gpo s)) - q"
    "amount u = amount (pending_rewarded_feigang (gpo s)) - f"
    using g F gp by simp_all
  have c: "amount (balance a') = amount (balance a) + y" "amount (reward_yang_balance a') = amount (reward_yang_balance a) - y"
    "amount (reward_qi_balance a') = amount (reward_qi_balance a) - q"
    "amount (reward_feigang_balance a') = amount (reward_feigang_balance a) - f"
    "amount (qi a') = amount (qi a) + (q + f)" "proxy a' = proxy a" "acc_id a' = acc_id a"
    using a(3) by (simp_all add: credited_def)
  have tot: "total_of h s' = total_of h s + amount (h a') - amount (h a)"
    if "h \<in> {balance, qi, reward_yang_balance, reward_qi_balance, reward_feigang_balance}" for h
    using that t6 [of h] t7 t8 by (auto simp: same_totals_def s8)
  have rest: "gpo s' = gpo s8" "reward_funds s' = reward_funds s" "nfas s' = nfas s"
    using t8 gp by (simp_all add: same_totals_def s8)
  show "worth s' = worth s" using tot c rest by (simp add: worth_def fund_of_def nfa_qi_total_def cultivated_def)
  show "current_supply (gpo s') = current_supply (gpo s)" using rest(1) gp by (simp add: s8)
  have sp: "same_proxies s s6" unfolding a(2) by (rule put_proxies [OF a(1)]) (use c in simp_all)
  have "same_proxies s7 s8" by (simp add: s8)
  then show sp': "same_proxies s s'"
    using sp only_adores_proxies [OF p7(2)] only_adores_proxies [OF p8(2)] same_proxies_trans by metis
  show "proxies_ok s'" using proxies_ok_cong [OF sp'] pr by simp
  show "ledger_ok s'" if "balanced s'"
    using that l tot c rest(2,3) g' gp(1) unfolding ledger_ok_def rest(1) s8 by (simp add: fund_of_def nfa_qi_total_def cultivated_def)
  have "siming_adores s7 = siming_adores s6" "siming_adores s' = siming_adores s8"
    using arg_cong [OF conjunct1 [OF p7(2) [unfolded only_adores_def]], of siming_adores]
      arg_cong [OF conjunct1 [OF p8(2) [unfolded only_adores_def]], of siming_adores] by simp_all
  then show "siming_adores s' = siming_adores s" by (simp add: s8 a(2) put_account_def)
qed

lemma has_fresh_level:
  assumes b: "balanced s" and c: "books n (single 0 (- f)) s" and a: "map_of (accounts s) n = Some a"
    and used: "proxy a \<noteq> 0 \<or> map_of (siming_adores s) (n, w) \<noteq> None"
  shows "f = 0"
proof -
  have sh: "shape s" and wf: "wf_table (accounts s)" using b by (auto simp: gbalanced_def gbooks_def shape_def)
  have l: "lev n (single 0 (- f)) k x j = level x j + (if k = n then (if j = 0 then f else 0) else 0)" for k x j
    by (simp add: glev_def single_def)
  show ?thesis
  proof (cases "proxy a = 0")
    case False
    then obtain p where p: "map_of (accounts s) (proxy a) = Some p" using shape_proxy [OF sh a] by blast
    have "proxied_level n (single 0 (- f)) (proxy a) 0 s =
        tsum (\<lambda>k x. (if proxy x = proxy a then level x 0 else 0) + (if k = n then f else 0)) (accounts s)"
      unfolding gproxied_def l by (rule tsum_cong [OF wf]) (use a in auto)
    then have "proxied_level n (single 0 (- f)) (proxy a) 0 s = proxied_level 0 (\<lambda>_. 0) (proxy a) 0 s + f"
      unfolding tsum_add tsum_at [OF wf] gproxied_def lev_none using a by simp
    moreover have "proxied_vsf_adores p ! 0 = proxied_level n (single 0 (- f)) (proxy a) 0 s"
      "proxied_vsf_adores p ! 0 = proxied_level 0 (\<lambda>_. 0) (proxy a) 0 s"
      using b c p unfolding gbalanced_def gbooks_def by (metis zero_less_numeral)+
    ultimately show ?thesis by simp
  next
    case True
    then have w: "map_of (siming_adores s) (n, w) \<noteq> None" using used by blast
    then obtain sim where sim: "map_of (simings s) w = Some sim" using sh unfolding shape_def by blast
    have full: "full_weight n (single 0 (- f)) k x = full_weight 0 (\<lambda>_. 0) k x + (if k = n then f else 0)" for k x
      unfolding gfull_def l lev_none by (simp add: sum_5)
    have "adored_weight n (single 0 (- f)) w s =
        tsum (\<lambda>k x. (if map_of (siming_adores s) (k, w) \<noteq> None then full_weight 0 (\<lambda>_. 0) k x else 0) +
          (if k = n then f else 0)) (accounts s)"
      unfolding gadored_def full by (rule tsum_cong [OF wf]) (use w in auto)
    then have "adored_weight n (single 0 (- f)) w s = adored_weight 0 (\<lambda>_. 0) w s + f"
      unfolding tsum_add tsum_at [OF wf] gadored_def using a by simp
    moreover have "adores sim = adored_weight n (single 0 (- f)) w s" "adores sim = adored_weight 0 (\<lambda>_. 0) w s"
      using b c sim unfolding gbalanced_def gbooks_def by blast+
    ultimately show ?thesis by simp
  qed
qed

text \<open>C33: a claim moves the rewards to the account's balances and keeps all sums, but it passes the
  claimed feigang to the adores of the account's simings or proxies twice: afterwards the adores are
  those of a chain in which the account had that much more qi. Whenever the account has a proxy or
  adores a siming and claims feigang, the adores no longer match the qi.\<close>

theorem claim_counts_feigang_twice:
  assumes "fc_laws F" "validate_claim_reward_balance op = Inr ()" "chain_ok s"
    and "apply_claim_reward_balance F op s = Inr s'"
  shows "books (cl_account op) (single 0 (- amount (cl_reward_feigang op))) s' \<and> worth s' = worth s \<and>
    (amount (cl_reward_feigang op) > 0 \<and> map_of (accounts s) (cl_account op) = Some a \<and>
      (proxy a \<noteq> 0 \<or> map_of (siming_adores s) (cl_account op, w) \<noteq> None) \<longrightarrow> \<not> balanced s')"
proof -
  note e = claim_effect [OF assms(1,2,3,4)]
  have "\<not> balanced s'" if f: "amount (cl_reward_feigang op) > 0" and a: "map_of (accounts s) (cl_account op) = Some a"
    and used: "proxy a \<noteq> 0 \<or> map_of (siming_adores s) (cl_account op, w) \<noteq> None"
  proof
    assume b: "balanced s'"
    have "links s' (cl_account op) = Some (proxy a, acc_id a)" using e(6) a by (simp add: same_proxies_def links_def)
    then obtain a' where "map_of (accounts s') (cl_account op) = Some a'" "proxy a' = proxy a" by (auto simp: links_def)
    then show False using has_fresh_level [OF b e(1)] used f e(7) by fastforce
  qed
  then show ?thesis using e(1,2) by blast
qed

lemma adjust_proxied_self:
  "map_of (accounts s) n = Some a \<Longrightarrow> proxy a = 0 \<Longrightarrow> adjust_proxied F left n d s = adjust_siming_adores F n d s"
  by (cases left) (simp_all add: get_account_def)

lemma is_qi_yang [simp]: "is_qi YANG_SYMBOL = Inr False"
  by (simp add: is_qi_def space_def native_nums)

definition sample_claim :: claim_reward_balance_operation where
  "sample_claim = \<lparr>cl_account = n_alice, cl_reward_yang = yang 3, cl_reward_qi = qis 0, cl_reward_feigang = qis 7\<rparr>"

lemma sample_claim_valid: "validate_claim_reward_balance sample_claim = Inr ()"
  using n_valid by (simp add: validate_claim_reward_balance_def sample_claim_def)

lemma sample_claim_runs: "\<exists>s'. apply_claim_reward_balance fc_ref sample_claim sample_chain = Inr s'"
  by (simp add: apply_claim_reward_balance_def sample_claim_def run_simps adjust_proxied_self)

lemma claim_counts_feigang_twice_witness:
  "\<exists>s'. apply_claim_reward_balance fc_ref sample_claim sample_chain = Inr s' \<and> \<not> balanced s'"
  using sample_claim_runs
    claim_counts_feigang_twice [OF fc_ref_laws sample_claim_valid sample_ok, of _ acc_alice n_carol]
  by (force simp: sample_claim_def sample_chain_def)

subsection \<open>The operations that keep the ledger\<close>

fun keeps_ledger :: "operation \<Rightarrow> bool" where
  "keeps_ledger (Transfer_to_qi op) = (amount (tq_amount op) * 1000 < 2 ^ 63)"
| "keeps_ledger (Account_siming_proxy op) = (px_proxy op = 0 \<or> fs_size (px_proxy op) \<noteq> 0)"
| "keeps_ledger (Claim_reward_balance op) = (amount (cl_reward_feigang op) = 0)"
| "keeps_ledger (Custom_json op) = False"
| "keeps_ledger (Create_contract op) = False"
| "keeps_ledger (Revise_contract op) = False"
| "keeps_ledger (Release_contract op) = False"
| "keeps_ledger (Call_contract_function op) = False"
| "keeps_ledger (Action_nfa op) = False"
| "keeps_ledger op = True"

lemma kept_claim:
  assumes "fc_laws F" "validate_claim_reward_balance op = Inr ()" "amount (cl_reward_feigang op) = 0"
    and "apply_claim_reward_balance F op s = Inr s'"
  shows "kept s s'"
  unfolding kept_def
proof
  assume "chain_ok s"
  note e = claim_effect [OF assms(1,2) this assms(4)]
  have "balanced s'" using e(1) assms(3) books_zero [of no_ghost "cl_account op"] by simp
  then show "chain_ok s' \<and> worth s' = worth s \<and> current_supply (gpo s') = current_supply (gpo s)"
    using e by (simp add: chain_ok_def)
qed

lemma evaluate_kept:
  assumes F: "fc_laws (env_fc E)" and v: "validate_op L op = Inr ()" "keeps_ledger op"
    and run: "evaluate E op s = Inr s'"
  shows "kept s s'"
proof (cases op)
  case (Account_create x)
  then show ?thesis using keeps_account_create [OF F] v run by (auto simp: keeps_def)
next
  case (Account_update x)
  then show ?thesis using keeps_account_update run by (auto simp: keeps_def)
next
  case (Transfer x)
  then show ?thesis using kept_transfer [OF F] v run by auto
next
  case (Transfer_to_qi x)
  then show ?thesis using kept_transfer_to_qi [OF F] v run by auto
next
  case (Withdraw_qi x)
  then show ?thesis using keeps_withdraw_qi [OF F] run by (auto simp: keeps_def)
next
  case (Set_withdraw_qi_route x)
  then show ?thesis using keeps_set_withdraw_qi_route run by (auto simp: keeps_def)
next
  case (Delegate_qi x)
  then show ?thesis using keeps_delegate_qi run by (auto simp: keeps_def)
next
  case (Siming_update x)
  then show ?thesis using keeps_siming_update [OF F] run by (auto simp: keeps_def)
next
  case (Siming_set_properties x)
  then show ?thesis using keeps_siming_set_properties run by (auto simp: keeps_def)
next
  case (Account_siming_adore x)
  then show ?thesis using keeps_account_siming_adore [OF F] run by (auto simp: keeps_def)
next
  case (Account_siming_proxy x)
  then have "px_proxy x \<noteq> px_account x" using v(1) by (auto simp: validate_account_siming_proxy_def)
  then show ?thesis using Account_siming_proxy keeps_account_siming_proxy [OF F] v(2) run by auto
next
  case (Claim_reward_balance x)
  then show ?thesis using kept_claim [OF F] v run by auto
qed (use v run keeps_recoveries in \<open>auto simp: keeps_def\<close>)

text \<open>C3: every operation that passes its checks and whose evaluator succeeds keeps the equations of
  the audit (the adores of every siming and the proxied levels of every account are the totals
  of the qi behind them, the global qi and pending rewards are the sums over the accounts), keeps the
  proxies free of cycles, and neither creates nor destroys value. Left out are the operations that run
  plug-ins or contracts, the claims of feigang, proxies whose name starts with a NUL character, and
  conversions of 2^63 / 1000 YANG and more, which would wrap.\<close>

theorem evaluators_keep_ledger:
  assumes "fc_laws (env_fc E)" "validate_op L op = Inr ()" "keeps_ledger op" "chain_ok s"
    and "evaluate E op s = Inr s'"
  shows "chain_ok s' \<and> worth s' = worth s \<and> current_supply (gpo s') = current_supply (gpo s)"
  using evaluate_kept [OF assms(1,2,3,5)] assms(4) by (simp add: kept_def)

definition sample_env :: env where
  "sample_env = \<lparr>env_fc = fc_ref, env_lib = sample_op_lib, env_producing = False,
     env_interpreter = (\<lambda>_. None), env_contract = (\<lambda>_ s. Inr s)\<rparr>"

definition sample_transfer :: operation where
  "sample_transfer = Transfer \<lparr>tr_from = n_alice, tr_to = n_bob, tr_amount = yang 20, tr_memo = ''x''\<rparr>"

lemma sample_transfer_valid: "validate_op sample_op_lib sample_transfer = Inr ()"
  using n_valid by (simp add: sample_transfer_def validate_transfer_def sample_op_lib_def TAIYI_MAX_MEMO_SIZE_def)

lemma sample_transfer_runs: "\<exists>s'. evaluate sample_env sample_transfer sample_chain = Inr s'"
  by (simp add: apply_transfer_def sample_transfer_def sample_env_def run_simps adjust_proxied_self pay_treasury_def
      reward_feigang_def names_of(1) TAIYI_USEMANA_EXECUTION_SCALE_def push_vop_def adjust_balance_of_def)

lemma evaluators_keep_ledger_witness:
  "\<exists>s'. evaluate sample_env sample_transfer sample_chain = Inr s' \<and> chain_ok s' \<and> worth s' = worth sample_chain"
  using sample_transfer_runs
    evaluators_keep_ledger [OF _ sample_transfer_valid _ sample_ok, of sample_env]
  by (force simp: sample_env_def sample_transfer_def)

subsection \<open>Names that lock an account\<close>

lemma array_only_adores:
  assumes F: "fc_laws F" and ok: "chain_ok s"
    and run: "adjust_proxied_siming_adores_array F n delta s = Inr s'"
  shows "only_adores s s'"
  using adjust_proxied_array_books [OF F order_refl, of "taken n delta" n delta s s'] gbooks_take ok run
  by (simp add: chain_ok_def ledger_ok_def adjust_proxied_siming_adores_array_def TAIYI_MAX_PROXY_RECURSION_DEPTH_def)

text \<open>C34: the checks of a proxy operation and its evaluator test for the empty name with the length up
  to the first NUL character, the propagation of adores with equality to the empty string. A proxy name that
  begins with NUL and is not empty passes as no proxy, is stored, and from then on every change of the
  account's qi throws when it looks up the proxy.\<close>

theorem nul_proxy_locks_account:
  assumes "fc_laws F" "chain_ok s" "validate_account_name (px_account op) = Inr ()"
    and "px_proxy op \<noteq> 0" "fs_size (px_proxy op) = 0" "map_of (accounts s) (px_proxy op) = None"
    and "apply_account_siming_proxy F op s = Inr s'"
  shows "validate_account_siming_proxy op = Inr () \<and>
    (\<forall>d. adjust_proxied_siming_adores F (px_account op) d s' = Inl Out_of_range)"
proof -
  let ?n = "px_account op" and ?p = "px_proxy op"
  obtain a delta s1 where a: "map_of (accounts s) ?n = Some a"
    and s1: "adjust_proxied_siming_adores_array F ?n delta s = Inr s1"
    and s': "modify_account ?n (\<lambda>a. Inr (a\<lparr>proxy := ?p\<rparr>)) s1 = Inr s'"
    using assms(5,7) by (auto simp: apply_account_siming_proxy_def Let_def)
  have ne: "?p \<noteq> ?n" using a assms(6) by auto
  have "links s1 = links s"
    using only_adores_proxies [OF array_only_adores [OF assms(1,2) s1]] by (simp add: same_proxies_def)
  then have "links s1 ?p = None" using assms(6) by (simp add: links_def)
  then have "map_of (accounts s') ?p = None" "\<exists>b. map_of (accounts s') ?n = Some b \<and> proxy b = ?p"
    using s' ne by (auto simp: links_def modify_account_def put_account_def)
  then have "adjust_proxied_siming_adores F ?n d s' = Inl Out_of_range" for d
    using assms(4) by (auto simp: adjust_proxied_siming_adores_def TAIYI_MAX_PROXY_RECURSION_DEPTH_def numeral_eq_Suc
        get_account_def modify_account_def)
  moreover have "validate_account_siming_proxy op = Inr ()"
    using assms(3,5) ne by (simp add: validate_account_siming_proxy_def)
  ultimately show ?thesis by blast
qed

definition sample_nul :: account_siming_proxy_operation where
  "sample_nul = \<lparr>px_account = n_dao, px_proxy = 1\<rparr>"

lemma adjust_array_self:
  "map_of (accounts s) n = Some a \<Longrightarrow> proxy a = 0 \<Longrightarrow>
    adjust_proxied_array F left n delta s =
      rbind (rfold (\<lambda>i acc. s_add F acc (delta ! i)) (rev [0..<Suc left]) 0) (\<lambda>d. adjust_siming_adores F n d s)"
  by (cases left) (simp_all add: get_account_def del: upt_Suc)

lemma fs_size_one: "fs_size (1 :: account_name_type) = 0"
proof -
  have "fs_bytes (1 :: account_name_type) = CHR 0x00 # map (\<lambda>i. char_of (1 div 256 ^ (15 - i) :: nat)) [1..<16]"
    by (simp add: fs_bytes_def fs_size_of_def Let_def upt_conv_Cons char_of_def)
  then show ?thesis by (simp add: fs_size_def)
qed

lemma up_4: "[0..<4] = [0, 1, 2, 3]" "[0..<5] = [0, 1, 2, 3, 4]"
  by (simp_all add: upt_conv_Cons)

lemma sample_nul_runs: "\<exists>s'. apply_account_siming_proxy fc_ref sample_nul sample_chain = Inr s'"
  by (simp add: apply_account_siming_proxy_def sample_nul_def run_simps adjust_array_self fs_size_one own_levels_def up_4
      adjust_proxied_siming_adores_array_def del: upt_Suc)

lemma nul_proxy_locks_account_witness:
  "\<exists>s'. apply_account_siming_proxy fc_ref sample_nul sample_chain = Inr s' \<and>
     adjust_proxied_siming_adores fc_ref n_dao 1 s' = Inl Out_of_range"
proof -
  obtain s' where s': "apply_account_siming_proxy fc_ref sample_nul sample_chain = Inr s'" using sample_nul_runs by blast
  have "\<forall>d. adjust_proxied_siming_adores fc_ref (px_account sample_nul) d s' = Inl Out_of_range"
    using nul_proxy_locks_account [OF fc_ref_laws sample_ok _ _ _ _ s'] n_valid
    by (simp add: sample_nul_def fs_size_one sample_chain_def n_defs)
  then show ?thesis using s' by (auto simp: sample_nul_def)
qed

end
