(* ===== verification/Block.thy ===== *)
theory Block
  imports Prelude
begin

section \<open>Blocks\<close>

text \<open>
  Models \<open>libraries/protocol/block_header.hpp\<close>, \<open>block.hpp\<close> and \<open>block.cpp\<close>: the header and its id,
  which carries the block number, and the Merkle root over the transactions. The hash functions of
  \<open>fc\<close> are a record of functions over an abstract type of digests; the id of a block is the pair of
  the number stored in its first word (read through \<open>fc::endian_reverse_u32\<close>) and the other words.
\<close>

record block_id =
  id_num :: u32
  id_hash :: "128 word"

definition null_block_id :: block_id where
  "null_block_id = \<lparr>id_num = 0, id_hash = 0\<rparr>"

datatype ('v, 'h) header_extension = Ext_void | Ext_version 'v | Ext_hardfork_vote 'h

record ('t, 'd, 'x) signed_block =
  previous :: block_id
  timestamp :: nat
  siming :: string
  transaction_merkle_root :: 'd
  extensions :: "'x list"
  siming_signature :: nat
  transactions :: "'t list"

record ('t, 'd, 'x) hashes =
  sha224_tail :: "('t, 'd, 'x) signed_block \<Rightarrow> 128 word"
  merkle_digest :: "'t \<Rightarrow> 'd"
  hash_pair :: "'d \<Rightarrow> 'd \<Rightarrow> 'd"
  checksum :: "'d \<Rightarrow> 'd"
  empty_checksum :: 'd

definition num_from_id :: "block_id \<Rightarrow> u32" where
  "num_from_id i = id_num i"

definition block_num :: "('t, 'd, 'x) signed_block \<Rightarrow> u32" where
  "block_num b = num_from_id (previous b) + 1"

definition block_id :: "('t, 'd, 'x) hashes \<Rightarrow> ('t, 'd, 'x) signed_block \<Rightarrow> block_id" where
  "block_id H b = \<lparr>id_num = block_num b, id_hash = sha224_tail H b\<rparr>"

subsection \<open>The Merkle root\<close>

text \<open>
  One round of the loop overwrites the vector in place from the left: slot \<open>k\<close> gets the hash of the
  slots \<open>2k\<close> and \<open>2k + 1\<close>, and an odd last entry is carried over. \<open>n\<close> is the number of hashes that
  are still in use.
\<close>

definition merkle_round :: "('d \<Rightarrow> 'd \<Rightarrow> 'd) \<Rightarrow> 'd list \<times> nat \<Rightarrow> 'd list \<times> nat" where
  "merkle_round h = (\<lambda>(ids, n).
     (let i_max = n - n mod 2;
          ids = fold (\<lambda>k ids. ids[k := h (ids ! (2 * k)) (ids ! (2 * k + 1))]) [0..<i_max div 2] ids;
          k = i_max div 2
      in if n mod 2 = 1 then (ids[k := ids ! i_max], k + 1) else (ids, k)))"

lemma merkle_round_count: "snd (merkle_round h (ids, n)) = (n + 1) div 2"
  by (auto simp: merkle_round_def Let_def elim!: oddE; presburger)

function merkle_loop :: "('d \<Rightarrow> 'd \<Rightarrow> 'd) \<Rightarrow> 'd list \<times> nat \<Rightarrow> 'd list \<times> nat" where
  "merkle_loop h s = (if snd s > 1 then merkle_loop h (merkle_round h s) else s)"
  by pat_completeness auto
termination
  by (relation "measure (\<lambda>(h, s). snd s)") (auto simp: merkle_round_count [of _ "fst s" "snd s" for s, simplified])

declare merkle_loop.simps [simp del]

definition calculate_merkle_root :: "('t, 'd, 'x) hashes \<Rightarrow> ('t, 'd, 'x) signed_block \<Rightarrow> 'd" where
  "calculate_merkle_root H b =
     (if transactions b = [] then empty_checksum H
      else (let ids = map (merkle_digest H) (transactions b)
            in checksum H (fst (merkle_loop (hash_pair H) (ids, length ids)) ! 0)))"

text \<open>The same as a reduction of lists, level by level.\<close>

fun merkle_level :: "('d \<Rightarrow> 'd \<Rightarrow> 'd) \<Rightarrow> 'd list \<Rightarrow> 'd list" where
  "merkle_level h (a # b # r) = h a b # merkle_level h r"
| "merkle_level h r = r"

lemma length_merkle_level [simp]: "length (merkle_level h xs) = (length xs + 1) div 2"
  by (induction h xs rule: merkle_level.induct) auto

function merkle_tree :: "('d \<Rightarrow> 'd \<Rightarrow> 'd) \<Rightarrow> 'd list \<Rightarrow> 'd list" where
  "merkle_tree h xs = (if length xs > 1 then merkle_tree h (merkle_level h xs) else xs)"
  by pat_completeness auto
termination
  by (relation "measure (\<lambda>(h, xs). length xs)") auto

declare merkle_tree.simps [simp del]

lemma merkle_level_conv:
  "merkle_level h xs = map (\<lambda>k. h (xs ! (2 * k)) (xs ! (2 * k + 1))) [0..<length xs div 2] @
     (if odd (length xs) then [xs ! (length xs - 1)] else [])"
proof (induction h xs rule: merkle_level.induct)
  case (1 h a b r)
  have "[0..<length (a # b # r) div 2] = 0 # map Suc [0..<length r div 2]"
    by (simp add: upt_conv_Cons map_Suc_upt)
  then show ?case using 1 by (simp add: nth_Cons')
qed auto

lemma merkle_pairs_in_place:
  assumes "2 * j \<le> length ids"
  shows "fold (\<lambda>k ids. ids[k := h (ids ! (2 * k)) (ids ! (2 * k + 1))]) [0..<j] ids =
    map (\<lambda>k. h (ids ! (2 * k)) (ids ! (2 * k + 1))) [0..<j] @ drop j ids"
  using assms
proof (induction j)
  case (Suc j)
  let ?f = "\<lambda>k. h (ids ! (2 * k)) (ids ! (2 * k + 1))"
  let ?xs = "map ?f [0..<j] @ drop j ids"
  have IH: "fold (\<lambda>k ids. ids[k := h (ids ! (2 * k)) (ids ! (2 * k + 1))]) [0..<j] ids = ?xs"
    using Suc by simp
  have n: "?xs ! (2 * j) = ids ! (2 * j)" "?xs ! (2 * j + 1) = ids ! (2 * j + 1)"
    using Suc.prems by (simp_all add: nth_append flip: mult_2)
  have "?xs[j := ?f j] = map ?f [0..<j] @ (drop j ids)[0 := ?f j]"
    by (simp add: list_update_append)
  also have "(drop j ids)[0 := ?f j] = ?f j # drop (Suc j) ids"
    using Suc.prems by (simp add: Cons_nth_drop_Suc [symmetric])
  finally show ?case using IH n by simp
qed simp

lemma merkle_fold_length: "length (fold (\<lambda>k ids. ids[k := f k ids]) ks ids) = length ids"
  by (induction ks arbitrary: ids) simp_all

lemma merkle_round_level:
  assumes "n \<le> length ids"
  shows "take ((n + 1) div 2) (fst (merkle_round h (ids, n))) = merkle_level h (take n ids)"
    and "length (fst (merkle_round h (ids, n))) = length ids"
proof -
  let ?f = "\<lambda>k. h (ids ! (2 * k)) (ids ! (2 * k + 1))"
  have half: "(n - n mod 2) div 2 = n div 2" by presburger
  have le: "2 * (n div 2) \<le> length ids" using assms by presburger
  have lv: "merkle_level h (take n ids) = map ?f [0..<n div 2] @ (if odd n then [ids ! (n - 1)] else [])"
    using assms by (auto simp: merkle_level_conv elim!: oddE)
  note P = merkle_pairs_in_place [OF le, of h]
  show "take ((n + 1) div 2) (fst (merkle_round h (ids, n))) = merkle_level h (take n ids)"
  proof (cases "odd n")
    case True
    then obtain m where m: "n = 2 * m + 1" by (elim oddE)
    have "(map ?f [0..<m] @ drop m ids) ! (2 * m) = ids ! (2 * m)"
      using assms m by (simp add: nth_append flip: mult_2)
    moreover have "(drop m ids)[0 := x] = x # drop (Suc m) ids" for x
      using assms m by (simp add: Cons_nth_drop_Suc [symmetric])
    ultimately have "(map ?f [0..<m] @ drop m ids)[m := (map ?f [0..<m] @ drop m ids) ! (2 * m)] =
        map ?f [0..<m] @ ids ! (2 * m) # drop (Suc m) ids"
      by (simp add: list_update_append)
    then show ?thesis using P lv m by (simp add: merkle_round_def half Let_def)
  next
    case False
    then obtain m where m: "n = 2 * m" by (auto elim: evenE)
    then show ?thesis using P lv by (simp add: merkle_round_def Let_def)
  qed
  show "length (fst (merkle_round h (ids, n))) = length ids"
    by (simp add: merkle_round_def Let_def merkle_fold_length)
qed

lemma merkle_loop_tree:
  assumes "n \<le> length ids"
  shows "take (snd (merkle_loop h (ids, n))) (fst (merkle_loop h (ids, n))) = merkle_tree h (take n ids)"
    and "snd (merkle_loop h (ids, n)) \<le> length (fst (merkle_loop h (ids, n)))"
  using assms
proof (induction n arbitrary: ids rule: less_induct)
  case (less n)
  {
    case 1
    obtain ids' where r: "merkle_round h (ids, n) = (ids', (n + 1) div 2)"
      using merkle_round_count [of h ids n] by (metis prod.collapse)
    show ?case
    proof (cases "n > 1")
      case True
      have l: "(n + 1) div 2 < n" "(n + 1) div 2 \<le> length ids'" "take ((n + 1) div 2) ids' = merkle_level h (take n ids)"
        using True 1 merkle_round_level [OF 1, of h] r by auto
      show ?thesis using less(1) [OF l(1,2)] l(3) True r 1
        by (simp add: merkle_loop.simps [of h "(ids, n)"] merkle_tree.simps [of h "take n ids"])
    next
      case False
      then show ?thesis using 1 by (simp add: merkle_loop.simps merkle_tree.simps)
    qed
  next
    case 2
    obtain ids' where r: "merkle_round h (ids, n) = (ids', (n + 1) div 2)"
      using merkle_round_count [of h ids n] by (metis prod.collapse)
    show ?case
    proof (cases "n > 1")
      case True
      have l: "(n + 1) div 2 < n" "(n + 1) div 2 \<le> length ids'"
        using True 2 merkle_round_level [OF 2, of h] r by auto
      show ?thesis using less(2) [OF l] True r by (simp add: merkle_loop.simps [of h "(ids, n)"])
    next
      case False
      then show ?thesis using 2 by (simp add: merkle_loop.simps)
    qed
  }
qed

lemma length_merkle_tree: "xs \<noteq> [] \<Longrightarrow> length (merkle_tree h xs) = 1"
proof (induction "length xs" arbitrary: xs rule: less_induct)
  case less
  show ?case
  proof (cases "length xs > 1")
    case True
    then have "merkle_level h xs \<noteq> []" "length (merkle_level h xs) < length xs"
      by (auto simp flip: length_greater_0_conv)
    then show ?thesis using less True by (simp add: merkle_tree.simps [of h xs])
  next
    case False
    then show ?thesis using less(2) by (cases xs) (auto simp: merkle_tree.simps)
  qed
qed

lemma merkle_root_tree:
  "calculate_merkle_root H b =
     (if transactions b = [] then empty_checksum H
      else checksum H (hd (merkle_tree (hash_pair H) (map (merkle_digest H) (transactions b)))))"
proof (cases "transactions b = []")
  case False
  let ?ids = "map (merkle_digest H) (transactions b)"
  let ?s = "merkle_loop (hash_pair H) (?ids, length ?ids)"
  have t: "take (snd ?s) (fst ?s) = merkle_tree (hash_pair H) ?ids" "snd ?s \<le> length (fst ?s)"
    using merkle_loop_tree [of "length ?ids" ?ids "hash_pair H"] by simp_all
  then have "snd ?s = 1" using length_merkle_tree [of ?ids "hash_pair H"] False
    by (metis length_take map_is_Nil_conv min.absorb2)
  then have "fst ?s ! 0 = hd (merkle_tree (hash_pair H) ?ids)"
    using t by (metis hd_conv_nth length_take less_numeral_extra(1) list.size(3) min.absorb2 nth_take zero_neq_one)
  then show ?thesis using False by (simp add: calculate_merkle_root_def Let_def)
qed (simp add: calculate_merkle_root_def)

lemma merkle_level_inj:
  assumes h: "\<And>a b c d. h a b = h c d \<Longrightarrow> a = c \<and> b = d"
  shows "length xs = length ys \<Longrightarrow> merkle_level h xs = merkle_level h ys \<Longrightarrow> xs = ys"
proof (induction xs arbitrary: ys rule: induct_list012)
  case 1
  then show ?case by simp
next
  case (2 x)
  then show ?case by (cases ys) auto
next
  case (3 a b r)
  then obtain c d s where ys: "ys = c # d # s" by (metis Suc_length_conv)
  then have "h a b = h c d" "merkle_level h r = merkle_level h s" "length r = length s" using "3.prems" by simp_all
  then show ?case using h "3.IH"(1) ys by blast
qed

lemma merkle_tree_inj:
  assumes h: "\<And>a b c d. h a b = h c d \<Longrightarrow> a = c \<and> b = d"
  shows "length xs = length ys \<Longrightarrow> merkle_tree h xs = merkle_tree h ys \<Longrightarrow> xs = ys"
proof (induction "length xs" arbitrary: xs ys rule: less_induct)
  case less
  show ?case
  proof (cases "length xs > 1")
    case True
    then have "length (merkle_level h xs) < length xs" by simp
    moreover have "length (merkle_level h xs) = length (merkle_level h ys)" using less.prems by simp
    moreover have "merkle_tree h (merkle_level h xs) = merkle_tree h (merkle_level h ys)"
      using less.prems True by (simp add: merkle_tree.simps [of h xs] merkle_tree.simps [of h ys])
    ultimately have "merkle_level h xs = merkle_level h ys" by (rule less.hyps)
    then show ?thesis using merkle_level_inj [of h, OF h] less.prems(1) by blast
  next
    case False
    then show ?thesis using less.prems by (simp add: merkle_tree.simps)
  qed
qed

text \<open>The in-place loop over the vector of digests computes the root of the level by level reduction.\<close>

theorem merkle_root_reduction:
  "calculate_merkle_root H b =
     (if transactions b = [] then empty_checksum H
      else checksum H (hd (merkle_tree (hash_pair H) (map (merkle_digest H) (transactions b)))))"
  by (rule merkle_root_tree)

lemma singleton_hd_eq: "length xs = Suc 0 \<Longrightarrow> length ys = Suc 0 \<Longrightarrow> hd xs = hd ys \<Longrightarrow> xs = ys"
  by (cases xs; cases ys) auto

text \<open>With hash functions that do not collide, the Merkle root and the number of transactions of a block
  determine its transactions.\<close>

theorem merkle_root_binds:
  assumes "\<And>a b c d. hash_pair H a b = hash_pair H c d \<Longrightarrow> a = c \<and> b = d"
    and "inj (checksum H)" "inj (merkle_digest H)"
    and "length (transactions b) = length (transactions c)"
    and "calculate_merkle_root H b = calculate_merkle_root H c"
  shows "transactions b = transactions c"
proof (cases "transactions b = []")
  case True
  then show ?thesis using assms(4) by simp
next
  case False
  let ?ids = "\<lambda>b. map (merkle_digest H) (transactions b)"
  let ?t = "\<lambda>b. merkle_tree (hash_pair H) (?ids b)"
  have ne: "transactions c \<noteq> []" using False assms(4) by auto
  have "checksum H (hd (?t b)) = checksum H (hd (?t c))"
    using assms(5) False ne unfolding merkle_root_tree by simp
  then have hd: "hd (?t b) = hd (?t c)" by (rule injD [OF assms(2)])
  have len: "length (?t b) = Suc 0" "length (?t c) = Suc 0"
    using False ne length_merkle_tree [of "?ids b" "hash_pair H"] length_merkle_tree [of "?ids c" "hash_pair H"]
    by simp_all
  have "?t b = ?t c" by (rule singleton_hd_eq [OF len hd])
  then have "?ids b = ?ids c"
    by (rule merkle_tree_inj [of "hash_pair H", OF assms(1), rotated -1]) (simp_all add: assms(4))
  then show ?thesis using assms(3) by (simp add: inj_map_eq_map)
qed

datatype free_digest = Leaf nat | Pair free_digest free_digest | Sum free_digest

definition free_hashes :: "(nat, free_digest, unit) hashes" where
  "free_hashes = \<lparr>sha224_tail = (\<lambda>_. 0), merkle_digest = Leaf, hash_pair = Pair, checksum = Sum,
     empty_checksum = Leaf 0\<rparr>"

definition free_block :: "nat list \<Rightarrow> (nat, free_digest, unit) signed_block" where
  "free_block ts = \<lparr>previous = null_block_id, timestamp = 0, siming = [], transaction_merkle_root = Leaf 0,
     extensions = [], siming_signature = 0, transactions = ts\<rparr>"

lemma merkle_root_binds_witness:
  "transactions (free_block [4, 5, 6]) = transactions (free_block [4, 5, 6]\<lparr>timestamp := 9\<rparr>) \<and>
   calculate_merkle_root free_hashes (free_block [4, 5, 6]) = Sum (Pair (Pair (Leaf 4) (Leaf 5)) (Leaf 6))"
proof
  have r: "calculate_merkle_root free_hashes (free_block [4, 5, 6]\<lparr>timestamp := t\<rparr>) =
      Sum (Pair (Pair (Leaf 4) (Leaf 5)) (Leaf 6))" for t
    by (simp add: merkle_root_tree free_hashes_def free_block_def merkle_tree.simps)
  show "transactions (free_block [4, 5, 6]) = transactions (free_block [4, 5, 6]\<lparr>timestamp := 9\<rparr>)"
  proof (rule merkle_root_binds [of free_hashes])
    show "calculate_merkle_root free_hashes (free_block [4, 5, 6]) =
        calculate_merkle_root free_hashes (free_block [4, 5, 6]\<lparr>timestamp := 9\<rparr>)"
      using r [of 0] r [of 9] by (simp add: free_block_def)
  qed (simp_all add: free_hashes_def inj_def)
  show "calculate_merkle_root free_hashes (free_block [4, 5, 6]) = Sum (Pair (Pair (Leaf 4) (Leaf 5)) (Leaf 6))"
    using r [of 0] by (simp add: free_block_def)
qed

end
