(* ===== verification/Siming_Schedule.thy ===== *)
theory Siming_Schedule
  imports Ledger Operations Block Sums "HOL-Library.Multiset"
begin

section \<open>Slots and the schedule of the simings\<close>

text \<open>
  Models libraries/chain/siming_schedule.cpp and the functions of database.cpp that count slots:
  which siming may produce in which slot, the election of the simings of a round and their
  shuffling, the properties they agree on, and what a new block does to the slot counters and to
  the last irreversible block. Both indexes of the simings that the election reads are the table
  of simings sorted by the key of the index.
\<close>

definition TAIYI_MAX_SIMINGS :: nat where "TAIYI_MAX_SIMINGS = 21"
definition TAIYI_BLOCK_INTERVAL :: nat where "TAIYI_BLOCK_INTERVAL = 3"
definition TAIYI_BLOCKS_PER_DAY :: nat where "TAIYI_BLOCKS_PER_DAY = 24 * 60 * 60 div TAIYI_BLOCK_INTERVAL"
definition TAIYI_START_ADORING_BLOCK :: u32 where
  "TAIYI_START_ADORING_BLOCK = of_nat (TAIYI_BLOCKS_PER_DAY * 30)"
definition TAIYI_IRREVERSIBLE_THRESHOLD :: nat where "TAIYI_IRREVERSIBLE_THRESHOLD = 75 * 100"
definition TAIYI_MAX_UNDO_HISTORY :: u32 where "TAIYI_MAX_UNDO_HISTORY = 10000"

subsection \<open>Slots\<close>

text \<open>The \<open>operator[]\<close> of the array of names: entry \<open>i\<close>, which the callers keep below 21.\<close>

definition get_scheduled_siming :: "chain \<Rightarrow> u32 \<Rightarrow> account_name_type" where
  "get_scheduled_siming s slot_num =
     (let wso = schedule s; aslot = current_aslot (gpo s) + ucast slot_num
      in current_shuffled_simings wso ! unat (aslot mod ucast (num_scheduled_simings wso)))"

definition get_slot_time :: "chain \<Rightarrow> u32 \<Rightarrow> time_point_sec" where
  "get_slot_time s slot_num =
     (if slot_num = 0 then 0
      else if head_block_num s = 0
      then head_time (gpo s) + unat (slot_num * of_nat TAIYI_BLOCK_INTERVAL)
      else let head_block_abs_slot = head_block_time s div TAIYI_BLOCK_INTERVAL;
               head_slot_time = head_block_abs_slot * TAIYI_BLOCK_INTERVAL
           in head_slot_time + unat (slot_num * of_nat TAIYI_BLOCK_INTERVAL))"

definition get_slot_at_time :: "chain \<Rightarrow> time_point_sec \<Rightarrow> u32" where
  "get_slot_at_time s t =
     (let first_slot_time = get_slot_time s 1
      in if t < first_slot_time then 0
         else of_nat ((t - first_slot_time) div TAIYI_BLOCK_INTERVAL + 1))"

subsection \<open>The properties the scheduled simings agree on\<close>

definition scheduled_names :: "siming_schedule_object \<Rightarrow> account_name_type list" where
  "scheduled_names wso = map (\<lambda>i. current_shuffled_simings wso ! i) [0..<unat (num_scheduled_simings wso)]"

definition scheduled_simings :: "chain \<Rightarrow> siming_object list res" where
  "scheduled_simings s = rmap (get_siming s) (scheduled_names (schedule s))"

text \<open>The array is sorted in place three times, and read in the middle each time.\<close>

definition update_median_siming_props :: "chain \<Rightarrow> chain res" where
  "update_median_siming_props s =
     rbind (scheduled_simings s) (\<lambda>active.
     let active = sort_key (\<lambda>w. amount (account_creation_fee (sim_props w))) active;
         fee = account_creation_fee (sim_props (active ! (length active div 2)));
         active = sort_key (\<lambda>w. cp_maximum_block_size (sim_props w)) active;
         sz = cp_maximum_block_size (sim_props (active ! (length active div 2)));
         active = sort_key (\<lambda>w. proposal_adopted_votes_threshold (sim_props w)) active;
         th = proposal_adopted_votes_threshold (sim_props (active ! (length active div 2)))
     in Inr (s\<lparr>schedule := (schedule s)\<lparr>median_props :=
                 (median_props (schedule s))\<lparr>account_creation_fee := fee, cp_maximum_block_size := sz,
                    proposal_adopted_votes_threshold := th\<rparr>\<rparr>,
               gpo := (gpo s)\<lparr>maximum_block_size := sz\<rparr>\<rparr>))"

subsection \<open>The election\<close>

definition reset_virtual_schedule_time :: "fc_lib \<Rightarrow> chain \<Rightarrow> chain res" where
  "reset_virtual_schedule_time F s =
     (let s = s\<lparr>schedule := (schedule s)\<lparr>current_virtual_time := 0\<rparr>\<rparr>
      in rbind (rmap (\<lambda>(n, w).
           rbind (u_div F TAIYI_VIRTUAL_SCHEDULE_LAP_LENGTH (u_of_int F (adores w + 1))) (\<lambda>t.
           Inr (n, w\<lparr>virtual_position := 0, virtual_last_update := current_virtual_time (schedule s),
                     virtual_scheduled_time := t\<rparr>))) (simings s))
         (\<lambda>t. Inr (s\<lparr>simings := t\<rparr>)))"

definition simings_by_adores :: "chain \<Rightarrow> (account_name_type \<times> siming_object) list" where
  "simings_by_adores s = sort_key (\<lambda>(n, w). (- adores w, n)) (simings s)"

definition by_schedule_time :: "chain \<Rightarrow> (account_name_type \<times> siming_object) list" where
  "by_schedule_time s = sort_key (\<lambda>(n, w). (virtual_scheduled_time w, sim_id w)) (simings s)"

text \<open>The first loop: the ids selected, the names in order, the state.\<close>

fun elect_adored ::
  "nat \<Rightarrow> (account_name_type \<times> siming_object) list \<Rightarrow> nat list \<times> account_name_type list \<times> chain \<Rightarrow>
     (nat list \<times> account_name_type list \<times> chain) res" where
  "elect_adored m [] st = Inr st"
| "elect_adored m ((n, w) # ws) (sel, act, s) =
     (if length sel < m then
        if signing_key w = 0 then elect_adored m ws (sel, act, s)
        else rbind (modify_siming n (\<lambda>wo. Inr (wo\<lparr>sim_schedule := elected\<rparr>)) s)
               (\<lambda>s. elect_adored m ws (insort_insert (sim_id w) sel, act @ [n], s))
      else Inr (sel, act, s))"

text \<open>The second loop: the count of simings, the virtual time reached, the simings passed, the
  names in order, the state.\<close>

fun elect_timeshare ::
  "nat list \<Rightarrow> (account_name_type \<times> siming_object) list \<Rightarrow>
     nat \<times> u128 \<times> account_name_type list \<times> account_name_type list \<times> chain \<Rightarrow>
     (nat \<times> u128 \<times> account_name_type list \<times> account_name_type list \<times> chain) res" where
  "elect_timeshare sel [] st = Inr st"
| "elect_timeshare sel ((n, w) # ws) (cnt, vt, processed, act, s) =
     (if cnt < TAIYI_MAX_SIMINGS then
        let vt = virtual_scheduled_time w; processed = processed @ [n]
        in if signing_key w = 0 then elect_timeshare sel ws (cnt, vt, processed, act, s)
           else if sim_id w \<notin> set sel then
             rbind (modify_siming n (\<lambda>wo. Inr (wo\<lparr>sim_schedule := timeshare\<rparr>)) s)
               (\<lambda>s. elect_timeshare sel ws (Suc cnt, vt, processed, act @ [n], s))
           else elect_timeshare sel ws (cnt, vt, processed, act, s)
      else Inr (cnt, vt, processed, act, s))"

text \<open>The third loop gives every siming passed its next time; it stops at an overflow.\<close>

primrec advance_processed :: "fc_lib \<Rightarrow> u128 \<Rightarrow> account_name_type list \<Rightarrow> chain \<Rightarrow> (bool \<times> chain) res" where
  "advance_processed F vt [] s = Inr (False, s)"
| "advance_processed F vt (n # ns) s =
     rbind (get_siming s n) (\<lambda>w.
     rbind (u_div F TAIYI_VIRTUAL_SCHEDULE_LAP_LENGTH (u_of_int F (adores w + 1))) (\<lambda>lap.
     let t = u_add F vt lap
     in if t < vt then Inr (True, s)
        else rbind (modify_siming n (\<lambda>wo. Inr (wo\<lparr>virtual_position := 0, virtual_last_update := vt,
                      virtual_scheduled_time := t\<rparr>)) s)
               (advance_processed F vt ns)))"

subsection \<open>Versions and hardfork votes\<close>

definition count_vote :: "'k::linorder \<Rightarrow> ('k, u32) tbl \<Rightarrow> ('k, u32) tbl" where
  "count_vote k t = tput k (case map_of t k of None \<Rightarrow> 1 | Some c \<Rightarrow> c + 1) t"

text \<open>The first version, from the highest down, that enough simings run at least.\<close>

fun majority_from :: "u8 \<Rightarrow> int \<Rightarrow> (u32 \<times> u32) list \<Rightarrow> u32 option" where
  "majority_from req on [] = None"
| "majority_from req on ((v, c) # vs) =
     (if on + uint c \<ge> uint req then Some v else majority_from req (on + uint c) vs)"

definition count_versions :: "siming_object list \<Rightarrow> (u32, u32) tbl" where
  "count_versions ws = fold (\<lambda>w. count_vote (running_version w)) ws []"

definition count_hardfork_votes :: "siming_object list \<Rightarrow> (u32 \<times> time_point_sec, u32) tbl" where
  "count_hardfork_votes ws = fold (\<lambda>w. count_vote (hardfork_version_vote w, hardfork_time_vote w)) ws []"

definition update_next_hardfork :: "siming_schedule_object \<Rightarrow> siming_object list \<Rightarrow> hardfork_property_object \<Rightarrow> hardfork_property_object" where
  "update_next_hardfork wso ws hfp =
     (case find (\<lambda>(k, c). c \<ge> ucast (hardfork_required_simings wso)) (count_hardfork_votes ws) of
        Some ((v, t), _) \<Rightarrow> hfp\<lparr>next_hardfork := v, next_hardfork_time := t\<rparr>
      | None \<Rightarrow> hfp\<lparr>next_hardfork := current_hardfork_version hfp\<rparr>)"

subsection \<open>The shuffle\<close>

definition shuffle_rand :: "u64 \<Rightarrow> nat \<Rightarrow> u64" where
  "shuffle_rand now_hi i =
     (let k = now_hi + of_nat i * 2685821657736338717;
          k = k XOR drop_bit 12 k;
          k = k XOR push_bit 25 k;
          k = k XOR drop_bit 27 k
      in k * 2685821657736338717)"

definition shuffle_swap :: "u64 \<Rightarrow> nat \<Rightarrow> nat \<Rightarrow> 'a list \<Rightarrow> 'a list" where
  "shuffle_swap now_hi n i xs =
     (let jmax = n - i; j = i + unat (shuffle_rand now_hi i mod of_nat jmax)
      in xs[i := xs ! j, j := xs ! i])"

definition shuffle_names :: "u64 \<Rightarrow> nat \<Rightarrow> 'a list \<Rightarrow> 'a list" where
  "shuffle_names now_hi n xs = fold (shuffle_swap now_hi n) [0..<n] xs"

definition install_schedule :: "account_name_type list \<Rightarrow> u128 \<Rightarrow> u32 \<Rightarrow> chain \<Rightarrow> chain" where
  "install_schedule act vt majority s =
     (let names = act @ replicate (TAIYI_MAX_SIMINGS - length act) 0;
          num = max (of_nat (length act)) (1 :: u8);
          now_hi = push_bit 32 (of_nat (head_block_time s))
      in s\<lparr>schedule := (schedule s)\<lparr>
             current_shuffled_simings := shuffle_names now_hi (unat num) names,
             num_scheduled_simings := num,
             current_virtual_time := vt,
             next_shuffle_block_num := head_block_num s + ucast num,
             majority_version := majority\<rparr>\<rparr>)"

definition update_siming_schedule4 :: "fc_lib \<Rightarrow> chain \<Rightarrow> chain res" where
  "update_siming_schedule4 F s =
     rbind (elect_adored (unat (max_adored_simings (schedule s))) (simings_by_adores s) ([], [], s)) (\<lambda>(sel, act, s).
     rbind (elect_timeshare sel (by_schedule_time s)
              (length sel, current_virtual_time (schedule s), [], act, s)) (\<lambda>(_, vt, processed, act, s).
     rbind (advance_processed F vt processed s) (\<lambda>(reset, s).
     rbind (if reset then reset_virtual_schedule_time F s else Inr s) (\<lambda>s.
     let vt = (if reset then 0 else vt) in
     rbind (scheduled_simings s) (\<lambda>ws.
     let majority = (case majority_from (hardfork_required_simings (schedule s)) 0 (rev (count_versions ws)) of
                       Some v \<Rightarrow> v | None \<Rightarrow> majority_version (schedule s));
         s = s\<lparr>hardforks := update_next_hardfork (schedule s) ws (hardforks s)\<rparr>
     in update_median_siming_props (install_schedule act vt majority s))))))"

definition update_siming_schedule :: "fc_lib \<Rightarrow> chain \<Rightarrow> chain res" where
  "update_siming_schedule F s =
     (if head_block_num s mod of_nat TAIYI_MAX_SIMINGS = 0 then update_siming_schedule4 F s else Inr s)"

subsection \<open>What a block does to the counters\<close>

text \<open>A missed slot of another siming; a siming silent for more than a day loses its key.\<close>

definition count_missed :: "account_name_type \<Rightarrow> nat \<Rightarrow> chain \<Rightarrow> chain res" where
  "count_missed b_siming i s =
     (let n = get_scheduled_siming s (of_nat i + 1)
      in rbind (get_siming s n) (\<lambda>w.
         if n \<noteq> b_siming then
           let w = w\<lparr>total_missed := total_missed w + 1\<rparr>;
               late = ucast (head_block_num s) - last_confirmed_block_num w > of_nat TAIYI_BLOCKS_PER_DAY
           in Inr (if late then put_siming n (w\<lparr>signing_key := 0\<rparr>) (push_vop (Shutdown_siming n) s)
                   else put_siming n w s)
         else Inr s))"

definition fill_slot :: "nat \<Rightarrow> dynamic_global_property_object \<Rightarrow> dynamic_global_property_object" where
  "fill_slot i dgp =
     (let cnt = participation_count dgp - (if u_hi (recent_slots_filled dgp) AND 0x8000000000000000 \<noteq> 0 then 1 else 0)
      in dgp\<lparr>recent_slots_filled := push_bit 1 (recent_slots_filled dgp) + (if i = 0 then 1 else 0),
             participation_count := cnt + (if i = 0 then 1 else 0)\<rparr>)"

definition update_global_dynamic_data :: "bool \<Rightarrow> ('t, 'd, 'x) signed_block \<Rightarrow> chain \<Rightarrow> chain res" where
  "update_global_dynamic_data skip_undo_history_check b s =
     (let missed = (if head_block_time s \<noteq> 0 then unat (get_slot_at_time s (timestamp b) - 1) else 0)
      in rbind (rfold (count_missed (fs_of (siming b))) [0..<missed] s) (\<lambda>s.
         let dgp = fold fill_slot [0..<missed + 1] (gpo s);
             s = s\<lparr>gpo := dgp\<lparr>head_block_number := block_num b, head_time := timestamp b,
                      current_aslot := current_aslot dgp + of_nat (missed + 1)\<rparr>\<rparr>
         in rguard (skip_undo_history_check \<or>
                    head_block_number (gpo s) - last_irreversible_block_num (gpo s) < TAIYI_MAX_UNDO_HISTORY)
              Undo_database (Inr s)))"

definition update_signing_siming :: "account_name_type \<Rightarrow> ('t, 'd, 'x) signed_block \<Rightarrow> chain \<Rightarrow> chain res" where
  "update_signing_siming n b s =
     (let new_block_aslot = current_aslot (gpo s) + ucast (get_slot_at_time s (timestamp b))
      in modify_siming n (\<lambda>w. Inr (w\<lparr>last_aslot := new_block_aslot,
           last_confirmed_block_num := ucast (block_num b)\<rparr>)) s)"

text \<open>The result also has the blocks announced as irreversible, in order. \<open>nth_element\<close> puts at
  the offset what a sort would put there.\<close>

definition update_last_irreversible_block :: "chain \<Rightarrow> (u32 list \<times> chain) res" where
  "update_last_irreversible_block s =
     (let old = last_irreversible_block_num (gpo s) in
      rbind (if head_block_num s < TAIYI_START_ADORING_BLOCK
             then Inr (if head_block_num s > of_nat TAIYI_MAX_SIMINGS
                       then s\<lparr>gpo := (gpo s)\<lparr>last_irreversible_block_num := head_block_num s - of_nat TAIYI_MAX_SIMINGS\<rparr>\<rparr>
                       else s)
             else rbind (scheduled_simings s) (\<lambda>wit_objs.
               let offset = (unat TAIYI_100_PERCENT - TAIYI_IRREVERSIBLE_THRESHOLD) * length wit_objs div unat TAIYI_100_PERCENT;
                   new = ucast (last_confirmed_block_num (sort_key last_confirmed_block_num wit_objs ! offset))
               in Inr (if new > last_irreversible_block_num (gpo s)
                       then s\<lparr>gpo := (gpo s)\<lparr>last_irreversible_block_num := new\<rparr>\<rparr> else s)))
        (\<lambda>s. Inr (map of_nat [unat old..<Suc (unat (last_irreversible_block_num (gpo s)))], s)))"

end
