(* ===== verification/Slots.thy ===== *)
theory Slots
  imports Siming_Schedule Sample
begin

section \<open>Slots, fairness and participation\<close>

lemma unat_small: "n < 2 ^ LENGTH('a) \<Longrightarrow> unat (of_nat n :: 'a::len word) = n"
  by (simp add: unsigned_of_nat take_bit_nat_eq_self)

subsection \<open>The shuffle\<close>

lemma mset_shuffle_swap:
  assumes "i < n" "n \<le> length xs" "n < 2 ^ 64"
  shows "length (shuffle_swap r n i xs) = length xs"
    and "mset (take n (shuffle_swap r n i xs)) = mset (take n xs)"
    and "drop n (shuffle_swap r n i xs) = drop n xs"
proof -
  define j where "j = i + unat (shuffle_rand r i mod of_nat (n - i))"
  have "unat (of_nat (n - i) :: u64) = n - i" using assms by (intro unat_small) simp
  then have "unat (shuffle_rand r i mod of_nat (n - i)) < n - i"
    using assms by (simp add: unat_mod_distrib)
  then have j: "j < n" unfolding j_def by linarith
  have sw: "shuffle_swap r n i xs = xs[i := xs ! j, j := xs ! i]" by (simp add: shuffle_swap_def Let_def j_def)
  show "length (shuffle_swap r n i xs) = length xs" by (simp add: sw)
  have tk: "take n (shuffle_swap r n i xs) = (take n xs)[i := take n xs ! j, j := take n xs ! i]"
    using j assms by (simp add: sw take_update_swap)
  show "mset (take n (shuffle_swap r n i xs)) = mset (take n xs)"
    unfolding tk by (rule mset_swap) (use j assms in simp_all)
  show "drop n (shuffle_swap r n i xs) = drop n xs" using j assms by (simp add: sw)
qed

lemma shuffle_prefix:
  assumes "n \<le> length xs" "n < 2 ^ 64"
  shows "length (shuffle_names r n xs) = length xs \<and> mset (take n (shuffle_names r n xs)) = mset (take n xs) \<and>
    drop n (shuffle_names r n xs) = drop n xs"
proof -
  have "length (fold (shuffle_swap r n) is xs) = length xs \<and>
      mset (take n (fold (shuffle_swap r n) is xs)) = mset (take n xs) \<and>
      drop n (fold (shuffle_swap r n) is xs) = drop n xs" if "set is \<subseteq> {..<n}" for "is"
    using that assms
  proof (induction "is" arbitrary: xs)
    case (Cons i "is")
    then show ?case using mset_shuffle_swap [of i n xs r] Cons.IH [of "shuffle_swap r n i xs"] by simp
  qed simp
  from this [of "[0..<n]"] show ?thesis by (simp add: shuffle_names_def atLeast0LessThan)
qed

subsection \<open>Slot times\<close>

definition slot_base :: "chain \<Rightarrow> time_point_sec" where
  "slot_base s = (if head_block_num s = 0 then head_block_time s else head_block_time s div 3 * 3)"

lemma slot_base_bounds: "slot_base s \<le> head_block_time s" "head_block_time s < slot_base s + 3"
  by (auto simp: slot_base_def)

lemma slot_time:
  assumes "0 < k" "3 * k < 2 ^ 32"
  shows "get_slot_time s (of_nat k) = slot_base s + 3 * k"
proof -
  have 1: "unat (of_nat k * of_nat TAIYI_BLOCK_INTERVAL :: u32) = 3 * k"
    using unat_small [where 'a = 32, of "k * TAIYI_BLOCK_INTERVAL"] assms by (simp add: TAIYI_BLOCK_INTERVAL_def)
  have 2: "(of_nat k :: u32) \<noteq> 0"
  proof
    assume "(of_nat k :: u32) = 0"
    then have "unat (of_nat k :: u32) = 0" by simp
    then show False using unat_small [where 'a = 32, of k] assms by simp
  qed
  show ?thesis unfolding get_slot_time_def Let_def 1
    by (simp add: 2 slot_base_def head_block_time_def TAIYI_BLOCK_INTERVAL_def)
qed

lemma first_slot_time: "get_slot_time s 1 = slot_base s + 3"
  using slot_time [of 1 s] by simp

lemma slot_at_time:
  assumes "t < slot_base s + 2 ^ 32"
  shows "unat (get_slot_at_time s t) = (t - slot_base s) div 3"
proof (cases "t < slot_base s + 3")
  case True
  then show ?thesis by (simp add: get_slot_at_time_def first_slot_time)
next
  case False
  then obtain d where d: "t = slot_base s + 3 + d" by (metis le_Suc_ex not_less)
  have e: "(t - slot_base s) div 3 = d div 3 + 1" by (simp add: d)
  have "d div 3 + 1 < 2 ^ 32" using assms d by linarith
  then have "unat (of_nat (d div 3 + 1) :: u32) = d div 3 + 1" by (intro unat_small) simp
  then show ?thesis unfolding e by (simp add: get_slot_at_time_def first_slot_time Let_def d TAIYI_BLOCK_INTERVAL_def)
qed



subsection \<open>Fairness\<close>

lemma mset_window:
  assumes "0 < n"
  shows "mset (map (\<lambda>k. f ((c + k) mod n)) [a..<a + n]) = mset (map f [0..<n])"
proof -
  have inj: "inj_on (\<lambda>k. (c + k) mod n) {a..<a + n}"
  proof (rule inj_onI)
    have aux: "x = y" if le: "x \<le> y" and less: "y < x + n" and eq: "(c + x) mod n = (c + y) mod n" for x y
    proof -
      obtain d where d: "y = x + d" using le_Suc_ex [OF le] by blast
      have "(c + x + d) mod n = (c + x) mod n" using eq d by (simp add: add.assoc)
      then have "n dvd d" using mod_eq_dvd_iff_nat [of "c + x" "c + x + d" n] by simp
      then show ?thesis using less d by (auto dest: dvd_imp_le)
    qed
    fix x y assume "x \<in> {a..<a + n}" "y \<in> {a..<a + n}" "(c + x) mod n = (c + y) mod n"
    then show "x = y" using aux [of x y] aux [of y x] by (cases "x \<le> y") auto
  qed
  have "(\<lambda>k. (c + k) mod n) ` {a..<a + n} = {0..<n}"
  proof (rule card_subset_eq)
    show "(\<lambda>k. (c + k) mod n) ` {a..<a + n} \<subseteq> {0..<n}" using assms by (simp add: image_subset_iff)
  qed (simp_all add: card_image [OF inj])
  then have "image_mset (\<lambda>k. (c + k) mod n) (mset_set {a..<a + n}) = mset_set {0..<n}"
    by (simp add: image_mset_mset_set [OF inj])
  then have "image_mset f (image_mset (\<lambda>k. (c + k) mod n) (mset_set {a..<a + n})) = image_mset f (mset_set {0..<n})"
    by simp
  then show ?thesis by (simp add: multiset.map_comp comp_def)
qed

lemma scheduled_siming_index:
  assumes "unat (current_aslot (gpo s)) + k < 2 ^ 64" "k < 2 ^ 32"
  shows "get_scheduled_siming s (of_nat k) =
    current_shuffled_simings (schedule s) ! ((unat (current_aslot (gpo s)) + k) mod unat (num_scheduled_simings (schedule s)))"
proof -
  have k: "unat (of_nat k :: u32) = k" using assms(2) by (intro unat_small) simp
  have "unat (ucast (of_nat k :: u32) :: u64) = k"
    using k assms(2) by (simp add: unsigned_ucast_eq take_bit_nat_eq_self)
  moreover from this have "unat (current_aslot (gpo s) + ucast (of_nat k :: u32)) = unat (current_aslot (gpo s)) + k"
    using assms(1) unat_add_lem [of "current_aslot (gpo s)" "ucast (of_nat k :: u32)"] by simp
  moreover have "unat (ucast (num_scheduled_simings (schedule s)) :: u64) = unat (num_scheduled_simings (schedule s))"
  proof -
    have "unat (num_scheduled_simings (schedule s)) < 256"
      by (rule less_le_trans [OF unsigned_less]) simp
    then show ?thesis by (simp add: unsigned_ucast_eq take_bit_nat_eq_self)
  qed
  ultimately show ?thesis by (simp add: get_scheduled_siming_def Let_def unat_mod_distrib)
qed

text \<open>C28: every scheduled siming gets exactly its share of the slots: as long as the counters do
  not overflow, any window of as many consecutive slots as there are scheduled simings gives each
  entry of the schedule exactly one slot, wherever the window begins.\<close>
theorem schedule_is_fair:
  assumes "n = unat (num_scheduled_simings (schedule s))" "0 < n"
    and "a + n \<le> 2 ^ 32" "unat (current_aslot (gpo s)) + a + n \<le> 2 ^ 64"
  shows "mset (map (\<lambda>k. get_scheduled_siming s (of_nat k)) [a..<a + n]) = mset (scheduled_names (schedule s))"
proof -
  have "map (\<lambda>k. get_scheduled_siming s (of_nat k)) [a..<a + n] =
      map (\<lambda>k. current_shuffled_simings (schedule s) ! ((unat (current_aslot (gpo s)) + k) mod n)) [a..<a + n]"
    by (rule map_cong) (use assms in \<open>auto simp: scheduled_siming_index\<close>)
  then show ?thesis using mset_window [OF assms(2)] by (simp only: scheduled_names_def assms(1))
qed

lemma schedule_is_fair_witness:
  "mset (map (\<lambda>k. get_scheduled_siming (sample_chain\<lparr>schedule := sample_schedule\<lparr>
      current_shuffled_simings := [n_bob, n_carol, n_alice], num_scheduled_simings := 3\<rparr>\<rparr>) (of_nat k)) [7..<10]) =
     {#n_alice, n_bob, n_carol#}"
proof -
  let ?s = "sample_chain\<lparr>schedule := sample_schedule\<lparr>
      current_shuffled_simings := [n_bob, n_carol, n_alice], num_scheduled_simings := 3\<rparr>\<rparr>"
  have "unat (current_aslot (gpo ?s)) + 7 + 3 \<le> 2 ^ 64" by (simp add: sample_chain_def sample_gpo_def)
  then have "mset (map (\<lambda>k. get_scheduled_siming ?s (of_nat k)) [7..<7 + 3]) = mset (scheduled_names (schedule ?s))"
    by (intro schedule_is_fair) simp_all
  moreover have "scheduled_names (schedule ?s) = [n_bob, n_carol, n_alice]"
    by (simp add: scheduled_names_def upt_rec)
  ultimately show ?thesis by (simp add: add_mset_commute)
qed

subsection \<open>Participation\<close>

definition filled :: "u128 \<Rightarrow> nat" where
  "filled r = card {j. bit r j}"

lemma finite_bits: "finite {j. bit (r::u128) j}"
  by (rule finite_subset [of _ "{..<128}"]) (auto dest: bit_imp_le_length)

lemma filled_le: "filled r \<le> 128"
proof -
  have "{j. bit r j} \<subseteq> {..<128}" by (auto dest: bit_imp_le_length)
  then show ?thesis using card_mono [of "{..<128}" "{j. bit r j}"] by (simp add: filled_def)
qed

lemma top_bit: "u_hi r AND 0x8000000000000000 \<noteq> 0 \<longleftrightarrow> bit r 127"
proof -
  have "(0x8000000000000000 :: u64) = 2 ^ 63" by simp
  then have "u_hi r AND 0x8000000000000000 \<noteq> 0 \<longleftrightarrow> bit (u_hi r) 63"
    by (simp only: and_exp_eq_0_iff_not_bit not_not)
  then show ?thesis by (simp add: u_hi_def bit_simps)
qed

lemma bit_fill_slot:
  "bit (recent_slots_filled (fill_slot i g)) j \<longleftrightarrow> (j = 0 \<and> i = 0) \<or> (0 < j \<and> j < 128 \<and> bit (recent_slots_filled g) (j - 1))"
proof -
  let ?r = "push_bit 1 (recent_slots_filled g)"
  have r: "bit ?r j \<longleftrightarrow> 0 < j \<and> j < 128 \<and> bit (recent_slots_filled g) (j - 1)" for j
    by (auto simp: bit_push_bit_iff simp del: push_bit_Suc One_nat_def)
  have "?r + (if i = 0 then 1 else 0) = ?r OR (if i = 0 then 1 else 0)"
    by (rule disjunctive_add) (auto simp: r bit_1_iff simp del: push_bit_Suc One_nat_def)
  then have "recent_slots_filled (fill_slot i g) = ?r OR (if i = 0 then 1 else 0)"
    by (simp add: fill_slot_def Let_def del: push_bit_Suc One_nat_def)
  then show ?thesis by (auto simp: r bit_or_iff bit_1_iff simp del: push_bit_Suc One_nat_def)
qed

lemma filled_fill_slot:
  "filled (recent_slots_filled (fill_slot i g)) + (if bit (recent_slots_filled g) 127 then 1 else 0) =
     filled (recent_slots_filled g) + (if i = 0 then 1 else 0)"
proof -
  let ?r = "recent_slots_filled g" and ?r' = "recent_slots_filled (fill_slot i g)"
  have e: "{j. bit ?r' j} = Suc ` ({j. bit ?r j} - {127}) \<union> (if i = 0 then {0} else {})"
    by (auto simp: bit_fill_slot image_iff gr0_conv_Suc dest: bit_imp_le_length)
  have "card {j. bit ?r' j} = card ({j. bit ?r j} - {127}) + (if i = 0 then 1 else 0)"
    unfolding e by (simp add: card_Un_disjoint finite_bits card_image)
  moreover have "card ({j. bit ?r j} - {127}) + (if bit ?r 127 then 1 else 0) = card {j. bit ?r j}"
    using card_Suc_Diff1 [OF finite_bits, of 127 ?r] by auto
  ultimately show ?thesis by (simp add: filled_def)
qed

lemma word_swap: "x + a = y + b \<Longrightarrow> x = y - a + (b :: u8)"
  by (metis add_diff_cancel_right' diff_add_eq)

lemma participation_fill_slot:
  assumes "participation_count g = of_nat (filled (recent_slots_filled g))"
  shows "participation_count (fill_slot i g) = of_nat (filled (recent_slots_filled (fill_slot i g)))"
proof -
  have "(of_nat (filled (recent_slots_filled (fill_slot i g))) :: u8) + (if bit (recent_slots_filled g) 127 then 1 else 0) =
      of_nat (filled (recent_slots_filled g)) + (if i = 0 then 1 else 0)"
    using arg_cong [OF filled_fill_slot, of "of_nat :: nat \<Rightarrow> u8" i g]
    by (cases "bit (recent_slots_filled g) 127"; cases "i = 0") (simp_all add: add.commute)
  then have "of_nat (filled (recent_slots_filled (fill_slot i g))) =
      of_nat (filled (recent_slots_filled g)) - (if bit (recent_slots_filled g) 127 then 1 else 0) + (if i = 0 then 1 else (0 :: u8))"
    by (rule word_swap)
  moreover have "participation_count (fill_slot i g) =
      participation_count g - (if bit (recent_slots_filled g) 127 then 1 else 0) + (if i = 0 then 1 else 0)"
    by (simp add: fill_slot_def Let_def top_bit)
  ultimately show ?thesis using assms by (simp only:)
qed

lemma fill_slot_frame: "current_aslot (fill_slot i g) = current_aslot g" 
  "last_irreversible_block_num (fill_slot i g) = last_irreversible_block_num g"
  by (simp_all add: fill_slot_def Let_def)

lemma fill_slots:
  assumes "participation_count g = of_nat (filled (recent_slots_filled g))"
  shows "participation_count (fold fill_slot [0..<Suc m] g) = of_nat (filled (recent_slots_filled (fold fill_slot [0..<Suc m] g))) \<and>
    current_aslot (fold fill_slot [0..<Suc m] g) = current_aslot g \<and>
    (\<forall>j<128. bit (recent_slots_filled (fold fill_slot [0..<Suc m] g)) j \<longleftrightarrow>
       j = m \<or> (m < j \<and> bit (recent_slots_filled g) (j - Suc m)))"
proof (induction m)
  case 0
  have f: "fold fill_slot [0..<Suc 0] g = fill_slot 0 g" by simp
  show ?case unfolding f using participation_fill_slot [OF assms, of 0]
    by (intro conjI allI impI) (simp_all add: bit_fill_slot fill_slot_frame)
next
  case (Suc m)
  have f: "fold fill_slot [0..<Suc (Suc m)] g = fill_slot (Suc m) (fold fill_slot [0..<Suc m] g)"
    by (simp only: upt_Suc_append le0 fold_append comp_apply fold_simps)
  define h where "h = fold fill_slot [0..<Suc m] g"
  have h: "participation_count h = of_nat (filled (recent_slots_filled h))" "current_aslot h = current_aslot g"
    "\<And>j. j < 128 \<Longrightarrow> bit (recent_slots_filled h) j \<longleftrightarrow> j = m \<or> (m < j \<and> bit (recent_slots_filled g) (j - Suc m))"
    using Suc unfolding h_def by blast+
  have "bit (recent_slots_filled (fill_slot (Suc m) h)) j \<longleftrightarrow>
      j = Suc m \<or> (Suc m < j \<and> bit (recent_slots_filled g) (j - Suc (Suc m)))" if "j < 128" for j
    using h(3) [of "j - 1"] that by (cases j) (auto simp: bit_fill_slot)
  then show ?case unfolding f h_def [symmetric] using participation_fill_slot [OF h(1)] h(2)
    by (simp add: fill_slot_frame)
qed

definition missed :: "chain \<Rightarrow> account_name_type \<Rightarrow> u32 option" where
  "missed s n = map_option total_missed (map_of (simings s) n)"

abbreviation (input) misses :: "chain \<Rightarrow> account_name_type \<Rightarrow> nat \<Rightarrow> account_name_type \<Rightarrow> bool" where
  "misses s p i n \<equiv> n \<noteq> p \<and> get_scheduled_siming s (of_nat i + 1) = n"

lemma missed_put: "missed (put_siming m w s) n = (if n = m then Some (total_missed w) else missed s n)"
  by (simp add: missed_def put_siming_def)

lemma count_missed_effect:
  assumes "count_missed p i s = Inr s'"
  shows "gpo s' = gpo s \<and> schedule s' = schedule s \<and>
    (\<forall>n. missed s' n = map_option (\<lambda>x. x + (if misses s p i n then 1 else 0)) (missed s n))"
proof -
  let ?m = "get_scheduled_siming s (of_nat i + 1)"
  obtain w where w: "map_of (simings s) ?m = Some w" using assms by (auto simp: count_missed_def Let_def)
  have m: "missed s ?m = Some (total_missed w)" by (simp add: missed_def w)
  show ?thesis
  proof (cases "?m = p")
    case True
    then have "s' = s" using assms w by (simp add: count_missed_def Let_def get_siming_def)
    then show ?thesis using True by (auto simp: option.map_ident)
  next
    case False
    then obtain w' t where t: "s' = put_siming ?m w' t" "total_missed w' = total_missed w + 1"
      "t = s \<or> t = push_vop (Shutdown_siming ?m) s"
    proof (cases "ucast (head_block_num s) - last_confirmed_block_num w > of_nat TAIYI_BLOCKS_PER_DAY")
      case True
      then show ?thesis using that [of "w\<lparr>total_missed := total_missed w + 1, signing_key := 0\<rparr>"
          "push_vop (Shutdown_siming ?m) s"] assms w False
        by (simp add: count_missed_def Let_def get_siming_def)
    next
      case late: False
      then show ?thesis using that [of "w\<lparr>total_missed := total_missed w + 1\<rparr>" s] assms w False
        by (simp add: count_missed_def Let_def get_siming_def)
    qed
    have "gpo t = gpo s" "schedule t = schedule s" "\<And>n. missed t n = missed s n"
      using t(3) by (auto simp: push_vop_def missed_def)
    then show ?thesis using t(1,2) m False by (simp add: missed_put option.map_ident) (simp add: put_siming_def)
  qed
qed

lemma scheduled_siming_cong: "gpo s' = gpo s \<Longrightarrow> schedule s' = schedule s \<Longrightarrow> get_scheduled_siming s' k = get_scheduled_siming s k"
  by (simp add: get_scheduled_siming_def)

lemma count_missed_loop:
  assumes "rfold (count_missed p) is s = Inr s'"
  shows "gpo s' = gpo s \<and> schedule s' = schedule s \<and>
    (\<forall>n. missed s' n = map_option (\<lambda>x. x + of_nat (length (filter (\<lambda>i. misses s p i n) is))) (missed s n))"
  using assms
proof (induction "is" arbitrary: s)
  case Nil
  then show ?case by (simp add: option.map_ident)
next
  case (Cons i "is")
  obtain t where t: "count_missed p i s = Inr t" "rfold (count_missed p) is t = Inr s'" using Cons.prems by auto
  note 1 = count_missed_effect [OF t(1)] and 2 = Cons.IH [OF t(2)]
  have sched: "get_scheduled_siming t k = get_scheduled_siming s k" for k
    by (rule scheduled_siming_cong) (use 1 in blast)+
  have len: "of_nat (length (filter P (i # is))) = (if P i then 1 else 0) + (of_nat (length (filter P is)) :: u32)" for P
    by simp
  have m: "missed s' n = map_option (\<lambda>x. x + of_nat (length (filter (\<lambda>i. misses s p i n) (i # is)))) (missed s n)" for n
    unfolding len 2 [THEN conjunct2, THEN conjunct2, rule_format] 1 [THEN conjunct2, THEN conjunct2, rule_format] sched
    by (cases "missed s n") (simp_all only: option.map add.assoc)
  have g: "gpo s' = gpo s" "schedule s' = schedule s"
    using 1 [THEN conjunct1] 1 [THEN conjunct2, THEN conjunct1] 2 [THEN conjunct1] 2 [THEN conjunct2, THEN conjunct1]
    by simp_all
  show ?case by (intro conjI allI g m)
qed

text \<open>C26: the participation counter is the number of bits set in the record of the last 128 slots,
  before and after every block, so it never passes 128; a block k slots after the head shifts the
  record by k and sets one bit, advances the absolute slot by k, and counts the k - 1 missed
  slots each for the siming that had it, the producer of the block excepted.\<close>
theorem participation_counted:
  assumes "update_global_dynamic_data skip b s = Inr s'"
    and "participation_count (gpo s) = of_nat (filled (recent_slots_filled (gpo s)))"
    and k: "k = (if head_block_time s = 0 then 1 else unat (get_slot_at_time s (timestamp b)))" "0 < k"
  shows "participation_count (gpo s') = of_nat (filled (recent_slots_filled (gpo s'))) \<and>
    participation_count (gpo s') \<le> 128 \<and>
    (\<forall>j<128. bit (recent_slots_filled (gpo s')) j \<longleftrightarrow> j = k - 1 \<or> (k \<le> j \<and> bit (recent_slots_filled (gpo s)) (j - k))) \<and>
    current_aslot (gpo s') = current_aslot (gpo s) + of_nat k \<and>
    (\<forall>n. missed s' n = map_option (\<lambda>x. x + of_nat (length (filter (\<lambda>i. misses s (fs_of (siming b)) i n) [0..<k - 1]))) (missed s n))"
proof -
  define m where "m = (if head_block_time s \<noteq> 0 then unat (get_slot_at_time s (timestamp b) - 1) else 0)"
  have m: "m = k - 1" "Suc m = k"
  proof -
    have "unat (x - 1) = unat x - 1" if "0 < unat x" for x :: u32
      by (rule unat_minus_one) (use that in auto)
    then show "m = k - 1" using k by (cases "head_block_time s = 0") (simp_all add: m_def)
    then show "Suc m = k" using k(2) by simp
  qed
  obtain t where t: "rfold (count_missed (fs_of (siming b))) [0..<m] s = Inr t"
    and s': "s' = t\<lparr>gpo := (fold fill_slot [0..<Suc m] (gpo t))\<lparr>head_block_number := block_num b, head_time := timestamp b,
        current_aslot := current_aslot (fold fill_slot [0..<Suc m] (gpo t)) + of_nat (Suc m)\<rparr>\<rparr>"
    using assms(1) unfolding update_global_dynamic_data_def Let_def m_def by (auto simp del: upt_Suc)
  note loop = count_missed_loop [OF t]
  note slots = fill_slots [OF assms(2), of m]
  have g: "gpo t = gpo s" using loop by simp
  have p: "participation_count (gpo s') = of_nat (filled (recent_slots_filled (gpo s')))"
    using slots s' unfolding g by (simp del: upt_Suc)
  have "unat (participation_count (gpo s')) \<le> 128"
    unfolding p using filled_le [of "recent_slots_filled (gpo s')"] by (simp add: unat_small)
  then have le: "participation_count (gpo s') \<le> 128" by (simp add: word_le_nat_alt)
  have "missed s' n = missed t n" for n using s' by (simp add: missed_def)
  then show ?thesis using p le slots loop s' unfolding g m(2) [symmetric] by (simp add: Suc_le_eq del: upt_Suc)
qed

definition sample_block :: "(unit, unit, unit) signed_block" where
  "sample_block = \<lparr>previous = \<lparr>id_num = 10, id_hash = 0\<rparr>, timestamp = 1762850007, siming = ''carol'',
     transaction_merkle_root = (), extensions = [], siming_signature = 0, transactions = []\<rparr>"

lemma filled_mask: "n \<le> 128 \<Longrightarrow> filled (mask n) = n"
proof -
  assume "n \<le> 128"
  then have "{j. bit (mask n :: u128) j} = {..<n}" by (auto simp: bit_mask_iff)
  then show ?thesis by (simp add: filled_def)
qed

lemma sample_slot: "get_slot_at_time sample_chain (timestamp sample_block) = 3"
proof -
  have b: "slot_base sample_chain = 1762849998" "timestamp sample_block = 1762850007"
    by (simp_all add: slot_base_def head_block_num_def head_block_time_def sample_chain_def sample_gpo_def sample_block_def)
  then have "unat (get_slot_at_time sample_chain (timestamp sample_block)) = 3"
    using slot_at_time [of "timestamp sample_block" sample_chain] by simp
  then have "unat (get_slot_at_time sample_chain (timestamp sample_block)) = unat (3 :: u32)" by simp
  then show ?thesis by (simp only: word_unat_eq_iff)
qed

lemma sample_data_runs: "\<exists>s'. update_global_dynamic_data True sample_block sample_chain = Inr s'"
proof -
  have "unat (get_slot_at_time sample_chain (timestamp sample_block) - 1) = 2" by (simp add: sample_slot)
  moreover have "fs_of (siming sample_block) = n_carol" by (simp add: sample_block_def names_of)
  moreover have "get_scheduled_siming sample_chain k = n_carol" for k
    by (simp add: get_scheduled_siming_def sample_chain_def sample_schedule_def)
  moreover have "\<exists>w. map_of (simings sample_chain) n_carol = Some w" by (simp add: sample_chain_def)
  ultimately show ?thesis
    by (auto simp: update_global_dynamic_data_def Let_def numeral_2_eq_2 count_missed_def get_siming_def)
qed

lemma participation_counted_witness:
  "\<exists>s'. update_global_dynamic_data True sample_block sample_chain = Inr s' \<and>
     bit (recent_slots_filled (gpo s')) 2 \<and> \<not> bit (recent_slots_filled (gpo s')) 1 \<and> bit (recent_slots_filled (gpo s')) 3 \<and>
     participation_count (gpo s') = of_nat (filled (recent_slots_filled (gpo s')))"
proof -
  obtain s' where s': "update_global_dynamic_data True sample_block sample_chain = Inr s'" using sample_data_runs by blast
  have r: "recent_slots_filled (gpo sample_chain) = mask 10" "participation_count (gpo sample_chain) = 10"
    "head_block_time sample_chain \<noteq> 0"
    by (simp_all add: sample_chain_def sample_gpo_def mask_eq_exp_minus_1 head_block_time_def)
  have "participation_count (gpo sample_chain) = of_nat (filled (recent_slots_filled (gpo sample_chain)))"
    by (simp add: r filled_mask)
  note p = participation_counted [OF s' this refl]
  have "bit (recent_slots_filled (gpo s')) j \<longleftrightarrow> j = 2 \<or> (3 \<le> j \<and> bit (recent_slots_filled (gpo sample_chain)) (j - 3))" if "j < 128" for j
    using p that by (simp add: sample_slot r(3))
  then show ?thesis using s' p by (simp add: sample_slot r bit_mask_iff)
qed

subsection \<open>Irreversibility\<close>

lemma sorted_tail_count:
  assumes "offset < length ws" "v \<le> f (sort_key f ws ! offset)"
  shows "length ws - offset \<le> length (filter (\<lambda>w. v \<le> f w) ws)"
proof -
  let ?xs = "sort_key f ws"
  have "v \<le> f x" if mem: "x \<in> set (drop offset ?xs)" for x
  proof -
    obtain i where i: "x = ?xs ! (offset + i)" "offset + i < length ws"
      using mem assms(1) by (auto simp: in_set_conv_nth)
    have "map f ?xs ! offset \<le> map f ?xs ! (offset + i)"
      using i(2) by (intro sorted_nth_mono) simp_all
    then show ?thesis using assms i by (simp add: order_trans)
  qed
  then have "filter (\<lambda>w. v \<le> f w) (drop offset ?xs) = drop offset ?xs" by simp
  then have "length ws - offset \<le> length (filter (\<lambda>w. v \<le> f w) (take offset ?xs @ drop offset ?xs))"
    by (simp del: append_take_drop_id)
  then have "length ws - offset \<le> length (filter (\<lambda>w. v \<le> f w) ?xs)" by simp
  also have "\<dots> = length (filter (\<lambda>w. v \<le> f w) ws)"
    using arg_cong [OF mset_sort [where k = f and xs = ws], of "\<lambda>M. size (filter_mset (\<lambda>w. v \<le> f w) M)"]
    by (simp only: mset_filter [symmetric] size_mset)
  finally show ?thesis .
qed


definition quorum_chain :: chain where
  "quorum_chain = sample_chain\<lparr>
     simings := [(n_alice, new_siming_object\<lparr>last_confirmed_block_num := 899997\<rparr>), (n_bob, new_siming_object\<lparr>last_confirmed_block_num := 900000\<rparr>),
       (n_carol, new_siming_object\<lparr>last_confirmed_block_num := 899999\<rparr>), (n_dao, new_siming_object)],
     schedule := sample_schedule\<lparr>current_shuffled_simings := [n_alice, n_bob, n_carol, n_dao], num_scheduled_simings := 4\<rparr>,
     gpo := sample_gpo\<lparr>head_block_number := 900000, last_irreversible_block_num := 899995\<rparr>\<rparr>"

lemma quorum_simings: "scheduled_simings quorum_chain =
    Inr [new_siming_object\<lparr>last_confirmed_block_num := 899997\<rparr>, new_siming_object\<lparr>last_confirmed_block_num := 900000\<rparr>,
      new_siming_object\<lparr>last_confirmed_block_num := 899999\<rparr>, new_siming_object]"
  using n_distinct by (simp add: scheduled_simings_def scheduled_names_def quorum_chain_def upt_rec get_siming_def)


end
