(* ===== verification/Election.thy ===== *)
theory Election
  imports Slots
begin

section \<open>The election of a round\<close>

text \<open>
  What \<open>update_siming_schedule4\<close> installs. The loops change only the scheduling fields of the
  simings; \<open>resched\<close> says so, and everything the election decides depends on the other fields.
\<close>

definition siming_core :: "siming_object \<Rightarrow> siming_object" where
  "siming_core w = w\<lparr>sim_schedule := none_scheduled, virtual_last_update := 0, virtual_position := 0, virtual_scheduled_time := 0\<rparr>"

definition resched :: "chain \<Rightarrow> chain \<Rightarrow> bool" where
  "resched s s' \<longleftrightarrow> (\<exists>t. s' = s\<lparr>simings := t\<rparr> \<and> map (apsnd siming_core) t = map (apsnd siming_core) (simings s))"

lemma siming_core_fields:
  assumes "siming_core v = siming_core w"
  shows "signing_key v = signing_key w" "sim_id v = sim_id w" "adores v = adores w" "sim_props v = sim_props w"
proof -
  have "signing_key (siming_core v) = signing_key v" "sim_id (siming_core v) = sim_id v" "adores (siming_core v) = adores v"
    "sim_props (siming_core v) = sim_props v" for v by (simp_all add: siming_core_def)
  then show "signing_key v = signing_key w" "sim_id v = sim_id w" "adores v = adores w" "sim_props v = sim_props w"
    using assms by metis+
qed

lemma resched_refl [simp]: "resched s s"
  unfolding resched_def by (intro exI [of _ "simings s"]) simp

lemma resched_trans: "resched s t \<Longrightarrow> resched t u \<Longrightarrow> resched s u"
proof -
  assume "resched s t" "resched t u"
  then obtain a b where a: "t = s\<lparr>simings := a\<rparr>" "map (apsnd siming_core) a = map (apsnd siming_core) (simings s)"
    and b: "u = t\<lparr>simings := b\<rparr>" "map (apsnd siming_core) b = map (apsnd siming_core) (simings t)"
    unfolding resched_def by blast
  then have "u = s\<lparr>simings := b\<rparr>" "map (apsnd siming_core) b = map (apsnd siming_core) (simings s)" by simp_all
  then show "resched s u" unfolding resched_def by blast
qed

lemma resched_frame:
  assumes "resched s t"
  shows "schedule t = schedule s" "gpo t = gpo s" "hardforks t = hardforks s" "ids (simings t) = ids (simings s)"
proof -
  obtain u where u: "t = s\<lparr>simings := u\<rparr>" "map (apsnd siming_core) u = map (apsnd siming_core) (simings s)"
    using assms by (auto simp: resched_def)
  have "map fst (map (apsnd siming_core) u) = map fst (map (apsnd siming_core) (simings s))" by (simp only: u(2))
  then have "ids u = ids (simings s)" by (simp add: ids_def comp_def)
  then show "schedule t = schedule s" "gpo t = gpo s" "hardforks t = hardforks s" "ids (simings t) = ids (simings s)"
    using u(1) by simp_all
qed

lemma resched_wf: "resched s t \<Longrightarrow> wf_table (simings t) = wf_table (simings s)"
  by (simp add: wf_table_def resched_frame)

lemma resched_dom: "resched s t \<Longrightarrow> dom (map_of (simings t)) = dom (map_of (simings s))"
  using resched_frame(4) [of s t] by (simp add: set_ids [symmetric])

lemma map_of_core: "map_option siming_core (map_of xs n) = map_of (map (apsnd siming_core) xs) n"
  by (induction xs) (auto simp: apsnd_def map_prod_def)

lemma resched_lookup:
  "resched s t \<Longrightarrow> map_option siming_core (map_of (simings t) n) = map_option siming_core (map_of (simings s) n)"
  unfolding resched_def by (elim exE conjE) (simp add: map_of_core)

lemma resched_key:
  assumes "resched s t" "map_of (simings t) n = Some w'"
  obtains w where "map_of (simings s) n = Some w" "siming_core w' = siming_core w"
  using resched_lookup [OF assms(1), of n] assms(2) by (cases "map_of (simings s) n") auto

text \<open>A filter that looks at the core only selects the same names.\<close>

lemma filter_core:
  assumes "map (apsnd siming_core) xs = map (apsnd siming_core) ys"
    and "\<And>n v w. siming_core v = siming_core w \<Longrightarrow> P (n, v) = P (n, w)"
  shows "map (apsnd siming_core) (filter P xs) = map (apsnd siming_core) (filter P ys)"
  using assms(1)
proof (induction xs arbitrary: ys)
  case (Cons x xs)
  then obtain y zs where ys: "ys = y # zs" by (cases ys) auto
  have x: "apsnd siming_core x = apsnd siming_core y" and xs: "map (apsnd siming_core) xs = map (apsnd siming_core) zs"
    using Cons.prems ys by simp_all
  obtain n v w where "x = (n, v)" "y = (n, w)" "siming_core v = siming_core w" using x by (cases x; cases y) simp
  then show ?case using Cons.IH [OF xs] assms(2) [of v w n] ys x by simp
qed simp

lemma tput_core:
  assumes "map_of t n = Some w" "siming_core v = siming_core w" "wf_table t"
  shows "map (apsnd siming_core) (tput n v t) = map (apsnd siming_core) t"
  using assms
proof (induction n v t rule: tput.induct)
  case (2 i v j u t)
  have "map_of t i = None" if "i \<le> j" using map_of_None_less [OF "2.prems"(3) that] .
  show ?case
  proof (cases "i \<le> j")
    case True
    then have "i = j" using "2.prems"(1) \<open>i \<le> j \<Longrightarrow> map_of t i = None\<close> by (auto split: if_splits)
    then show ?thesis using "2.prems" by simp
  next
    case False
    then show ?thesis using 2 by auto
  qed
qed simp

lemma modify_resched:
  assumes "wf_table (simings s)" "n \<in> dom (map_of (simings s))" "\<And>w. siming_core (f w) = siming_core w"
  shows "\<exists>s'. modify_siming n (\<lambda>w. Inr (f w)) s = Inr s' \<and> resched s s'"
proof -
  obtain w where w: "map_of (simings s) n = Some w" using assms(2) by auto
  have "map (apsnd siming_core) (tput n (f w) (simings s)) = map (apsnd siming_core) (simings s)"
    by (rule tput_core [OF w assms(3,1)])
  then show ?thesis using w
    by (auto simp: modify_siming_def get_siming_def put_siming_def resched_def)
qed

subsection \<open>The loops\<close>

lemma set_ids_names: "fst ` set xs \<subseteq> dom (map_of (simings s)) \<Longrightarrow> (n, w) \<in> set xs \<Longrightarrow> n \<in> dom (map_of (simings s))"
  by (metis fst_conv imageI subsetD)

lemma elect_adored_result:
  assumes "wf_table (simings s)" "fst ` set ws \<subseteq> dom (map_of (simings s))"
    and "distinct (map (\<lambda>x. sim_id (snd x)) ws)" "distinct sel" "set sel \<inter> (\<lambda>x. sim_id (snd x)) ` set ws = {}"
    and P: "P = take (m - length sel) (filter (\<lambda>(n, w). signing_key w \<noteq> 0) ws)"
  shows "\<exists>sel' s'. elect_adored m ws (sel, act, s) = Inr (sel', act @ map fst P, s') \<and> resched s s' \<and>
    distinct sel' \<and> set sel' = set sel \<union> (\<lambda>x. sim_id (snd x)) ` set P \<and> length sel' = length sel + length P"
  using assms
proof (induction ws arbitrary: sel act s P)
  case Nil
  then show ?case by auto
next
  case (Cons x ws)
  obtain n w where x: "x = (n, w)" by (cases x)
  show ?case
  proof (cases "length sel < m")
    case False
    then have "P = []" using Cons.prems(6) by simp
    moreover have "elect_adored m (x # ws) (sel, act, s) = Inr (sel, act, s)" using False x by simp
    ultimately show ?thesis using Cons.prems(4) by auto
  next
    case True
    show ?thesis
    proof (cases "signing_key w = 0")
      case key: True
      have "P = take (m - length sel) (filter (\<lambda>(n, w). signing_key w \<noteq> 0) ws)" using Cons.prems(6) x key by simp
      note IH = Cons.IH [OF Cons.prems(1) _ _ Cons.prems(4) _ this, of act]
      have "fst ` set ws \<subseteq> dom (map_of (simings s))" "distinct (map (\<lambda>x. sim_id (snd x)) ws)"
        "set sel \<inter> (\<lambda>x. sim_id (snd x)) ` set ws = {}"
        using Cons.prems(2,3,5) by auto
      then show ?thesis using IH x True key by simp
    next
      case key: False
      let ?Q = "take (m - Suc (length sel)) (filter (\<lambda>(n, w). signing_key w \<noteq> 0) ws)"
      have P: "P = (n, w) # ?Q" using Cons.prems(6) x key True by (simp add: take_Cons' Suc_diff_Suc)
      have "n \<in> dom (map_of (simings s))" using Cons.prems(2) x by simp
      then obtain t where t: "modify_siming n (\<lambda>wo. Inr (wo\<lparr>sim_schedule := elected\<rparr>)) s = Inr t" "resched s t"
        using modify_resched [OF Cons.prems(1), of n "\<lambda>wo. wo\<lparr>sim_schedule := elected\<rparr>"] by (auto simp: siming_core_def)
      let ?sel = "insort_insert (sim_id w) sel"
      have new: "sim_id w \<notin> set sel" using Cons.prems(5) x by auto
      have sel: "set ?sel = insert (sim_id w) (set sel)" "distinct ?sel" "length ?sel = Suc (length sel)"
        using new Cons.prems(4) by (simp_all add: insort_insert_key_def distinct_insort set_insort_key)
      have q: "?Q = take (m - length ?sel) (filter (\<lambda>(n, w). signing_key w \<noteq> 0) ws)" by (simp add: sel)
      have "\<exists>sel' s'. elect_adored m ws (?sel, act @ [n], t) = Inr (sel', (act @ [n]) @ map fst ?Q, s') \<and> resched t s' \<and>
          distinct sel' \<and> set sel' = set ?sel \<union> (\<lambda>x. sim_id (snd x)) ` set ?Q \<and> length sel' = length ?sel + length ?Q"
      proof (rule Cons.IH [OF _ _ _ sel(2) _ q])
        show "wf_table (simings t)" using Cons.prems(1) resched_wf [OF t(2)] by simp
        show "fst ` set ws \<subseteq> dom (map_of (simings t))" using Cons.prems(2) resched_dom [OF t(2)] by simp
        show "distinct (map (\<lambda>x. sim_id (snd x)) ws)" using Cons.prems(3) by simp
        show "set ?sel \<inter> (\<lambda>x. sim_id (snd x)) ` set ws = {}" using Cons.prems(3,5) x sel(1) by auto
      qed
      then obtain sel' s' where r: "elect_adored m ws (?sel, act @ [n], t) = Inr (sel', (act @ [n]) @ map fst ?Q, s')" "resched t s'"
        "distinct sel'" "set sel' = set ?sel \<union> (\<lambda>x. sim_id (snd x)) ` set ?Q" "length sel' = length ?sel + length ?Q" by blast
      then show ?thesis using t x key True P sel resched_trans [OF t(2) r(2)] by auto
    qed
  qed
qed

lemma elect_timeshare_result:
  assumes "wf_table (simings s)" "fst ` set ws \<subseteq> dom (map_of (simings s))"
    and Q: "Q = take (TAIYI_MAX_SIMINGS - cnt) (filter (\<lambda>(n, w). signing_key w \<noteq> 0 \<and> sim_id w \<notin> set sel) ws)"
  shows "\<exists>cnt' vt' pr' s'. elect_timeshare sel ws (cnt, vt, pr, act, s) = Inr (cnt', vt', pr', act @ map fst Q, s') \<and>
    resched s s' \<and> set pr' \<subseteq> set pr \<union> fst ` set ws"
  using assms
proof (induction ws arbitrary: cnt vt pr act s Q)
  case Nil
  then show ?case by auto
next
  case (Cons x ws)
  obtain n w where x: "x = (n, w)" by (cases x)
  have sub: "fst ` set ws \<subseteq> dom (map_of (simings s))" using Cons.prems(2) by auto
  show ?case
  proof (cases "cnt < TAIYI_MAX_SIMINGS")
    case False
    then show ?thesis using Cons.prems(3) x by auto
  next
    case True
    show ?thesis
    proof (cases "signing_key w \<noteq> 0 \<and> sim_id w \<notin> set sel")
      case skip: False
      have "Q = take (TAIYI_MAX_SIMINGS - cnt) (filter (\<lambda>(n, w). signing_key w \<noteq> 0 \<and> sim_id w \<notin> set sel) ws)"
        using Cons.prems(3) x skip by auto
      from Cons.IH [OF Cons.prems(1) sub this, of "virtual_scheduled_time w" "pr @ [n]" act]
      obtain cnt' vt' pr' s' where r: "elect_timeshare sel ws (cnt, virtual_scheduled_time w, pr @ [n], act, s) =
          Inr (cnt', vt', pr', act @ map fst Q, s')" "resched s s'" "set pr' \<subseteq> set (pr @ [n]) \<union> fst ` set ws" by blast
      have "elect_timeshare sel (x # ws) (cnt, vt, pr, act, s) = Inr (cnt', vt', pr', act @ map fst Q, s')"
        using r(1) x True skip by (auto simp: Let_def)
      moreover have "set pr' \<subseteq> set pr \<union> fst ` set (x # ws)" using r(3) x by auto
      ultimately show ?thesis using r(2) by blast
    next
      case take: True
      let ?Q = "take (TAIYI_MAX_SIMINGS - Suc cnt) (filter (\<lambda>(n, w). signing_key w \<noteq> 0 \<and> sim_id w \<notin> set sel) ws)"
      have Q: "Q = (n, w) # ?Q" using Cons.prems(3) x take True by (simp add: take_Cons' Suc_diff_Suc)
      have "n \<in> dom (map_of (simings s))" using Cons.prems(2) x by simp
      then obtain t where t: "modify_siming n (\<lambda>wo. Inr (wo\<lparr>sim_schedule := timeshare\<rparr>)) s = Inr t" "resched s t"
        using modify_resched [OF Cons.prems(1), of n "\<lambda>wo. wo\<lparr>sim_schedule := timeshare\<rparr>"] by (auto simp: siming_core_def)
      have "wf_table (simings t)" "fst ` set ws \<subseteq> dom (map_of (simings t))"
        using Cons.prems(1) sub resched_wf [OF t(2)] resched_dom [OF t(2)] by simp_all
      from Cons.IH [OF this refl, of "Suc cnt" "virtual_scheduled_time w" "pr @ [n]" "act @ [n]"]
      obtain cnt' vt' pr' s' where r: "elect_timeshare sel ws (Suc cnt, virtual_scheduled_time w, pr @ [n], act @ [n], t) =
          Inr (cnt', vt', pr', (act @ [n]) @ map fst ?Q, s')" "resched t s'" "set pr' \<subseteq> set (pr @ [n]) \<union> fst ` set ws" by blast
      have "elect_timeshare sel (x # ws) (cnt, vt, pr, act, s) = Inr (cnt', vt', pr', act @ map fst Q, s')"
        using r(1) t(1) x True take Q by (simp add: Let_def)
      moreover have "set pr' \<subseteq> set pr \<union> fst ` set (x # ws)" using r(3) x by auto
      ultimately show ?thesis using resched_trans [OF t(2) r(2)] by blast
    qed
  qed
qed

definition votes_in_range :: "chain \<Rightarrow> bool" where
  "votes_in_range s \<longleftrightarrow> (\<forall>n w. map_of (simings s) n = Some w \<longrightarrow> 0 \<le> adores w \<and> in_i64 (adores w))"

lemma resched_votes: "resched s t \<Longrightarrow> votes_in_range s \<Longrightarrow> votes_in_range t"
  unfolding votes_in_range_def by (metis resched_key siming_core_fields(3))

lemma lap_defined:
  assumes "fc_laws F" "0 \<le> v" "in_i64 v"
  shows "\<exists>lap. u_div F TAIYI_VIRTUAL_SCHEDULE_LAP_LENGTH (u_of_int F (v + 1)) = Inr lap"
proof -
  have "uint (word_of_int (v + 1) :: u128) = v + 1"
    by (subst uint_word_of_int_eq) (use assms(2,3) in \<open>simp add: take_bit_int_eq_self in_i64_def\<close>)
  then have "(word_of_int (v + 1) :: u128) \<noteq> 0" using assms(2) by (metis add_nonneg_pos less_irrefl uint_0_eq zero_less_one)
  then show ?thesis using assms(1) by (simp add: fc_simps)
qed

lemma advance_result:
  assumes "fc_laws F" "wf_table (simings s)" "set ns \<subseteq> dom (map_of (simings s))" "votes_in_range s"
  shows "\<exists>reset s'. advance_processed F vt ns s = Inr (reset, s') \<and> resched s s'"
  using assms(2-4)
proof (induction ns arbitrary: s)
  case Nil
  show ?case by (intro exI [of _ False] exI [of _ s]) simp
next
  case (Cons n ns)
  obtain w where w: "map_of (simings s) n = Some w" using Cons.prems(2) by auto
  then have "0 \<le> adores w" "in_i64 (adores w)" using Cons.prems(3) unfolding votes_in_range_def by blast+
  then obtain lap where lap: "u_div F TAIYI_VIRTUAL_SCHEDULE_LAP_LENGTH (u_of_int F (adores w + 1)) = Inr lap"
    using lap_defined [OF assms(1)] by blast
  let ?f = "\<lambda>wo. wo\<lparr>virtual_position := 0, virtual_last_update := vt, virtual_scheduled_time := u_add F vt lap\<rparr>"
  obtain t where t: "modify_siming n (\<lambda>wo. Inr (?f wo)) s = Inr t" "resched s t"
    using modify_resched [OF Cons.prems(1), of n ?f] w by (auto simp: siming_core_def)
  have "wf_table (simings t)" "set ns \<subseteq> dom (map_of (simings t))" "votes_in_range t"
    using Cons.prems resched_wf [OF t(2)] resched_dom [OF t(2)] resched_votes [OF t(2)] by auto
  from Cons.IH [OF this] obtain reset s' where r: "advance_processed F vt ns t = Inr (reset, s')" "resched t s'" by blast
  have "resched s s'" by (rule resched_trans [OF t(2) r(2)])
  then show ?case using w lap t(1) r(1) by (cases "u_add F vt lap < vt") (auto simp: get_siming_def)
qed

definition reset_row :: "u128 \<Rightarrow> u128 \<Rightarrow> siming_object \<Rightarrow> siming_object" where
  "reset_row now t w = w\<lparr>virtual_position := 0, virtual_last_update := now, virtual_scheduled_time := t\<rparr>"

lemma reset_rows:
  assumes "fc_laws F" "\<forall>(n, w) \<in> set xs. 0 \<le> adores w \<and> in_i64 (adores w)"
  shows "\<exists>ys. rmap (\<lambda>(n, w). rbind (u_div F TAIYI_VIRTUAL_SCHEDULE_LAP_LENGTH (u_of_int F (adores w + 1)))
      (\<lambda>t. Inr (n, w\<lparr>virtual_position := 0, virtual_last_update := now, virtual_scheduled_time := t\<rparr>))) xs = Inr ys \<and>
    map (apsnd siming_core) ys = map (apsnd siming_core) xs"
  using assms(2)
proof (induction xs)
  case (Cons x xs)
  obtain n w where x: "x = (n, w)" by (cases x)
  obtain lap where "u_div F TAIYI_VIRTUAL_SCHEDULE_LAP_LENGTH (u_of_int F (adores w + 1)) = Inr lap"
    using lap_defined [OF assms(1)] Cons.prems x by auto
  moreover have "siming_core (w\<lparr>virtual_position := 0, virtual_last_update := now, virtual_scheduled_time := lap\<rparr>) = siming_core w"
    by (simp add: siming_core_def)
  ultimately show ?case using Cons x by auto
qed simp

lemma reset_result:
  assumes "fc_laws F" "wf_table (simings s)" "votes_in_range s"
  shows "\<exists>s'. reset_virtual_schedule_time F s = Inr s' \<and>
    resched (s\<lparr>schedule := (schedule s)\<lparr>current_virtual_time := 0\<rparr>\<rparr>) s'"
proof -
  have "\<forall>(n, w) \<in> set (simings s). 0 \<le> adores w \<and> in_i64 (adores w)"
    using assms(3) wf_map_of_iff [OF assms(2)] unfolding votes_in_range_def by blast
  from reset_rows [OF assms(1) this, of 0] show ?thesis
    by (auto simp: reset_virtual_schedule_time_def resched_def)
qed

subsection \<open>The round\<close>

abbreviation (input) keyed :: "account_name_type \<times> siming_object \<Rightarrow> bool" where
  "keyed x \<equiv> signing_key (snd x) \<noteq> 0"

text \<open>The simings with a signing key, in the order of their adores.\<close>

definition candidates :: "chain \<Rightarrow> (account_name_type \<times> siming_object) list" where
  "candidates s = filter (\<lambda>x. signing_key (snd x) \<noteq> 0) (simings_by_adores s)"

lemma set_candidates: "set (candidates s) = {x \<in> set (simings s). keyed x}"
  by (auto simp: candidates_def simings_by_adores_def)

lemma distinct_sort_map:
  assumes "distinct (map f xs)"
  shows "distinct (map f (sort_key k xs))"
proof -
  have "mset (map f (sort_key k xs)) = mset (map f xs)" by simp
  then show ?thesis using assms mset_eq_imp_distinct_iff by blast
qed

lemma length_filter_sort: "length (filter P (sort_key k xs)) = length (filter P xs)"
  using arg_cong [OF mset_sort [where k = k and xs = xs], of "\<lambda>M. size (filter_mset P M)"]
  by (simp only: mset_filter [symmetric] size_mset)

lemma filter_others:
  assumes "distinct (map f (P @ R))"
  shows "filter (\<lambda>x. f x \<notin> f ` set P) (P @ R) = R"
proof -
  have "filter (\<lambda>x. f x \<notin> f ` set P) P = []" by (simp add: filter_empty_conv)
  moreover have "filter (\<lambda>x. f x \<notin> f ` set P) R = R"
    using assms by (auto simp: filter_id_conv disjoint_iff)
  ultimately show ?thesis by simp
qed

definition ids_ok :: "chain \<Rightarrow> bool" where
  "ids_ok s \<longleftrightarrow> wf_table (simings s) \<and> distinct (map (\<lambda>x. sim_id (snd x)) (simings s))"

lemma election_result:
  assumes s: "ids_ok s" and m: "m \<le> TAIYI_MAX_SIMINGS"
  obtains sel act1 s1 cnt vt pr act s2
  where "elect_adored m (simings_by_adores s) ([], [], s) = Inr (sel, act1, s1)"
    and "elect_timeshare sel (by_schedule_time s1) (length sel, now, [], act1, s1) = Inr (cnt, vt, pr, act, s2)"
    and "resched s s1" "resched s s2" "set pr \<subseteq> dom (map_of (simings s2))"
    and "distinct act" "length act = min TAIYI_MAX_SIMINGS (length (candidates s))"
    and "set act \<subseteq> fst ` set (candidates s)" "take m (map fst (candidates s)) = take m act"
proof -
  have wf: "wf_table (simings s)" and di: "distinct (map (\<lambda>x. sim_id (snd x)) (simings s))" using s by (simp_all add: ids_ok_def)
  have dn: "distinct (map fst (simings s))" using wf_distinct [OF wf] by (simp add: ids_def)
  let ?A = "simings_by_adores s"
  define P where "P = take m (candidates s)"
  have c: "candidates s = filter (\<lambda>(n, w). signing_key w \<noteq> 0) ?A" by (simp add: candidates_def case_prod_beta')
  have dom: "fst ` set (simings s) = dom (map_of (simings s))" by (simp add: dom_map_of_conv_image_fst)
  have A: "fst ` set ?A \<subseteq> dom (map_of (simings s))" "distinct (map (\<lambda>x. sim_id (snd x)) ?A)"
    by (simp_all add: simings_by_adores_def dom distinct_sort_map di)
  obtain sel s1 where e1: "elect_adored m ?A ([], [], s) = Inr (sel, map fst P, s1)" "resched s s1"
    "set sel = (\<lambda>x. sim_id (snd x)) ` set P" "length sel = length P"
    using elect_adored_result [OF wf A, of "[]" P m "[]"] by (auto simp: P_def c)
  let ?T = "by_schedule_time s1"
  let ?f = "\<lambda>(n, w). signing_key w \<noteq> 0 \<and> sim_id w \<notin> set sel"
  define Q where "Q = take (TAIYI_MAX_SIMINGS - length sel) (filter ?f ?T)"
  have wf1: "wf_table (simings s1)" using wf resched_wf [OF e1(2)] by simp
  have T: "fst ` set ?T \<subseteq> dom (map_of (simings s1))" by (simp add: by_schedule_time_def dom_map_of_conv_image_fst)
  obtain cnt vt pr s2 where e2: "elect_timeshare sel ?T (length sel, now, [], map fst P, s1) = Inr (cnt, vt, pr, map fst P @ map fst Q, s2)"
    "resched s1 s2" "set pr \<subseteq> fst ` set ?T"
    using elect_timeshare_result [OF wf1 T Q_def, of now "[]" "map fst P"] by auto
  have r2: "resched s s2" by (rule resched_trans [OF e1(2) e2(2)])
  have core: "map (apsnd siming_core) (simings s1) = map (apsnd siming_core) (simings s)"
    using e1(2) by (auto simp: resched_def)
  have dc: "distinct (map (\<lambda>x. sim_id (snd x)) (candidates s))" "distinct (map fst (candidates s))"
    by (simp_all add: candidates_def simings_by_adores_def distinct_map_filter distinct_sort_map di dn)
  have same: "map (apsnd siming_core) (filter ?f (simings s1)) = map (apsnd siming_core) (filter ?f (simings s))"
  proof (rule filter_core [OF core])
    fix n :: account_name_type and v w assume c: "siming_core v = siming_core w"
    show "?f (n, v) = ?f (n, w)" using siming_core_fields(1,2) [OF c] by simp
  qed
  have "length (filter ?f ?T) = length (filter ?f (simings s1))" by (simp add: by_schedule_time_def length_filter_sort)
  also have "\<dots> = length (map (apsnd siming_core) (filter ?f (simings s1)))" by simp
  also have "\<dots> = length (filter ?f (simings s))"
    unfolding same by simp
  also have "\<dots> = length (filter (\<lambda>x. sim_id (snd x) \<notin> set sel) (candidates s))"
    by (simp add: candidates_def simings_by_adores_def length_filter_sort case_prod_beta')
  also have "\<dots> = length (drop m (candidates s))"
    using filter_others [of "\<lambda>x. sim_id (snd x)" "take m (candidates s)" "drop m (candidates s)"] dc(1) e1(3) P_def by simp
  finally have Q: "length Q = min (TAIYI_MAX_SIMINGS - length P) (length (candidates s) - m)"
    using e1(4) by (simp add: Q_def min.commute)
  have P: "length P = min m (length (candidates s))" by (simp add: P_def min.commute)
  have memQ: "\<exists>w. (n, w) \<in> set (candidates s) \<and> sim_id w \<notin> set sel" if n: "n \<in> fst ` set Q" for n
  proof -
    obtain w' where "(n, w') \<in> set Q" using n by auto
    then have "(n, w') \<in> set (filter ?f ?T)" unfolding Q_def by (rule in_set_takeD)
    then have w': "(n, w') \<in> set (simings s1)" "signing_key w' \<noteq> 0" "sim_id w' \<notin> set sel"
      by (simp_all add: by_schedule_time_def)
    then have "map_of (simings s1) n = Some w'" using wf_map_of_iff [OF wf1] by blast
    then obtain w where "map_of (simings s) n = Some w" "siming_core w' = siming_core w"
      using resched_key [OF e1(2)] by blast
    then show ?thesis using siming_core_fields [of w' w] w' wf_map_of_iff [OF wf]
      by (auto simp: set_candidates intro!: exI [of _ w])
  qed
  have disj: "fst ` set P \<inter> fst ` set Q = {}"
  proof (rule ccontr)
    assume "fst ` set P \<inter> fst ` set Q \<noteq> {}"
    then obtain n where n: "n \<in> fst ` set P" "n \<in> fst ` set Q" by blast
    obtain w where w: "(n, w) \<in> set P" using n(1) by auto
    obtain v where v: "(n, v) \<in> set (candidates s)" "sim_id v \<notin> set sel" using memQ [OF n(2)] by blast
    have "(n, w) \<in> set (candidates s)" using w unfolding P_def by (rule in_set_takeD)
    then have "w = v" using v(1) dc(2) by (metis (mono_tags) eq_key_imp_eq_value)
    then show False using w v(2) e1(3) by force
  qed
  have dP: "distinct (map fst P)" unfolding P_def using dc(2) by (simp add: take_map [symmetric])
  have dQ: "distinct (map fst Q)"
  proof -
    have "distinct (map fst (simings s1))" using wf_distinct [OF wf1] by (simp add: ids_def)
    then have "distinct (map fst (filter ?f ?T))" by (simp add: by_schedule_time_def distinct_map_filter distinct_sort_map)
    then show ?thesis unfolding Q_def by (simp add: take_map [symmetric])
  qed
  show thesis
  proof (rule that [OF e1(1) e2(1) e1(2) r2])
    show "set pr \<subseteq> dom (map_of (simings s2))" using e2(3) T resched_dom [OF e2(2)] by blast
    show "distinct (map fst P @ map fst Q)" using dP dQ disj by simp
    show "length (map fst P @ map fst Q) = min TAIYI_MAX_SIMINGS (length (candidates s))" using P Q m by (auto simp: min_def)
    show "set (map fst P @ map fst Q) \<subseteq> fst ` set (candidates s)"
      using memQ by (force simp: P_def dest: in_set_takeD)
    show "take m (map fst (candidates s)) = take m (map fst P @ map fst Q)"
    proof (cases "m \<le> length (candidates s)")
      case True
      then show ?thesis by (simp add: P_def take_map)
    next
      case False
      then have "Q = []" "P = candidates s" using Q by (simp_all add: P_def)
      then show ?thesis by simp
    qed
  qed
qed

lemma scheduled_names_take:
  "unat (num_scheduled_simings w) \<le> length (current_shuffled_simings w) \<Longrightarrow>
     scheduled_names w = take (unat (num_scheduled_simings w)) (current_shuffled_simings w)"
  by (rule nth_equalityI) (simp_all add: scheduled_names_def)

lemma scheduled_names_install:
  assumes "length act \<le> TAIYI_MAX_SIMINGS"
  shows "mset (scheduled_names (schedule (install_schedule act vt mj s))) = mset (if act = [] then [0] else act)"
    and "length (current_shuffled_simings (schedule (install_schedule act vt mj s))) = TAIYI_MAX_SIMINGS"
    and "unat (num_scheduled_simings (schedule (install_schedule act vt mj s))) = max (length act) 1"
proof -
  let ?w = "schedule (install_schedule act vt mj s)"
  let ?xs = "act @ replicate (TAIYI_MAX_SIMINGS - length act) 0"
  have le: "length act \<le> 21" using assms by (simp add: TAIYI_MAX_SIMINGS_def)
  have u: "unat (of_nat (length act) :: u8) = length act" using le by (intro unat_small) simp
  have n: "unat (max (of_nat (length act)) (1 :: u8)) = max (length act) 1"
    using u by (simp add: max_def word_le_nat_alt)
  show num: "unat (num_scheduled_simings ?w) = max (length act) 1" by (simp add: install_schedule_def Let_def n)
  have len: "length ?xs = TAIYI_MAX_SIMINGS" using assms by simp
  have "max (length act) 1 \<le> length ?xs" using le by (simp add: len TAIYI_MAX_SIMINGS_def)
  moreover have "max (length act) 1 < 2 ^ 64" using le by simp
  ultimately have sh: "length (shuffle_names r (max (length act) 1) ?xs) = TAIYI_MAX_SIMINGS"
    "mset (take (max (length act) 1) (shuffle_names r (max (length act) 1) ?xs)) = mset (take (max (length act) 1) ?xs)" for r
    using shuffle_prefix [of "max (length act) 1" ?xs r] len by simp_all
  show l: "length (current_shuffled_simings ?w) = TAIYI_MAX_SIMINGS"
    using sh(1) by (simp add: install_schedule_def Let_def n)
  have "scheduled_names ?w = take (max (length act) 1) (current_shuffled_simings ?w)"
    using scheduled_names_take [of ?w] l num le by (simp add: TAIYI_MAX_SIMINGS_def)
  also have "mset \<dots> = mset (take (max (length act) 1) ?xs)"
    using sh(2) by (simp add: install_schedule_def Let_def n)
  also have "take (max (length act) 1) ?xs = (if act = [] then [0] else act)"
    by (cases act) (simp_all add: TAIYI_MAX_SIMINGS_def numeral_eq_Suc)
  finally show "mset (scheduled_names ?w) = mset (if act = [] then [0] else act)" .
qed

definition schedule_ready :: "chain \<Rightarrow> bool" where
  "schedule_ready s \<longleftrightarrow> ids_ok s \<and> votes_in_range s \<and> unat (max_adored_simings (schedule s)) \<le> TAIYI_MAX_SIMINGS \<and>
     map_of (simings s) 0 = None \<and> set (scheduled_names (schedule s)) \<subseteq> dom (map_of (simings s))"

lemma rmap_get: "set ns \<subseteq> dom (map_of (simings s)) \<Longrightarrow> \<exists>ws. rmap (get_siming s) ns = Inr ws"
  by (induction ns) (auto simp: get_siming_def)

lemma rmap_get_fails: "n \<in> set ns \<Longrightarrow> map_of (simings s) n = None \<Longrightarrow> rmap (get_siming s) ns = Inl Out_of_range"
proof (induction ns)
  case (Cons k ns)
  then show ?case by (cases "map_of (simings s) k") (auto simp: get_siming_def)
qed simp

definition new_round :: "chain \<Rightarrow> account_name_type list \<Rightarrow> chain \<Rightarrow> bool" where
  "new_round s act s' \<longleftrightarrow> distinct act \<and> act \<noteq> [] \<and> length act = min TAIYI_MAX_SIMINGS (length (candidates s)) \<and>
     set act \<subseteq> fst ` set (candidates s) \<and>
     take (unat (max_adored_simings (schedule s))) act = take (unat (max_adored_simings (schedule s))) (map fst (candidates s)) \<and>
     mset (scheduled_names (schedule s')) = mset act \<and>
     length (current_shuffled_simings (schedule s')) = TAIYI_MAX_SIMINGS \<and>
     map (apsnd siming_core) (simings s') = map (apsnd siming_core) (simings s)"

lemma update_schedule_result:
  assumes F: "fc_laws F" and s: "schedule_ready s"
  shows "(candidates s = [] \<longrightarrow> update_siming_schedule4 F s = Inl Out_of_range) \<and>
    (candidates s \<noteq> [] \<longrightarrow> (\<exists>s' act. update_siming_schedule4 F s = Inr s' \<and> new_round s act s' \<and> schedule_ready s'))"
proof -
  have s': "ids_ok s" "votes_in_range s" "unat (max_adored_simings (schedule s)) \<le> TAIYI_MAX_SIMINGS"
    "map_of (simings s) 0 = None" "set (scheduled_names (schedule s)) \<subseteq> dom (map_of (simings s))"
    using s by (simp_all add: schedule_ready_def)
  let ?now = "current_virtual_time (schedule s)"
  obtain sel act1 s1 cnt vt pr act s2 where
    e1: "elect_adored (unat (max_adored_simings (schedule s))) (simings_by_adores s) ([], [], s) = Inr (sel, act1, s1)"
    and e2: "elect_timeshare sel (by_schedule_time s1) (length sel, ?now, [], act1, s1) = Inr (cnt, vt, pr, act, s2)"
    and r: "resched s s1" "resched s s2" and pr: "set pr \<subseteq> dom (map_of (simings s2))"
    and act: "distinct act" "length act = min TAIYI_MAX_SIMINGS (length (candidates s))" "set act \<subseteq> fst ` set (candidates s)"
      "take (unat (max_adored_simings (schedule s))) (map fst (candidates s)) = take (unat (max_adored_simings (schedule s))) act"
    by (rule election_result [OF s'(1,3)])
  have wf2: "wf_table (simings s2)" "votes_in_range s2"
    using s'(1,2) resched_wf [OF r(2)] resched_votes [OF r(2)] by (simp_all add: ids_ok_def)
  obtain reset s3 where e3: "advance_processed F vt pr s2 = Inr (reset, s3)" "resched s2 s3"
    using advance_result [OF F wf2(1) pr wf2(2)] by blast
  have r3: "resched s s3" by (rule resched_trans [OF r(2) e3(2)])
  have wf3: "wf_table (simings s3)" "votes_in_range s3"
    using s'(1,2) resched_wf [OF r3] resched_votes [OF r3] by (simp_all add: ids_ok_def)
  obtain s4 where e4: "(if reset then reset_virtual_schedule_time F s3 else Inr s3) = Inr s4"
    and r4: "map (apsnd siming_core) (simings s4) = map (apsnd siming_core) (simings s)"
      "scheduled_names (schedule s4) = scheduled_names (schedule s)"
      "max_adored_simings (schedule s4) = max_adored_simings (schedule s)"
  proof -
    assume *: "\<And>s4. (if reset then reset_virtual_schedule_time F s3 else Inr s3) = Inr s4 \<Longrightarrow>
      map (apsnd siming_core) (simings s4) = map (apsnd siming_core) (simings s) \<Longrightarrow>
      scheduled_names (schedule s4) = scheduled_names (schedule s) \<Longrightarrow>
      max_adored_simings (schedule s4) = max_adored_simings (schedule s) \<Longrightarrow> thesis"
    have c3: "map (apsnd siming_core) (simings s3) = map (apsnd siming_core) (simings s)" using r3 by (auto simp: resched_def)
    show thesis
    proof (cases reset)
      case False
      then show thesis using * [of s3] c3 resched_frame(1) [OF r3] by simp
    next
      case True
      obtain s4 where s4: "reset_virtual_schedule_time F s3 = Inr s4"
        "resched (s3\<lparr>schedule := (schedule s3)\<lparr>current_virtual_time := 0\<rparr>\<rparr>) s4" using reset_result [OF F wf3] by blast
      have "map (apsnd siming_core) (simings s4) = map (apsnd siming_core) (simings s)" using s4(2) c3 by (auto simp: resched_def)
      then show thesis using * [of s4] True s4(1) resched_frame(1) [OF s4(2)] resched_frame(1) [OF r3]
        by (simp add: scheduled_names_def)
    qed
  qed
  have id4: "ids (simings s4) = ids (simings s)"
    using arg_cong [OF r4(1), of "map fst"] by (simp add: ids_def comp_def)
  then have dom4: "dom (map_of (simings s4)) = dom (map_of (simings s))" by (simp add: set_ids [symmetric])
  obtain ws where ws: "scheduled_simings s4 = Inr ws"
    using rmap_get [of "scheduled_names (schedule s4)" s4] s'(5) by (auto simp: scheduled_simings_def r4(2) dom4)
  define mj where "mj = (case majority_from (hardfork_required_simings (schedule s4)) 0 (rev (count_versions ws)) of
      Some v \<Rightarrow> v | None \<Rightarrow> majority_version (schedule s4))"
  define s5 where "s5 = install_schedule act (if reset then 0 else vt) mj
      (s4\<lparr>hardforks := update_next_hardfork (schedule s4) ws (hardforks s4)\<rparr>)"
  have run: "update_siming_schedule4 F s = update_median_siming_props s5"
    using e1 e2 e3(1) e4 ws unfolding update_siming_schedule4_def s5_def mj_def
    by (simp add: resched_frame(1) [OF r(1)] Let_def)
  have le: "length act \<le> TAIYI_MAX_SIMINGS" using act(2) by simp
  have s5: "simings s5 = simings s4" "max_adored_simings (schedule s5) = max_adored_simings (schedule s)"
    "mset (scheduled_names (schedule s5)) = mset (if act = [] then [0] else act)"
    "length (current_shuffled_simings (schedule s5)) = TAIYI_MAX_SIMINGS"
    unfolding s5_def
    by (simp add: install_schedule_def Let_def, simp add: install_schedule_def Let_def r4(3), rule scheduled_names_install [OF le],
      rule scheduled_names_install [OF le])
  have empty: "act = [] \<longleftrightarrow> candidates s = []" using act(2) by (simp add: TAIYI_MAX_SIMINGS_def flip: length_0_conv) linarith
  show ?thesis
  proof (intro conjI impI)
    assume "candidates s = []"
    then have "mset (scheduled_names (schedule s5)) = {#0#}" using empty s5(3) by simp
    then have "scheduled_names (schedule s5) = [0]" by simp
    moreover have "map_of (simings s5) 0 = None"
      using s'(4) arg_cong [OF dom4, of "\<lambda>X. 0 \<in> X"] s5(1) by (simp add: domIff)
    ultimately have "scheduled_simings s5 = Inl Out_of_range"
      unfolding scheduled_simings_def by (intro rmap_get_fails [of 0]) simp_all
    then show "update_siming_schedule4 F s = Inl Out_of_range" by (simp add: run update_median_siming_props_def)
  next
    assume ne: "candidates s \<noteq> []"
    then have m5: "mset (scheduled_names (schedule s5)) = mset act" using empty s5(3) by simp
    then have set5: "set (scheduled_names (schedule s5)) = set act" by (metis set_mset_mset)
    have "fst ` set (candidates s) \<subseteq> dom (map_of (simings s))" by (auto simp: set_candidates dom_map_of_conv_image_fst)
    then have sub: "set (scheduled_names (schedule s5)) \<subseteq> dom (map_of (simings s5))"
      unfolding set5 s5(1) dom4 using act(3) by blast
    obtain us where us: "scheduled_simings s5 = Inr us" using rmap_get [OF sub] by (auto simp: scheduled_simings_def)
    obtain s6 where s6: "update_median_siming_props s5 = Inr s6" "simings s6 = simings s5"
      "scheduled_names (schedule s6) = scheduled_names (schedule s5)"
      "max_adored_simings (schedule s6) = max_adored_simings (schedule s5)"
      "current_shuffled_simings (schedule s6) = current_shuffled_simings (schedule s5)"
      by (simp add: update_median_siming_props_def us Let_def scheduled_names_def)
    have "ids_ok s6 \<and> votes_in_range s6"
    proof -
      have c: "map (apsnd siming_core) (simings s6) = map (apsnd siming_core) (simings s)" using s6(2) s5(1) r4(1) by simp
      have rs: "resched s (s\<lparr>simings := simings s6\<rparr>)" using c by (auto simp: resched_def)
      have "sim_id (siming_core w) = sim_id w" for w by (simp add: siming_core_def)
      then have "map (\<lambda>x. sim_id (snd x)) (simings s6) = map (\<lambda>x. sim_id (snd x)) (simings s)"
        using arg_cong [OF c, of "map (\<lambda>x. sim_id (snd x))"] by (simp add: comp_def)
      then show ?thesis using s'(1,2) resched_wf [OF rs] resched_votes [OF rs] by (simp add: ids_ok_def votes_in_range_def)
    qed
    moreover have "map_of (simings s6) 0 = None"
      using s'(4) arg_cong [OF dom4, of "\<lambda>X. 0 \<in> X"] s5(1) s6(2) by (simp add: domIff)
    ultimately have "schedule_ready s6" using sub s6 s5 s'(3) by (simp add: schedule_ready_def)
    moreover have "new_round s act s6"
      using act empty ne m5 s6 s5 r4(1) by (simp add: new_round_def)
    ultimately show "\<exists>s' act. update_siming_schedule4 F s = Inr s' \<and> new_round s act s' \<and> schedule_ready s'"
      using s6(1) run by auto
  qed
qed

text \<open>C20: a round of simings: when the schedule is updated, the entries of the new schedule are a
  permutation of distinct simings that have a signing key, as many as there are up to 21; the first of
  them are the ones with the most adores, in order of adores and name; nothing but the scheduling
  fields of the simings changes, and the state is again one the next update can start from.\<close>
theorem schedule_update_correct:
  assumes "fc_laws F" "schedule_ready s" "update_siming_schedule4 F s = Inr s'"
  shows "\<exists>act. new_round s act s' \<and> schedule_ready s'"
  using update_schedule_result [OF assms(1,2)] assms(3) by (cases "candidates s = []") auto

text \<open>C29: the update of the schedule, and with it every block whose number is a multiple of 21, goes
  through if and only if some siming still has a signing key; when the last one has lost its key
  the lookup of the empty name throws, and goes on throwing.\<close>
theorem schedule_update_live:
  assumes "fc_laws F" "schedule_ready s" "head_block_num s mod of_nat TAIYI_MAX_SIMINGS = 0"
  shows "is_ok (update_siming_schedule F s) \<longleftrightarrow> (\<exists>n w. map_of (simings s) n = Some w \<and> signing_key w \<noteq> 0)"
proof -
  have "candidates s \<noteq> [] \<longleftrightarrow> (\<exists>n w. map_of (simings s) n = Some w \<and> signing_key w \<noteq> 0)"
    using set_candidates [of s] wf_map_of_iff [of "simings s"] assms(2)
    by (auto simp: schedule_ready_def ids_ok_def simp flip: set_empty)
  then show ?thesis using update_schedule_result [OF assms(1,2)] assms(3)
    by (auto simp: update_siming_schedule_def)
qed

definition two_simings :: "public_key_type \<Rightarrow> chain" where
  "two_simings k = sample_chain\<lparr>
     simings := [(n_alice, new_siming_object\<lparr>sim_id := 1, adores := 5, signing_key := k\<rparr>), (n_carol, new_siming_object\<lparr>adores := 1000\<rparr>)],
     gpo := sample_gpo\<lparr>head_block_number := 42\<rparr>\<rparr>"

lemma two_simings_ready: "schedule_ready (two_simings k)"
  using n_distinct
  by (auto simp: schedule_ready_def ids_ok_def votes_in_range_def two_simings_def sample_chain_def sample_schedule_def in_i64_def
      scheduled_names_def new_siming_object_def TAIYI_MAX_SIMINGS_def n_defs split: if_splits)

lemma schedule_update_live_witness:
  "is_ok (update_siming_schedule fc_ref (two_simings 7)) \<and> \<not> is_ok (update_siming_schedule fc_ref (two_simings 0))"
proof -
  have "head_block_num (two_simings k) mod of_nat TAIYI_MAX_SIMINGS = 0" for k
    by (simp add: two_simings_def head_block_num_def TAIYI_MAX_SIMINGS_def)
  note live = schedule_update_live [OF fc_ref_laws two_simings_ready this]
  have "map_of (simings (two_simings 7)) n_alice = Some (new_siming_object\<lparr>sim_id := 1, adores := 5, signing_key := 7\<rparr>)"
    by (simp add: two_simings_def)
  moreover have "signing_key w = 0" if "map_of (simings (two_simings 0)) n = Some w" for n w
    using that by (auto simp: two_simings_def new_siming_object_def split: if_splits)
  moreover have "signing_key (new_siming_object\<lparr>sim_id := 1, adores := 5, signing_key := 7\<rparr>) \<noteq> 0" by simp
  ultimately show ?thesis unfolding live by metis
qed

lemma two_simings_candidates: "candidates (two_simings 7) = [(n_alice, new_siming_object\<lparr>sim_id := 1, adores := 5, signing_key := 7\<rparr>)]"
  by (simp add: candidates_def simings_by_adores_def two_simings_def new_siming_object_def)

lemma schedule_update_correct_witness:
  "\<exists>s' act. update_siming_schedule4 fc_ref (two_simings 7) = Inr s' \<and> new_round (two_simings 7) act s'"
proof -
  obtain s' where s': "update_siming_schedule4 fc_ref (two_simings 7) = Inr s'"
    using update_schedule_result [OF fc_ref_laws two_simings_ready [of 7]] two_simings_candidates by auto
  then show ?thesis using schedule_update_correct [OF fc_ref_laws two_simings_ready s'] by blast
qed

end
