(* ===== verification/Block_Upkeep.thy ===== *)
theory Block_Upkeep
  imports Evaluators Siming_Schedule
begin

section \<open>What every block does after its transactions\<close>

text \<open>
  The periodic part of \<open>database::_apply_block\<close> in chain/database.cpp: due withdrawals of qi, the
  inflation and its distribution, the queues of recoveries, declined adoring rights and returned
  delegations, and the hardforks. \<open>drain\<close> is the loop the queues share: it takes the first row of
  an index as long as that row is due.
\<close>

subsection \<open>Queues in the order of a key\<close>

function drain ::
  "('k \<times> 'v \<Rightarrow> 'o::linorder) \<Rightarrow> ('k \<times> 'v \<Rightarrow> bool) \<Rightarrow> ('k \<times> 'v \<Rightarrow> 's \<Rightarrow> 's res) \<Rightarrow> ('k, 'v) tbl \<Rightarrow> 's \<Rightarrow>
     (('k, 'v) tbl \<times> 's) res" where
  "drain ord due step t s =
     (case sort_key ord t of
        [] \<Rightarrow> Inr (t, s)
      | row # rows \<Rightarrow>
          if due row then rbind (step row s) (drain ord due step (tdel (fst row) t)) else Inr (t, s))"
  by pat_completeness auto
termination
proof (relation "measure (\<lambda>(ord, due, step, t, s). length t)")
  fix ord :: "'k \<times> 'v \<Rightarrow> 'o::linorder" and due step and t :: "('k, 'v) tbl" and s row rows s'
  assume "sort_key ord t = row # rows"
  then have "row \<in> set t" by (metis list.set_intros(1) set_sort)
  then have "length (filter (\<lambda>(j, _). j \<noteq> fst row) t) < length t"
    by (intro length_filter_less [of row]) auto
  then show "((ord, due, step, tdel (fst row) t, s'), ord, due, step, t, s) \<in> measure (\<lambda>(ord, due, step, t, s). length t)"
    by (simp add: tdel_def)
qed simp

declare drain.simps [simp del]

definition account_recovery_processing :: "chain \<Rightarrow> chain res" where
  "account_recovery_processing s =
     (let now = head_block_time s in
      rbind (drain (\<lambda>(n, r). (rec_expires r, n)) (\<lambda>(n, r). rec_expires r \<le> now) (\<lambda>_. Inr) (recovery_requests s) s) (\<lambda>(t, s).
      let s = s\<lparr>recovery_requests := t\<rparr> in
      rbind (drain fst (\<lambda>(i, h). last_valid_time h + TAIYI_OWNER_AUTH_RECOVERY_PERIOD < now) (\<lambda>_. Inr) (owner_history s) s) (\<lambda>(t, s).
      let s = s\<lparr>owner_history := t\<rparr> in
      rbind (drain (\<lambda>(n, c). (effective_on c, n)) (\<lambda>(n, c). effective_on c \<le> now)
               (\<lambda>(n, c). modify_account n (\<lambda>a. Inr (a\<lparr>recovery_account := chg_recovery_account c\<rparr>)))
               (change_requests s) s) (\<lambda>(t, s).
      Inr (s\<lparr>change_requests := t\<rparr>)))))"

definition decline_adoring_rights_of :: "fc_lib \<Rightarrow> account_name_type \<Rightarrow> chain \<Rightarrow> chain res" where
  "decline_adoring_rights_of F n s =
     rbind (get_account s n) (\<lambda>account.
     rbind (own_levels F account) (\<lambda>delta.
     rbind (adjust_proxied_siming_adores_array F n delta s) (\<lambda>s.
     rbind (clear_siming_adores n s) (\<lambda>s.
     modify_account n (\<lambda>a. Inr (a\<lparr>can_adore := False, proxy := 0\<rparr>)) s))))"

definition process_decline_adoring_rights :: "fc_lib \<Rightarrow> chain \<Rightarrow> chain res" where
  "process_decline_adoring_rights F s =
     (let now = head_block_time s in
      rbind (drain (\<lambda>(n, effective). (effective, n)) (\<lambda>(n, effective). effective \<le> now)
               (\<lambda>(n, _). decline_adoring_rights_of F n) (decline_requests s) s) (\<lambda>(t, s).
      Inr (s\<lparr>decline_requests := t\<rparr>)))"

definition clear_expired_delegations :: "fc_lib \<Rightarrow> chain \<Rightarrow> chain res" where
  "clear_expired_delegations F s =
     (let now = head_block_time s in
      rbind (drain (\<lambda>(i, d). (exp_expiration d, i)) (\<lambda>(i, d). exp_expiration d < now)
               (\<lambda>(i, d) s. modify_account (exp_delegator d) (\<lambda>a.
                  rbind (asset_sub F (delegated_qi a) (exp_qi d)) (\<lambda>x. Inr (a\<lparr>delegated_qi := x\<rparr>)))
                  (push_vop (Return_qi_delegation (exp_delegator d) (exp_qi d)) s))
               (delegation_expirations s) s) (\<lambda>(t, s).
      Inr (s\<lparr>delegation_expirations := t\<rparr>)))"

subsection \<open>Withdrawals of qi\<close>

text \<open>The qi due at this step: the rate, or the rest at the last step, but never more than there is.\<close>

definition withdrawal_due :: "fc_lib \<Rightarrow> account_object \<Rightarrow> int res" where
  "withdrawal_due F a =
     rbind (s_sub F (to_withdraw a) (withdrawn a)) (\<lambda>rest.
     if rest < amount (qi_withdraw_rate a)
     then rbind (s_mod F (to_withdraw a) (amount (qi_withdraw_rate a))) (\<lambda>m. Inr (min (amount (qi a)) m))
     else Inr (min (amount (qi a)) (amount (qi_withdraw_rate a))))"

definition routes_from :: "chain \<Rightarrow> account_name_type \<Rightarrow> (account_name_type \<times> withdraw_qi_route_object) list" where
  "routes_from s n = map (\<lambda>((f, t), r). (t, r)) (filter (\<lambda>((f, t), r). f = n \<and> 0 < t) (routes s))"

definition route_deposit :: "fc_lib \<Rightarrow> int \<Rightarrow> withdraw_qi_route_object \<Rightarrow> int res" where
  "route_deposit F w r =
     rbind (u_div F (u_mul F (u_of_int F w) (ucast (route_percent r))) (ucast TAIYI_100_PERCENT)) (\<lambda>q.
     rbind (u_to_u64 F q) (\<lambda>x. Inr (i64_of_u64 x)))"

text \<open>The two passes over the routes, with the sum deposited so far: first as qi, then as YANG.\<close>

definition deposit_as_qi ::
  "fc_lib \<Rightarrow> account_name_type \<Rightarrow> int \<Rightarrow> account_name_type \<times> withdraw_qi_route_object \<Rightarrow> int \<times> chain \<Rightarrow> (int \<times> chain) res" where
  "deposit_as_qi F n w = (\<lambda>(t, r) (sum, s).
     if auto_vest r then
       rbind (route_deposit F w r) (\<lambda>d.
       rbind (s_add F sum d) (\<lambda>sum.
       if d > 0 then
         rbind (get_account s t) (\<lambda>_.
         rbind (modify_account t (\<lambda>a. rbind (s_add F (amount (qi a)) d) (\<lambda>x. Inr (a\<lparr>qi := (qi a)\<lparr>amount := x\<rparr>\<rparr>)))
                  (push_vop (Fill_qi_withdraw n t (qis d) (qis d)) s)) (\<lambda>s.
         rbind (adjust_proxied_siming_adores F t d s) (\<lambda>s. Inr (sum, s))))
       else Inr (sum, s)))
     else Inr (sum, s))"

definition deposit_as_yang ::
  "fc_lib \<Rightarrow> account_name_type \<Rightarrow> int \<Rightarrow> account_name_type \<times> withdraw_qi_route_object \<Rightarrow> int \<times> asset \<times> chain \<Rightarrow>
     (int \<times> asset \<times> chain) res" where
  "deposit_as_yang F n w = (\<lambda>(t, r) (sum, total_yang, s).
     if \<not> auto_vest r then
       rbind (get_account s t) (\<lambda>_.
       rbind (route_deposit F w r) (\<lambda>d.
       rbind (s_add F sum d) (\<lambda>sum.
       rbind (asset_at_price F (qis d) TAIYI_QI_SHARE_PRICE) (\<lambda>conv.
       rbind (asset_add F total_yang conv) (\<lambda>total_yang.
       if d > 0 then
         rbind (modify_account t (\<lambda>a. rbind (asset_add F (balance a) conv) (\<lambda>x. Inr (a\<lparr>balance := x\<rparr>)))
                  (push_vop (Fill_qi_withdraw n t (qis d) conv) s)) (\<lambda>s.
         rbind (modify_gpo (\<lambda>o'. rbind (s_sub F (amount (total_qi o')) d)
                  (\<lambda>x. Inr (o'\<lparr>total_qi := (total_qi o')\<lparr>amount := x\<rparr>\<rparr>))) s) (\<lambda>s.
         Inr (sum, total_yang, s)))
       else Inr (sum, total_yang, s))))))
     else Inr (sum, total_yang, s))"

definition withdraw_rest :: "fc_lib \<Rightarrow> int \<Rightarrow> asset \<Rightarrow> account_object \<Rightarrow> account_object res" where
  "withdraw_rest F w conv a =
     rbind (s_sub F (amount (qi a)) w) (\<lambda>q.
     rbind (asset_add F (balance a) conv) (\<lambda>b.
     rbind (s_add F (withdrawn a) w) (\<lambda>done.
     let a = a\<lparr>qi := (qi a)\<lparr>amount := q\<rparr>, balance := b, withdrawn := done\<rparr>
     in Inr (if withdrawn a \<ge> to_withdraw a \<or> amount (qi a) = 0
             then a\<lparr>qi_withdraw_rate := (qi_withdraw_rate a)\<lparr>amount := 0\<rparr>, next_qi_withdrawal_time := TIME_MAX\<rparr>
             else a\<lparr>next_qi_withdrawal_time := next_qi_withdrawal_time a + TAIYI_QI_WITHDRAW_INTERVAL_SECONDS\<rparr>))))"

definition process_withdrawal :: "fc_lib \<Rightarrow> account_name_type \<Rightarrow> chain \<Rightarrow> chain res" where
  "process_withdrawal F n s =
     rbind (get_account s n) (\<lambda>from_account.
     rbind (withdrawal_due F from_account) (\<lambda>w.
     rbind (rfold (deposit_as_qi F n w) (routes_from s n) (0, s)) (\<lambda>(as_qi, s).
     rbind (rfold (deposit_as_yang F n w) (routes_from s n) (0, yang 0, s)) (\<lambda>(as_yang, _, s).
     rbind (s_sub F w as_yang) (\<lambda>x.
     rbind (s_sub F x as_qi) (\<lambda>to_convert.
     rguard (to_convert \<ge> 0) (Assert ''Deposited more qi than were supposed to be withdrawn'')
     (rbind (asset_at_price F (qis to_convert) TAIYI_QI_SHARE_PRICE) (\<lambda>conv.
      rbind (modify_account n (withdraw_rest F w conv)
               (push_vop (Fill_qi_withdraw n n (qis to_convert) conv) s)) (\<lambda>s.
      rbind (modify_gpo (\<lambda>o'. rbind (s_sub F (amount (total_qi o')) to_convert)
               (\<lambda>x. Inr (o'\<lparr>total_qi := (total_qi o')\<lparr>amount := x\<rparr>\<rparr>))) s) (\<lambda>s.
      if w > 0 then rbind (s_neg F w) (\<lambda>d. adjust_proxied_siming_adores F n d s) else Inr s))))))))))"

text \<open>
  The loop over the index by next withdrawal time and name. The successor of the current account is
  taken before the account is changed, so an account that is moved on by a week comes up again in the
  same loop when it is still due and the iterator has not passed the place it moved to.
\<close>

definition due_keys :: "chain \<Rightarrow> (time_point_sec \<times> account_name_type) list" where
  "due_keys s = sort (map (\<lambda>(n, a). (next_qi_withdrawal_time a, n)) (accounts s))"

definition next_due :: "chain \<Rightarrow> (time_point_sec \<times> account_name_type) \<Rightarrow> (time_point_sec \<times> account_name_type) option" where
  "next_due s k = find (\<lambda>k'. k < k') (due_keys s)"

definition due_rank :: "time_point_sec \<Rightarrow> (time_point_sec \<times> account_name_type) option \<Rightarrow> nat" where
  "due_rank now k = (case k of None \<Rightarrow> 0 | Some (t, n) \<Rightarrow> (Suc (Suc now) - t) * 2 ^ 128 - unat n)"

lemma due_rank_less:
  assumes "t \<le> now" "next_due s (t, n) = k"
  shows "due_rank now k < due_rank now (Some (t, n))"
proof -
  have n: "unat m < 2 ^ 128" for m :: account_name_type using unsigned_less [of m] by simp
  have pos: "0 < due_rank now (Some (t, n))" using assms(1) n [of n] by (simp add: due_rank_def)
  show ?thesis
  proof (cases k)
    case None
    then show ?thesis using pos by (simp add: due_rank_def)
  next
    case (Some k')
    obtain t' n' where k': "k' = (t', n')" by (cases k')
    have "(t, n) < k'" using assms(2) Some by (auto simp: next_due_def find_Some_iff)
    then have "t < t' \<or> t = t' \<and> n < n'" unfolding k' by (auto simp: le_less)
    then consider "t < t'" | "t = t'" "n < n'" by blast
    then show ?thesis
    proof cases
      case 1
      then have "Suc (Suc (Suc now) - t') \<le> Suc (Suc now) - t" using assms(1) by simp
      then have "Suc (Suc (Suc now) - t') * 2 ^ 128 \<le> (Suc (Suc now) - t) * 2 ^ 128" by (rule mult_le_mono1)
      then show ?thesis using n [of n] Some k' by (simp add: due_rank_def)
    next
      case 2
      have "2 ^ 128 \<le> (Suc (Suc now) - t) * 2 ^ 128" using assms(1) by simp
      then show ?thesis using 2 n [of n'] Some k' by (simp add: due_rank_def word_less_nat_alt)
    qed
  qed
qed

function withdraw_loop ::
  "fc_lib \<Rightarrow> time_point_sec \<Rightarrow> (time_point_sec \<times> account_name_type) option \<Rightarrow> chain \<Rightarrow> chain res" where
  "withdraw_loop F now None s = Inr s"
| "withdraw_loop F now (Some (t, n)) s =
     (if t \<le> now then rbind (process_withdrawal F n s) (withdraw_loop F now (next_due s (t, n))) else Inr s)"
  by pat_completeness auto
termination
  by (relation "measure (\<lambda>(F, now, k, s). due_rank now k)") (auto simp: due_rank_less)

definition process_qi_withdrawals :: "fc_lib \<Rightarrow> chain \<Rightarrow> chain res" where
  "process_qi_withdrawals F s =
     withdraw_loop F (head_block_time s) (case due_keys s of [] \<Rightarrow> None | k # _ \<Rightarrow> Some k) s"

subsection \<open>Inflation\<close>

definition TAIYI_BLOCKS_PER_YEAR :: int where "TAIYI_BLOCKS_PER_YEAR = 365 * 24 * 60 * 60 div 3"
definition TAIYI_MIN_REWARD_FUND :: int where "TAIYI_MIN_REWARD_FUND = 1000"
definition TAIYI_INFLATION_RATE_START_PERCENT :: int where "TAIYI_INFLATION_RATE_START_PERCENT = 1000"
definition TAIYI_INFLATION_RATE_STOP_PERCENT :: int where "TAIYI_INFLATION_RATE_STOP_PERCENT = 100"
definition TAIYI_INFLATION_NARROWING_PERIOD :: u32 where "TAIYI_INFLATION_NARROWING_PERIOD = 233600"

definition current_inflation_rate :: "chain \<Rightarrow> int" where
  "current_inflation_rate s =
     max (TAIYI_INFLATION_RATE_START_PERCENT - uint (head_block_num s div TAIYI_INFLATION_NARROWING_PERIOD))
         TAIYI_INFLATION_RATE_STOP_PERCENT"

definition percent_of :: "fc_lib \<Rightarrow> int \<Rightarrow> u16 \<Rightarrow> int res" where
  "percent_of F x p =
     rbind (s_mul F x (uint p)) (\<lambda>y. rbind (s_div F y (uint TAIYI_100_PERCENT)) (\<lambda>z. Inr (max z TAIYI_MIN_REWARD_FUND)))"

text \<open>
  The code takes a copy of the global properties and passes the copy to \<open>modify\<close>. What the container
  does with an object that is not one of its own is not in the repository (the containers are a
  submodule), so it is the parameter \<open>U\<close>.
\<close>

type_synonym stray_modify =
  "(dynamic_global_property_object \<Rightarrow> dynamic_global_property_object res) \<Rightarrow> chain \<Rightarrow> chain res"

definition pay_reward_fund ::
  "fc_lib \<Rightarrow> stray_modify \<Rightarrow> int \<Rightarrow> int \<Rightarrow> nat \<times> reward_fund_object \<Rightarrow> int \<times> int \<times> chain \<Rightarrow> (int \<times> int \<times> chain) res" where
  "pay_reward_fund F U reward_yang reward_qi_fund = (\<lambda>(i, rf) (used_yang, used_qi_fund, s).
     rbind (percent_of F reward_yang (percent_content_rewards rf)) (\<lambda>ryang.
     rbind (percent_of F reward_qi_fund (percent_content_rewards rf)) (\<lambda>rqiyang.
     rbind (asset_at_price F (yang rqiyang) TAIYI_QI_SHARE_PRICE) (\<lambda>reward_qi.
     rbind (asset_add F (reward_balance rf) (yang ryang)) (\<lambda>b.
     rbind (asset_add F (fund_qi_balance rf) reward_qi) (\<lambda>q.
     let s = s\<lparr>reward_funds := tput i (rf\<lparr>reward_balance := b, fund_qi_balance := q, fund_last_update := head_block_time s\<rparr>)
                 (reward_funds s)\<rparr> in
     rbind (U (\<lambda>o'. rbind (asset_add F (pending_rewarded_qi o') reward_qi) (\<lambda>x. Inr (o'\<lparr>pending_rewarded_qi := x\<rparr>))) s) (\<lambda>s.
     rbind (s_add F used_yang ryang) (\<lambda>used_yang.
     rbind (s_add F used_qi_fund rqiyang) (\<lambda>used_qi_fund.
     rguard (used_yang \<le> reward_yang) (Assert ''used_rewards_yang <= reward_yang'')
     (rguard (used_qi_fund \<le> reward_qi_fund) (Assert ''used_rewards_qi_fund <= reward_qi_fund'')
     (Inr (used_yang, used_qi_fund, s))))))))))))"

definition pay_reward_funds :: "fc_lib \<Rightarrow> stray_modify \<Rightarrow> int \<Rightarrow> int \<Rightarrow> chain \<Rightarrow> (int \<times> int \<times> chain) res" where
  "pay_reward_funds F U reward_yang reward_qi_fund s =
     rfold (pay_reward_fund F U reward_yang reward_qi_fund) (reward_funds s) (0, 0, s)"

definition pay_siming :: "fc_lib \<Rightarrow> int \<Rightarrow> chain \<Rightarrow> (asset \<times> chain) res" where
  "pay_siming F siming_reward s =
     (let owner = current_siming (gpo s) in
      rbind (get_siming s owner) (\<lambda>_.
      rbind (get_account s owner) (\<lambda>siming_account.
      if head_block_num s \<ge> TAIYI_START_ADORING_BLOCK \<or> amount (qi siming_account) = 0
      then create_qi2 F owner (yang siming_reward) False (\<lambda>qi. push_vop (Producer_reward owner qi)) s
      else rbind (modify_account owner (\<lambda>a. rbind (asset_add F (balance a) (yang siming_reward))
                    (\<lambda>x. Inr (a\<lparr>balance := x\<rparr>))) (push_vop (Producer_reward owner (yang siming_reward)) s))
             (\<lambda>s. Inr (yang siming_reward, s)))))"

definition process_funds :: "fc_lib \<Rightarrow> stray_modify \<Rightarrow> chain \<Rightarrow> chain res" where
  "process_funds F U s =
     rbind (s_mul F (amount (current_supply (gpo s))) (current_inflation_rate s)) (\<lambda>p.
     rbind (s_div F p (uint TAIYI_100_PERCENT * TAIYI_BLOCKS_PER_YEAR)) (\<lambda>new_yang.
     rbind (percent_of F new_yang (content_reward_yang_percent (gpo s))) (\<lambda>content_reward_yang.
     rbind (percent_of F new_yang (content_reward_qi_fund_percent (gpo s))) (\<lambda>content_reward_qi_fund.
     rbind (pay_reward_funds F U content_reward_yang content_reward_qi_fund s)
       (\<lambda>(content_reward_yang, content_reward_qi_fund, s).
     rbind (s_sub F new_yang content_reward_yang) (\<lambda>x.
     rbind (s_sub F x content_reward_qi_fund) (\<lambda>y.
     let siming_reward = max y TAIYI_MIN_REWARD_FUND in
     rbind (s_add F content_reward_yang content_reward_qi_fund) (\<lambda>z.
     rbind (s_add F z siming_reward) (\<lambda>new_yang.
     rbind (pay_siming F siming_reward s) (\<lambda>(reward, s).
     modify_gpo (\<lambda>p.
       rbind (asset_add F (current_supply p) (yang new_yang)) (\<lambda>supply.
       rbind (if symbol reward = QI_SYMBOL then Inr reward else asset_at_price F reward TAIYI_QI_SHARE_PRICE) (\<lambda>r.
       Inr (p\<lparr>current_supply := supply, last_siming_production_reward := r\<rparr>)))) s))))))))))"

subsection \<open>Hardforks\<close>

text \<open>The table of times and versions; \<open>TAIYI_NUM_HARDFORKS\<close> is one less than its length.\<close>

record hardfork_versions =
  hf_times :: "time_point_sec list"
  hf_versions :: "u32 list"

definition num_hardforks :: "hardfork_versions \<Rightarrow> nat" where
  "num_hardforks V = length (hf_versions V) - 1"

definition has_hardfork :: "chain \<Rightarrow> nat \<Rightarrow> bool" where
  "has_hardfork s hardfork \<longleftrightarrow> hardfork < length (processed_hardforks (hardforks s))"

definition get_hardfork :: "chain \<Rightarrow> u32" where
  "get_hardfork s = of_nat (length (processed_hardforks (hardforks s))) - 1"

definition apply_hardfork :: "hardfork_versions \<Rightarrow> nat \<Rightarrow> chain \<Rightarrow> chain res" where
  "apply_hardfork V hardfork s =
     (let hfp = hardforks s in
      rguard (hardfork = unat (last_hardfork hfp + 1)) (Assert ''Hardfork being applied out of order'')
      (rguard (length (processed_hardforks hfp) = hardfork) (Assert ''Hardfork being applied out of order'')
      (let hfp = hfp\<lparr>processed_hardforks := processed_hardforks hfp @ [hf_times V ! hardfork],
                     last_hardfork := of_nat hardfork, current_hardfork_version := hf_versions V ! hardfork\<rparr>
       in rguard (processed_hardforks hfp ! unat (last_hardfork hfp) = hf_times V ! unat (last_hardfork hfp))
            (Assert ''Hardfork processing failed sanity check...'')
            (Inr ((push_vop (Hardfork_vop (of_nat hardfork)) s)\<lparr>hardforks := hfp\<rparr>)))))"

lemma apply_hardfork_last:
  "apply_hardfork V n s = Inr s' \<Longrightarrow> last_hardfork (hardforks s') = of_nat n \<and> n = unat (last_hardfork (hardforks s) + 1)"
  by (auto simp: apply_hardfork_def Let_def)

lemma rbind_cong [fundef_cong]: "m = m' \<Longrightarrow> (\<And>x. m' = Inr x \<Longrightarrow> f x = f' x) \<Longrightarrow> rbind m f = rbind m' f'"
  by (cases m') simp_all

function process_hardforks :: "hardfork_versions \<Rightarrow> chain \<Rightarrow> chain res" where
  "process_hardforks V s =
     (let hfp = hardforks s; last = unat (last_hardfork hfp) in
      if hf_versions V ! last < next_hardfork hfp \<and> next_hardfork_time hfp \<le> head_block_time s then
        if last < num_hardforks V then rbind (apply_hardfork V (Suc last) s) (process_hardforks V)
        else Inl Unknown_hardfork
      else Inr s)"
  by pat_completeness auto
termination
proof (relation "measure (\<lambda>(V, s). num_hardforks V - unat (last_hardfork (hardforks s)))")
  fix V s hfp last s'
  assume "hfp = hardforks s" "last = unat (last_hardfork hfp)" "last < num_hardforks V"
    and "apply_hardfork V (Suc last) s = Inr s'"
  then have "unat (last_hardfork (hardforks s')) = Suc last"
    using apply_hardfork_last [of V "Suc last" s s'] by (simp add: add.commute)
  then show "((V, s'), V, s) \<in> measure (\<lambda>(V, s). num_hardforks V - unat (last_hardfork (hardforks s)))"
    using \<open>hfp = hardforks s\<close> \<open>last = unat (last_hardfork hfp)\<close> \<open>last < num_hardforks V\<close> by simp
qed simp

declare process_hardforks.simps [simp del]

definition set_hardfork :: "hardfork_versions \<Rightarrow> nat \<Rightarrow> bool \<Rightarrow> chain \<Rightarrow> chain res" where
  "set_hardfork V hardfork apply_now s =
     rfold (\<lambda>i s.
       let s = s\<lparr>hardforks := (hardforks s)\<lparr>next_hardfork := hf_versions V ! i, next_hardfork_time := head_block_time s\<rparr>\<rparr>
       in if apply_now then apply_hardfork V i s else Inr s)
     [Suc (unat (last_hardfork (hardforks s)))..<Suc (min hardfork (num_hardforks V))] s"

end
