(* ===== verification/Nfa.thy ===== *)
theory Nfa
  imports Ledger Block
begin

section \<open>NFAs\<close>

text \<open>
  The parts of chain/database_nfa.cpp that need no contract: balances and materials of an NFA, its five
  phases, its owner and the owners of the NFAs inside it, and the payment of feigang by an NFA of
  chain/database_contract.cpp. \<open>i64\<close> is the value of an \<open>int64_t\<close> expression whose exact result may not
  fit: the language leaves that undefined, the machine keeps the low 64 bits.
\<close>

definition i64 :: "int \<Rightarrow> int" where
  "i64 x = sint (word_of_int x :: u64)"

lemma i64_small [simp]: "in_i64 x \<Longrightarrow> i64 x = x"
  by (simp add: i64_def in_i64_def sint_sbintrunc' signed_take_bit_int_eq_self)

lemma in_i64_i64 [simp]: "in_i64 (i64 x)"
proof -
  have "- (2 ^ 63) \<le> sint (word_of_int x :: u64)" using sint_ge [of "word_of_int x :: u64"] by simp
  moreover have "sint (word_of_int x :: u64) < 2 ^ 63" using sint_lt [of "word_of_int x :: u64"] by simp
  ultimately show ?thesis by (simp add: i64_def in_i64_def)
qed

subsection \<open>Access\<close>

definition get_nfa :: "chain \<Rightarrow> nat \<Rightarrow> nfa_object res" where
  "get_nfa s i = (case map_of (nfas s) i of Some x \<Rightarrow> Inr x | None \<Rightarrow> Inl Out_of_range)"

definition put_nfa :: "nat \<Rightarrow> nfa_object \<Rightarrow> chain \<Rightarrow> chain" where
  "put_nfa i x s = s\<lparr>nfas := tput i x (nfas s)\<rparr>"

definition modify_nfa :: "nat \<Rightarrow> (nfa_object \<Rightarrow> nfa_object res) \<Rightarrow> chain \<Rightarrow> chain res" where
  "modify_nfa i f s = rbind (get_nfa s i) (\<lambda>x. rbind (f x) (\<lambda>x. Inr (put_nfa i x s)))"

definition get_nfa_material :: "chain \<Rightarrow> nat \<Rightarrow> nfa_material_object res" where
  "get_nfa_material s i = (case map_of (nfa_materials s) i of Some m \<Rightarrow> Inr m | None \<Rightarrow> Inl Out_of_range)"

text \<open>Accounts are kept by name; this is \<open>get<account_object, by_id>\<close>, which returns the name here.\<close>

definition account_of_id :: "chain \<Rightarrow> nat \<Rightarrow> account_name_type res" where
  "account_of_id s i =
     (case find (\<lambda>(n, a). acc_id a = i) (accounts s) of Some (n, a) \<Rightarrow> Inr n | None \<Rightarrow> Inl Out_of_range)"

lemma get_nfa_Inr [simp]: "get_nfa s i = Inr x \<longleftrightarrow> map_of (nfas s) i = Some x"
  by (simp add: get_nfa_def split: option.split)

lemma get_nfa_material_Inr [simp]: "get_nfa_material s i = Inr m \<longleftrightarrow> map_of (nfa_materials s) i = Some m"
  by (simp add: get_nfa_material_def split: option.split)

subsection \<open>Balances\<close>

definition get_nfa_balance :: "chain \<Rightarrow> nat \<Rightarrow> nfa_object \<Rightarrow> asset_symbol_type \<Rightarrow> asset" where
  "get_nfa_balance s i nfa sy =
     (if sy = TAIYI_ASSET_NUM_QI then nfa_qi nfa
      else case map_of (nfa_balances s) (i, sy) of None \<Rightarrow> mk_asset 0 sy | Some liquid \<Rightarrow> liquid)"

definition adjust_nfa_regular :: "fc_lib \<Rightarrow> nat \<Rightarrow> asset \<Rightarrow> chain \<Rightarrow> chain res" where
  "adjust_nfa_regular F i delta s =
     rbind (is_qi (symbol delta)) (\<lambda>q.
     rguard (\<not> q) (Assert ''Qi is not go there.'')
     (case map_of (nfa_balances s) (i, symbol delta) of
        None \<Rightarrow>
          rguard (amount delta \<ge> 0) (Assert ''Insufficient FA funds'')
          (if amount delta = 0 then Inr s
           else rbind (asset_add F (mk_asset 0 (symbol delta)) delta) (\<lambda>x.
                Inr (s\<lparr>nfa_balances := tput (i, symbol delta) x (nfa_balances s)\<rparr>)))
      | Some liquid \<Rightarrow>
          rbind (asset_add F liquid delta) (\<lambda>x.
          rguard (amount x \<ge> 0) (Assert ''Insufficient Assets funds'')
          (if amount x = 0 then Inr (s\<lparr>nfa_balances := tdel (i, symbol delta) (nfa_balances s)\<rparr>)
           else Inr (s\<lparr>nfa_balances := tput (i, symbol delta) x (nfa_balances s)\<rparr>)))))"

definition adjust_nfa_balance :: "fc_lib \<Rightarrow> nat \<Rightarrow> asset \<Rightarrow> chain \<Rightarrow> chain res" where
  "adjust_nfa_balance F i delta s =
     rbind (get_nfa s i) (\<lambda>nfa.
     rbind (if amount delta < 0 then
              rbind (asset_neg F delta) (\<lambda>required.
              rbind (asset_cmp Ge (get_nfa_balance s i nfa (symbol delta)) required) (\<lambda>b.
              rguard b (Assert ''NFA does not have sufficient assets for balance adjustment'') (Inr ())))
            else Inr ()) (\<lambda>_.
     if symbol delta = TAIYI_ASSET_NUM_QI
     then modify_nfa i (\<lambda>x. rbind (asset_add F (nfa_qi x) delta) (\<lambda>q. Inr (x\<lparr>nfa_qi := q\<rparr>))) s
     else adjust_nfa_regular F i delta s))"

text \<open>The overload of \<open>reward_feigang\<close> for an NFA that pays: its qi is no adores of its owner.\<close>

definition reward_feigang_nfa :: "fc_lib \<Rightarrow> account_name_type \<Rightarrow> nat \<Rightarrow> asset \<Rightarrow> chain \<Rightarrow> chain res" where
  "reward_feigang_nfa F to i feigang s =
     rguard (symbol feigang = QI_SYMBOL) (Assert ''feigang.symbol == QI_SYMBOL'')
     (rguard (amount feigang > 0) (Assert ''feigang.amount.value > 0'')
     (rbind (asset_neg F feigang) (\<lambda>neg.
      rbind (adjust_nfa_balance F i neg s) (\<lambda>s.
      rbind (get_nfa s i) (\<lambda>nfa.
      rbind (account_of_id s (owner_account nfa)) (\<lambda>owner.
      rbind (modify_reward_balance F to (yang 0) (qis 0) feigang False
               (push_vop (Reward_feigang owner (Some i) to feigang) s)) (\<lambda>s.
      modify_gpo (\<lambda>props.
        rbind (asset_add F (pending_rewarded_feigang props) feigang) (\<lambda>x.
        rbind (asset_sub F (total_qi props) feigang) (\<lambda>y.
        Inr (props\<lparr>pending_rewarded_feigang := x, total_qi := y\<rparr>)))) s)))))))"

subsection \<open>The hash\<close>

text \<open>FNV-1a of the four bytes of a number, lowest first.\<close>

definition fnv_byte :: "u8 \<Rightarrow> u32 \<Rightarrow> u32" where
  "fnv_byte b h = (ucast b XOR h) * 0x01000193"

definition hasher_hash :: "u32 \<Rightarrow> u32" where
  "hasher_hash x =
     fnv_byte (ucast (drop_bit 24 x)) (fnv_byte (ucast (drop_bit 16 x)) (fnv_byte (ucast (drop_bit 8 x))
       (fnv_byte (ucast x) 0x811C9DC5)))"

text \<open>The last word of a block id, which seeds what is drawn at random.\<close>

definition id_seed :: "block_id \<Rightarrow> u32" where
  "id_seed i = ucast (id_hash i)"

subsection \<open>Five phases\<close>

text \<open>The materials gold, wood, fabric, herb and food stand for metal, wood, water, fire and earth.\<close>

record phases =
  ph_metal :: int
  ph_wood :: int
  ph_water :: int
  ph_fire :: int
  ph_earth :: int

definition phases_of :: "nfa_material_object \<Rightarrow> phases" where
  "phases_of m = \<lparr>ph_metal = amount (mat_gold m), ph_wood = amount (mat_wood m), ph_water = amount (mat_fabric m),
     ph_fire = amount (mat_herb m), ph_earth = amount (mat_food m)\<rparr>"

definition phase_list :: "phases \<Rightarrow> int list" where
  "phase_list p = [ph_metal p, ph_wood p, ph_water p, ph_fire p, ph_earth p]"

text \<open>The loop over the five amounts keeps the indexes of the largest seen so far.\<close>

definition max_step :: "int list \<Rightarrow> nat \<Rightarrow> nat list \<Rightarrow> nat list" where
  "max_step xs i maxones =
     (if xs ! i \<ge> xs ! hd maxones then (if xs ! i > xs ! hd maxones then [] else maxones) @ [i] else maxones)"

definition max_ones :: "int list \<Rightarrow> nat list" where
  "max_ones xs = fold (max_step xs) [1..<5] [0]"

definition get_nfa_five_phase :: "block_id \<Rightarrow> nat \<Rightarrow> chain \<Rightarrow> nat res" where
  "get_nfa_five_phase head i s =
     rbind (get_nfa_material s i) (\<lambda>m.
     let maxones = max_ones (phase_list (phases_of m));
         p = unat (hasher_hash (id_seed head + of_nat i)) mod length maxones
     in Inr (maxones ! p))"

subsection \<open>Owners\<close>

text \<open>The NFAs inside an NFA, in the order of the index by parent.\<close>

definition nfa_children :: "chain \<Rightarrow> nat \<Rightarrow> nat list" where
  "nfa_children s i = ids (filter (\<lambda>(j, x). nfa_parent x = i) (nfas s))"

text \<open>
  The recursion visits the children of each NFA before the next sibling: the list is what is left to
  visit on all levels, the set is the loop check the calls share.
\<close>

function modify_owners :: "nat \<Rightarrow> nat list \<Rightarrow> nat set \<Rightarrow> chain \<Rightarrow> (nat set \<times> chain) res" where
  "modify_owners owner [] seen s = Inr (seen, s)"
| "modify_owners owner (c # cs) seen s =
     (if c \<in> seen then modify_owners owner cs seen s
      else case map_of (nfas s) c of
        None \<Rightarrow> Inl Out_of_range
      | Some x \<Rightarrow>
          let s = put_nfa c (x\<lparr>owner_account := owner\<rparr>) s
          in modify_owners owner (nfa_children s c @ cs) (insert c seen) s)"
  by pat_completeness auto

termination
proof (relation "(\<lambda>(_, _, seen, s). card (set (ids (nfas s)) - seen)) <*mlex*> measure (\<lambda>(_, cs, _, _). length cs)")
  fix owner c cs seen s x t
  assume c: "c \<notin> seen" "map_of (nfas s) c = Some x" and t: "t = put_nfa c (x\<lparr>owner_account := owner\<rparr>) s"
  have m: "c \<in> set (ids (nfas s))" using c(2) by (auto simp: set_ids)
  have "set (ids (nfas t)) = set (ids (nfas s))" unfolding t put_nfa_def using m by auto
  then have "set (ids (nfas t)) - insert c seen \<subset> set (ids (nfas s)) - seen" using m c(1) by auto
  then have "card (set (ids (nfas t)) - insert c seen) < card (set (ids (nfas s)) - seen)"
    by (rule psubset_card_mono [rotated]) simp
  then show "((owner, nfa_children t c @ cs, insert c seen, t), owner, c # cs, seen, s) \<in>
      (\<lambda>(_, _, seen, s). card (set (ids (nfas s)) - seen)) <*mlex*> measure (\<lambda>(_, cs, _, _). length cs)"
    by (simp add: mlex_prod_def)
qed (auto intro: wf_mlex simp: mlex_prod_def)

definition modify_nfa_children_owner :: "nat \<Rightarrow> nat \<Rightarrow> nat set \<Rightarrow> chain \<Rightarrow> (nat set \<times> chain) res" where
  "modify_nfa_children_owner i owner seen s = modify_owners owner (nfa_children s i) seen s"

definition has_nfa_with_symbol :: "chain \<Rightarrow> nat \<Rightarrow> nat \<Rightarrow> bool" where
  "has_nfa_with_symbol s account sy \<longleftrightarrow> (\<exists>(i, x) \<in> set (nfas s). owner_account x = account \<and> symbol_id x = sy)"

definition is_xinsu :: "chain \<Rightarrow> nat \<Rightarrow> bool" where
  "is_xinsu s account \<longleftrightarrow> has_nfa_with_symbol s account (xinsu_mark_nfa_symbol_id s)"

end
