(* ===== verification/Supply_Audit.thy ===== *)
theory Supply_Audit
  imports Sample Nfa
begin

section \<open>The audit\<close>

text \<open>
  \<open>database::validate_invariants\<close> of chain/database.cpp:
  the amounts a node checks after each block when it is told to. One record holds the running totals;
  each loop of the code is one fold over the rows of its index.
\<close>

record audit_totals =
  total_supply :: asset
  total_account_qi :: asset
  total_reward_qi :: asset
  total_reward_feigang :: asset
  total_nfa_qi :: asset
  total_cultivation_qi :: asset
  sum_gold :: asset
  sum_food :: asset
  sum_wood :: asset
  sum_fabric :: asset
  sum_herb :: asset
  sum_adores :: int

definition no_totals :: audit_totals where
  "no_totals = \<lparr>total_supply = yang 0, total_account_qi = qis 0, total_reward_qi = qis 0, total_reward_feigang = qis 0,
     total_nfa_qi = qis 0, total_cultivation_qi = qis 0, sum_gold = mk_asset 0 TAIYI_ASSET_NUM_GOLD,
     sum_food = mk_asset 0 TAIYI_ASSET_NUM_FOOD, sum_wood = mk_asset 0 TAIYI_ASSET_NUM_WOOD,
     sum_fabric = mk_asset 0 TAIYI_ASSET_NUM_FABRIC, sum_herb = mk_asset 0 TAIYI_ASSET_NUM_HERB, sum_adores = 0\<rparr>"

definition add_materials ::
  "fc_lib \<Rightarrow> asset res \<Rightarrow> asset res \<Rightarrow> asset res \<Rightarrow> asset res \<Rightarrow> asset res \<Rightarrow> audit_totals \<Rightarrow> audit_totals res" where
  "add_materials F gold food wood fabric herb T =
     rbind (rbind gold (asset_add F (sum_gold T))) (\<lambda>g.
     rbind (rbind food (asset_add F (sum_food T))) (\<lambda>f.
     rbind (rbind wood (asset_add F (sum_wood T))) (\<lambda>w.
     rbind (rbind fabric (asset_add F (sum_fabric T))) (\<lambda>b.
     rbind (rbind herb (asset_add F (sum_herb T))) (\<lambda>h.
     Inr (T\<lparr>sum_gold := g, sum_food := f, sum_wood := w, sum_fabric := b, sum_herb := h\<rparr>))))))"

definition audit_siming :: "chain \<Rightarrow> account_name_type \<times> siming_object \<Rightarrow> unit \<Rightarrow> unit res" where
  "audit_siming s = (\<lambda>(n, w) _. rguard (adores w \<le> amount (total_qi (gpo s))) (Assert ''siming adores'') (Inr ()))"

definition audit_account :: "fc_lib \<Rightarrow> chain \<Rightarrow> account_name_type \<times> account_object \<Rightarrow> audit_totals \<Rightarrow> audit_totals res" where
  "audit_account F s = (\<lambda>(n, a) T.
     rbind (asset_add F (total_supply T) (balance a)) (\<lambda>x.
     rbind (asset_add F x (reward_yang_balance a)) (\<lambda>supply.
     rbind (asset_add F (total_account_qi T) (qi a)) (\<lambda>q.
     rbind (asset_add F (total_reward_qi T) (reward_qi_balance a)) (\<lambda>r.
     rbind (asset_add F (total_reward_feigang T) (reward_feigang_balance a)) (\<lambda>f.
     rbind (add_materials F (get_balance s n a TAIYI_ASSET_NUM_GOLD) (get_balance s n a TAIYI_ASSET_NUM_FOOD)
              (get_balance s n a TAIYI_ASSET_NUM_WOOD) (get_balance s n a TAIYI_ASSET_NUM_FABRIC)
              (get_balance s n a TAIYI_ASSET_NUM_HERB)
              (T\<lparr>total_supply := supply, total_account_qi := q, total_reward_qi := r, total_reward_feigang := f\<rparr>)) (\<lambda>T.
     rbind (if proxy a = 0 then siming_adore_weight F a
            else Inr (proxied_vsf_adores a ! (TAIYI_MAX_PROXY_RECURSION_DEPTH - 1))) (\<lambda>v.
     rbind (s_add F (sum_adores T) v) (\<lambda>v. Inr (T\<lparr>sum_adores := v\<rparr>))))))))))"

definition audit_nfa :: "fc_lib \<Rightarrow> chain \<Rightarrow> nat \<times> nfa_object \<Rightarrow> audit_totals \<Rightarrow> audit_totals res" where
  "audit_nfa F s = (\<lambda>(i, x) T.
     rbind (asset_add F (total_supply T) (get_nfa_balance s i x YANG_SYMBOL)) (\<lambda>supply.
     rbind (asset_add F (total_nfa_qi T) (nfa_qi x)) (\<lambda>q.
     rbind (add_materials F (Inr (get_nfa_balance s i x TAIYI_ASSET_NUM_GOLD)) (Inr (get_nfa_balance s i x TAIYI_ASSET_NUM_FOOD))
              (Inr (get_nfa_balance s i x TAIYI_ASSET_NUM_WOOD)) (Inr (get_nfa_balance s i x TAIYI_ASSET_NUM_FABRIC))
              (Inr (get_nfa_balance s i x TAIYI_ASSET_NUM_HERB))
              (T\<lparr>total_supply := supply, total_nfa_qi := q\<rparr>)) (\<lambda>T.
     rbind (s_add F (amount (total_cultivation_qi T)) (i64_of_u64 (cultivation_value x))) (\<lambda>c.
     Inr (T\<lparr>total_cultivation_qi := (total_cultivation_qi T)\<lparr>amount := c\<rparr>\<rparr>))))))"

definition audit_material :: "fc_lib \<Rightarrow> nat \<times> nfa_material_object \<Rightarrow> audit_totals \<Rightarrow> audit_totals res" where
  "audit_material F = (\<lambda>(i, m).
     add_materials F (Inr (mat_gold m)) (Inr (mat_food m)) (Inr (mat_wood m)) (Inr (mat_fabric m)) (Inr (mat_herb m)))"

definition audit_fund :: "fc_lib \<Rightarrow> nat \<times> reward_fund_object \<Rightarrow> audit_totals \<Rightarrow> audit_totals res" where
  "audit_fund F = (\<lambda>(i, rf) T.
     rbind (asset_add F (total_supply T) (reward_balance rf)) (\<lambda>supply.
     rbind (asset_add F (total_reward_qi T) (fund_qi_balance rf)) (\<lambda>r.
     Inr (T\<lparr>total_supply := supply, total_reward_qi := r\<rparr>))))"

definition audit_equal :: "asset \<Rightarrow> asset \<Rightarrow> string \<Rightarrow> unit res \<Rightarrow> unit res" where
  "audit_equal x y msg k = rguard (asset_eq x y) (Assert msg) k"

text \<open>The equivalent of the materials and of all qi, in QI.\<close>

definition qi_equivalent :: "fc_lib \<Rightarrow> audit_totals \<Rightarrow> asset res" where
  "qi_equivalent F T =
     rbind (asset_add F (total_account_qi T) (total_reward_feigang T)) (\<lambda>q.
     rbind (asset_add F q (total_nfa_qi T)) (\<lambda>q.
     rbind (asset_add F q (total_cultivation_qi T)) (\<lambda>q.
     rbind (asset_add F q (total_reward_qi T)) (\<lambda>q.
     rbind (asset_at_price F (sum_gold T) TAIYI_GOLD_QI_PRICE) (\<lambda>g. rbind (asset_add F q g) (\<lambda>q.
     rbind (asset_at_price F (sum_food T) TAIYI_FOOD_QI_PRICE) (\<lambda>g. rbind (asset_add F q g) (\<lambda>q.
     rbind (asset_at_price F (sum_wood T) TAIYI_WOOD_QI_PRICE) (\<lambda>g. rbind (asset_add F q g) (\<lambda>q.
     rbind (asset_at_price F (sum_fabric T) TAIYI_FABRIC_QI_PRICE) (\<lambda>g. rbind (asset_add F q g) (\<lambda>q.
     rbind (asset_at_price F (sum_herb T) TAIYI_HERB_QI_PRICE) (\<lambda>g. asset_add F q g)))))))))))))"

definition validate_invariants :: "fc_lib \<Rightarrow> chain \<Rightarrow> unit res" where
  "validate_invariants F s =
     rbind (rfold (audit_siming s) (simings s) ()) (\<lambda>_.
     rbind (rfold (audit_account F s) (accounts s) no_totals) (\<lambda>T.
     rguard (amount (total_account_qi T) = sum_adores T) (Assert ''total_account_qi == total_vsf_adores'')
     (audit_equal (pending_rewarded_feigang (gpo s)) (total_reward_feigang T) ''pending_rewarded_feigang''
     (rbind (rfold (audit_nfa F s) (nfas s) T) (\<lambda>T.
      rbind (rfold (audit_material F) (nfa_materials s) T) (\<lambda>T.
      audit_equal (pending_cultivation_qi (gpo s)) (total_cultivation_qi T) ''pending_cultivation_qi''
      (rbind (rfold (audit_fund F) (reward_funds s) T) (\<lambda>T.
       audit_equal (pending_rewarded_qi (gpo s)) (total_reward_qi T) ''pending_rewarded_qi''
       (rbind (asset_add F (total_account_qi T) (total_nfa_qi T)) (\<lambda>q.
        audit_equal (total_qi (gpo s)) q ''total_qi''
        (rbind (qi_equivalent F T) (\<lambda>q.
         rbind (asset_at_price F q TAIYI_QI_SHARE_PRICE) (\<lambda>y.
         rbind (asset_add F (total_supply T) y) (\<lambda>supply.
         audit_equal (current_supply (gpo s)) supply ''current_supply''
         (audit_equal (total_gold (gpo s)) (sum_gold T) ''total_gold''
         (audit_equal (total_food (gpo s)) (sum_food T) ''total_food''
         (audit_equal (total_wood (gpo s)) (sum_wood T) ''total_wood''
         (audit_equal (total_fabric (gpo s)) (sum_fabric T) ''total_fabric''
         (audit_equal (total_herb (gpo s)) (sum_herb T) ''total_herb'' (Inr ()))))))))))))))))))))"

subsection \<open>What a passed audit says\<close>

text \<open>The twelve running totals as numbers, and what a row of each index adds to them.\<close>

definition amounts :: "audit_totals \<Rightarrow> int list" where
  "amounts T = [amount (total_supply T), amount (total_account_qi T), amount (total_reward_qi T), amount (total_reward_feigang T),
     amount (total_nfa_qi T), amount (total_cultivation_qi T), amount (sum_gold T), amount (sum_food T), amount (sum_wood T),
     amount (sum_fabric T), amount (sum_herb T), sum_adores T]"

definition holding :: "chain \<Rightarrow> asset_symbol_type \<Rightarrow> account_name_type \<Rightarrow> account_object \<Rightarrow> int" where
  "holding s sy n a = (case get_balance s n a sy of Inr x \<Rightarrow> amount x | Inl e \<Rightarrow> 0)"

definition account_row :: "chain \<Rightarrow> account_name_type \<times> account_object \<Rightarrow> int list" where
  "account_row s = (\<lambda>(n, a). [amount (balance a) + amount (reward_yang_balance a), amount (qi a), amount (reward_qi_balance a),
     amount (reward_feigang_balance a), 0, 0, holding s TAIYI_ASSET_NUM_GOLD n a, holding s TAIYI_ASSET_NUM_FOOD n a,
     holding s TAIYI_ASSET_NUM_WOOD n a, holding s TAIYI_ASSET_NUM_FABRIC n a, holding s TAIYI_ASSET_NUM_HERB n a,
     if proxy a = 0 then amount (qi a) + sum_list (proxied_vsf_adores a) else proxied_vsf_adores a ! 3])"

definition nfa_row :: "chain \<Rightarrow> nat \<times> nfa_object \<Rightarrow> int list" where
  "nfa_row s = (\<lambda>(i, x). [amount (get_nfa_balance s i x YANG_SYMBOL), 0, 0, 0, amount (nfa_qi x), i64_of_u64 (cultivation_value x),
     amount (get_nfa_balance s i x TAIYI_ASSET_NUM_GOLD), amount (get_nfa_balance s i x TAIYI_ASSET_NUM_FOOD),
     amount (get_nfa_balance s i x TAIYI_ASSET_NUM_WOOD), amount (get_nfa_balance s i x TAIYI_ASSET_NUM_FABRIC),
     amount (get_nfa_balance s i x TAIYI_ASSET_NUM_HERB), 0])"

definition material_row :: "nat \<times> nfa_material_object \<Rightarrow> int list" where
  "material_row = (\<lambda>(i, m). [0, 0, 0, 0, 0, 0, amount (mat_gold m), amount (mat_food m), amount (mat_wood m),
     amount (mat_fabric m), amount (mat_herb m), 0])"

definition fund_row :: "nat \<times> reward_fund_object \<Rightarrow> int list" where
  "fund_row = (\<lambda>(i, f). [amount (reward_balance f), 0, amount (fund_qi_balance f), 0, 0, 0, 0, 0, 0, 0, 0, 0])"

lemma asset_add_value: "fc_laws F \<Longrightarrow> asset_add F a b = Inr c \<Longrightarrow> amount c = amount a + amount b \<and> symbol c = symbol a \<and> in_i64 (amount c)"
  by (auto simp: asset_add_def fc_simps)

definition sum_symbols :: "audit_totals \<Rightarrow> asset_symbol_type list" where
  "sum_symbols T = map symbol [total_supply T, total_account_qi T, total_reward_qi T, total_reward_feigang T, total_nfa_qi T,
     total_cultivation_qi T, sum_gold T, sum_food T, sum_wood T, sum_fabric T, sum_herb T]"

definition adds :: "int list \<Rightarrow> audit_totals \<Rightarrow> audit_totals \<Rightarrow> bool" where
  "adds row T T' \<longleftrightarrow> amounts T' = map2 (+) (amounts T) row \<and> sum_symbols T' = sum_symbols T"

lemmas adds_simps = adds_def amounts_def sum_symbols_def

lemma add_materials_value:
  assumes "fc_laws F" "add_materials F gold food wood fabric herb T = Inr T'"
  shows "\<exists>g f w b h. gold = Inr g \<and> food = Inr f \<and> wood = Inr w \<and> fabric = Inr b \<and> herb = Inr h \<and>
    adds [0, 0, 0, 0, 0, 0, amount g, amount f, amount w, amount b, amount h, 0] T T' \<and>
    (\<exists>g f w b h. T' = T\<lparr>sum_gold := g, sum_food := f, sum_wood := w, sum_fabric := b, sum_herb := h\<rparr>)"
proof -
  obtain g f w b h g' f' w' b' h' where v: "gold = Inr g" "food = Inr f" "wood = Inr w" "fabric = Inr b" "herb = Inr h"
    and a: "asset_add F (sum_gold T) g = Inr g'" "asset_add F (sum_food T) f = Inr f'" "asset_add F (sum_wood T) w = Inr w'"
      "asset_add F (sum_fabric T) b = Inr b'" "asset_add F (sum_herb T) h = Inr h'"
    and T': "T' = T\<lparr>sum_gold := g', sum_food := f', sum_wood := w', sum_fabric := b', sum_herb := h'\<rparr>"
    using assms(2) by (auto simp: add_materials_def)
  have "adds [0, 0, 0, 0, 0, 0, amount g, amount f, amount w, amount b, amount h, 0] T T'"
    using a [THEN asset_add_value [OF assms(1)]] T' by (simp add: adds_simps)
  then show ?thesis using v T' by blast
qed

lemma audit_account_value:
  assumes F: "fc_laws F" and run: "audit_account F s x T = Inr T'"
  shows "adds (account_row s x) T T'"
proof -
  obtain n a where x: "x = (n, a)" by (cases x)
  obtain y sup q r f T1 v v' where e: "asset_add F (total_supply T) (balance a) = Inr y" "asset_add F y (reward_yang_balance a) = Inr sup"
      "asset_add F (total_account_qi T) (qi a) = Inr q" "asset_add F (total_reward_qi T) (reward_qi_balance a) = Inr r"
      "asset_add F (total_reward_feigang T) (reward_feigang_balance a) = Inr f"
    and m: "add_materials F (get_balance s n a TAIYI_ASSET_NUM_GOLD) (get_balance s n a TAIYI_ASSET_NUM_FOOD)
              (get_balance s n a TAIYI_ASSET_NUM_WOOD) (get_balance s n a TAIYI_ASSET_NUM_FABRIC)
              (get_balance s n a TAIYI_ASSET_NUM_HERB)
              (T\<lparr>total_supply := sup, total_account_qi := q, total_reward_qi := r, total_reward_feigang := f\<rparr>) = Inr T1"
    and v: "(if proxy a = 0 then siming_adore_weight F a
            else Inr (proxied_vsf_adores a ! (TAIYI_MAX_PROXY_RECURSION_DEPTH - 1))) = Inr v"
    and v': "s_add F (sum_adores T1) v = Inr v'" and T': "T' = T1\<lparr>sum_adores := v'\<rparr>"
    using run x by (auto simp: audit_account_def)
  have "v = (if proxy a = 0 then amount (qi a) + sum_list (proxied_vsf_adores a) else proxied_vsf_adores a ! 3)"
    using v adore_weight_value [OF F, of a v] by (auto simp: TAIYI_MAX_PROXY_RECURSION_DEPTH_def split: if_splits)
  then show ?thesis
    using e [THEN asset_add_value [OF F]] add_materials_value [OF F m] v' T' F
    by (force simp: adds_simps account_row_def holding_def x fc_simps)
qed

lemma audit_nfa_value:
  assumes F: "fc_laws F" and run: "audit_nfa F s x T = Inr T'"
  shows "adds (nfa_row s x) T T'"
proof -
  obtain i o' where x: "x = (i, o')" by (cases x)
  obtain sup q T1 c where e: "asset_add F (total_supply T) (get_nfa_balance s i o' YANG_SYMBOL) = Inr sup"
      "asset_add F (total_nfa_qi T) (nfa_qi o') = Inr q"
    and m: "add_materials F (Inr (get_nfa_balance s i o' TAIYI_ASSET_NUM_GOLD)) (Inr (get_nfa_balance s i o' TAIYI_ASSET_NUM_FOOD))
              (Inr (get_nfa_balance s i o' TAIYI_ASSET_NUM_WOOD)) (Inr (get_nfa_balance s i o' TAIYI_ASSET_NUM_FABRIC))
              (Inr (get_nfa_balance s i o' TAIYI_ASSET_NUM_HERB)) (T\<lparr>total_supply := sup, total_nfa_qi := q\<rparr>) = Inr T1"
    and c: "s_add F (amount (total_cultivation_qi T1)) (i64_of_u64 (cultivation_value o')) = Inr c"
    and T': "T' = T1\<lparr>total_cultivation_qi := (total_cultivation_qi T1)\<lparr>amount := c\<rparr>\<rparr>"
    using run x by (auto simp: audit_nfa_def)
  then show ?thesis
    using e [THEN asset_add_value [OF F]] add_materials_value [OF F m] F
    by (force simp: adds_simps nfa_row_def x fc_simps)
qed

lemma audit_material_value:
  assumes F: "fc_laws F" and run: "audit_material F x T = Inr T'"
  shows "adds (material_row x) T T'"
  using run add_materials_value [OF F] by (cases x) (fastforce simp: audit_material_def material_row_def)

lemma audit_fund_value:
  assumes F: "fc_laws F" and run: "audit_fund F x T = Inr T'"
  shows "adds (fund_row x) T T'"
proof -
  obtain i f where x: "x = (i, f)" by (cases x)
  obtain sup r where "asset_add F (total_supply T) (reward_balance f) = Inr sup" "asset_add F (total_reward_qi T) (fund_qi_balance f) = Inr r"
    and "T' = T\<lparr>total_supply := sup, total_reward_qi := r\<rparr>"
    using run x by (auto simp: audit_fund_def)
  then show ?thesis using asset_add_value [OF F] by (auto simp: adds_simps fund_row_def x)
qed

lemma row_lengths [simp]: "length (account_row s x) = 12" "length (nfa_row s y) = 12" "length (material_row z) = 12"
  "length (fund_row w) = 12" "length (amounts T) = 12"
  by (simp_all add: account_row_def nfa_row_def material_row_def fund_row_def amounts_def case_prod_beta)

lemma adds_fold:
  assumes run: "rfold g xs T = Inr T'" and step: "\<forall>x T T'. g x T = Inr T' \<longrightarrow> adds (row x) T T'" and len: "\<And>x. length (row x) = 12"
  shows "k < 12 \<Longrightarrow> amounts T' ! k = amounts T ! k + sum_list (map (\<lambda>x. row x ! k) xs)" "sum_symbols T' = sum_symbols T"
proof -
  assume k: "k < 12"
  show "amounts T' ! k = amounts T ! k + sum_list (map (\<lambda>x. row x ! k) xs)"
  proof (rule rfold_sum [OF run, where v = "\<lambda>T. amounts T ! k"])
    fix x a b assume "g x a = Inr b"
    then show "amounts b ! k = amounts a ! k + row x ! k" using step k len [of x] by (auto simp: adds_def)
  qed
next
  show "sum_symbols T' = sum_symbols T"
    by (rule rfold_invariant [OF run, where P = "\<lambda>U. sum_symbols U = sum_symbols T"]) (use step in \<open>auto simp: adds_def\<close>)
qed

lemma sum_tsum: "sum_list (map (\<lambda>x. f x) t) = tsum (\<lambda>k v. f (k, v)) t"
  by (simp add: tsum_def case_prod_beta)

definition circulating_yang :: "chain \<Rightarrow> int" where
  "circulating_yang s = total_of balance s + total_of reward_yang_balance s +
     tsum (\<lambda>i x. amount (get_nfa_balance s i x YANG_SYMBOL)) (nfas s) + fund_of reward_balance s"

definition held :: "chain \<Rightarrow> asset_symbol_type \<Rightarrow> (nfa_material_object \<Rightarrow> asset) \<Rightarrow> int" where
  "held s sy m = tsum (holding s sy) (accounts s) + tsum (\<lambda>i x. amount (get_nfa_balance s i x sy)) (nfas s) +
     tsum (\<lambda>i x. amount (m x)) (nfa_materials s)"

definition qi_equivalent_of :: "chain \<Rightarrow> int" where
  "qi_equivalent_of s = total_of qi s + total_of reward_feigang_balance s + nfa_qi_total s + cultivated s +
     total_of reward_qi_balance s + fund_of fund_qi_balance s + 5 * held s TAIYI_ASSET_NUM_GOLD mat_gold +
     3 * held s TAIYI_ASSET_NUM_FOOD mat_food + 2 * held s TAIYI_ASSET_NUM_WOOD mat_wood +
     3 * held s TAIYI_ASSET_NUM_FABRIC mat_fabric + 4 * held s TAIYI_ASSET_NUM_HERB mat_herb"

lemma material_price:
  assumes F: "fc_laws F" and p: "p = \<lparr>base = qis (c * 1000000), quote = mk_asset 1000000 sy\<rparr>" "0 < c" "c \<le> 5" "sy \<noteq> QI_SYMBOL"
    and x: "symbol x = sy" "0 \<le> amount x" "amount x < 2 ^ 60"
  shows "asset_at_price F x p = Inr (qis (c * amount x))"
proof -
  have r: "price_in_range p" using p by (simp add: price_in_range_def in_i64_def)
  have q: "amount x * (c * 1000000) div 1000000 = c * amount x"
    using nonzero_mult_div_cancel_right [of "1000000 :: int" "c * amount x"] by (simp add: ac_simps)
  have "c * amount x \<le> 5 * amount x" using p(3) x(2) by (rule mult_right_mono)
  then have "c * amount x < 2 ^ 63" using x(3) by simp
  moreover have "in_i64 (amount x)" using x by (simp add: in_i64_def)
  ultimately show ?thesis
    using convert_from_quote [OF F x(2) _ r] p x q by (simp add: converted_def)
qed

lemma qi_equivalent_value:
  assumes F: "fc_laws F" and run: "qi_equivalent F T = Inr q"
    and sy: "sum_symbols T = sum_symbols no_totals"
    and m: "\<forall>x \<in> {sum_gold T, sum_food T, sum_wood T, sum_fabric T, sum_herb T}. 0 \<le> amount x \<and> amount x < 2 ^ 60"
  shows "amount q = amount (total_account_qi T) + amount (total_reward_feigang T) + amount (total_nfa_qi T) +
      amount (total_cultivation_qi T) + amount (total_reward_qi T) + 5 * amount (sum_gold T) + 3 * amount (sum_food T) +
      2 * amount (sum_wood T) + 3 * amount (sum_fabric T) + 4 * amount (sum_herb T)"
    and "symbol q = QI_SYMBOL" and "in_i64 (amount q)"
proof -
  have s: "symbol (sum_gold T) = TAIYI_ASSET_NUM_GOLD" "symbol (sum_food T) = TAIYI_ASSET_NUM_FOOD" "symbol (sum_wood T) = TAIYI_ASSET_NUM_WOOD"
    "symbol (sum_fabric T) = TAIYI_ASSET_NUM_FABRIC" "symbol (sum_herb T) = TAIYI_ASSET_NUM_HERB" "symbol (total_account_qi T) = QI_SYMBOL"
    using sy by (simp_all add: sum_symbols_def no_totals_def)
  have ne: "TAIYI_ASSET_NUM_GOLD \<noteq> QI_SYMBOL" "TAIYI_ASSET_NUM_FOOD \<noteq> QI_SYMBOL" "TAIYI_ASSET_NUM_WOOD \<noteq> QI_SYMBOL"
    "TAIYI_ASSET_NUM_FABRIC \<noteq> QI_SYMBOL" "TAIYI_ASSET_NUM_HERB \<noteq> QI_SYMBOL"
    by (simp_all add: native_nums)
  have p: "asset_at_price F (sum_gold T) TAIYI_GOLD_QI_PRICE = Inr (qis (5 * amount (sum_gold T)))"
    "asset_at_price F (sum_food T) TAIYI_FOOD_QI_PRICE = Inr (qis (3 * amount (sum_food T)))"
    "asset_at_price F (sum_wood T) TAIYI_WOOD_QI_PRICE = Inr (qis (2 * amount (sum_wood T)))"
    "asset_at_price F (sum_fabric T) TAIYI_FABRIC_QI_PRICE = Inr (qis (3 * amount (sum_fabric T)))"
    "asset_at_price F (sum_herb T) TAIYI_HERB_QI_PRICE = Inr (qis (4 * amount (sum_herb T)))"
    by (rule material_price [OF F _ _ _ _ s(1)], (use m ne in \<open>simp_all add: TAIYI_GOLD_QI_PRICE_def\<close>),
        rule material_price [OF F _ _ _ _ s(2)], (use m ne in \<open>simp_all add: TAIYI_FOOD_QI_PRICE_def\<close>),
        rule material_price [OF F _ _ _ _ s(3)], (use m ne in \<open>simp_all add: TAIYI_WOOD_QI_PRICE_def\<close>),
        rule material_price [OF F _ _ _ _ s(4)], (use m ne in \<open>simp_all add: TAIYI_FABRIC_QI_PRICE_def\<close>),
        rule material_price [OF F _ _ _ _ s(5)], (use m ne in \<open>simp_all add: TAIYI_HERB_QI_PRICE_def\<close>))
  obtain q1 q2 q3 q4 q5 q6 q7 q8 where a: "asset_add F (total_account_qi T) (total_reward_feigang T) = Inr q1"
    "asset_add F q1 (total_nfa_qi T) = Inr q2" "asset_add F q2 (total_cultivation_qi T) = Inr q3"
    "asset_add F q3 (total_reward_qi T) = Inr q4" "asset_add F q4 (qis (5 * amount (sum_gold T))) = Inr q5"
    "asset_add F q5 (qis (3 * amount (sum_food T))) = Inr q6" "asset_add F q6 (qis (2 * amount (sum_wood T))) = Inr q7"
    "asset_add F q7 (qis (3 * amount (sum_fabric T))) = Inr q8" "asset_add F q8 (qis (4 * amount (sum_herb T))) = Inr q"
    using run unfolding qi_equivalent_def p by auto
  note v = a [THEN asset_add_value [OF F]]
  show "amount q = amount (total_account_qi T) + amount (total_reward_feigang T) + amount (total_nfa_qi T) +
      amount (total_cultivation_qi T) + amount (total_reward_qi T) + 5 * amount (sum_gold T) + 3 * amount (sum_food T) +
      2 * amount (sum_wood T) + 3 * amount (sum_fabric T) + 4 * amount (sum_herb T)"
    using v by simp
  show "symbol q = QI_SYMBOL" using v s(6) by simp
  show "in_i64 (amount q)" using v by blast
qed

text \<open>C14: a state that passes the audit satisfies its equations: no siming has more adores than there is qi, the
  adores produced by all accounts are all their qi, the global qi, pending rewards and materials are the sums over
  their holders, and the supply is all YANG in circulation plus everything else at its worth in QI, rounded down
  once.\<close>
theorem audit_sound:
  assumes F: "fc_laws F" and run: "validate_invariants F s = Inr ()"
    and m: "\<forall>x \<in> {held s TAIYI_ASSET_NUM_GOLD mat_gold, held s TAIYI_ASSET_NUM_FOOD mat_food, held s TAIYI_ASSET_NUM_WOOD mat_wood,
        held s TAIYI_ASSET_NUM_FABRIC mat_fabric, held s TAIYI_ASSET_NUM_HERB mat_herb}. 0 \<le> x \<and> x < 2 ^ 60"
    and q0: "0 \<le> qi_equivalent_of s"
  shows "(\<forall>(n, w) \<in> set (simings s). adores w \<le> amount (total_qi (gpo s))) \<and> total_vsf_adores s = total_of qi s \<and>
    amount (total_qi (gpo s)) = total_of qi s + nfa_qi_total s \<and>
    amount (pending_rewarded_feigang (gpo s)) = total_of reward_feigang_balance s \<and>
    amount (pending_rewarded_qi (gpo s)) = total_of reward_qi_balance s + fund_of fund_qi_balance s \<and>
    amount (pending_cultivation_qi (gpo s)) = cultivated s \<and>
    amount (total_gold (gpo s)) = held s TAIYI_ASSET_NUM_GOLD mat_gold \<and>
    amount (total_food (gpo s)) = held s TAIYI_ASSET_NUM_FOOD mat_food \<and>
    amount (total_wood (gpo s)) = held s TAIYI_ASSET_NUM_WOOD mat_wood \<and>
    amount (total_fabric (gpo s)) = held s TAIYI_ASSET_NUM_FABRIC mat_fabric \<and>
    amount (total_herb (gpo s)) = held s TAIYI_ASSET_NUM_HERB mat_herb \<and>
    amount (current_supply (gpo s)) = circulating_yang s + qi_equivalent_of s div 1000"
proof -
  obtain T1 T2 T3 T4 tq q y sup where sim: "rfold (audit_siming s) (simings s) () = Inr ()"
    and r1: "rfold (audit_account F s) (accounts s) no_totals = Inr T1"
    and v: "amount (total_account_qi T1) = sum_adores T1"
    and fg: "asset_eq (pending_rewarded_feigang (gpo s)) (total_reward_feigang T1)"
    and r2: "rfold (audit_nfa F s) (nfas s) T1 = Inr T2"
    and r3: "rfold (audit_material F) (nfa_materials s) T2 = Inr T3"
    and cu: "asset_eq (pending_cultivation_qi (gpo s)) (total_cultivation_qi T3)"
    and r4: "rfold (audit_fund F) (reward_funds s) T3 = Inr T4"
    and rq: "asset_eq (pending_rewarded_qi (gpo s)) (total_reward_qi T4)"
    and tq: "asset_add F (total_account_qi T4) (total_nfa_qi T4) = Inr tq" "asset_eq (total_qi (gpo s)) tq"
    and q: "qi_equivalent F T4 = Inr q" and y: "asset_at_price F q TAIYI_QI_SHARE_PRICE = Inr y"
    and sup: "asset_add F (total_supply T4) y = Inr sup" "asset_eq (current_supply (gpo s)) sup"
    and mats: "asset_eq (total_gold (gpo s)) (sum_gold T4)" "asset_eq (total_food (gpo s)) (sum_food T4)"
      "asset_eq (total_wood (gpo s)) (sum_wood T4)" "asset_eq (total_fabric (gpo s)) (sum_fabric T4)"
      "asset_eq (total_herb (gpo s)) (sum_herb T4)"
    using run unfolding validate_invariants_def audit_equal_def by auto
  have "\<forall>x T T'. audit_account F s x T = Inr T' \<longrightarrow> adds (account_row s x) T T'" using audit_account_value [OF F] by blast
  note f1 = adds_fold [OF r1 this row_lengths(1)]
  have "\<forall>x T T'. audit_nfa F s x T = Inr T' \<longrightarrow> adds (nfa_row s x) T T'" using audit_nfa_value [OF F] by blast
  note f2 = adds_fold [OF r2 this row_lengths(2)]
  have "\<forall>x T T'. audit_material F x T = Inr T' \<longrightarrow> adds (material_row x) T T'" using audit_material_value [OF F] by blast
  note f3 = adds_fold [OF r3 this row_lengths(3)]
  have "\<forall>x T T'. audit_fund F x T = Inr T' \<longrightarrow> adds (fund_row x) T T'" using audit_fund_value [OF F] by blast
  note f4 = adds_fold [OF r4 this row_lengths(4)]
  have sims: "\<forall>(n, w) \<in> set (simings s). adores w \<le> amount (total_qi (gpo s))"
  proof -
    have "rfold (audit_siming s) t () = Inr () \<Longrightarrow> \<forall>(n, w) \<in> set t. adores w \<le> amount (total_qi (gpo s))" for t
      by (induction t) (auto simp: audit_siming_def)
    then show ?thesis using sim .
  qed
  note rows = account_row_def nfa_row_def material_row_def fund_row_def
  have n: "amounts no_totals ! k = 0" if "k < 12" for k
    using that by (simp add: amounts_def no_totals_def less_Suc_eq numeral_eq_Suc) auto
  have t: "amounts T4 ! k = tsum (\<lambda>n a. account_row s (n, a) ! k) (accounts s) + tsum (\<lambda>i x. nfa_row s (i, x) ! k) (nfas s) +
      tsum (\<lambda>i m. material_row (i, m) ! k) (nfa_materials s) + tsum (\<lambda>i f. fund_row (i, f) ! k) (reward_funds s)" if "k < 12" for k
    using f1(1) [OF that] f2(1) [OF that] f3(1) [OF that] f4(1) [OF that] n [OF that] unfolding sum_tsum by simp
  have at: "amount (total_supply T4) = amounts T4 ! 0" "amount (total_account_qi T4) = amounts T4 ! 1"
    "amount (total_reward_qi T4) = amounts T4 ! 2" "amount (total_reward_feigang T4) = amounts T4 ! 3"
    "amount (total_nfa_qi T4) = amounts T4 ! 4" "amount (total_cultivation_qi T4) = amounts T4 ! 5"
    "amount (sum_gold T4) = amounts T4 ! 6" "amount (sum_food T4) = amounts T4 ! 7" "amount (sum_wood T4) = amounts T4 ! 8"
    "amount (sum_fabric T4) = amounts T4 ! 9" "amount (sum_herb T4) = amounts T4 ! 10"
    by (simp_all add: amounts_def)
  have val: "amount (total_supply T4) = circulating_yang s" "amount (total_account_qi T4) = total_of qi s"
    "amount (total_reward_qi T4) = total_of reward_qi_balance s + fund_of fund_qi_balance s"
    "amount (total_reward_feigang T4) = total_of reward_feigang_balance s" "amount (total_nfa_qi T4) = nfa_qi_total s"
    "amount (total_cultivation_qi T4) = cultivated s" "amount (sum_gold T4) = held s TAIYI_ASSET_NUM_GOLD mat_gold"
    "amount (sum_food T4) = held s TAIYI_ASSET_NUM_FOOD mat_food" "amount (sum_wood T4) = held s TAIYI_ASSET_NUM_WOOD mat_wood"
    "amount (sum_fabric T4) = held s TAIYI_ASSET_NUM_FABRIC mat_fabric" "amount (sum_herb T4) = held s TAIYI_ASSET_NUM_HERB mat_herb"
    unfolding at by (simp_all add: t rows total_of_def fund_of_def nfa_qi_total_def cultivated_def held_def circulating_yang_def tsum_add)
  have val1: "amount (total_account_qi T1) = total_of qi s" "sum_adores T1 = total_vsf_adores s"
    "amount (total_reward_feigang T1) = total_of reward_feigang_balance s"
    using f1(1) [of 1] f1(1) [of 11] f1(1) [of 3]
    by (simp_all add: sum_tsum rows amounts_def no_totals_def total_of_def total_vsf_adores_def)
  have val3: "amount (total_cultivation_qi T3) = cultivated s"
    using f1(1) [of 5] f2(1) [of 5] f3(1) [of 5]
    by (simp add: sum_tsum rows amounts_def no_totals_def cultivated_def)
  have sy: "sum_symbols T4 = sum_symbols no_totals" using f1(2) f2(2) f3(2) f4(2) by simp
  have mm: "\<forall>x \<in> {sum_gold T4, sum_food T4, sum_wood T4, sum_fabric T4, sum_herb T4}. 0 \<le> amount x \<and> amount x < 2 ^ 60"
    using m val by simp
  note qv = qi_equivalent_value [OF F q sy mm]
  have qe: "amount q = qi_equivalent_of s" using qv(1) val by (simp add: qi_equivalent_of_def)
  have "q = qis (qi_equivalent_of s)" using qe qv(2) by (simp add: asset_eqI)
  moreover have "qi_equivalent_of s < 2 ^ 63" using qv(3) qe by (simp add: in_i64_def)
  ultimately have "y = yang (qi_equivalent_of s div 1000)" using y qi_to_yang [OF F q0] by simp
  then have "amount sup = circulating_yang s + qi_equivalent_of s div 1000"
    using asset_add_value [OF F sup(1)] val(1) by simp
  then show ?thesis
    using sims v fg cu rq tq(2) sup(2) mats val val1 val3 asset_add_value [OF F tq(1)] by (simp add: asset_eq_def)
qed

lemma no_balance:
  "regular_balances s = [] \<Longrightarrow> sy \<in> {TAIYI_ASSET_NUM_GOLD, TAIYI_ASSET_NUM_FOOD, TAIYI_ASSET_NUM_WOOD, TAIYI_ASSET_NUM_FABRIC,
    TAIYI_ASSET_NUM_HERB} \<Longrightarrow> get_balance s n a sy = Inr (mk_asset 0 sy)"
  by (auto simp: get_balance_def has_balance_object_def is_qi_def space_def native_nums)

lemma sample_material_price:
  "asset_at_price fc_ref (mk_asset 0 TAIYI_ASSET_NUM_GOLD) TAIYI_GOLD_QI_PRICE = Inr (qis 0)"
  "asset_at_price fc_ref (mk_asset 0 TAIYI_ASSET_NUM_FOOD) TAIYI_FOOD_QI_PRICE = Inr (qis 0)"
  "asset_at_price fc_ref (mk_asset 0 TAIYI_ASSET_NUM_WOOD) TAIYI_WOOD_QI_PRICE = Inr (qis 0)"
  "asset_at_price fc_ref (mk_asset 0 TAIYI_ASSET_NUM_FABRIC) TAIYI_FABRIC_QI_PRICE = Inr (qis 0)"
  "asset_at_price fc_ref (mk_asset 0 TAIYI_ASSET_NUM_HERB) TAIYI_HERB_QI_PRICE = Inr (qis 0)"
  by code_simp+

lemma sample_audit: "validate_invariants fc_ref sample_chain = Inr ()"
proof -
  have b: "get_balance sample_chain n a sy = Inr (mk_asset 0 sy)" if "sy \<in> {TAIYI_ASSET_NUM_GOLD, TAIYI_ASSET_NUM_FOOD, TAIYI_ASSET_NUM_WOOD, TAIYI_ASSET_NUM_FABRIC,
    TAIYI_ASSET_NUM_HERB}" for n a sy by (rule no_balance [OF _ that]) (simp add: sample_chain_def)
  have y: "asset_at_price fc_ref (qis 1512) TAIYI_QI_SHARE_PRICE = Inr (yang 1)"
    using qi_to_yang [OF fc_ref_laws, of 1512] by simp
  have parts: "accounts sample_chain = [(n_alice, acc_alice), (n_bob, acc_bob), (n_dao, acc_dao)]" "nfas sample_chain = []"
    "nfa_materials sample_chain = []" "reward_funds sample_chain = []" "gpo sample_chain = sample_gpo"
    "simings sample_chain = [(n_carol, new_siming_object\<lparr>adores := 1000, signing_key := 4\<rparr>)]"
    by (simp_all add: sample_chain_def)
  show ?thesis
    by (simp add: validate_invariants_def parts audit_siming_def audit_account_def b no_totals_def audit_equal_def asset_eq_def
        add_materials_def qi_equivalent_def sample_material_price y asset_add_def fc_simps [OF fc_ref_laws] in_i64_def sample_gpo_def acc_simps
        replicate_4 siming_adore_weight_def n_defs)
qed

lemma audit_sound_witness:
  "validate_invariants fc_ref sample_chain = Inr () \<and>
     amount (current_supply (gpo sample_chain)) = circulating_yang sample_chain + qi_equivalent_of sample_chain div 1000"
proof -
  have h: "held sample_chain sy m = 0" if "sy \<in> {TAIYI_ASSET_NUM_GOLD, TAIYI_ASSET_NUM_FOOD, TAIYI_ASSET_NUM_WOOD, TAIYI_ASSET_NUM_FABRIC,
    TAIYI_ASSET_NUM_HERB}" for sy m
    using no_balance [OF _ that, of sample_chain] by (simp add: held_def holding_def sample_chain_def)
  have "0 \<le> qi_equivalent_of sample_chain"
    by (simp add: qi_equivalent_of_def h total_of_def nfa_qi_total_def cultivated_def fund_of_def) (simp add: sample_chain_def acc_simps)
  then show ?thesis using audit_sound [OF fc_ref_laws sample_audit] sample_audit h by simp
qed

end
