(* ===== verification/Block_Application.thy ===== *)
theory Block_Application
  imports Block_Upkeep Supply_Audit
begin

section \<open>Applying blocks and transactions\<close>

text \<open>
  \<open>_apply_block\<close>, \<open>_apply_transaction\<close> and what they call in chain/database.cpp. The state \<open>database\<close> adds
  to the chain the id of the head block, the transactions of the last hour (against duplicates) and the
  summaries of the last 65536 blocks. Parameters of the model (\<open>node_env\<close>) are what the code takes from
  fc (hashes, sizes, signatures), the evaluators' environment, and the four steps of a block that are not
  modelled: proposals, the calendar of tiandao, the ticks of the NFAs and the clean-up of cultivations.
  Notifications of observers and performance counters are left out.
\<close>

subsection \<open>State\<close>

record 'sig signed_transaction = "(operation, 'sig) transaction" +
  ref_block_num :: u16
  ref_block_prefix :: u32
  expiration :: time_point_sec

type_synonym ('sig, 'd) chain_block =
  "('sig signed_transaction, 'd, (u32, u32 \<times> time_point_sec) header_extension) signed_block"

record transaction_object =
  trx_id :: nat
  trx_expiration :: time_point_sec

record database =
  db_chain :: chain
  db_head_id :: block_id
  db_transactions :: "transaction_object table"
  db_next_transaction :: nat
  db_summaries :: "(u16, block_id) tbl"

record ('sig, 'd) node_env =
  ne_env :: env
  ne_hashes :: "('sig signed_transaction, 'd, (u32, u32 \<times> time_point_sec) header_extension) hashes"
  ne_trx_id :: "'sig signed_transaction \<Rightarrow> nat"
  ne_recover :: "'sig signed_transaction \<Rightarrow> 'sig \<Rightarrow> public_key_type res"
  ne_pack_size :: "('sig, 'd) chain_block \<Rightarrow> nat"
  ne_signee :: "('sig, 'd) chain_block \<Rightarrow> public_key_type \<Rightarrow> bool"
  ne_hardforks :: hardfork_versions
  ne_stray_modify :: stray_modify
  ne_proposals :: "('sig, 'd) chain_block \<Rightarrow> chain \<Rightarrow> chain res"
  ne_tiandao :: "chain \<Rightarrow> chain res"
  ne_nfa_tick :: "chain \<Rightarrow> chain res"
  ne_clean_cultivations :: "chain \<Rightarrow> chain res"

subsection \<open>Flags\<close>

definition skip_siming_signature :: u32 where "skip_siming_signature = 2 ^ 0"
definition skip_transaction_signatures :: u32 where "skip_transaction_signatures = 2 ^ 1"
definition skip_transaction_dupe_check :: u32 where "skip_transaction_dupe_check = 2 ^ 2"
definition skip_fork_db :: u32 where "skip_fork_db = 2 ^ 3"
definition skip_block_size_check :: u32 where "skip_block_size_check = 2 ^ 4"
definition skip_tapos_check :: u32 where "skip_tapos_check = 2 ^ 5"
definition skip_authority_check :: u32 where "skip_authority_check = 2 ^ 6"
definition skip_merkle_check :: u32 where "skip_merkle_check = 2 ^ 7"
definition skip_undo_history_check :: u32 where "skip_undo_history_check = 2 ^ 8"
definition skip_siming_schedule_check :: u32 where "skip_siming_schedule_check = 2 ^ 9"
definition skip_validate :: u32 where "skip_validate = 2 ^ 10"
definition skip_validate_invariants :: u32 where "skip_validate_invariants = 2 ^ 11"

definition skipped :: "u32 \<Rightarrow> u32 \<Rightarrow> bool" where
  "skipped skip flag \<longleftrightarrow> skip AND flag \<noteq> 0"

definition TAIYI_MAX_TIME_UNTIL_EXPIRATION :: nat where "TAIYI_MAX_TIME_UNTIL_EXPIRATION = 60 * 60"

text \<open>A step on the chain inside the database.\<close>

definition on_chain :: "(chain \<Rightarrow> chain res) \<Rightarrow> database \<Rightarrow> database res" where
  "on_chain f d = rbind (f (db_chain d)) (\<lambda>s. Inr (d\<lparr>db_chain := s\<rparr>))"

subsection \<open>Transactions\<close>

text \<open>The getters throw for an account without authorities.\<close>

definition chain_getters :: "chain \<Rightarrow> getters" where
  "chain_getters s =
     \<lparr>g_active = (\<lambda>n. rbind (get_authorities s n) (\<lambda>a. Inr (auth_active a))),
      g_owner = (\<lambda>n. rbind (get_authorities s n) (\<lambda>a. Inr (auth_owner a))),
      g_posting = (\<lambda>n. rbind (get_authorities s n) (\<lambda>a. Inr (auth_posting a)))\<rparr>"

definition sig_check_limits :: limits where
  "sig_check_limits = \<lparr>l_recursion = TAIYI_MAX_SIG_CHECK_DEPTH, l_membership = of_nat TAIYI_MAX_AUTHORITY_MEMBERSHIP,
     l_account_auths = TAIYI_MAX_SIG_CHECK_ACCOUNTS\<rparr>"

definition verify_signatures :: "('sig, 'd) node_env \<Rightarrow> 'sig signed_transaction \<Rightarrow> chain \<Rightarrow> unit res" where
  "verify_signatures N trx s =
     rbind (get_signature_keys (ne_recover N trx) (transaction.truncate trx)) (\<lambda>sigs.
     verify_operations (env_lib (ne_env N)) (tx_operations trx) sigs (chain_getters s) sig_check_limits no_approvals)"

text \<open>The second word of a block id, which a transaction repeats to commit to a branch.\<close>

definition id_prefix :: "block_id \<Rightarrow> u32" where
  "id_prefix i = ucast (drop_bit 96 (id_hash i))"

definition check_tapos :: "u32 \<Rightarrow> 'sig signed_transaction \<Rightarrow> database \<Rightarrow> unit res" where
  "check_tapos skip trx d =
     (if head_block_num (db_chain d) > 0 then
        rbind (if skipped skip skip_tapos_check then Inr ()
               else case map_of (db_summaries d) (ref_block_num trx) of
                 None \<Rightarrow> Inl Out_of_range
               | Some summary \<Rightarrow> rguard (ref_block_prefix trx = id_prefix summary) Transaction_tapos (Inr ())) (\<lambda>_.
        let now = head_block_time (db_chain d) in
        rguard (expiration trx \<le> now + TAIYI_MAX_TIME_UNTIL_EXPIRATION) Transaction_expiration
        (rguard (now < expiration trx) Transaction_expiration (Inr ())))
      else Inr ())"

definition is_known_transaction :: "nat \<Rightarrow> database \<Rightarrow> bool" where
  "is_known_transaction i d \<longleftrightarrow> i \<in> trx_id ` snd ` set (db_transactions d)"

definition apply_transaction :: "('sig, 'd) node_env \<Rightarrow> u32 \<Rightarrow> 'sig signed_transaction \<Rightarrow> database \<Rightarrow> database res" where
  "apply_transaction N skip trx d =
     (let i = ne_trx_id N trx in
      rbind (if skipped skip skip_validate then Inr ()
             else validate_transaction (taiyi_ops (env_lib (ne_env N))) (transaction.truncate trx)) (\<lambda>_.
      rguard (skipped skip skip_transaction_dupe_check \<or> \<not> is_known_transaction i d)
        (Assert ''Duplicate transaction check failed'')
      (rbind (if skipped skip (skip_transaction_signatures OR skip_authority_check) then Inr ()
              else verify_signatures N trx (db_chain d)) (\<lambda>_.
       rbind (check_tapos skip trx d) (\<lambda>_.
       let d = (if skipped skip skip_transaction_dupe_check then d
                else d\<lparr>db_transactions := tput (db_next_transaction d) \<lparr>trx_id = i, trx_expiration = expiration trx\<rparr> (db_transactions d),
                       db_next_transaction := Suc (db_next_transaction d)\<rparr>)
       in on_chain (rfold (evaluate (ne_env N)) (tx_operations trx)) d)))))"

subsection \<open>The header of a block\<close>

definition genesis_hardforks :: "hardfork_versions \<Rightarrow> time_point_sec \<Rightarrow> nat" where
  "genesis_hardforks V t = length (takeWhile (\<lambda>x. \<not> x > t) (take (num_hardforks V) (tl (hf_times V))))"

definition apply_genesis_hardforks :: "hardfork_versions \<Rightarrow> ('sig, 'd) chain_block \<Rightarrow> chain \<Rightarrow> chain res" where
  "apply_genesis_hardforks V b s =
     (let n = genesis_hardforks V (timestamp b) in
      if block_num b = 1 \<and> n > 0 then
        rbind (set_hardfork V n True s) (\<lambda>s.
        rguard (current_hardfork_version (hardforks s) = hf_versions V ! n) (Assert ''Unexpected genesis hardfork state'')
        (Inr (s\<lparr>simings := map (\<lambda>(k, w). (k, w\<lparr>running_version := hf_versions V ! n,
                 hardfork_version_vote := hf_versions V ! n, hardfork_time_vote := hf_times V ! n\<rparr>)) (simings s)\<rparr>)))
      else Inr s)"

definition validate_block_header :: "('sig, 'd) node_env \<Rightarrow> u32 \<Rightarrow> ('sig, 'd) chain_block \<Rightarrow> database \<Rightarrow> account_name_type res" where
  "validate_block_header N skip b d =
     (let s = db_chain d; n = fs_of (siming b) in
      rguard (db_head_id d = previous b) (Assert ''head_block_id() == next_block.previous'')
      (rguard (head_block_time s < timestamp b) (Assert ''head_block_time() < next_block.timestamp'')
      (rbind (get_siming s n) (\<lambda>w.
       rguard (skipped skip skip_siming_signature \<or> ne_signee N b (signing_key w)) (Assert ''validate_signee'')
       (if skipped skip skip_siming_schedule_check then Inr n
        else let slot_num = get_slot_at_time s (timestamp b) in
             rguard (slot_num > 0) (Assert ''slot_num > 0'')
             (rguard (n = get_scheduled_siming s slot_num) (Assert ''Siming produced block at wrong time'') (Inr n)))))))"

fun process_header_extension ::
  "account_name_type \<Rightarrow> (u32, u32 \<times> time_point_sec) header_extension \<Rightarrow> chain \<Rightarrow> chain res" where
  "process_header_extension n Ext_void s = Inr s"
| "process_header_extension n (Ext_version v) s =
     rbind (get_siming s n) (\<lambda>w.
       if v \<noteq> running_version w then modify_siming n (\<lambda>wo. Inr (wo\<lparr>running_version := v\<rparr>)) s else Inr s)"
| "process_header_extension n (Ext_hardfork_vote (v, t)) s =
     rbind (get_siming s n) (\<lambda>w.
       if v \<noteq> hardfork_version_vote w \<or> t \<noteq> hardfork_time_vote w
       then modify_siming n (\<lambda>wo. Inr (wo\<lparr>hardfork_version_vote := v, hardfork_time_vote := t\<rparr>)) s else Inr s)"

definition process_header_extensions :: "('sig, 'd) chain_block \<Rightarrow> chain \<Rightarrow> chain res" where
  "process_header_extensions b = rfold (process_header_extension (fs_of (siming b))) (extensions b)"

definition create_block_summary :: "('sig, 'd) node_env \<Rightarrow> ('sig, 'd) chain_block \<Rightarrow> database \<Rightarrow> database res" where
  "create_block_summary N b d =
     (let sid = ucast (block_num b AND 0xffff) in
      case map_of (db_summaries d) sid of
        None \<Rightarrow> Inl Out_of_range
      | Some _ \<Rightarrow> Inr (d\<lparr>db_summaries := tput sid (block_id (ne_hashes N) b) (db_summaries d)\<rparr>))"

definition clear_expired_transactions :: "database \<Rightarrow> database res" where
  "clear_expired_transactions d =
     rbind (drain (\<lambda>(i, t). (trx_expiration t, i)) (\<lambda>(i, t). trx_expiration t < head_block_time (db_chain d)) (\<lambda>_. Inr)
              (db_transactions d) d) (\<lambda>(t, d). Inr (d\<lparr>db_transactions := t\<rparr>))"

subsection \<open>The block\<close>

text \<open>
  The block in parts: up to the transactions, the counters and the schedule; the inflation; the
  withdrawals; the rest. \<open>migrate_irreversible_state\<close>, the last step, works on the fork database and the undo log
  and is not a step of the chain.
\<close>

definition begin_block :: "('sig, 'd) node_env \<Rightarrow> u32 \<Rightarrow> ('sig, 'd) chain_block \<Rightarrow> database \<Rightarrow> database res" where
  "begin_block N skip b d =
     rbind (on_chain (apply_genesis_hardforks (ne_hardforks N) b) d) (\<lambda>d.
     rguard (skipped skip skip_merkle_check \<or> transaction_merkle_root b = calculate_merkle_root (ne_hashes N) b)
       (Assert ''Merkle check failed'')
     (rbind (validate_block_header N skip b d) (\<lambda>signing_siming.
      rguard (ne_pack_size N b \<le> unat (maximum_block_size (gpo (db_chain d)))) (Assert ''Block Size is too Big'')
      (rbind (on_chain (modify_gpo (\<lambda>dgp. Inr (dgp\<lparr>current_siming := fs_of (siming b)\<rparr>))) d) (\<lambda>d.
       rbind (on_chain (process_header_extensions b) d) (\<lambda>d.
       rbind (get_siming (db_chain d) (fs_of (siming b))) (\<lambda>w.
       rguard (running_version w \<ge> current_hardfork_version (hardforks (db_chain d)))
         (Assert ''Block produced by siming that is not running current hardfork'')
       (rbind (rfold (apply_transaction N skip) (transactions b) d) (\<lambda>d.
        rbind (on_chain (update_global_dynamic_data (skipped skip skip_undo_history_check) b) d) (\<lambda>d.
        let d = d\<lparr>db_head_id := block_id (ne_hashes N) b\<rparr> in
        rbind (on_chain (update_signing_siming signing_siming b) d) (\<lambda>d.
        rbind (on_chain (\<lambda>s. rbind (update_last_irreversible_block s) (\<lambda>(announced, s). Inr s)) d) (\<lambda>d.
        rbind (create_block_summary N b d) (\<lambda>d.
        rbind (clear_expired_transactions d) (\<lambda>d.
        on_chain (\<lambda>s. rbind (clear_expired_delegations (env_fc (ne_env N)) s) (update_siming_schedule (env_fc (ne_env N))))
          d))))))))))))))"

definition finish_block :: "('sig, 'd) node_env \<Rightarrow> ('sig, 'd) chain_block \<Rightarrow> chain \<Rightarrow> chain res" where
  "finish_block N b s =
     rbind (account_recovery_processing s) (\<lambda>s.
     rbind (process_decline_adoring_rights (env_fc (ne_env N)) s) (\<lambda>s.
     rbind (ne_proposals N b s) (\<lambda>s.
     rbind (ne_tiandao N s) (\<lambda>s.
     rbind (ne_nfa_tick N s) (\<lambda>s.
     rbind (ne_clean_cultivations N s)
     (process_hardforks (ne_hardforks N)))))))"

definition apply_block_steps :: "('sig, 'd) node_env \<Rightarrow> u32 \<Rightarrow> ('sig, 'd) chain_block \<Rightarrow> database \<Rightarrow> database res" where
  "apply_block_steps N skip b d =
     rbind (begin_block N skip b d) (\<lambda>d.
     rbind (on_chain (process_funds (env_fc (ne_env N)) (ne_stray_modify N)) d) (\<lambda>d.
     rbind (on_chain (process_qi_withdrawals (env_fc (ne_env N))) d)
     (on_chain (finish_block N b))))"

definition apply_block :: "('sig, 'd) node_env \<Rightarrow> u32 \<Rightarrow> ('sig, 'd) chain_block \<Rightarrow> database \<Rightarrow> database res" where
  "apply_block N skip b d =
     rbind (apply_block_steps N skip b d) (\<lambda>d.
     if skipped skip skip_validate_invariants then Inr d
     else rbind (validate_invariants (env_fc (ne_env N)) (db_chain d)) (\<lambda>_. Inr d))"

end
