(* ===== verification/Block_Log.thy ===== *)
theory Block_Log
  imports Block
begin

section \<open>The log of irreversible blocks\<close>

text \<open>
  \<open>block_log\<close> of chain/block_log.cpp: a file of packed blocks, each followed by its own position, and
  an index file of the positions. The contents of the files are byte lists, with everything written
  so far in them (buffering and \<open>flush\<close> are left out); in append mode a stream stands at the end of its file.
  \<open>fc::raw\<close> packing is a pair of functions of the model. A read past the end is an exception when the
  stream was told to throw; \<open>close\<close> makes new streams that were not, and then the variable read into
  is not initialised, which is the error \<open>Out_of_range\<close> here. The lock is left out.
\<close>

record ('t, 'd, 'x) log_env =
  le_hashes :: "('t, 'd, 'x) hashes"
  le_pack :: "('t, 'd, 'x) signed_block \<Rightarrow> u8 list"
  le_unpack :: "u8 list \<Rightarrow> (('t, 'd, 'x) signed_block \<times> nat) res"

text \<open>What unpacking does on what packing wrote for the blocks of a list: the block, and the number of bytes consumed.\<close>

definition packing_laws :: "('t, 'd, 'x) log_env \<Rightarrow> ('t, 'd, 'x) signed_block list \<Rightarrow> bool" where
  "packing_laws E bs \<longleftrightarrow> (\<forall>b \<in> set bs. \<forall>rest. le_unpack E (le_pack E b @ rest) = Inr (b, length (le_pack E b)))"

record ('t, 'd, 'x) block_log =
  log_head :: "('t, 'd, 'x) signed_block option"
  log_head_id :: block_id
  block_stream :: "u8 list"
  index_stream :: "u8 list"
  block_write :: bool
  index_write :: bool
  throws :: bool

text \<open>The bytes of a \<open>uint64_t\<close> in memory, lowest first.\<close>

definition u64_bytes :: "u64 \<Rightarrow> u8 list" where
  "u64_bytes w = map (\<lambda>k. ucast (drop_bit (8 * k) w)) [0..<8]"

definition bytes_u64 :: "u8 list \<Rightarrow> u64" where
  "bytes_u64 bs = foldr (\<lambda>b w. ucast b OR push_bit 8 w) bs 0"

definition read_u64 :: "bool \<Rightarrow> u8 list \<Rightarrow> nat \<Rightarrow> u64 res" where
  "read_u64 thr file p =
     (if p + 8 \<le> length file then Inr (bytes_u64 (take 8 (drop p file)))
      else Inl (if thr then Stream_failure else Out_of_range))"

text \<open>\<open>seekg(-8, end)\<close> and a read.\<close>

definition read_last :: "bool \<Rightarrow> u8 list \<Rightarrow> u64 res" where
  "read_last thr file =
     (if length file < 8 then Inl (if thr then Stream_failure else Out_of_range) else read_u64 thr file (length file - 8))"

definition npos :: u64 where "npos = - 1"

subsection \<open>Operations\<close>

definition new_block_log :: "('t, 'd, 'x) block_log" where
  "new_block_log = \<lparr>log_head = None, log_head_id = null_block_id, block_stream = [], index_stream = [],
     block_write = False, index_write = False, throws = True\<rparr>"

definition close_log :: "('t, 'd, 'x) block_log \<Rightarrow> ('t, 'd, 'x) block_log" where
  "close_log l = new_block_log\<lparr>throws := False\<rparr>"

definition check_block_read :: "('t, 'd, 'x) block_log \<Rightarrow> ('t, 'd, 'x) block_log" where
  "check_block_read l = (if block_write l then l\<lparr>block_write := False\<rparr> else l)"

definition check_block_write :: "('t, 'd, 'x) block_log \<Rightarrow> ('t, 'd, 'x) block_log" where
  "check_block_write l = (if \<not> block_write l then l\<lparr>block_write := True\<rparr> else l)"

definition check_index_read :: "('t, 'd, 'x) block_log \<Rightarrow> ('t, 'd, 'x) block_log" where
  "check_index_read l = (if index_write l then l\<lparr>index_write := False\<rparr> else l)"

definition check_index_write :: "('t, 'd, 'x) block_log \<Rightarrow> ('t, 'd, 'x) block_log" where
  "check_index_write l = (if \<not> index_write l then l\<lparr>index_write := True\<rparr> else l)"

definition log_append ::
  "('t, 'd, 'x) log_env \<Rightarrow> ('t, 'd, 'x) signed_block \<Rightarrow> ('t, 'd, 'x) block_log \<Rightarrow> (u64 \<times> ('t, 'd, 'x) block_log) res" where
  "log_append E b l =
     (let l = check_index_write (check_block_write l); pos = of_nat (length (block_stream l))
      in rguard (of_nat (length (index_stream l)) = (8 :: u64) * ucast (block_num b - 1))
           (Assert ''Append to index file occuring at wrong position.'')
         (Inr (pos, l\<lparr>block_stream := block_stream l @ le_pack E b @ u64_bytes pos,
                      index_stream := index_stream l @ u64_bytes pos,
                      log_head := Some b, log_head_id := block_id (le_hashes E) b\<rparr>)))"

definition read_block ::
  "('t, 'd, 'x) log_env \<Rightarrow> u64 \<Rightarrow> ('t, 'd, 'x) block_log \<Rightarrow>
     ((('t, 'd, 'x) signed_block \<times> u64) \<times> ('t, 'd, 'x) block_log) res" where
  "read_block E pos l =
     (let l = check_block_read l
      in rbind (le_unpack E (drop (unat pos) (block_stream l))) (\<lambda>(b, n). Inr ((b, pos + of_nat n + 8), l)))"

definition get_block_pos :: "u32 \<Rightarrow> ('t, 'd, 'x) block_log \<Rightarrow> (u64 \<times> ('t, 'd, 'x) block_log) res" where
  "get_block_pos n l =
     (let l = check_index_read l
      in if \<not> (log_head l \<noteq> None \<and> n \<le> num_from_id (log_head_id l) \<and> n > 0) then Inr (npos, l)
         else rbind (read_u64 (throws l) (index_stream l) (unat ((8 :: u64) * ucast (n - 1)))) (\<lambda>pos. Inr (pos, l)))"

definition read_block_by_num ::
  "('t, 'd, 'x) log_env \<Rightarrow> u32 \<Rightarrow> ('t, 'd, 'x) block_log \<Rightarrow>
     (('t, 'd, 'x) signed_block option \<times> ('t, 'd, 'x) block_log) res" where
  "read_block_by_num E n l =
     rbind (get_block_pos n l) (\<lambda>(pos, l).
     if pos \<noteq> npos then
       rbind (read_block E pos l) (\<lambda>((b, _), l).
       rguard (block_num b = n) (Assert ''Wrong block was read from block log.'') (Inr (Some b, l)))
     else Inr (None, l))"

definition read_head ::
  "('t, 'd, 'x) log_env \<Rightarrow> ('t, 'd, 'x) block_log \<Rightarrow> (('t, 'd, 'x) signed_block \<times> ('t, 'd, 'x) block_log) res" where
  "read_head E l =
     (let l = check_block_read l
      in rbind (read_last (throws l) (block_stream l)) (\<lambda>pos.
         rbind (read_block E pos l) (\<lambda>((b, _), l). Inr (b, l))))"

text \<open>The loop that rebuilds the index: \<open>p\<close> is the position of the stream, \<open>pos\<close> the last position read.\<close>

function index_loop ::
  "('t, 'd, 'x) log_env \<Rightarrow> bool \<Rightarrow> u8 list \<Rightarrow> u64 \<Rightarrow> nat \<Rightarrow> u64 \<Rightarrow> u8 list \<Rightarrow> u8 list res" where
  "index_loop E thr file end_pos p pos idx =
     (if pos < end_pos then
        rbind (le_unpack E (drop p file)) (\<lambda>(_, n).
        if p + n + 8 \<le> length file then
          let q = bytes_u64 (take 8 (drop (p + n) file))
          in index_loop E thr file end_pos (p + n + 8) q (idx @ u64_bytes q)
        else Inl (if thr then Stream_failure else Out_of_range))
      else Inr idx)"
  by pat_completeness auto
termination
  by (relation "measure (\<lambda>(E, thr, file, end_pos, p, pos, idx). length file - p)") auto

declare index_loop.simps [simp del]

definition construct_index :: "('t, 'd, 'x) log_env \<Rightarrow> ('t, 'd, 'x) block_log \<Rightarrow> ('t, 'd, 'x) block_log res" where
  "construct_index E l =
     (let l = check_block_read (l\<lparr>index_stream := [], index_write := True\<rparr>)
      in rbind (read_last (throws l) (block_stream l)) (\<lambda>end_pos.
         rbind (index_loop E (throws l) (block_stream l) end_pos 0 0 []) (\<lambda>idx.
         Inr (l\<lparr>index_stream := idx\<rparr>))))"

text \<open>Opening the log on the two files as they are on disk.\<close>

definition open_log ::
  "('t, 'd, 'x) log_env \<Rightarrow> u8 list \<Rightarrow> u8 list \<Rightarrow> ('t, 'd, 'x) block_log \<Rightarrow> ('t, 'd, 'x) block_log res" where
  "open_log E file idx l =
     (let l = l\<lparr>block_stream := file, index_stream := idx, block_write := True, index_write := True\<rparr>
      in if file \<noteq> [] then
           rbind (read_head E l) (\<lambda>(b, l).
           let l = l\<lparr>log_head := Some b, log_head_id := block_id (le_hashes E) b\<rparr>
           in if idx \<noteq> [] then
                let l = check_index_read (check_block_read l)
                in rbind (read_last (throws l) (block_stream l)) (\<lambda>block_pos.
                   rbind (read_last (throws l) (index_stream l)) (\<lambda>index_pos.
                   if block_pos < index_pos then construct_index E l
                   else if block_pos > index_pos then construct_index E l
                   else Inr l))
              else construct_index E l)
         else if idx \<noteq> [] then Inr (l\<lparr>index_stream := [], index_write := True\<rparr>)
         else Inr l)"

subsection \<open>The layout of the files\<close>

primrec layout :: "('t, 'd, 'x) log_env \<Rightarrow> nat \<Rightarrow> ('t, 'd, 'x) signed_block list \<Rightarrow> u8 list" where
  "layout E p [] = []"
| "layout E p (b # bs) = le_pack E b @ u64_bytes (of_nat p) @ layout E (p + length (le_pack E b) + 8) bs"

primrec starts :: "('t, 'd, 'x) log_env \<Rightarrow> nat \<Rightarrow> ('t, 'd, 'x) signed_block list \<Rightarrow> nat list" where
  "starts E p [] = []"
| "starts E p (b # bs) = p # starts E (p + length (le_pack E b) + 8) bs"

definition index_of :: "('t, 'd, 'x) log_env \<Rightarrow> ('t, 'd, 'x) signed_block list \<Rightarrow> u8 list" where
  "index_of E bs = concat (map (\<lambda>p. u64_bytes (of_nat p)) (starts E 0 bs))"

text \<open>The log holds the blocks \<open>bs\<close>, numbered from one, and fits in the numbers of the code.\<close>

definition log_numbered :: "('t, 'd, 'x) log_env \<Rightarrow> ('t, 'd, 'x) signed_block list \<Rightarrow> bool" where
  "log_numbered E bs \<longleftrightarrow> length bs < 2 ^ 32 \<and> length (layout E 0 bs) < 2 ^ 64 - 1 \<and>
     (\<forall>i < length bs. block_num (bs ! i) = of_nat (i + 1))"

definition holds :: "('t, 'd, 'x) log_env \<Rightarrow> ('t, 'd, 'x) signed_block list \<Rightarrow> ('t, 'd, 'x) block_log \<Rightarrow> bool" where
  "holds E bs l \<longleftrightarrow> block_stream l = layout E 0 bs \<and> index_stream l = index_of E bs \<and>
     log_head l = (if bs = [] then None else Some (last bs)) \<and>
     log_head_id l = (if bs = [] then null_block_id else block_id (le_hashes E) (last bs))"

lemma length_u64_bytes [simp]: "length (u64_bytes w) = 8"
  by (simp add: u64_bytes_def)

lemma bytes_prefix:
  "foldr (\<lambda>b w. ucast b OR push_bit 8 w) (map (\<lambda>i. ucast (drop_bit (8 * i) w) :: u8) [j..<j + k]) 0 =
     take_bit (8 * k) (drop_bit (8 * j) (w :: u64))"
proof (induction k arbitrary: j)
  case (Suc k)
  have "foldr (\<lambda>b w. ucast b OR push_bit 8 w) (map (\<lambda>i. ucast (drop_bit (8 * i) w) :: u8) [j..<j + Suc k]) 0 =
      ucast (ucast (drop_bit (8 * j) w) :: u8) OR push_bit 8 (take_bit (8 * k) (drop_bit (8 * Suc j) w))"
    using Suc [of "Suc j"] by (simp add: upt_conv_Cons del: upt_Suc)
  also have "\<dots> = take_bit (8 * Suc k) (drop_bit (8 * j) w)"
  proof (rule bit_word_eqI)
    fix n :: nat assume "n < LENGTH(64)"
    then show "bit (ucast (ucast (drop_bit (8 * j) w) :: u8) OR push_bit 8 (take_bit (8 * k) (drop_bit (8 * Suc j) w))) n =
        bit (take_bit (8 * Suc k) (drop_bit (8 * j) w)) n"
      by (cases "n < 8") (auto simp: bit_simps)
  qed
  finally show ?case .
qed simp

lemma bytes_u64_inverse [simp]: "bytes_u64 (u64_bytes w) = w"
  using bytes_prefix [of w 0 8] by (simp add: bytes_u64_def u64_bytes_def take_bit_word_eq_self)

lemma layout_append: "layout E p (bs @ cs) = layout E p bs @ layout E (p + length (layout E p bs)) cs"
  by (induction bs arbitrary: p) (simp_all add: add.assoc)

lemma layout_split:
  assumes "i < length bs"
  shows "layout E 0 bs = layout E 0 (take i bs) @ layout E (length (layout E 0 (take i bs))) (bs ! i # drop (Suc i) bs)"
  using layout_append [of E 0 "take i bs" "drop i bs"] by (simp only: append_take_drop_id Cons_nth_drop_Suc [OF assms] add_0)

lemma starts_append: "starts E p (bs @ cs) = starts E p bs @ starts E (p + length (layout E p bs)) cs"
  by (induction bs arbitrary: p) (simp_all add: add.assoc)

lemma length_starts [simp]: "length (starts E p bs) = length bs"
  by (induction bs arbitrary: p) simp_all

lemma starts_nth: "i < length bs \<Longrightarrow> starts E 0 bs ! i = length (layout E 0 (take i bs))"
proof -
  assume "i < length bs"
  then have "starts E 0 bs = starts E 0 (take i bs) @ starts E (length (layout E 0 (take i bs))) (drop i bs)"
    using starts_append [of E 0 "take i bs" "drop i bs"] by simp
  then show ?thesis using \<open>i < length bs\<close> by (simp add: nth_append Cons_nth_drop_Suc [symmetric])
qed

lemma length_index_of [simp]: "length (index_of E bs) = 8 * length bs"
  by (simp add: index_of_def length_concat o_def sum_list_triv)

lemma take_index: "i < length bs \<Longrightarrow> take 8 (drop (8 * i) (index_of E bs)) = u64_bytes (of_nat (starts E 0 bs ! i))"
proof -
  assume i: "i < length bs"
  have "take 8 (drop (8 * i) (concat (map f ps))) = f (ps ! i)"
    if "\<forall>p. length (f p) = 8" "i < length ps" for f :: "nat \<Rightarrow> u8 list" and ps and i
    using that
  proof (induction ps arbitrary: i)
    case (Cons p ps)
    then show ?case by (cases i) simp_all
  qed simp
  from this [of "\<lambda>p. u64_bytes (of_nat p)" i "starts E 0 bs"] show ?thesis using i by (simp add: index_of_def)
qed

lemma read_at:
  assumes "packing_laws E bs" "i < length bs"
  shows "le_unpack E (drop (starts E 0 bs ! i) (layout E 0 bs)) = Inr (bs ! i, length (le_pack E (bs ! i)))"
proof -
  let ?p = "length (layout E 0 (take i bs))"
  have "layout E 0 bs = layout E 0 (take i bs) @ layout E ?p (drop i bs)"
    using layout_append [of E 0 "take i bs" "drop i bs"] by simp
  then have "drop ?p (layout E 0 bs) = layout E ?p (drop i bs)" by (metis append_eq_conv_conj)
  then show ?thesis using assms by (simp add: starts_nth Cons_nth_drop_Suc [symmetric] packing_laws_def)
qed

lemma start_bound: "i < length bs \<Longrightarrow> starts E 0 bs ! i + 8 \<le> length (layout E 0 bs)"
proof -
  assume i: "i < length bs"
  have "layout E 0 bs = layout E 0 (take i bs) @ layout E (length (layout E 0 (take i bs))) (drop i bs)"
    using layout_append [of E 0 "take i bs" "drop i bs"] by simp
  then have "length (layout E 0 bs) = length (layout E 0 (take i bs)) + length (layout E (length (layout E 0 (take i bs))) (drop i bs))"
    by (metis length_append)
  then show ?thesis using i by (simp add: starts_nth Cons_nth_drop_Suc [symmetric])
qed

lemma last_position:
  assumes "bs \<noteq> []"
  shows "read_last thr (layout E 0 bs) = Inr (of_nat (starts E 0 bs ! (length bs - 1)))"
    and "read_last thr (index_of E bs) = Inr (of_nat (starts E 0 bs ! (length bs - 1)))"
proof -
  have bs: "bs = butlast bs @ [last bs]" using assms by simp
  let ?p = "length (layout E 0 (butlast bs))"
  have l: "layout E 0 bs = (layout E 0 (butlast bs) @ le_pack E (last bs)) @ u64_bytes (of_nat ?p)"
    by (subst bs, subst layout_append) simp
  have "starts E 0 bs ! (length bs - 1) = ?p" using assms by (simp add: starts_nth butlast_conv_take)
  then show "read_last thr (layout E 0 bs) = Inr (of_nat (starts E 0 bs ! (length bs - 1)))"
    unfolding l by (simp add: read_last_def read_u64_def)
  have "8 * length bs - 8 = 8 * (length bs - 1)" by simp
  then show "read_last thr (index_of E bs) = Inr (of_nat (starts E 0 bs ! (length bs - 1)))"
    using assms take_index [of "length bs - 1" bs E] by (cases bs) (auto simp: read_last_def read_u64_def)
qed


lemma start_Suc: "Suc i < length bs \<Longrightarrow> starts E 0 bs ! Suc i = starts E 0 bs ! i + length (le_pack E (bs ! i)) + 8"
  by (simp add: starts_nth take_Suc_conv_app_nth layout_append)

lemma start_mono: "i < j \<Longrightarrow> j < length bs \<Longrightarrow> starts E 0 bs ! i < starts E 0 bs ! j"
proof (induction j)
  case (Suc j)
  have step: "starts E 0 bs ! j < starts E 0 bs ! Suc j" using start_Suc [OF Suc.prems(2), of E] by simp
  show ?case
  proof (cases "i = j")
    case False
    then show ?thesis using Suc step by fastforce
  qed (use step in simp)
qed simp

lemma stored_position:
  assumes "i < length bs"
  shows "starts E 0 bs ! i + length (le_pack E (bs ! i)) + 8 \<le> length (layout E 0 bs)"
    and "take 8 (drop (starts E 0 bs ! i + length (le_pack E (bs ! i))) (layout E 0 bs)) = u64_bytes (of_nat (starts E 0 bs ! i))"
proof -
  let ?p = "length (layout E 0 (take i bs))"
  let ?r = "layout E (?p + length (le_pack E (bs ! i)) + 8) (drop (Suc i) bs)"
  have "layout E 0 bs = (layout E 0 (take i bs) @ le_pack E (bs ! i)) @ u64_bytes (of_nat ?p) @ ?r"
    unfolding layout_split [OF assms] by simp
  then obtain pre where l: "layout E 0 bs = pre @ u64_bytes (of_nat ?p) @ ?r" "length pre = ?p + length (le_pack E (bs ! i))"
    by (metis length_append)
  show "starts E 0 bs ! i + length (le_pack E (bs ! i)) + 8 \<le> length (layout E 0 bs)"
    using l assms by (simp add: starts_nth)
  show "take 8 (drop (starts E 0 bs ! i + length (le_pack E (bs ! i))) (layout E 0 bs)) = u64_bytes (of_nat (starts E 0 bs ! i))"
    using assms l(2) unfolding l(1) by (simp add: starts_nth)
qed

lemma of_nat_u64_less:
  assumes "m < 2 ^ 64" "n < 2 ^ 64"
  shows "((of_nat m :: u64) < of_nat n) = (m < n)"
  using assms by (simp add: word_less_nat_alt unsigned_of_nat take_bit_nat_eq_self)

lemma of_nat_u64_eq:
  assumes "m < 2 ^ 64" "n < 2 ^ 64"
  shows "((of_nat m :: u64) = of_nat n) = (m = n)"
  using assms by (simp add: word_unat_eq_iff unsigned_of_nat take_bit_nat_eq_self)

lemma index_loop_from:
  assumes E: "packing_laws E bs" and n: "length (layout E 0 bs) < 2 ^ 64"
    and i: "i < length bs" and pos: "pos < of_nat (starts E 0 bs ! (length bs - 1))"
  shows "index_loop E thr (layout E 0 bs) (of_nat (starts E 0 bs ! (length bs - 1))) (starts E 0 bs ! i) pos idx =
    Inr (idx @ concat (map (\<lambda>p. u64_bytes (of_nat p)) (drop i (starts E 0 bs))))"
  using i pos
proof (induction "length bs - i" arbitrary: i pos idx)
  case (Suc k)
  let ?s = "starts E 0 bs" and ?last = "length bs - 1"
  note u = read_at [OF E Suc.prems(1)] and sp = stored_position [OF Suc.prems(1), of E]
  have d: "drop i ?s = ?s ! i # drop (Suc i) ?s" using Suc.prems(1) by (simp add: Cons_nth_drop_Suc)
  show ?case
  proof (cases "Suc i < length bs")
    case True
    have "?s ! i < ?s ! ?last" using start_mono [of i ?last bs E] True by simp
    moreover have "?s ! ?last < 2 ^ 64" using start_bound [of ?last bs E] n Suc.prems(1) by linarith
    ultimately have less: "(of_nat (?s ! i) :: u64) < of_nat (?s ! ?last)" by (simp add: of_nat_u64_less)
    have "k = length bs - Suc i" using Suc.hyps(2) by simp
    from Suc.hyps(1) [OF this True less, of "idx @ u64_bytes (of_nat (?s ! i))"]
    show ?thesis using Suc.prems(2) u sp start_Suc [OF True, of E] d
      by (subst index_loop.simps) (simp add: add.assoc)
  next
    case False
    then have "i = ?last" using Suc.prems(1) by simp
    then show ?thesis using Suc.prems u sp d
      by (subst index_loop.simps) (simp, subst index_loop.simps, simp)
  qed
qed simp

lemma rebuilt_index:
  assumes E: "packing_laws E bs" and n: "length (layout E 0 bs) < 2 ^ 64" and two: "2 \<le> length bs"
    and l: "block_stream l = layout E 0 bs"
  shows "construct_index E l = Inr (check_block_read l\<lparr>index_stream := index_of E bs, index_write := True\<rparr>)"
proof -
  have ne: "bs \<noteq> []" and i: "0 < length bs" using two by auto
  have "0 < starts E 0 bs ! (length bs - 1)" using start_mono [of 0 "length bs - 1" bs E] two by linarith
  moreover have "starts E 0 bs ! (length bs - 1) < 2 ^ 64" using start_bound [of "length bs - 1" bs E] n i by linarith
  ultimately have "(0 :: u64) < of_nat (starts E 0 bs ! (length bs - 1))" using of_nat_u64_less [of 0] by simp
  from index_loop_from [OF E n i this, of "throws l" "[]"]
  have "index_loop E (throws l) (layout E 0 bs) (of_nat (starts E 0 bs ! (length bs - 1))) 0 0 [] = Inr (index_of E bs)"
    using i by (simp add: starts_nth index_of_def)
  then show ?thesis using l last_position(1) [OF ne]
    by (simp add: construct_index_def Let_def check_block_read_def)
qed

lemma one_block_index:
  assumes l: "block_stream l = layout E 0 [b]"
  shows "construct_index E l = Inr (check_block_read l\<lparr>index_stream := [], index_write := True\<rparr>)"
  using l last_position(1) [of "[b]" _ E]
  by (simp add: construct_index_def Let_def check_block_read_def index_loop.simps)

subsection \<open>Appending and reading\<close>

lemma ucast_of_nat_u64: "n < 2 ^ 32 \<Longrightarrow> ucast (of_nat n :: u32) = (of_nat n :: u64)"
  by (simp add: word_unat_eq_iff unsigned_ucast_eq unsigned_of_nat take_bit_nat_eq_self)

lemma append_holds:
  assumes "holds E bs l" "log_numbered E (bs @ [b])"
  shows "\<exists>pos l'. log_append E b l = Inr (pos, l') \<and> holds E (bs @ [b]) l' \<and> throws l' = throws l"
proof -
  have "block_num b = of_nat (length bs + 1)" "length bs + 1 < 2 ^ 32"
    using assms(2) by (auto simp: log_numbered_def nth_append)
  then have "(8 :: u64) * ucast (block_num b - 1) = of_nat (8 * length bs)"
    by (simp add: ucast_of_nat_u64)
  moreover have "index_of E (bs @ [b]) = index_of E bs @ u64_bytes (of_nat (length (layout E 0 bs)))"
    by (simp add: index_of_def starts_append)
  ultimately show ?thesis using assms(1)
    by (simp add: log_append_def Let_def check_block_write_def check_index_write_def holds_def layout_append)
qed

lemma append_wrong_number:
  assumes "holds E bs l" "length bs < 2 ^ 32" "block_num b \<noteq> of_nat (length bs + 1)"
  shows "log_append E b l = Inl (Assert ''Append to index file occuring at wrong position.'')"
proof -
  have "of_nat (8 * length bs) \<noteq> (8 :: u64) * ucast (block_num b - 1)"
  proof
    assume "of_nat (8 * length bs) = (8 :: u64) * ucast (block_num b - 1)"
    then have "of_nat (8 * length bs) = (of_nat (8 * unat (block_num b - 1)) :: u64)" by (simp add: word_unat_eq_iff unsigned_ucast_eq unsigned_of_nat)
    moreover have "8 * length bs < 2 ^ 64" "8 * unat (block_num b - 1) < 2 ^ 64"
      using assms(2) unsigned_less [of "block_num b - 1", where 'a = nat] by simp_all
    ultimately have "length bs = unat (block_num b - 1)" by (simp add: of_nat_u64_eq del: of_nat_mult)
    then have "block_num b - 1 = of_nat (length bs)" by simp
    then show False using assms(3) by (simp add: algebra_simps)
  qed
  then show ?thesis using assms(1)
    by (simp add: log_append_def Let_def check_block_write_def check_index_write_def holds_def)
qed


lemma log_numbered_last: "log_numbered E bs \<Longrightarrow> bs \<noteq> [] \<Longrightarrow> block_num (last bs) = of_nat (length bs) \<and> length bs < 2 ^ 32"
proof -
  assume n: "log_numbered E bs" and ne: "bs \<noteq> []"
  have "length bs - 1 < length bs" using ne by simp
  with n have "block_num (bs ! (length bs - 1)) = of_nat (length bs - 1 + 1)" unfolding log_numbered_def by blast
  moreover have "length bs - 1 + 1 = length bs" using ne by (cases bs) simp_all
  ultimately show ?thesis using n ne by (simp add: last_conv_nth log_numbered_def del: of_nat_add)
qed

lemma read_by_num:
  assumes E: "packing_laws E bs" and l: "holds E bs l" and n: "log_numbered E bs"
  shows "\<exists>l'. read_block_by_num E k l = Inr (if 0 < k \<and> unat k \<le> length bs then Some (bs ! (unat k - 1)) else None, l') \<and>
    holds E bs l'"
proof (cases "0 < k \<and> unat k \<le> length bs")
  case True
  let ?i = "unat k - 1"
  have "0 < unat k" using True by (simp add: word_gt_0 unat_gt_0)
  then have i: "?i < length bs" and k: "unat k = Suc ?i" using True by linarith+
  have ne: "bs \<noteq> []" using i by auto
  then have last: "block_num (last bs) = of_nat (length bs)" "bs \<noteq> []" "length bs < 2 ^ 32"
    using log_numbered_last [OF n ne] by simp_all
  have "block_num (bs ! ?i) = of_nat (unat k)" using n i k by (auto simp: log_numbered_def)
  then have num: "block_num (bs ! ?i) = k" by simp
  have le: "k \<le> block_num (last bs)" using True last by (simp add: word_le_nat_alt unsigned_of_nat take_bit_nat_eq_self)
  have "unat (k - 1) = ?i" using True by (simp add: unat_minus_one word_gt_0)
  moreover have "?i < 2 ^ 32" using unsigned_less [of k, where 'a = nat] by simp
  ultimately have off: "unat ((8 :: u64) * ucast (k - 1)) = 8 * ?i"
    by (simp add: unat_word_ariths unsigned_ucast_eq take_bit_nat_eq_self mod_less)
  have pos: "starts E 0 bs ! ?i < 2 ^ 64 - 1" using start_bound [OF i, of E] n by (auto simp: log_numbered_def)
  then have "(of_nat (starts E 0 bs ! ?i) :: u64) \<noteq> npos"
    by (simp add: npos_def word_unat_eq_iff unsigned_of_nat take_bit_nat_eq_self unsigned_minus_1_eq_mask mask_eq_exp_minus_1)
  moreover have "unat (of_nat (starts E 0 bs ! ?i) :: u64) = starts E 0 bs ! ?i"
    using pos by (simp add: unsigned_of_nat take_bit_nat_eq_self)
  ultimately show ?thesis
    using True l last le off num i take_index [OF i, of E] read_at [OF E i]
    by (simp add: read_block_by_num_def get_block_pos_def read_block_def Let_def holds_def num_from_id_def block_id_def
        read_u64_def check_index_read_def check_block_read_def)
next
  case False
  have "\<not> (log_head l \<noteq> None \<and> k \<le> num_from_id (log_head_id l) \<and> k > 0)"
  proof (cases "bs = []")
    case ne: False
    then have "block_num (last bs) = of_nat (length bs)" "length bs < 2 ^ 32"
      using log_numbered_last [OF n] by auto
    then show ?thesis using False l ne
      by (auto simp: holds_def num_from_id_def block_id_def word_le_nat_alt unsigned_of_nat take_bit_nat_eq_self)
  qed (use l in \<open>simp add: holds_def\<close>)
  then show ?thesis using False l
    by (auto simp: read_block_by_num_def get_block_pos_def Let_def check_index_read_def holds_def)
qed

lemma read_head_last:
  assumes E: "packing_laws E bs" and n: "log_numbered E bs" and l: "block_stream l = layout E 0 bs" and ne: "bs \<noteq> []"
  shows "read_head E l = Inr (last bs, check_block_read l)"
proof -
  let ?i = "length bs - 1"
  have i: "?i < length bs" using ne by simp
  have "starts E 0 bs ! ?i < 2 ^ 64" using start_bound [OF i, of E] n by (auto simp: log_numbered_def)
  then have "unat (of_nat (starts E 0 bs ! ?i) :: u64) = starts E 0 bs ! ?i" by (simp add: unsigned_of_nat take_bit_nat_eq_self)
  then show ?thesis using l last_position(1) [OF ne, of _ E] read_at [OF E i] ne
    by (simp add: read_head_def read_block_def Let_def check_block_read_def last_conv_nth)
qed

lemma open_holds:
  assumes E: "packing_laws E bs" and n: "log_numbered E bs" and two: "2 \<le> length bs"
    and idx: "idx = [] \<or> idx = index_of E bs \<or>
      (\<exists>q. read_last (throws l) idx = Inr q \<and> q \<noteq> of_nat (starts E 0 bs ! (length bs - 1)))"
  shows "\<exists>l'. open_log E (layout E 0 bs) idx l = Inr l' \<and> holds E bs l'"
proof -
  have ne: "bs \<noteq> []" and len: "length (layout E 0 bs) < 2 ^ 64" using two n by (auto simp: log_numbered_def)
  have nonempty: "layout E 0 bs \<noteq> []" using ne by (cases bs) (auto simp: u64_bytes_def)
  have ix: "index_of E bs \<noteq> []" using ne length_index_of [of E bs] by (metis length_0_conv mult_eq_0_iff zero_neq_numeral)
  let ?l = "l\<lparr>block_stream := layout E 0 bs, index_stream := idx, block_write := True, index_write := True\<rparr>"
  have h: "read_head E ?l = Inr (last bs, check_block_read ?l)" by (rule read_head_last [OF E n _ ne]) simp
  note r = rebuilt_index [OF E len two]
  consider "idx = []" | "idx = index_of E bs" | q where "idx \<noteq> []" "read_last (throws l) idx = Inr q"
      "q \<noteq> of_nat (starts E 0 bs ! (length bs - 1))" using idx by blast
  then show ?thesis
  proof cases
    case 1
    then show ?thesis using h nonempty ne
      by (simp add: open_log_def Let_def r check_block_read_def holds_def)
  next
    case 2
    then show ?thesis using h nonempty ne ix last_position [OF ne, of _ E]
      by (simp add: open_log_def Let_def check_block_read_def check_index_read_def holds_def)
  next
    case 3
    then consider "q < of_nat (starts E 0 bs ! (length bs - 1))" | "of_nat (starts E 0 bs ! (length bs - 1)) < q" by force
    then show ?thesis using h nonempty ne 3 last_position(1) [OF ne, of _ E]
      by cases (auto simp: open_log_def Let_def r check_block_read_def check_index_read_def holds_def dest: less_asym)
  qed
qed


subsection \<open>Properties\<close>

definition append_all ::
  "('t, 'd, 'x) log_env \<Rightarrow> ('t, 'd, 'x) signed_block list \<Rightarrow> ('t, 'd, 'x) block_log \<Rightarrow> ('t, 'd, 'x) block_log res" where
  "append_all E = rfold (\<lambda>b l. rbind (log_append E b l) (\<lambda>(_, l). Inr l))"

lemma log_numbered_prefix: "log_numbered E (bs @ cs) \<Longrightarrow> log_numbered E bs"
  by (auto simp: log_numbered_def layout_append nth_append split: if_splits)

lemma append_all_holds:
  assumes "log_numbered E (bs @ cs)" "holds E bs l"
  shows "\<exists>l'. append_all E cs l = Inr l' \<and> holds E (bs @ cs) l' \<and> throws l' = throws l"
  using assms
proof (induction cs arbitrary: bs l)
  case (Cons c cs)
  have "log_numbered E (bs @ [c])" using log_numbered_prefix [of E "bs @ [c]" cs] Cons.prems(1) by simp
  then obtain pos m where m: "log_append E c l = Inr (pos, m)" "holds E (bs @ [c]) m" "throws m = throws l"
    using append_holds [OF Cons.prems(2)] by blast
  then show ?case using Cons.IH [of "bs @ [c]" m] Cons.prems(1) by (auto simp: append_all_def)
qed (simp add: append_all_def)

text \<open>C30: the block log gives back what was appended: any list of blocks numbered from one is accepted by a new
  log, block by block; afterwards reading by number gives the block of that number, nothing for zero and for
  numbers above the last, the head is the last block, and a block of any number but the next is refused.\<close>
theorem log_reads_back:
  assumes "packing_laws E bs" "log_numbered E bs"
  shows "\<exists>l. append_all E bs new_block_log = Inr l \<and>
    (\<forall>k. \<exists>l'. read_block_by_num E k l = Inr (if 0 < k \<and> unat k \<le> length bs then Some (bs ! (unat k - 1)) else None, l')) \<and>
    (bs \<noteq> [] \<longrightarrow> (\<exists>l'. read_head E l = Inr (last bs, l'))) \<and>
    (\<forall>b. block_num b \<noteq> of_nat (length bs + 1) \<longrightarrow> \<not> is_ok (log_append E b l))"
proof -
  have "holds E [] new_block_log" by (simp add: holds_def new_block_log_def index_of_def)
  then obtain l where l: "append_all E bs new_block_log = Inr l" "holds E bs l"
    using append_all_holds [of E "[]" bs] assms(2) by auto
  have "length bs < 2 ^ 32" using assms(2) by (simp add: log_numbered_def)
  then have "\<not> is_ok (log_append E b l)" if "block_num b \<noteq> of_nat (length bs + 1)" for b
    using append_wrong_number [OF l(2) _ that] by simp
  moreover have "\<exists>l'. read_head E l = Inr (last bs, l')" if "bs \<noteq> []"
    using read_head_last [OF assms _ that, of l] l(2) by (simp add: holds_def)
  ultimately show ?thesis
    using l(1) read_by_num [OF assms(1) l(2) assms(2)] by blast
qed

text \<open>The index file is disposable: opening a log of at least two blocks whose index is missing, complete, or
  ends with a position other than the one of the last block, gives a log that reads every block by number.\<close>
theorem log_reopens:
  assumes "packing_laws E bs" "log_numbered E bs" "2 \<le> length bs"
    and "idx = [] \<or> idx = index_of E bs \<or>
      (\<exists>q. read_last (throws l) idx = Inr q \<and> q \<noteq> of_nat (starts E 0 bs ! (length bs - 1)))"
  shows "\<exists>l'. open_log E (layout E 0 bs) idx l = Inr l' \<and> index_stream l' = index_of E bs \<and>
    (\<forall>k. \<exists>l''. read_block_by_num E k l' = Inr (if 0 < k \<and> unat k \<le> length bs then Some (bs ! (unat k - 1)) else None, l''))"
proof -
  obtain l' where "open_log E (layout E 0 bs) idx l = Inr l'" "holds E bs l'" using open_holds [OF assms] by blast
  moreover from this(2) have "index_stream l' = index_of E bs" by (simp add: holds_def)
  ultimately show ?thesis using read_by_num [OF assms(1) _ assms(2), of l'] by blast
qed

text \<open>C31: the rebuilt index of a log with exactly one block is empty: the log opens, but reading the block by its
  number fails, and so does appending the second block.\<close>
theorem one_block_log_lost:
  assumes "packing_laws E [b]" "log_numbered E [b]"
  shows "\<exists>l'. open_log E (layout E 0 [b]) [] new_block_log = Inr l' \<and> log_head l' = Some b \<and>
    read_block_by_num E 1 l' = Inl Stream_failure \<and>
    (\<forall>c. block_num c = 2 \<longrightarrow> \<not> is_ok (log_append E c l'))"
proof -
  let ?l = "new_block_log\<lparr>block_stream := layout E 0 [b], index_stream := [], block_write := True, index_write := True\<rparr>"
  have h: "read_head E ?l = Inr (b, check_block_read ?l)" using read_head_last [OF assms, of ?l] by simp
  have nonempty: "layout E 0 [b] \<noteq> []" by (auto simp: u64_bytes_def)
  have num: "block_num b = 1" using assms(2) by (simp add: log_numbered_def)
  show ?thesis
    using h nonempty num
    by (simp add: open_log_def Let_def one_block_index check_block_read_def check_index_read_def new_block_log_def
        read_block_by_num_def get_block_pos_def num_from_id_def block_id_def read_u64_def log_append_def
        check_block_write_def check_index_write_def)
qed

subsection \<open>A log of three blocks\<close>

definition logged :: "u32 \<Rightarrow> (nat, free_digest, unit) signed_block" where
  "logged n = (free_block [])\<lparr>previous := \<lparr>id_num = n - 1, id_hash = 0\<rparr>\<rparr>"

definition sample_log_env :: "(nat, free_digest, unit) log_env" where
  "sample_log_env = \<lparr>le_hashes = free_hashes, le_pack = (\<lambda>b. [ucast (block_num b), 7]),
     le_unpack = (\<lambda>file. case file of n # _ # _ \<Rightarrow> Inr (logged (ucast n), 2) | _ \<Rightarrow> Inl Stream_failure)\<rparr>"

lemma block_num_logged [simp]: "block_num (logged n) = n"
  by (simp add: block_num_def num_from_id_def logged_def)

lemma sample_packing: "packing_laws sample_log_env [logged 1, logged 2, logged 3]" "packing_laws sample_log_env [logged 1]"
  by (simp_all add: packing_laws_def sample_log_env_def)

lemma sample_numbered: "log_numbered sample_log_env [logged 1, logged 2, logged 3]" "log_numbered sample_log_env [logged 1]"
  by (auto simp: log_numbered_def less_Suc_eq sample_log_env_def)

lemma log_reads_back_witness:
  "\<exists>l l'. append_all sample_log_env [logged 1, logged 2, logged 3] new_block_log = Inr l \<and>
     read_block_by_num sample_log_env 2 l = Inr (Some (logged 2), l')"
proof -
  let ?bs = "[logged 1, logged 2, logged 3]"
  obtain l where l: "append_all sample_log_env ?bs new_block_log = Inr l"
    "\<forall>k. \<exists>l'. read_block_by_num sample_log_env k l =
       Inr (if 0 < k \<and> unat k \<le> length ?bs then Some (?bs ! (unat k - 1)) else None, l')"
    using log_reads_back [OF sample_packing(1) sample_numbered(1)] by blast
  from l(2) [rule_format, of 2] show ?thesis using l(1) by auto
qed

lemma log_reopens_witness:
  "\<exists>l' l''. open_log sample_log_env (layout sample_log_env 0 [logged 1, logged 2, logged 3]) [] new_block_log = Inr l' \<and>
     read_block_by_num sample_log_env 3 l' = Inr (Some (logged 3), l'')"
proof -
  let ?bs = "[logged 1, logged 2, logged 3]"
  have two: "2 \<le> length ?bs" by simp
  obtain l' where l: "open_log sample_log_env (layout sample_log_env 0 ?bs) [] new_block_log = Inr l'"
    "\<forall>k. \<exists>l''. read_block_by_num sample_log_env k l' =
       Inr (if 0 < k \<and> unat k \<le> length ?bs then Some (?bs ! (unat k - 1)) else None, l'')"
    using log_reopens [OF sample_packing(1) sample_numbered(1) two, of "[]" new_block_log] by blast
  from l(2) [rule_format, of 3] show ?thesis using l(1) by (auto simp del: layout.simps)
qed

lemma one_block_log_lost_witness:
  "\<exists>l'. open_log sample_log_env (layout sample_log_env 0 [logged 1]) [] new_block_log = Inr l' \<and>
     read_block_by_num sample_log_env 1 l' = Inl Stream_failure \<and> \<not> is_ok (log_append sample_log_env (logged 2) l')"
  using one_block_log_lost [OF sample_packing(2) sample_numbered(2)] by auto

end
