(* ===== verification/Fork_Database.thy ===== *)
theory Fork_Database
  imports Block Table
begin

section \<open>The fork database\<close>

text \<open>
  Models \<open>libraries/chain/fork_database.cpp\<close> and \<open>fork_database.hpp\<close>: the tree of recent blocks.
  Items are shared objects linked by weak pointers, so the state has a heap of items and the index
  holds addresses, in the order of the \<open>block_num\<close> index (ascending numbers, equal numbers in
  insertion order). A weak pointer can be locked while some owner keeps the item alive: the index,
  the cache of unlinked blocks, the head, or a pointer a caller holds (\<open>held\<close>).
\<close>

record ('t, 'd, 'x) fork_item =
  prev :: "nat option"
  num :: u32
  invalid :: bool
  item_id :: block_id
  data :: "('t, 'd, 'x) signed_block"

record ('t, 'd, 'x) fork_database =
  heap :: "('t, 'd, 'x) fork_item table"
  next_addr :: nat
  index :: "nat list"
  unlinked_index :: "nat list"
  head :: "nat option"
  held :: "nat list"
  max_size :: u32

definition fork_item_of :: "('t, 'd, 'x) hashes \<Rightarrow> ('t, 'd, 'x) signed_block \<Rightarrow> ('t, 'd, 'x) fork_item" where
  "fork_item_of H d = \<lparr>prev = None, num = block_num d, invalid = False, item_id = block_id H d, data = d\<rparr>"

definition previous_id :: "('t, 'd, 'x) fork_item \<Rightarrow> block_id" where
  "previous_id i = previous (data i)"

definition empty_fork_database :: "('t, 'd, 'x) fork_database" where
  "empty_fork_database = \<lparr>heap = [], next_addr = 0, index = [], unlinked_index = [], head = None,
     held = [], max_size = 1024\<rparr>"

abbreviation (input) item :: "('t, 'd, 'x) fork_database \<Rightarrow> nat \<Rightarrow> ('t, 'd, 'x) fork_item" where
  "item f a \<equiv> the (map_of (heap f) a)"

definition alive :: "('t, 'd, 'x) fork_database \<Rightarrow> nat \<Rightarrow> bool" where
  "alive f a \<longleftrightarrow> a \<in> set (index f) \<or> a \<in> set (unlinked_index f) \<or> head f = Some a \<or> a \<in> set (held f)"

text \<open>\<open>weak_ptr::lock\<close>\<close>

definition lock :: "('t, 'd, 'x) fork_database \<Rightarrow> nat option \<Rightarrow> nat option" where
  "lock f p = (case p of Some a \<Rightarrow> if alive f a then Some a else None | None \<Rightarrow> None)"

definition find_id :: "('t, 'd, 'x) fork_database \<Rightarrow> nat list \<Rightarrow> block_id \<Rightarrow> nat option" where
  "find_id f as i = find (\<lambda>a. item_id (item f a) = i) as"

text \<open>Insertion into the container: unique by id, after the items with the same number.\<close>

definition insert_by_num :: "(nat \<Rightarrow> u32) \<Rightarrow> nat \<Rightarrow> nat list \<Rightarrow> nat list" where
  "insert_by_num n a as = takeWhile (\<lambda>b. n b \<le> n a) as @ a # dropWhile (\<lambda>b. n b \<le> n a) as"

definition index_insert :: "('t, 'd, 'x) fork_database \<Rightarrow> nat \<Rightarrow> nat list \<Rightarrow> nat list" where
  "index_insert f a as =
     (if find_id f as (item_id (item f a)) = None then insert_by_num (\<lambda>b. num (item f b)) a as else as)"

definition alloc :: "('t, 'd, 'x) fork_item \<Rightarrow> ('t, 'd, 'x) fork_database \<Rightarrow> nat \<times> ('t, 'd, 'x) fork_database" where
  "alloc i f = (next_addr f, f\<lparr>heap := tput (next_addr f) i (heap f), next_addr := next_addr f + 1\<rparr>)"

subsection \<open>Operations\<close>

definition reset :: "('t, 'd, 'x) fork_database \<Rightarrow> ('t, 'd, 'x) fork_database" where
  "reset f = f\<lparr>head := None, index := []\<rparr>"

definition fdb_pop_block :: "('t, 'd, 'x) fork_database \<Rightarrow> ('t, 'd, 'x) fork_database res" where
  "fdb_pop_block f =
     (case head f of
        None \<Rightarrow> Inl (Assert ''cannot pop an empty fork database'')
      | Some h \<Rightarrow>
          (case lock f (prev (item f h)) of
             None \<Rightarrow> Inl (Assert ''popping head block would leave fork DB empty'')
           | Some p \<Rightarrow> Inr (f\<lparr>head := Some p\<rparr>)))"

definition start_block ::
  "('t, 'd, 'x) hashes \<Rightarrow> ('t, 'd, 'x) signed_block \<Rightarrow> ('t, 'd, 'x) fork_database \<Rightarrow> ('t, 'd, 'x) fork_database" where
  "start_block H b f =
     (case alloc (fork_item_of H b) f of
        (a, f) \<Rightarrow> f\<lparr>index := index_insert f a (index f), head := Some a\<rparr>)"

definition oldest_num :: "('t, 'd, 'x) fork_database \<Rightarrow> nat \<Rightarrow> int" where
  "oldest_num f h = max 0 (uint (num (item f h)) - uint (max_size f))"

definition fdb_link ::
  "('t, 'd, 'x) fork_item \<Rightarrow> ('t, 'd, 'x) fork_database \<Rightarrow> ('t, 'd, 'x) fork_item res" where
  "fdb_link i f =
     (if head f \<noteq> None \<and> previous_id i \<noteq> null_block_id
      then (case find_id f (index f) (previous_id i) of
              None \<Rightarrow> Inl Unlinkable_block
            | Some p \<Rightarrow> rguard (\<not> invalid (item f p)) (Assert ''!(*itr)->invalid'') (Inr (i\<lparr>prev := Some p\<rparr>)))
      else Inr i)"

text \<open>\<open>_push_block\<close>: the item becomes the head only when its number is higher.\<close>

definition fdb_insert ::
  "('t, 'd, 'x) fork_item \<Rightarrow> ('t, 'd, 'x) fork_database \<Rightarrow> ('t, 'd, 'x) fork_database" where
  "fdb_insert i f =
     (case alloc i f of (a, f) \<Rightarrow>
      let f = f\<lparr>index := index_insert f a (index f)\<rparr>;
          higher = (case head f of Some h \<Rightarrow> num i > num (item f h) | None \<Rightarrow> True)
      in if higher then f\<lparr>head := Some a\<rparr> else f)"

definition fdb_push_item ::
  "('t, 'd, 'x) fork_item \<Rightarrow> ('t, 'd, 'x) fork_database \<Rightarrow> ('t, 'd, 'x) fork_database res" where
  "fdb_push_item i f =
     rguard (case head f of Some h \<Rightarrow> uint (num i) > oldest_num f h | None \<Rightarrow> True)
       (Assert ''attempting to push a block that is too old'')
     (rbind (fdb_link i f) (\<lambda>i. Inr (fdb_insert i f)))"

text \<open>
  \<open>push_block\<close> returns the head. Its handler for unlinkable blocks rethrows before it reaches the
  insertion into the unlinked cache, so a block that does not link leaves no trace.
\<close>

definition fdb_push_block ::
  "('t, 'd, 'x) hashes \<Rightarrow> ('t, 'd, 'x) signed_block \<Rightarrow> ('t, 'd, 'x) fork_database \<Rightarrow>
   (nat option \<times> ('t, 'd, 'x) fork_database) res" where
  "fdb_push_block H b f = rbind (fdb_push_item (fork_item_of H b) f) (\<lambda>f. Inr (head f, f))"

definition set_max_size :: "u32 \<Rightarrow> ('t, 'd, 'x) fork_database \<Rightarrow> ('t, 'd, 'x) fork_database" where
  "set_max_size s f =
     (let f = f\<lparr>max_size := s\<rparr> in
      case head f of None \<Rightarrow> f
      | Some h \<Rightarrow>
          (let old = (\<lambda>a. uint (num (item f a)) < oldest_num f h)
           in f\<lparr>index := dropWhile old (index f), unlinked_index := dropWhile old (unlinked_index f)\<rparr>))"

definition is_known_block :: "block_id \<Rightarrow> ('t, 'd, 'x) fork_database \<Rightarrow> bool" where
  "is_known_block i f \<longleftrightarrow> find_id f (index f) i \<noteq> None \<or> find_id f (unlinked_index f) i \<noteq> None"

definition fetch_block :: "block_id \<Rightarrow> ('t, 'd, 'x) fork_database \<Rightarrow> nat option" where
  "fetch_block i f = (case find_id f (index f) i of Some a \<Rightarrow> Some a | None \<Rightarrow> find_id f (unlinked_index f) i)"

definition fetch_block_by_number :: "u32 \<Rightarrow> ('t, 'd, 'x) fork_database \<Rightarrow> nat list" where
  "fetch_block_by_number n f =
     takeWhile (\<lambda>a. num (item f a) = n) (dropWhile (\<lambda>a. num (item f a) < n) (index f))"

definition set_head :: "nat \<Rightarrow> ('t, 'd, 'x) fork_database \<Rightarrow> ('t, 'd, 'x) fork_database" where
  "set_head a f = f\<lparr>head := Some a\<rparr>"

definition fdb_remove :: "block_id \<Rightarrow> ('t, 'd, 'x) fork_database \<Rightarrow> ('t, 'd, 'x) fork_database" where
  "fdb_remove i f = f\<lparr>index := filter (\<lambda>a. item_id (item f a) \<noteq> i) (index f)\<rparr>"

text \<open>
  The loops that walk along the weak pointers. Nothing in their code bounds them, so they are
  partial functions: \<open>None\<close> is a walk that never ends.
\<close>

abbreviation (input) height :: "('t, 'd, 'x) fork_database \<Rightarrow> nat \<Rightarrow> u32" where
  "height f a \<equiv> block_num (data (item f a))"

partial_function (option) climb ::
  "('t, 'd, 'x) fork_database \<Rightarrow> u32 \<Rightarrow> nat \<Rightarrow> nat list \<Rightarrow> (nat \<times> nat list) res option" where
  "climb f n a acc =
     (if height f a > n
      then (case lock f (prev (item f a)) of
              None \<Rightarrow> Some (Inl (Assert ''first_branch''))
            | Some p \<Rightarrow> climb f n p (acc @ [a]))
      else Some (Inr (a, acc)))"

partial_function (option) climb_both ::
  "('t, 'd, 'x) fork_database \<Rightarrow> nat \<Rightarrow> nat \<Rightarrow> nat list \<Rightarrow> nat list \<Rightarrow> (nat list \<times> nat list) res option" where
  "climb_both f a b xs ys =
     (if previous (data (item f a)) \<noteq> previous (data (item f b))
      then (case lock f (prev (item f a)) of
              None \<Rightarrow> Some (Inl (Assert ''first_branch''))
            | Some p \<Rightarrow>
                (case lock f (prev (item f b)) of
                   None \<Rightarrow> Some (Inl (Assert ''second_branch''))
                 | Some q \<Rightarrow> climb_both f p q (xs @ [a]) (ys @ [b])))
      else Some (Inr (xs @ [a], ys @ [b])))"

definition fetch_branch_from ::
  "block_id \<Rightarrow> block_id \<Rightarrow> ('t, 'd, 'x) fork_database \<Rightarrow> (nat list \<times> nat list) res option" where
  "fetch_branch_from first second f =
     (case find_id f (index f) first of
        None \<Rightarrow> Some (Inl (Assert ''first_branch_itr''))
      | Some a \<Rightarrow>
        (case find_id f (index f) second of
           None \<Rightarrow> Some (Inl (Assert ''second_branch_itr''))
         | Some b \<Rightarrow>
           (case climb f (height f b) a [] of
              None \<Rightarrow> None
            | Some (Inl e) \<Rightarrow> Some (Inl e)
            | Some (Inr (a, xs)) \<Rightarrow>
              (case climb f (height f a) b [] of
                 None \<Rightarrow> None
               | Some (Inl e) \<Rightarrow> Some (Inl e)
               | Some (Inr (b, ys)) \<Rightarrow> climb_both f a b xs ys))))"

partial_function (option) walk_down ::
  "('t, 'd, 'x) fork_database \<Rightarrow> u32 \<Rightarrow> nat option \<Rightarrow> nat option option" where
  "walk_down f n p =
     (case p of None \<Rightarrow> Some None
      | Some a \<Rightarrow> if num (item f a) > n then walk_down f n (lock f (prev (item f a))) else Some (Some a))"

text \<open>The head pointer is used unchecked: without a head the code has undefined behaviour.\<close>

definition walk_main_branch_to_num ::
  "u32 \<Rightarrow> ('t, 'd, 'x) fork_database \<Rightarrow> nat option res option" where
  "walk_main_branch_to_num n f =
     (case head f of
        None \<Rightarrow> Some (Inl (Logic_error ''null head''))
      | Some h \<Rightarrow>
          if n > num (item f h) then Some (Inr None)
          else map_option Inr (walk_down f n (Some h)))"

definition fetch_block_on_main_branch_by_number ::
  "u32 \<Rightarrow> ('t, 'd, 'x) fork_database \<Rightarrow> nat option res option" where
  "fetch_block_on_main_branch_by_number n f =
     (case fetch_block_by_number n f of
        [a] \<Rightarrow> Some (Inr (Some a))
      | [] \<Rightarrow> Some (Inr None)
      | _ \<Rightarrow> walk_main_branch_to_num n f)"

subsection \<open>Well-formed fork databases\<close>

definition item_ok :: "('t, 'd, 'x) hashes \<Rightarrow> ('t, 'd, 'x) fork_database \<Rightarrow> nat \<Rightarrow> ('t, 'd, 'x) fork_item \<Rightarrow> bool" where
  "item_ok H f a i \<longleftrightarrow> a < next_addr f \<and> num i = block_num (data i) \<and> item_id i = block_id H (data i) \<and>
     (\<forall>p. prev i = Some p \<longrightarrow> p < a \<and> (\<exists>j. map_of (heap f) p = Some j \<and> item_id j = previous (data i)))"

definition fork_ok :: "('t, 'd, 'x) hashes \<Rightarrow> ('t, 'd, 'x) fork_database \<Rightarrow> bool" where
  "fork_ok H f \<longleftrightarrow>
     (\<forall>a i. map_of (heap f) a = Some i \<longrightarrow> item_ok H f a i) \<and>
     set (index f) \<subseteq> dom (map_of (heap f)) \<and>
     (\<forall>h. head f = Some h \<longrightarrow> h \<in> dom (map_of (heap f))) \<and>
     distinct (map (\<lambda>a. item_id (item f a)) (index f)) \<and>
     sorted (map (\<lambda>a. num (item f a)) (index f)) \<and>
     unlinked_index f = []"

lemma fork_ok_item: "fork_ok H f \<Longrightarrow> map_of (heap f) a = Some i \<Longrightarrow> item_ok H f a i"
  by (simp add: fork_ok_def)

lemma find_id_Some: "find_id f as i = Some a \<Longrightarrow> a \<in> set as \<and> item_id (item f a) = i"
  by (auto simp: find_id_def find_Some_iff)

lemma find_id_None: "find_id f as i = None \<longleftrightarrow> i \<notin> (\<lambda>a. item_id (item f a)) ` set as"
  by (auto simp: find_id_def find_None_iff)

lemma set_insert_by_num [simp]: "set (insert_by_num n a as) = insert a (set as)"
proof -
  have "set as = set (takeWhile (\<lambda>b. n b \<le> n a) as) \<union> set (dropWhile (\<lambda>b. n b \<le> n a) as)"
    by (metis set_append takeWhile_dropWhile_id)
  then show ?thesis by (simp add: insert_by_num_def)
qed

lemma map_insert_by_num:
  "\<exists>xs ys. as = xs @ ys \<and> insert_by_num n a as = xs @ a # ys \<and> (\<forall>x \<in> set xs. n x \<le> n a) \<and>
     (ys \<noteq> [] \<longrightarrow> n a < n (hd ys))"
proof (intro exI conjI)
  show "as = takeWhile (\<lambda>b. n b \<le> n a) as @ dropWhile (\<lambda>b. n b \<le> n a) as" by simp
  show "insert_by_num n a as = takeWhile (\<lambda>b. n b \<le> n a) as @ a # dropWhile (\<lambda>b. n b \<le> n a) as"
    by (rule insert_by_num_def)
  show "\<forall>x \<in> set (takeWhile (\<lambda>b. n b \<le> n a) as). n x \<le> n a" by (auto dest: set_takeWhileD)
  show "dropWhile (\<lambda>b. n b \<le> n a) as \<noteq> [] \<longrightarrow> n a < n (hd (dropWhile (\<lambda>b. n b \<le> n a) as))"
    using hd_dropWhile [of "\<lambda>b. n b \<le> n a" as] by (metis not_le)
qed

lemma sorted_insert_by_num: "sorted (map n as) \<Longrightarrow> sorted (map n (insert_by_num n a as))"
proof -
  assume s: "sorted (map n as)"
  obtain xs ys where d: "as = xs @ ys" "insert_by_num n a as = xs @ a # ys" "\<forall>x \<in> set xs. n x \<le> n a"
    "ys \<noteq> [] \<longrightarrow> n a < n (hd ys)" using map_insert_by_num by metis
  have "\<forall>y \<in> set ys. n a \<le> n y" using s d by (cases ys) (auto simp: sorted_append)
  then show ?thesis using s d by (auto simp: sorted_append)
qed

lemma distinct_insert_by_num:
  "distinct (map k as) \<Longrightarrow> k a \<notin> k ` set as \<Longrightarrow> distinct (map k (insert_by_num n a as))"
proof -
  assume s: "distinct (map k as)" "k a \<notin> k ` set as"
  obtain xs ys where "as = xs @ ys" "insert_by_num n a as = xs @ a # ys" using map_insert_by_num by metis
  then show ?thesis using s by auto
qed

lemma item_ok_fresh:
  assumes "item_ok H f a i" "\<And>p. map_of (heap f) p = Some j \<Longrightarrow> p < next_addr f"
  shows "item_ok H (f\<lparr>heap := tput (next_addr f) k (heap f), next_addr := next_addr f + 1\<rparr>) a i"
  using assms by (fastforce simp: item_ok_def)

lemma fork_ok_alloc:
  assumes f: "fork_ok H f" and i: "num i = block_num (data i)" "item_id i = block_id H (data i)"
    and p: "\<And>p. prev i = Some p \<Longrightarrow> \<exists>j. map_of (heap f) p = Some j \<and> item_id j = previous (data i)"
    and g: "g = f\<lparr>heap := tput (next_addr f) i (heap f), next_addr := next_addr f + 1\<rparr>"
  shows "fork_ok H g" "fork_ok H (g\<lparr>index := index_insert g (next_addr f) (index g)\<rparr>)"
    "\<And>a. a \<in> dom (map_of (heap f)) \<Longrightarrow> item g a = item f a" "item g (next_addr f) = i"
    "next_addr f \<notin> dom (map_of (heap f))"
proof -
  have lt: "a < next_addr f" if "map_of (heap f) a = Some j" for a j
    using fork_ok_item [OF f that] by (simp add: item_ok_def)
  show n: "next_addr f \<notin> dom (map_of (heap f))" using lt by fastforce
  show old: "item g a = item f a" if "a \<in> dom (map_of (heap f))" for a
    using that n by (auto simp: g)
  show new: "item g (next_addr f) = i" by (simp add: g)
  have items: "item_ok H g a j" if "map_of (heap g) a = Some j" for a j
  proof (cases "a = next_addr f")
    case True
    then have "j = i" using that by (simp add: g)
    then show ?thesis using i p lt True by (fastforce simp: item_ok_def g)
  next
    case False
    then have "map_of (heap f) a = Some j" using that by (simp add: g)
    then have "item_ok H f a j" using fork_ok_item [OF f] by blast
    then show ?thesis using n by (fastforce simp: item_ok_def g domIff)
  qed
  have sub: "set (index f) \<subseteq> dom (map_of (heap f))" using f by (simp add: fork_ok_def)
  have ix: "map (\<lambda>a. k (item g a)) (index f) = map (\<lambda>a. k (item f a)) (index f)" for k :: "_ \<Rightarrow> 'z"
  proof (rule map_cong)
    fix x assume "x \<in> set (index f)"
    then have "item g x = item f x" using sub by (intro old) auto
    then show "k (item g x) = k (item f x)" by simp
  qed simp
  have gi: "index g = index f" "head g = head f" "unlinked_index g = unlinked_index f" by (simp_all add: g)
  show ok: "fork_ok H g"
    unfolding fork_ok_def gi ix using items f by (auto simp: fork_ok_def g)
  have hp: "heap (g\<lparr>index := z\<rparr>) = heap g" "next_addr (g\<lparr>index := z\<rparr>) = next_addr g" for z by simp_all
  have "next_addr f \<in> dom (map_of (heap g))" by (simp add: g)
  then show "fork_ok H (g\<lparr>index := index_insert g (next_addr f) (index g)\<rparr>)"
    using ok by (auto simp: fork_ok_def item_ok_def index_insert_def find_id_None
        intro: sorted_insert_by_num distinct_insert_by_num)
qed

lemma fdb_push_block_ok:
  assumes f: "fork_ok H f" and r: "fdb_push_block H b f = Inr (h, f')"
  shows "fork_ok H f' \<and> h = head f' \<and> h \<noteq> None \<and> is_known_block (block_id H b) f' \<and>
    (\<forall>i. is_known_block i f \<longrightarrow> is_known_block i f') \<and>
    (case head f of
       Some h0 \<Rightarrow> (if block_num b > num (item f h0) then data (item f' (the h)) = b else h = Some h0)
     | None \<Rightarrow> data (item f' (the h)) = b)"
proof -
  obtain i where l: "fdb_link (fork_item_of H b) f = Inr i" and h: "h = head f'"
    and f'1: "f' = fdb_insert i f"
    using r by (auto simp: fdb_push_block_def fdb_push_item_def)
  let ?g = "f\<lparr>heap := tput (next_addr f) i (heap f), next_addr := next_addr f + 1\<rparr>"
  let ?g' = "?g\<lparr>index := index_insert ?g (next_addr f) (index ?g)\<rparr>"
  have i: "num i = block_num (data i)" "item_id i = block_id H (data i)" "data i = b"
    using l by (auto simp: fdb_link_def fork_item_of_def split: if_splits option.splits)
  have p: "\<exists>j. map_of (heap f) p = Some j \<and> item_id j = previous (data i)" if "prev i = Some p" for p
  proof -
    have "find_id f (index f) (previous b) = Some p"
      using l that by (auto simp: fdb_link_def fork_item_of_def previous_id_def split: if_splits option.splits)
    then have "p \<in> set (index f)" "item_id (item f p) = previous b" using find_id_Some by blast+
    then show ?thesis using f i(3) by (force simp: fork_ok_def)
  qed
  note A = fork_ok_alloc [OF f i(1,2) p refl]
  have sub: "set (index f) \<subseteq> dom (map_of (heap f))" using f by (simp add: fork_ok_def)
  have ids: "(\<lambda>a. item_id (item ?g a)) ` set (index f) = (\<lambda>a. item_id (item f a)) ` set (index f)"
  proof (rule image_cong)
    fix x assume "x \<in> set (index f)"
    then have "item ?g x = item f x" using sub by (intro A(3)) auto
    then show "item_id (item ?g x) = item_id (item f x)" by simp
  qed simp
  let ?K = "(\<lambda>a. item_id (item f a)) ` set (index f)"
  have new: "item_id (item ?g (next_addr f)) = block_id H b" using A(4) i by simp
  have si: "set (index ?g') = (if block_id H b \<in> ?K then set (index f) else insert (next_addr f) (set (index f)))"
    using ids new by (simp add: index_insert_def find_id_None)
  have K: "(\<lambda>a. item_id (item ?g a)) ` set (index ?g') = insert (block_id H b) ?K"
  proof (cases "block_id H b \<in> ?K")
    case True
    then have e: "set (index ?g') = set (index f)" using si by (simp only: if_True)
    show ?thesis by (simp only: e ids insert_absorb [OF True])
  next
    case False
    then have e: "set (index ?g') = insert (next_addr f) (set (index f))" using si by (simp only: if_False)
    show ?thesis by (simp only: e image_insert ids new)
  qed
  have un: "unlinked_index f = []" using f by (simp add: fork_ok_def)
  have known: "is_known_block j ?g' \<longleftrightarrow> j = block_id H b \<or> is_known_block j f" for j
  proof -
    have "is_known_block j ?g' \<longleftrightarrow> j \<in> (\<lambda>a. item_id (item ?g a)) ` set (index ?g')"
      using un by (simp add: is_known_block_def find_id_None)
    also have "\<dots> \<longleftrightarrow> j = block_id H b \<or> j \<in> ?K" unfolding K by blast
    also have "j \<in> ?K \<longleftrightarrow> is_known_block j f" using un by (simp add: is_known_block_def find_id_None)
    finally show ?thesis .
  qed
  have hd: "item ?g' h0 = item f h0" if "head f = Some h0" for h0
  proof -
    have "h0 \<in> dom (map_of (heap f))" using f that by (simp add: fork_ok_def)
    then show ?thesis using A(3) by simp
  qed
  define c where "c \<longleftrightarrow> (case head f of Some h \<Rightarrow> num i > num (item f h) | None \<Rightarrow> True)"
  have "(case head ?g' of Some h \<Rightarrow> num i > num (item ?g' h) | None \<Rightarrow> True) \<longleftrightarrow> c"
  proof (cases "head f")
    case (Some h0)
    then show ?thesis using hd [OF Some] by (simp add: c_def)
  qed (simp add: c_def)
  then have f': "f' = (if c then ?g'\<lparr>head := Some (next_addr f)\<rparr> else ?g')"
    unfolding f'1 fdb_insert_def alloc_def Let_def prod.case by simp
  have ok: "fork_ok H f'"
  proof (cases c)
    case True
    then have "f' = ?g'\<lparr>head := Some (next_addr f)\<rparr>" using f' by simp
    moreover have "next_addr f \<in> dom (map_of (heap ?g'))" by simp
    ultimately show ?thesis using A(2) unfolding fork_ok_def item_ok_def by simp
  next
    case False
    then show ?thesis using A(2) f' by simp
  qed
  have k': "is_known_block j f' \<longleftrightarrow> j = block_id H b \<or> is_known_block j f" for j
  proof -
    have "is_known_block j f' = is_known_block j ?g'"
      by (cases c) (simp_all add: f' is_known_block_def find_id_def)
    then show ?thesis using known by simp
  qed
  have hn: "c \<Longrightarrow> head f' = Some (next_addr f) \<and> data (item f' (next_addr f)) = b"
    using i(3) by (simp add: f')
  have hs: "\<not> c \<Longrightarrow> head f' = head f" by (simp add: f')
  have "(case head f of
       Some h0 \<Rightarrow> (if block_num b > num (item f h0) then data (item f' (the h)) = b else h = Some h0)
     | None \<Rightarrow> data (item f' (the h)) = b) \<and> h \<noteq> None"
  proof (cases "head f")
    case None
    then have c by (simp add: c_def)
    then show ?thesis using hn h None by simp
  next
    case (Some h0)
    then have "c \<longleftrightarrow> block_num b > num (item f h0)" using i by (simp add: c_def)
    then show ?thesis using hn hs h Some by (cases c) auto
  qed
  then show ?thesis using ok k' h by blast
qed

lemma fork_ok_empty: "fork_ok H empty_fork_database"
  by (simp add: fork_ok_def empty_fork_database_def)

lemma fork_ok_index:
  assumes "fork_ok H f" "set as \<subseteq> set (index f)"
    "distinct (map (\<lambda>a. item_id (item f a)) as)" "sorted (map (\<lambda>a. num (item f a)) as)"
    "\<And>a. h = Some a \<Longrightarrow> a \<in> dom (map_of (heap f))"
  shows "fork_ok H (f\<lparr>index := as, head := h, max_size := m\<rparr>)"
  using assms by (auto simp: fork_ok_def item_ok_def)

lemma fork_ok_head: "fork_ok H f \<Longrightarrow> head f = Some h \<Longrightarrow> h \<in> dom (map_of (heap f))"
  by (simp add: fork_ok_def)

lemma fork_ok_prev:
  "fork_ok H f \<Longrightarrow> a \<in> dom (map_of (heap f)) \<Longrightarrow> lock f (prev (item f a)) = Some p \<Longrightarrow>
   p \<in> dom (map_of (heap f)) \<and> p < a \<and> item_id (item f p) = previous (data (item f a))"
  by (fastforce simp: fork_ok_def item_ok_def lock_def split: option.splits if_splits)

lemma reset_ok: "fork_ok H f \<Longrightarrow> fork_ok H (reset f)"
  using fork_ok_index [of H f "[]" None "max_size f"] by (simp add: reset_def fork_ok_def item_ok_def)

lemma pop_ok: "fork_ok H f \<Longrightarrow> fdb_pop_block f = Inr f' \<Longrightarrow> fork_ok H f'"
proof -
  assume f: "fork_ok H f" and r: "fdb_pop_block f = Inr f'"
  obtain h p where h: "head f = Some h" "lock f (prev (item f h)) = Some p" "f' = f\<lparr>head := Some p\<rparr>"
    using r by (auto simp: fdb_pop_block_def split: option.splits)
  then have "p \<in> dom (map_of (heap f))" using fork_ok_prev [OF f fork_ok_head [OF f h(1)] h(2)] by blast
  then show ?thesis using f h(3) by (auto simp: fork_ok_def item_ok_def)
qed

lemma start_ok: "fork_ok H f \<Longrightarrow> fork_ok H (start_block H b f)"
proof -
  assume f: "fork_ok H f"
  note A = fork_ok_alloc [OF f _ _ _ refl, of "fork_item_of H b"]
  have "fork_ok H (f\<lparr>heap := tput (next_addr f) (fork_item_of H b) (heap f), next_addr := next_addr f + 1,
      index := index_insert (f\<lparr>heap := tput (next_addr f) (fork_item_of H b) (heap f), next_addr := next_addr f + 1\<rparr>)
        (next_addr f) (index f)\<rparr>)"
    using A(2) by (simp add: fork_item_of_def)
  then show ?thesis by (auto simp: start_block_def alloc_def fork_ok_def item_ok_def)
qed

lemma set_head_ok: "fork_ok H f \<Longrightarrow> a \<in> dom (map_of (heap f)) \<Longrightarrow> fork_ok H (set_head a f)"
  by (auto simp: set_head_def fork_ok_def item_ok_def)

lemma remove_ok: "fork_ok H f \<Longrightarrow> fork_ok H (fdb_remove i f)"
proof -
  assume f: "fork_ok H f"
  have "distinct (map k (filter P as))" if "distinct (map k as)" for k :: "nat \<Rightarrow> 'z" and P as
    using that by (simp add: distinct_map_filter)
  moreover have "sorted (map k (filter P as))" if "sorted (map k as)" for k :: "nat \<Rightarrow> u32" and P as
    using that by (simp add: sorted_filter)
  ultimately show ?thesis using f by (auto simp: fdb_remove_def fork_ok_def item_ok_def)
qed

lemma dropWhile_sorted_filter:
  fixes n :: "nat \<Rightarrow> u32"
  assumes "sorted (map n as)" "\<And>x y. n x \<le> n y \<Longrightarrow> P y \<Longrightarrow> P x"
  shows "dropWhile P as = filter (\<lambda>a. \<not> P a) as"
  using assms(1)
proof (induction as)
  case (Cons a as)
  show ?case
  proof (cases "P a")
    case False
    then have "\<forall>x \<in> set as. \<not> P x" using assms(2) Cons.prems by auto
    then show ?thesis using False by simp
  qed (use Cons in simp)
qed simp

lemma takeWhile_sorted_filter:
  fixes n :: "nat \<Rightarrow> u32"
  assumes "sorted (map n as)" "\<forall>x \<in> set as. m \<le> n x"
  shows "takeWhile (\<lambda>a. n a = m) as = filter (\<lambda>a. n a = m) as"
  using assms
proof (induction as)
  case (Cons a as)
  show ?case
  proof (cases "n a = m")
    case False
    then have "\<forall>x \<in> set as. n x \<noteq> m" using Cons.prems by fastforce
    then show ?thesis using False by simp
  qed (use Cons in simp)
qed simp

lemma max_size_ok:
  assumes "fork_ok H f"
  shows "fork_ok H (set_max_size s f)"
    and "head f = Some h \<Longrightarrow> index (set_max_size s f) =
           filter (\<lambda>a. oldest_num (f\<lparr>max_size := s\<rparr>) h \<le> uint (num (item f a))) (index f)"
proof -
  have s: "sorted (map (\<lambda>a. num (item f a)) (index f))" using assms by (simp add: fork_ok_def)
  have d: "dropWhile (\<lambda>a. uint (num (item f a)) < q) (index f) =
      filter (\<lambda>a. q \<le> uint (num (item f a))) (index f)" for q
    using dropWhile_sorted_filter [OF s, of "\<lambda>a. uint (num (item f a)) < q"]
    by (auto simp: word_le_def not_less)
  show "fork_ok H (set_max_size s f)"
  proof (cases "head f")
    case None
    then show ?thesis using assms by (auto simp: set_max_size_def fork_ok_def item_ok_def)
  next
    case (Some h)
    let ?q = "oldest_num (f\<lparr>max_size := s\<rparr>) h"
    have "set_max_size s f = f\<lparr>index := filter (\<lambda>a. ?q \<le> uint (num (item f a))) (index f), head := Some h, max_size := s\<rparr>"
      using Some assms d by (simp add: set_max_size_def Let_def fork_ok_def)
    then show ?thesis
      using fork_ok_index [OF assms, of "filter (\<lambda>a. ?q \<le> uint (num (item f a))) (index f)" "Some h" s]
        assms Some by (simp add: fork_ok_def distinct_map_filter sorted_filter)
  qed
  show "head f = Some h \<Longrightarrow> index (set_max_size s f) =
           filter (\<lambda>a. oldest_num (f\<lparr>max_size := s\<rparr>) h \<le> uint (num (item f a))) (index f)"
    using d by (simp add: set_max_size_def Let_def)
qed

lemma by_number_filter:
  assumes "fork_ok H f"
  shows "fetch_block_by_number n f = filter (\<lambda>a. num (item f a) = n) (index f)"
proof -
  have s: "sorted (map (\<lambda>a. num (item f a)) (index f))" using assms by (simp add: fork_ok_def)
  have "fetch_block_by_number n f =
      takeWhile (\<lambda>a. num (item f a) = n) (filter (\<lambda>a. n \<le> num (item f a)) (index f))"
    using dropWhile_sorted_filter [OF s, of "\<lambda>a. num (item f a) < n"]
    by (auto simp: fetch_block_by_number_def not_less)
  also have "\<dots> = filter (\<lambda>a. num (item f a) = n) (filter (\<lambda>a. n \<le> num (item f a)) (index f))"
    by (rule takeWhile_sorted_filter) (auto simp: sorted_filter s)
  also have "\<dots> = filter (\<lambda>a. num (item f a) = n) (index f)"
    by (auto simp: intro: filter_cong)
  finally show ?thesis .
qed

subsection \<open>Walking the tree\<close>

primrec linked_path :: "('t, 'd, 'x) fork_database \<Rightarrow> nat \<Rightarrow> nat list \<Rightarrow> bool" where
  "linked_path f a [] = True"
| "linked_path f a (b # bs) = (prev (item f a) = Some b \<and> linked_path f b bs)"

lemma linked_path_snoc:
  "linked_path f a (bs @ [c]) \<longleftrightarrow> linked_path f a bs \<and> prev (item f (last (a # bs))) = Some c"
  by (induction bs arbitrary: a) auto

lemma lock_prev: "lock f (prev i) = Some p \<Longrightarrow> prev i = Some p"
  by (auto simp: lock_def split: option.splits if_splits)

lemma height_prev:
  assumes "fork_ok H f" "a \<in> dom (map_of (heap f))" "lock f (prev (item f a)) = Some p"
  shows "height f a = height f p + 1"
proof -
  obtain j where "map_of (heap f) p = Some j" "item_id j = previous (data (item f a))"
    using fork_ok_prev [OF assms] by auto
  then show ?thesis using fork_ok_item [OF assms(1), of p j]
    by (auto simp: item_ok_def block_num_def [of "data (item f a)"] num_from_id_def block_id_def)
qed

lemma word_less_plus_1: "(n :: u32) < y + 1 \<Longrightarrow> n \<le> y"
proof -
  assume less: "n < y + 1"
  then have "1 + y \<noteq> 0" by (metis add.commute word_not_simps(1))
  then have "unat (y + 1) = Suc (unat y)" by (simp add: unatSuc add.commute)
  then show ?thesis using less by (simp add: word_less_nat_alt word_le_nat_alt)
qed

lemma climb_result:
  assumes "fork_ok H f" "a \<in> dom (map_of (heap f))"
  shows "\<exists>r. climb f n a acc = Some r \<and>
    (\<forall>b ys. r = Inr (b, ys) \<longrightarrow>
      (\<exists>zs. ys = acc @ zs \<and> linked_path f a (tl (zs @ [b])) \<and> hd (zs @ [b]) = a \<and> b \<in> dom (map_of (heap f)) \<and>
        (n \<le> height f a \<longrightarrow> height f b = n) \<and> (height f a \<le> n \<longrightarrow> zs = [] \<and> b = a)))"
  using assms(2)
proof (induction a arbitrary: acc rule: less_induct)
  case (less a)
  show ?case
  proof (cases "height f a > n")
    case False
    then show ?thesis using less.prems by (auto simp: climb.simps [of f n a])
  next
    case True
    show ?thesis
    proof (cases "lock f (prev (item f a))")
      case None
      then show ?thesis using True by (simp add: climb.simps [of f n a])
    next
      case (Some p)
      note P = fork_ok_prev [OF assms(1) less.prems Some] height_prev [OF assms(1) less.prems Some]
      then obtain r where r: "climb f n p (acc @ [a]) = Some r" and
        R: "\<And>b ys. r = Inr (b, ys) \<Longrightarrow>
          (\<exists>zs. ys = (acc @ [a]) @ zs \<and> linked_path f p (tl (zs @ [b])) \<and> hd (zs @ [b]) = p \<and>
            b \<in> dom (map_of (heap f)) \<and> (n \<le> height f p \<longrightarrow> height f b = n) \<and>
            (height f p \<le> n \<longrightarrow> zs = [] \<and> b = p))"
        using less.IH [of p "acc @ [a]"] by blast
      have le: "n \<le> height f p"
        using True P(2) word_less_plus_1 by metis
      have "\<exists>zs. ys = acc @ zs \<and> linked_path f a (tl (zs @ [b])) \<and> hd (zs @ [b]) = a \<and> b \<in> dom (map_of (heap f)) \<and>
        (n \<le> height f a \<longrightarrow> height f b = n) \<and> (height f a \<le> n \<longrightarrow> zs = [] \<and> b = a)"
        if rr: "r = Inr (b, ys)" for b ys
      proof -
        obtain zs where z: "ys = (acc @ [a]) @ zs" "linked_path f p (tl (zs @ [b]))" "hd (zs @ [b]) = p"
          "b \<in> dom (map_of (heap f))" "height f b = n" using R [OF rr] le by blast
        have "linked_path f a (zs @ [b])"
          using z(2,3) lock_prev [OF Some] by (cases zs) auto
        then show ?thesis using z True by (intro exI [of _ "a # zs"]) auto
      qed
      then show ?thesis using r True Some by (simp add: climb.simps [of f n a])
    qed
  qed
qed

lemma climb_both_result:
  assumes "fork_ok H f" "a \<in> dom (map_of (heap f))" "b \<in> dom (map_of (heap f))"
  shows "\<exists>r. climb_both f a b xs ys = Some r \<and>
    (\<forall>xs' ys'. r = Inr (xs', ys') \<longrightarrow>
      (\<exists>us vs. xs' = xs @ us \<and> ys' = ys @ vs \<and> us \<noteq> [] \<and> length us = length vs \<and>
         hd us = a \<and> hd vs = b \<and> linked_path f a (tl us) \<and> linked_path f b (tl vs) \<and>
         previous (data (item f (last us))) = previous (data (item f (last vs))) \<and>
         (\<forall>k < length us - 1. previous (data (item f (us ! k))) \<noteq> previous (data (item f (vs ! k))))))"
  using assms(2,3)
proof (induction a arbitrary: b xs ys rule: less_induct)
  case (less a)
  show ?case
  proof (cases "previous (data (item f a)) = previous (data (item f b))")
    case True
    then have "climb_both f a b xs ys = Some (Inr (xs @ [a], ys @ [b]))"
      by (simp add: climb_both.simps [of f a b])
    then show ?thesis using True by (auto intro!: exI [of _ "[a]"] exI [of _ "[b]"])
  next
    case False
    show ?thesis
    proof (cases "lock f (prev (item f a))")
      case None
      then show ?thesis using False by (simp add: climb_both.simps [of f a b])
    next
      case p: (Some p)
      note P = fork_ok_prev [OF assms(1) less.prems(1) p]
      show ?thesis
      proof (cases "lock f (prev (item f b))")
        case None
        then show ?thesis using False p by (simp add: climb_both.simps [of f a b])
      next
        case q: (Some q)
        note Q = fork_ok_prev [OF assms(1) less.prems(2) q]
        obtain r where r: "climb_both f p q (xs @ [a]) (ys @ [b]) = Some r" and
          R: "\<And>xs' ys'. r = Inr (xs', ys') \<Longrightarrow>
            (\<exists>us vs. xs' = (xs @ [a]) @ us \<and> ys' = (ys @ [b]) @ vs \<and> us \<noteq> [] \<and> length us = length vs \<and>
             hd us = p \<and> hd vs = q \<and> linked_path f p (tl us) \<and> linked_path f q (tl vs) \<and>
             previous (data (item f (last us))) = previous (data (item f (last vs))) \<and>
             (\<forall>k < length us - 1. previous (data (item f (us ! k))) \<noteq> previous (data (item f (vs ! k)))))"
          using less.IH [of p q "xs @ [a]" "ys @ [b]"] P Q by blast
        have eq: "climb_both f a b xs ys = Some r"
          using r False p q by (simp add: climb_both.simps [of f a b])
        have "\<exists>us vs. xs' = xs @ us \<and> ys' = ys @ vs \<and> us \<noteq> [] \<and> length us = length vs \<and>
             hd us = a \<and> hd vs = b \<and> linked_path f a (tl us) \<and> linked_path f b (tl vs) \<and>
             previous (data (item f (last us))) = previous (data (item f (last vs))) \<and>
             (\<forall>k < length us - 1. previous (data (item f (us ! k))) \<noteq> previous (data (item f (vs ! k))))"
          if "r = Inr (xs', ys')" for xs' ys'
        proof -
          obtain us vs where U: "xs' = (xs @ [a]) @ us" "ys' = (ys @ [b]) @ vs" "us \<noteq> []" "length us = length vs"
             "hd us = p" "hd vs = q" "linked_path f p (tl us)" "linked_path f q (tl vs)"
             "previous (data (item f (last us))) = previous (data (item f (last vs)))"
             "\<forall>k < length us - 1. previous (data (item f (us ! k))) \<noteq> previous (data (item f (vs ! k)))"
            using R [OF \<open>r = Inr (xs', ys')\<close>] by blast
          have vs: "vs \<noteq> []" using U(3,4) by auto
          have paths: "linked_path f a us" "linked_path f b vs"
            using U(3,5,6,7,8) vs lock_prev [OF p] lock_prev [OF q] by (cases us; cases vs; simp)+
          have "previous (data (item f ((a # us) ! k))) \<noteq> previous (data (item f ((b # vs) ! k)))"
            if "k < length (a # us) - 1" for k
            using that U(10) False by (cases k) auto
          then show ?thesis
            using U(1-4,9) vs paths by (intro exI [of _ "a # us"] exI [of _ "b # vs"]) simp
        qed
        then show ?thesis using eq by blast
      qed
    qed
  qed
qed

text \<open>What the caller of \<open>fetch_branch_from\<close> relies on.\<close>

definition branches_from ::
  "('t, 'd, 'x) fork_database \<Rightarrow> nat \<Rightarrow> nat \<Rightarrow> nat list \<Rightarrow> nat list \<Rightarrow> bool" where
  "branches_from f a b xs ys \<longleftrightarrow>
     xs \<noteq> [] \<and> ys \<noteq> [] \<and> hd xs = a \<and> hd ys = b \<and> linked_path f a (tl xs) \<and> linked_path f b (tl ys) \<and>
     previous (data (item f (last xs))) = previous (data (item f (last ys))) \<and>
     (\<exists>us xs' vs ys'. xs = us @ xs' \<and> ys = vs @ ys' \<and> (us = [] \<or> vs = []) \<and> xs' \<noteq> [] \<and> length xs' = length ys' \<and>
        (\<forall>k < length xs' - 1. previous (data (item f (xs' ! k))) \<noteq> previous (data (item f (ys' ! k)))))"

lemma linked_path_split:
  "linked_path f a (zs @ b # us) \<longleftrightarrow> linked_path f a (zs @ [b]) \<and> linked_path f b us"
  by (induction zs arbitrary: a) auto

lemma linked_path_append:
  "linked_path f a (tl (zs @ [b])) \<Longrightarrow> hd (zs @ [b]) = a \<Longrightarrow> linked_path f b (tl (b # us)) \<Longrightarrow>
   linked_path f a (tl (zs @ b # us))"
  by (cases zs) (simp_all add: linked_path_split [of f _ _ b us])

lemma branches_fromI:
  assumes "xs' = xs @ us" "ys' = ys @ vs" "us \<noteq> []" "length us = length vs"
    and "hd us = c" "hd vs = d" "linked_path f c (tl us)" "linked_path f d (tl vs)"
    and "previous (data (item f (last us))) = previous (data (item f (last vs)))"
    and "\<forall>k < length us - 1. previous (data (item f (us ! k))) \<noteq> previous (data (item f (vs ! k)))"
    and "linked_path f a (tl (xs @ [c]))" "hd (xs @ [c]) = a"
    and "linked_path f b (tl (ys @ [d]))" "hd (ys @ [d]) = b" "xs = [] \<or> ys = []"
  shows "branches_from f a b xs' ys'"
proof -
  obtain us' where u: "us = c # us'" using assms(3,5) by (cases us) auto
  obtain vs' where v: "vs = d # vs'" using assms(3,4,6) by (cases vs) auto
  have "linked_path f a (tl (xs @ us))"
    unfolding u by (rule linked_path_append) (use assms u in simp_all)
  moreover have "linked_path f b (tl (ys @ vs))"
    unfolding v by (rule linked_path_append) (use assms v in simp_all)
  moreover have "hd (xs @ us) = a" using assms(12) u by (cases xs) auto
  moreover have "hd (ys @ vs) = b" using assms(14) v by (cases ys) auto
  moreover have "last (xs @ us) = last us" "last (ys @ vs) = last vs" using u v by simp_all
  moreover have "\<exists>us' xs' vs' ys'. xs @ us = us' @ xs' \<and> ys @ vs = vs' @ ys' \<and> (us' = [] \<or> vs' = []) \<and> xs' \<noteq> [] \<and>
      length xs' = length ys' \<and>
      (\<forall>k < length xs' - 1. previous (data (item f (xs' ! k))) \<noteq> previous (data (item f (ys' ! k))))"
    using assms(3,4,10,15) by blast
  ultimately show ?thesis
    unfolding branches_from_def assms(1,2) using assms(9) u v by simp
qed

lemma branch_result:
  assumes f: "fork_ok H f"
  shows "\<exists>r. fetch_branch_from i j f = Some r \<and>
    (\<forall>xs ys. r = Inr (xs, ys) \<longrightarrow>
      (\<exists>a b. find_id f (index f) i = Some a \<and> find_id f (index f) j = Some b \<and> branches_from f a b xs ys))"
proof (cases "find_id f (index f) i")
  case None
  then show ?thesis by (simp add: fetch_branch_from_def)
next
  case a: (Some a)
  show ?thesis
  proof (cases "find_id f (index f) j")
    case None
    then show ?thesis using a by (simp add: fetch_branch_from_def)
  next
    case b: (Some b)
    have dom: "a \<in> dom (map_of (heap f))" "b \<in> dom (map_of (heap f))"
      using find_id_Some [OF a] find_id_Some [OF b] f by (auto simp: fork_ok_def)
    obtain r1 where r1: "climb f (height f b) a [] = Some r1" and R1: "\<And>c xs. r1 = Inr (c, xs) \<Longrightarrow>
        linked_path f a (tl (xs @ [c])) \<and> hd (xs @ [c]) = a \<and> c \<in> dom (map_of (heap f)) \<and>
        (height f b \<le> height f a \<longrightarrow> height f c = height f b) \<and> (height f a \<le> height f b \<longrightarrow> xs = [] \<and> c = a)"
      using climb_result [OF f dom(1), of "height f b" "[]"] by auto
    show ?thesis
    proof (cases r1)
      case (Inl e)
      then show ?thesis using a b r1 by (simp add: fetch_branch_from_def)
    next
      case (Inr cx)
      obtain c xs where c: "r1 = Inr (c, xs)" using Inr by (cases cx) simp
      note C = R1 [OF c]
      obtain r2 where r2: "climb f (height f c) b [] = Some r2" and R2: "\<And>d ys. r2 = Inr (d, ys) \<Longrightarrow>
          linked_path f b (tl (ys @ [d])) \<and> hd (ys @ [d]) = b \<and> d \<in> dom (map_of (heap f)) \<and>
          (height f c \<le> height f b \<longrightarrow> height f d = height f c) \<and> (height f b \<le> height f c \<longrightarrow> ys = [] \<and> d = b)"
        using climb_result [OF f dom(2), of "height f c" "[]"] by auto
      show ?thesis
      proof (cases r2)
        case (Inl e)
        then show ?thesis using a b r1 c r2 by (simp add: fetch_branch_from_def)
      next
        case (Inr dy)
        obtain d ys where d: "r2 = Inr (d, ys)" using Inr by (cases dy) simp
        note D = R2 [OF d]
        have one: "xs = [] \<or> ys = []"
        proof (cases "height f b \<le> height f a")
          case True
          then have "height f b \<le> height f c" using C by simp
          then show ?thesis using D by blast
        next
          case False
          then have "height f a \<le> height f b" by simp
          then show ?thesis using C by blast
        qed
        obtain r where r: "climb_both f c d xs ys = Some r" and R: "\<And>xs' ys'. r = Inr (xs', ys') \<Longrightarrow>
          (\<exists>us vs. xs' = xs @ us \<and> ys' = ys @ vs \<and> us \<noteq> [] \<and> length us = length vs \<and>
             hd us = c \<and> hd vs = d \<and> linked_path f c (tl us) \<and> linked_path f d (tl vs) \<and>
             previous (data (item f (last us))) = previous (data (item f (last vs))) \<and>
             (\<forall>k < length us - 1. previous (data (item f (us ! k))) \<noteq> previous (data (item f (vs ! k)))))"
          using climb_both_result [OF f, of c d xs ys] C D by blast
        have "branches_from f a b xs' ys'" if rr: "r = Inr (xs', ys')" for xs' ys'
        proof -
          obtain us vs where U: "xs' = xs @ us" "ys' = ys @ vs" "us \<noteq> []" "length us = length vs"
             "hd us = c" "hd vs = d" "linked_path f c (tl us)" "linked_path f d (tl vs)"
             "previous (data (item f (last us))) = previous (data (item f (last vs)))"
             "\<forall>k < length us - 1. previous (data (item f (us ! k))) \<noteq> previous (data (item f (vs ! k)))"
            using R [OF rr] by blast
          show ?thesis by (rule branches_fromI [OF U]) (use C D one in blast)+
        qed
        moreover have "fetch_branch_from i j f = Some r"
          using a b r1 c r2 d r by (simp add: fetch_branch_from_def)
        ultimately show ?thesis using a b by blast
      qed
    qed
  qed
qed

lemma walk_down_result:
  assumes "fork_ok H f" "a \<in> dom (map_of (heap f))" "n \<le> num (item f a)"
  shows "\<exists>r. walk_down f n (Some a) = Some r \<and> (\<forall>b. r = Some b \<longrightarrow> b \<in> dom (map_of (heap f)) \<and> num (item f b) = n)"
  using assms(2,3)
proof (induction a rule: less_induct)
  case (less a)
  have nh: "num (item f b) = height f b" if "b \<in> dom (map_of (heap f))" for b
    using that fork_ok_item [OF assms(1)] by (auto simp: item_ok_def)
  show ?case
  proof (cases "num (item f a) > n")
    case False
    then have "walk_down f n (Some a) = Some (Some a)" by (simp add: walk_down.simps [of f n "Some a"])
    moreover have "num (item f a) = n" using False less.prems(2) by simp
    ultimately show ?thesis using less.prems(1) by blast
  next
    case True
    show ?thesis
    proof (cases "lock f (prev (item f a))")
      case None
      then have "walk_down f n (Some a) = Some None"
        using True by (simp add: walk_down.simps [of f n "Some a"] walk_down.simps [of f n None])
      then show ?thesis by simp
    next
      case (Some p)
      note P = fork_ok_prev [OF assms(1) less.prems(1) Some]
      have "n < height f p + 1"
        using True nh [OF less.prems(1)] height_prev [OF assms(1) less.prems(1) Some] by simp
      then have "n \<le> num (item f p)" using word_less_plus_1 nh P by simp
      moreover have "walk_down f n (Some a) = walk_down f n (Some p)"
        using True Some by (simp add: walk_down.simps [of f n "Some a"])
      ultimately show ?thesis using less.IH [of p] P by simp
    qed
  qed
qed

lemma walk_main_result:
  assumes "fork_ok H f"
  shows "\<exists>r. walk_main_branch_to_num n f = Some r \<and>
    (\<forall>b. r = Inr (Some b) \<longrightarrow> b \<in> dom (map_of (heap f)) \<and> num (item f b) = n)"
proof (cases "head f")
  case (Some h)
  show ?thesis
  proof (cases "n > num (item f h)")
    case False
    then have "n \<le> num (item f h)" by simp
    from walk_down_result [OF assms fork_ok_head [OF assms Some] this]
    obtain r where "walk_down f n (Some h) = Some r"
      "\<forall>b. r = Some b \<longrightarrow> b \<in> dom (map_of (heap f)) \<and> num (item f b) = n"
      by blast
    then show ?thesis using False Some by (simp add: walk_main_branch_to_num_def)
  qed (simp add: walk_main_branch_to_num_def Some)
qed (simp add: walk_main_branch_to_num_def)

subsection \<open>Reachable fork databases\<close>

text \<open>The operations as steps; callers may keep pointers to items they got.\<close>

inductive fork_step :: "('t, 'd, 'x) hashes \<Rightarrow> ('t, 'd, 'x) fork_database \<Rightarrow> ('t, 'd, 'x) fork_database \<Rightarrow> bool"
  for H where
  step_push: "fdb_push_block H b f = Inr (h, f') \<Longrightarrow> fork_step H f f'"
| step_pop: "fdb_pop_block f = Inr f' \<Longrightarrow> fork_step H f f'"
| step_start: "fork_step H f (start_block H b f)"
| step_reset: "fork_step H f (reset f)"
| step_remove: "fork_step H f (fdb_remove i f)"
| step_max_size: "fork_step H f (set_max_size s f)"
| step_set_head: "a \<in> dom (map_of (heap f)) \<Longrightarrow> fork_step H f (set_head a f)"
| step_hold: "fork_step H f (f\<lparr>held := as\<rparr>)"

inductive fork_reachable :: "('t, 'd, 'x) hashes \<Rightarrow> ('t, 'd, 'x) fork_database \<Rightarrow> bool" for H where
  reach_empty: "fork_reachable H empty_fork_database"
| reach_step: "fork_reachable H f \<Longrightarrow> fork_step H f f' \<Longrightarrow> fork_reachable H f'"

lemma fork_step_ok: "fork_step H f f' \<Longrightarrow> fork_ok H f \<Longrightarrow> fork_ok H f'"
proof (induction rule: fork_step.induct)
  case (step_push b f h f')
  then show ?case using fdb_push_block_ok by blast
next
  case (step_hold f as)
  then show ?case by (auto simp: fork_ok_def item_ok_def)
qed (simp_all add: pop_ok start_ok reset_ok remove_ok max_size_ok(1) set_head_ok)

lemma reachable_ok: "fork_reachable H f \<Longrightarrow> fork_ok H f"
  by (induction rule: fork_reachable.induct) (simp_all add: fork_ok_empty fork_step_ok)

lemma index_ids_inj:
  "fork_ok H f \<Longrightarrow> p \<in> set (index f) \<Longrightarrow> q \<in> set (index f) \<Longrightarrow>
   item_id (item f p) = item_id (item f q) \<Longrightarrow> p = q"
  by (auto simp: fork_ok_def distinct_map inj_on_def)

lemma find_id_index:
  assumes "fork_ok H f"
  shows "find_id f (index f) i = Some p \<longleftrightarrow> p \<in> set (index f) \<and> item_id (item f p) = i"
proof
  assume "p \<in> set (index f) \<and> item_id (item f p) = i"
  moreover from this obtain q where "find_id f (index f) i = Some q"
    by (cases "find_id f (index f) i") (auto simp: find_id_None)
  ultimately show "find_id f (index f) i = Some p"
    using find_id_Some index_ids_inj [OF assms] by metis
qed (rule find_id_Some)

lemma is_ok_link:
  assumes "fork_ok H f" "head f = Some h"
  shows "is_ok (fdb_link i f) \<longleftrightarrow> previous_id i = null_block_id \<or>
     (\<exists>p. find_id f (index f) (previous_id i) = Some p \<and> \<not> invalid (item f p))"
  using assms(2) by (cases "find_id f (index f) (previous_id i)") (simp_all add: fdb_link_def)

lemma push_block_accepts:
  assumes "fork_ok H f"
  shows "is_ok (fdb_push_block H b f) \<longleftrightarrow>
     (case head f of None \<Rightarrow> True
      | Some h \<Rightarrow> uint (block_num b) > oldest_num f h \<and>
          (previous b = null_block_id \<or>
           (\<exists>p \<in> set (index f). item_id (item f p) = previous b \<and> \<not> invalid (item f p))))"
proof (cases "head f")
  case None
  then show ?thesis by (simp add: fdb_push_block_def fdb_push_item_def fdb_link_def is_ok_rbind)
next
  case (Some h)
  have n: "num (fork_item_of H b) = block_num b" "previous_id (fork_item_of H b) = previous b"
    by (simp_all add: fork_item_of_def previous_id_def)
  have "is_ok (fdb_push_block H b f) \<longleftrightarrow> uint (block_num b) > oldest_num f h \<and> is_ok (fdb_link (fork_item_of H b) f)"
    unfolding fdb_push_block_def fdb_push_item_def using Some n(1) by (auto simp: is_ok_rbind is_ok_def)
  then show ?thesis unfolding is_ok_link [OF assms Some] n(2) find_id_index [OF assms]
    using Some by auto
qed

subsection \<open>Properties\<close>

text \<open>A small tree: a root at height 1 and two branches on top of it.\<close>

definition sample_hashes :: "(nat, nat, unit) hashes" where
  "sample_hashes = \<lparr>sha224_tail = (\<lambda>b. of_nat (siming_signature b)), merkle_digest = id, hash_pair = (+),
     checksum = id, empty_checksum = 0\<rparr>"

definition sample_block :: "block_id \<Rightarrow> nat \<Rightarrow> (nat, nat, unit) signed_block" where
  "sample_block p s = \<lparr>previous = p, timestamp = 0, siming = [], transaction_merkle_root = 0,
     extensions = [], siming_signature = s, transactions = []\<rparr>"

definition sample_id :: "u32 \<Rightarrow> 128 word \<Rightarrow> block_id" where
  "sample_id n h = \<lparr>id_num = n, id_hash = h\<rparr>"

definition push_ok ::
  "(nat, nat, unit) signed_block \<Rightarrow> (nat, nat, unit) fork_database \<Rightarrow> (nat, nat, unit) fork_database" where
  "push_ok b f = (case fdb_push_block sample_hashes b f of Inr (_, f) \<Rightarrow> f | Inl _ \<Rightarrow> f)"

definition sample_tree :: "(nat, nat, unit) fork_database" where
  "sample_tree =
     push_ok (sample_block (sample_id 2 6) 7) (push_ok (sample_block (sample_id 1 5) 8)
       (push_ok (sample_block (sample_id 1 5) 6)
         (start_block sample_hashes (sample_block null_block_id 5) empty_fork_database)))"

lemma sample_reachable [simp]: "fork_reachable sample_hashes sample_tree"
proof -
  have p: "fork_reachable sample_hashes (push_ok b f)" if "fork_reachable sample_hashes f" for b f
    using that by (auto simp: push_ok_def split: sum.split prod.split intro: reach_step step_push)
  show ?thesis unfolding sample_tree_def
    by (intro p reach_step [OF reach_empty] step_start)
qed

lemmas sample_tree_eval = sample_tree_def push_ok_def start_block_def sample_block_def sample_hashes_def
  sample_id_def null_block_id_def empty_fork_database_def fork_item_of_def block_num_def num_from_id_def
  block_id_def alloc_def index_insert_def find_id_def insert_by_num_def fdb_push_block_def fdb_push_item_def
  fdb_link_def fdb_insert_def oldest_num_def previous_id_def Let_def

lemma sample_tree_index: "index sample_tree = [0, 1, 2, 3] \<and> head sample_tree = Some 3"
  by (simp add: sample_tree_eval)


lemma sample_tree_items:
  "prev (item sample_tree 0) = None" "prev (item sample_tree 1) = Some 0"
  "prev (item sample_tree 2) = Some 0" "prev (item sample_tree 3) = Some 1"
  "height sample_tree 0 = 1" "height sample_tree 1 = 2" "height sample_tree 2 = 2" "height sample_tree 3 = 3"
  "previous (data (item sample_tree 1)) = previous (data (item sample_tree 2))"
  "find_id sample_tree (index sample_tree) (sample_id 3 7) = Some 3"
  "find_id sample_tree (index sample_tree) (sample_id 2 8) = Some 2"
  "alive sample_tree 1"
  by (simp_all add: sample_tree_eval alive_def)

lemma sample_branches:
  "fetch_branch_from (sample_id 3 7) (sample_id 2 8) sample_tree = Some (Inr ([3, 1], [2]))"
proof -
  have 1: "climb sample_tree 2 1 acc = Some (Inr (1, acc))" for acc
    by (simp add: climb.simps [of _ _ 1] sample_tree_items del: One_nat_def)
  have 2: "climb sample_tree 2 3 [] = Some (Inr (1, [3]))"
    by (simp add: climb.simps [of _ _ 3] sample_tree_items lock_def 1 del: One_nat_def)
  have 3: "climb sample_tree 2 2 [] = Some (Inr (2, []))"
    by (simp add: climb.simps [of _ _ 2] sample_tree_items del: One_nat_def)
  have 4: "climb_both sample_tree 1 2 [3] [] = Some (Inr ([3, 1], [2]))"
    by (simp add: climb_both.simps [of _ 1 2] sample_tree_items del: One_nat_def)
  show ?thesis by (simp add: fetch_branch_from_def sample_tree_items 2 3 4 del: One_nat_def)
qed

text \<open>C17: in every state the fork database can reach, the index is sorted by number with unique ids, every
  item carries the number and the id of its block, the parent pointer of an item points to an older
  item with the id the block names as its parent, and the cache of unlinked blocks is empty.\<close>

theorem fork_database_invariant:
  assumes "fork_reachable H f"
  shows "fork_ok H f"
  using assms by (rule reachable_ok)

lemma fork_database_invariant_witness:
  "fork_ok sample_hashes sample_tree \<and> index sample_tree = [0, 1, 2, 3]"
  using fork_database_invariant [OF sample_reachable] sample_tree_index by simp

text \<open>A block is accepted exactly when it is not older than the window below the head and it names a
  known valid parent (or none); the accepted block is known afterwards, nothing known is forgotten,
  and the returned head is the new block if its number is higher than the one of the old head, and
  the old head otherwise.\<close>

theorem push_block_correct:
  assumes "fork_reachable H f"
  shows "(is_ok (fdb_push_block H b f) \<longleftrightarrow>
     (case head f of None \<Rightarrow> True
      | Some h \<Rightarrow> uint (block_num b) > oldest_num f h \<and>
          (previous b = null_block_id \<or>
           (\<exists>p \<in> set (index f). item_id (item f p) = previous b \<and> \<not> invalid (item f p))))) \<and>
   (\<forall>h f'. fdb_push_block H b f = Inr (h, f') \<longrightarrow>
      h = head f' \<and> h \<noteq> None \<and> is_known_block (block_id H b) f' \<and>
      (\<forall>i. is_known_block i f \<longrightarrow> is_known_block i f') \<and>
      (case head f of
         Some h0 \<Rightarrow> (if block_num b > num (item f h0) then data (item f' (the h)) = b else h = Some h0)
       | None \<Rightarrow> data (item f' (the h)) = b))"
  using push_block_accepts [OF reachable_ok [OF assms]] fdb_push_block_ok [OF reachable_ok [OF assms]]
  by blast

lemma push_block_correct_witness:
  "is_ok (fdb_push_block sample_hashes (sample_block (sample_id 3 7) 9) sample_tree) \<and>
   \<not> is_ok (fdb_push_block sample_hashes (sample_block (sample_id 3 4) 9) sample_tree)"
proof -
  have "oldest_num sample_tree 3 = 0" "map (\<lambda>a. item_id (item sample_tree a)) (index sample_tree) =
      [sample_id 1 5, sample_id 2 6, sample_id 2 8, sample_id 3 7]"
    "map (\<lambda>a. invalid (item sample_tree a)) (index sample_tree) = [False, False, False, False]"
    by (simp_all add: sample_tree_eval)
  then show ?thesis
    using push_block_correct [OF sample_reachable, of "sample_block (sample_id 3 7) 9"]
      push_block_correct [OF sample_reachable, of "sample_block (sample_id 3 4) 9"] sample_tree_index
    by (auto simp: sample_block_def sample_id_def block_num_def num_from_id_def null_block_id_def)
qed

text \<open>C18: the search for the branches of two blocks always ends; when it succeeds it returns the path from
  each block down to the first pair of blocks of equal height with the same parent, every block of a
  path being linked to the next one.\<close>

theorem fetch_branch_correct:
  assumes "fork_reachable H f"
  shows "\<exists>r. fetch_branch_from i j f = Some r \<and>
    (\<forall>xs ys. r = Inr (xs, ys) \<longrightarrow>
      (\<exists>a b. find_id f (index f) i = Some a \<and> find_id f (index f) j = Some b \<and> branches_from f a b xs ys))"
  by (rule branch_result [OF reachable_ok [OF assms]])

lemma fetch_branch_correct_witness:
  "fetch_branch_from (sample_id 3 7) (sample_id 2 8) sample_tree = Some (Inr ([3, 1], [2])) \<and>
   branches_from sample_tree 3 2 [3, 1] [2]"
  using fetch_branch_correct [OF sample_reachable, of "sample_id 3 7" "sample_id 2 8"]
  by (simp add: sample_branches sample_tree_items)

text \<open>Walking the main branch to a height always ends, and what it finds is an item of that height; a
  lookup by number gives exactly the indexed items of that number; and after the window is set, the
  index holds exactly the items whose number is not below it.\<close>

theorem lookup_by_number_correct:
  assumes "fork_reachable H f"
  shows "(\<exists>r. walk_main_branch_to_num n f = Some r \<and>
      (\<forall>b. r = Inr (Some b) \<longrightarrow> b \<in> dom (map_of (heap f)) \<and> num (item f b) = n)) \<and>
    fetch_block_by_number n f = filter (\<lambda>a. num (item f a) = n) (index f) \<and>
    (\<forall>h. head f = Some h \<longrightarrow> index (set_max_size s f) =
       filter (\<lambda>a. oldest_num (f\<lparr>max_size := s\<rparr>) h \<le> uint (num (item f a))) (index f))"
  using walk_main_result [OF reachable_ok [OF assms]] by_number_filter [OF reachable_ok [OF assms]]
    max_size_ok(2) [OF reachable_ok [OF assms]] by blast

lemma lookup_by_number_correct_witness:
  "fetch_block_by_number 2 sample_tree = [1, 2] \<and> index (set_max_size 1 sample_tree) = [1, 2, 3]"
proof -
  have e: "map (\<lambda>a. num (item sample_tree a)) [0, 1, 2, 3] = [1, 2, 2, 3]"
    "oldest_num (sample_tree\<lparr>max_size := 1\<rparr>) 3 = 2"
    by (simp_all add: sample_tree_eval)
  show ?thesis
    using lookup_by_number_correct [OF sample_reachable, of 2 1] sample_tree_index e by simp
qed

end
