(* ===== verification/Chainbase.thy ===== *)
theory Chainbase
  imports Table
begin

section \<open>The undo log of the object store\<close>

text \<open>
  Models \<open>generic_index\<close> and \<open>database\<close> of \<open>libraries/chainbase/chainbase.hpp\<close> and
  \<open>chainbase.cpp\<close>: a multi-index container of objects with assigned ids, a stack of undo states,
  sessions over it, and a database that drives several indexes in lockstep.

  The container class comes from another library (\<open>mira\<close> or Boost). A record stands for what
  the code relies on: two objects clash when a unique secondary key of theirs is equal, an
  insertion that clashes is refused, and a modification that clashes is refused too, in which
  case the container may or may not erase the element (Boost erases it).
\<close>

subsection \<open>The container\<close>

record 'v container =
  clash :: "'v \<Rightarrow> 'v \<Rightarrow> bool"
  erases :: bool

definition container_laws :: "'v container \<Rightarrow> bool" where
  "container_laws C \<longleftrightarrow> (\<forall>v w. clash C v w \<longrightarrow> clash C w v)"

definition collides :: "'v container \<Rightarrow> nat \<Rightarrow> 'v \<Rightarrow> 'v table \<Rightarrow> bool" where
  "collides C i v t \<longleftrightarrow> list_ex (\<lambda>(j, w). j \<noteq> i \<and> clash C v w) t"

definition idx_emplace :: "'v container \<Rightarrow> nat \<Rightarrow> 'v \<Rightarrow> 'v table \<Rightarrow> 'v table \<times> bool" where
  "idx_emplace C i v t =
     (if map_of t i \<noteq> None \<or> collides C i v t then (t, False) else (tput i v t, True))"

definition idx_modify :: "'v container \<Rightarrow> nat \<Rightarrow> 'v \<Rightarrow> 'v table \<Rightarrow> 'v table \<times> bool" where
  "idx_modify C i v t =
     (if collides C i v t then (if erases C then tdel i t else t, False) else (tput i v t, True))"

subsection \<open>Undo states and the index\<close>

text \<open>The stack is kept newest first: \<open>_stack.back()\<close> is the head of the list.\<close>

record 'v undo_state =
  old_values :: "'v table"
  removed_values :: "'v table"
  new_ids :: "nat list"
  old_next_id :: nat
  us_revision :: int

record 'v generic_index =
  indices :: "'v table"
  stack :: "'v undo_state list"
  revision :: int
  next_id :: nat

definition enabled :: "'v generic_index \<Rightarrow> bool" where
  "enabled g \<longleftrightarrow> stack g \<noteq> []"

definition on_head :: "('v undo_state \<Rightarrow> 'v undo_state) \<Rightarrow> 'v generic_index \<Rightarrow> 'v generic_index" where
  "on_head f g = (case stack g of [] \<Rightarrow> g | u # us \<Rightarrow> g\<lparr>stack := f u # us\<rparr>)"

definition on_create :: "nat \<Rightarrow> 'v generic_index \<Rightarrow> 'v generic_index" where
  "on_create i = on_head (\<lambda>u. u\<lparr>new_ids := List.insert i (new_ids u)\<rparr>)"

definition on_modify :: "nat \<Rightarrow> 'v \<Rightarrow> 'v generic_index \<Rightarrow> 'v generic_index" where
  "on_modify i v = on_head (\<lambda>u.
     if i \<in> set (new_ids u) then u
     else if map_of (old_values u) i \<noteq> None then u
     else u\<lparr>old_values := tput i v (old_values u)\<rparr>)"

text \<open>\<open>emplace\<close> on a map does not replace an entry that is there.\<close>

definition map_emplace :: "nat \<Rightarrow> 'v \<Rightarrow> 'v table \<Rightarrow> 'v table" where
  "map_emplace i v t = (if map_of t i = None then tput i v t else t)"

definition on_remove :: "nat \<Rightarrow> 'v \<Rightarrow> 'v generic_index \<Rightarrow> 'v generic_index" where
  "on_remove i v = on_head (\<lambda>u.
     if i \<in> set (new_ids u) then u\<lparr>new_ids := removeAll i (new_ids u)\<rparr>
     else case map_of (old_values u) i of
       Some w \<Rightarrow> u\<lparr>removed_values := map_emplace i w (removed_values u),
                  old_values := tdel i (old_values u)\<rparr>
     | None \<Rightarrow>
         if map_of (removed_values u) i \<noteq> None then u
         else u\<lparr>removed_values := map_emplace i v (removed_values u)\<rparr>)"

subsection \<open>Object operations\<close>

definition emplace ::
  "'v container \<Rightarrow> (nat \<Rightarrow> 'v) \<Rightarrow> 'v generic_index \<Rightarrow> (nat \<times> 'v generic_index) res" where
  "emplace C c g =
     (let new_id = next_id g in
      case idx_emplace C new_id (c new_id) (indices g) of (t, ok) \<Rightarrow>
      rguard ok (Logic_error ''could not insert object'')
      (Inr (new_id, on_create new_id (g\<lparr>indices := t, next_id := new_id + 1\<rparr>))))"

text \<open>
  The modifier runs on the object found under an id. When the modification is refused the
  exception leaves the undo entry (and, with \<open>erases\<close>, the loss of the element) behind, so the
  state is returned beside the outcome.
\<close>

definition modify ::
  "'v container \<Rightarrow> nat \<Rightarrow> ('v \<Rightarrow> 'v) \<Rightarrow> 'v generic_index \<Rightarrow> 'v generic_index \<times> unit res" where
  "modify C i m g =
     (case map_of (indices g) i of
        None \<Rightarrow> (g, Inl Out_of_range)
      | Some v \<Rightarrow>
          (let g = on_modify i v g in
           case idx_modify C i (m v) (indices g) of (t, ok) \<Rightarrow>
           (g\<lparr>indices := t\<rparr>, if ok then Inr () else Inl (Logic_error ''Could not modify object''))))"

definition remove :: "nat \<Rightarrow> 'v generic_index \<Rightarrow> 'v generic_index res" where
  "remove i g =
     (case map_of (indices g) i of
        None \<Rightarrow> Inl Out_of_range
      | Some v \<Rightarrow> (let g = on_remove i v g in Inr (g\<lparr>indices := tdel i (indices g)\<rparr>)))"

definition find_obj :: "nat \<Rightarrow> 'v generic_index \<Rightarrow> 'v option" where
  "find_obj i g = map_of (indices g) i"

definition get_obj :: "nat \<Rightarrow> 'v generic_index \<Rightarrow> 'v res" where
  "get_obj i g = (case find_obj i g of None \<Rightarrow> Inl Out_of_range | Some v \<Rightarrow> Inr v)"

subsection \<open>Sessions\<close>

record session =
  s_apply :: bool
  s_revision :: int

definition start_undo_session :: "'v generic_index \<Rightarrow> session \<times> 'v generic_index" where
  "start_undo_session g =
     (let r = revision g + 1;
          u = \<lparr>old_values = [], removed_values = [], new_ids = [], old_next_id = next_id g,
               us_revision = r\<rparr>
      in (\<lparr>s_apply = (r \<noteq> -1), s_revision = r\<rparr>,
          g\<lparr>revision := r, stack := u # stack g\<rparr>))"

text \<open>
  Restoring the head undo state: first the old values, in id order, replacing the present object
  or inserting it again; then the new objects go (erasing an object that is not there is
  undefined in C++ and an error here); last the removed objects come back.
\<close>

definition restore_old :: "'v container \<Rightarrow> nat \<times> 'v \<Rightarrow> 'v table \<Rightarrow> 'v table res" where
  "restore_old C = (\<lambda>(i, v) t.
     (case (case map_of t i of Some _ \<Rightarrow> idx_modify C i v t | None \<Rightarrow> idx_emplace C i v t)
      of (t', ok) \<Rightarrow> rguard ok (Logic_error ''Could not modify object'') (Inr t')))"

definition erase_new :: "nat \<Rightarrow> 'v table \<Rightarrow> 'v table res" where
  "erase_new i t = rguard (map_of t i \<noteq> None) Out_of_range (Inr (tdel i t))"

definition restore_removed :: "'v container \<Rightarrow> nat \<times> 'v \<Rightarrow> 'v table \<Rightarrow> 'v table res" where
  "restore_removed C = (\<lambda>(i, v) t.
     (case idx_emplace C i v t of (t', ok) \<Rightarrow>
      rguard ok (Logic_error ''Could not restore object'') (Inr t')))"

definition undo :: "'v container \<Rightarrow> 'v generic_index \<Rightarrow> 'v generic_index res" where
  "undo C g =
     (case stack g of
        [] \<Rightarrow> Inr g
      | u # us \<Rightarrow>
          rbind (rfold (restore_old C) (old_values u) (indices g)) (\<lambda>t.
          rbind (rfold erase_new (new_ids u) t) (\<lambda>t.
          rbind (rfold (restore_removed C) (removed_values u) t) (\<lambda>t.
          Inr (g\<lparr>indices := t, next_id := old_next_id u, stack := us, revision := revision g - 1\<rparr>)))))"

definition merge_old :: "nat \<times> 'v \<Rightarrow> 'v undo_state \<Rightarrow> 'v undo_state" where
  "merge_old = (\<lambda>(i, v) p.
     if i \<in> set (new_ids p) then p
     else if map_of (old_values p) i \<noteq> None then p
     else p\<lparr>old_values := map_emplace i v (old_values p)\<rparr>)"

definition merge_new :: "nat \<Rightarrow> 'v undo_state \<Rightarrow> 'v undo_state" where
  "merge_new i p = p\<lparr>new_ids := List.insert i (new_ids p)\<rparr>"

definition merge_removed :: "nat \<times> 'v \<Rightarrow> 'v undo_state \<Rightarrow> 'v undo_state" where
  "merge_removed = (\<lambda>(i, v) p.
     if i \<in> set (new_ids p) then p\<lparr>new_ids := removeAll i (new_ids p)\<rparr>
     else case map_of (old_values p) i of
       Some w \<Rightarrow> p\<lparr>removed_values := map_emplace i w (removed_values p),
                  old_values := tdel i (old_values p)\<rparr>
     | None \<Rightarrow> p\<lparr>removed_values := map_emplace i v (removed_values p)\<rparr>)"

definition merge_states :: "'v undo_state \<Rightarrow> 'v undo_state \<Rightarrow> 'v undo_state" where
  "merge_states state prev =
     fold merge_removed (removed_values state)
       (fold merge_new (new_ids state) (fold merge_old (old_values state) prev))"

definition squash :: "'v generic_index \<Rightarrow> 'v generic_index" where
  "squash g =
     (case stack g of
        [] \<Rightarrow> g
      | [_] \<Rightarrow> g\<lparr>stack := []\<rparr>
      | state # prev # us \<Rightarrow>
          g\<lparr>stack := merge_states state prev # us, revision := revision g - 1\<rparr>)"

definition commit :: "int \<Rightarrow> 'v generic_index \<Rightarrow> 'v generic_index" where
  "commit r g = g\<lparr>stack := rev (dropWhile (\<lambda>u. us_revision u \<le> r) (rev (stack g)))\<rparr>"

text \<open>The loop of \<open>undo_all\<close> pops one undo state per round.\<close>

definition undo_all :: "'v container \<Rightarrow> 'v generic_index \<Rightarrow> 'v generic_index res" where
  "undo_all C g = rfold (\<lambda>_. undo C) (stack g) g"

definition set_revision :: "int \<Rightarrow> 'v generic_index \<Rightarrow> 'v generic_index res" where
  "set_revision r g =
     rguard (stack g = []) (Logic_error ''cannot set revision while there is an existing undo stack'')
       (Inr (g\<lparr>revision := r\<rparr>))"

definition session_push :: "session \<Rightarrow> session" where
  "session_push s = s\<lparr>s_apply := False\<rparr>"

definition session_squash :: "session \<times> 'v generic_index \<Rightarrow> session \<times> 'v generic_index" where
  "session_squash = (\<lambda>(s, g). (s\<lparr>s_apply := False\<rparr>, if s_apply s then squash g else g))"

definition session_undo ::
  "'v container \<Rightarrow> session \<times> 'v generic_index \<Rightarrow> (session \<times> 'v generic_index) res" where
  "session_undo C = (\<lambda>(s, g).
     rbind (if s_apply s then undo C g else Inr g) (\<lambda>g. Inr (s\<lparr>s_apply := False\<rparr>, g)))"

subsection \<open>The database: several indexes\<close>

text \<open>
  All indexes of a database see the same session operations, in registration order. The value
  type is the disjoint sum of the object types, so that one list holds all indexes.
\<close>

type_synonym 'v database = "'v generic_index list"

definition db_start_undo_session :: "'v database \<Rightarrow> session list \<times> 'v database" where
  "db_start_undo_session db = (let ps = map start_undo_session db in (map fst ps, map snd ps))"

definition db_undo :: "'v container list \<Rightarrow> 'v database \<Rightarrow> 'v database res" where
  "db_undo Cs db = rmap (\<lambda>(C, g). undo C g) (zip Cs db)"

definition db_squash :: "'v database \<Rightarrow> 'v database" where
  "db_squash db = map squash db"

definition db_commit :: "int \<Rightarrow> 'v database \<Rightarrow> 'v database" where
  "db_commit r db = map (commit r) db"

definition db_undo_all :: "'v container list \<Rightarrow> 'v database \<Rightarrow> 'v database res" where
  "db_undo_all Cs db = rmap (\<lambda>(C, g). undo_all C g) (zip Cs db)"

definition db_set_revision :: "int \<Rightarrow> 'v database \<Rightarrow> 'v database res" where
  "db_set_revision r db = rmap (set_revision r) db"

definition db_revision :: "'v database \<Rightarrow> int" where
  "db_revision db = (case db of [] \<Rightarrow> -1 | g # _ \<Rightarrow> revision g)"

definition db_session_squash :: "session list \<times> 'v database \<Rightarrow> session list \<times> 'v database" where
  "db_session_squash = (\<lambda>(ss, db).
     ([], if ss = [] then db else map (\<lambda>sg. snd (session_squash sg)) (zip ss db)))"

definition db_session_undo ::
  "'v container list \<Rightarrow> session list \<times> 'v database \<Rightarrow> (session list \<times> 'v database) res" where
  "db_session_undo Cs = (\<lambda>(ss, db).
     if ss = [] then Inr ([], db) else
     rbind (rmap (\<lambda>(C, sg). session_undo C sg) (zip Cs (zip ss db))) (\<lambda>ps. Inr ([], map snd ps)))"

subsection \<open>What undoing does to the rows\<close>

definition restore :: "'v table \<Rightarrow> 'v undo_state \<Rightarrow> 'v table" where
  "restore t u = tputs (removed_values u) (tdels (new_ids u) (tputs (old_values u) t))"

definition consistent :: "'v container \<Rightarrow> 'v table \<Rightarrow> bool" where
  "consistent C t \<longleftrightarrow> (\<forall>i v j w. map_of t i = Some v \<longrightarrow> map_of t j = Some w \<longrightarrow> i \<noteq> j \<longrightarrow> \<not> clash C v w)"

lemma collides_iff:
  "wf_table t \<Longrightarrow> collides C i v t \<longleftrightarrow> (\<exists>j w. map_of t j = Some w \<and> j \<noteq> i \<and> clash C v w)"
  by (auto simp: collides_def list_ex_iff wf_map_of_iff)

lemma restore_old_ok:
  assumes "wf_table t"
    and "\<And>i v j w. (i, v) \<in> set us \<Longrightarrow> j \<noteq> i \<Longrightarrow> map_of t j = Some w \<or> (j, w) \<in> set us \<Longrightarrow> \<not> clash C v w"
  shows "rfold (restore_old C) us t = Inr (tputs us t)"
  using assms
proof (induction us arbitrary: t)
  case (Cons x us)
  obtain i v where x: "x = (i, v)" by (cases x)
  have "\<not> collides C i v t" using Cons.prems x by (auto simp: collides_iff)
  then have step: "restore_old C x t = Inr (tput i v t)"
    by (auto simp: x restore_old_def idx_modify_def idx_emplace_def split: option.split)
  have "rfold (restore_old C) us (tput i v t) = Inr (tputs us (tput i v t))"
  proof (rule Cons.IH)
    show "wf_table (tput i v t)" using Cons.prems by simp
    fix k y j w
    assume a: "(k, y) \<in> set us" "j \<noteq> k" "map_of (tput i v t) j = Some w \<or> (j, w) \<in> set us"
    then have "map_of t j = Some w \<or> (j, w) \<in> set (x # us)" by (auto simp: x split: if_splits)
    then show "\<not> clash C y w" using Cons.prems(2) [of k y j w] a by simp
  qed
  then show ?case using step by (simp add: x)
qed simp

lemma erase_new_ok:
  assumes "distinct is" "set is \<subseteq> dom (map_of t)"
  shows "rfold erase_new is t = Inr (tdels is t)"
  using assms
proof (induction "is" arbitrary: t)
  case (Cons i "is")
  then have "rfold erase_new is (tdel i t) = Inr (tdels is (tdel i t))" by (intro Cons.IH) auto
  moreover have "erase_new i t = Inr (tdel i t)" using Cons.prems by (auto simp: erase_new_def)
  ultimately show ?case by simp
qed simp

lemma restore_removed_ok:
  assumes "wf_table t" "wf_table us" "set (ids us) \<inter> dom (map_of t) = {}"
    and "\<And>i v j w. (i, v) \<in> set us \<Longrightarrow> j \<noteq> i \<Longrightarrow> map_of t j = Some w \<or> (j, w) \<in> set us \<Longrightarrow> \<not> clash C v w"
  shows "rfold (restore_removed C) us t = Inr (tputs us t)"
  using assms
proof (induction us arbitrary: t)
  case (Cons x us)
  obtain i v where x: "x = (i, v)" by (cases x)
  have "\<not> collides C i v t" using Cons.prems x by (auto simp: collides_iff)
  moreover have "map_of t i = None" using Cons.prems x by auto
  ultimately have step: "restore_removed C x t = Inr (tput i v t)"
    by (simp add: x restore_removed_def idx_emplace_def)
  have "rfold (restore_removed C) us (tput i v t) = Inr (tputs us (tput i v t))"
  proof (rule Cons.IH)
    show "wf_table (tput i v t)" "wf_table us" using Cons.prems x by simp_all
    show "set (ids us) \<inter> dom (map_of (tput i v t)) = {}" using Cons.prems x by auto
    fix k y j w
    assume a: "(k, y) \<in> set us" "j \<noteq> k" "map_of (tput i v t) j = Some w \<or> (j, w) \<in> set us"
    then have "map_of t j = Some w \<or> (j, w) \<in> set (x # us)" by (auto simp: x split: if_splits)
    then show "\<not> clash C y w" using Cons.prems(4) [of k y j w] a by simp
  qed
  then show ?case using step by (simp add: x)
qed simp

definition wf_undo :: "'v undo_state \<Rightarrow> bool" where
  "wf_undo u \<longleftrightarrow> wf_table (old_values u) \<and> wf_table (removed_values u) \<and> distinct (new_ids u) \<and>
     (\<forall>i \<in> set (new_ids u). map_of (old_values u) i = None \<and> map_of (removed_values u) i = None) \<and>
     (\<forall>i v. map_of (old_values u) i = Some v \<longrightarrow> map_of (removed_values u) i = None)"

lemma map_of_restore:
  "wf_undo u \<Longrightarrow> map_of (restore t u) =
     (map_of t ++ map_of (old_values u)) |` (- set (new_ids u)) ++ map_of (removed_values u)"
  by (simp add: restore_def wf_undo_def table_simps)

lemma wf_restore [simp]: "wf_table t \<Longrightarrow> wf_table (restore t u)"
  by (simp add: restore_def)

definition undoable :: "'v container \<Rightarrow> 'v table \<Rightarrow> 'v undo_state \<Rightarrow> bool" where
  "undoable C t u \<longleftrightarrow> wf_table t \<and> wf_undo u \<and> set (new_ids u) \<subseteq> dom (map_of t) \<and>
     (\<forall>i v. map_of (removed_values u) i = Some v \<longrightarrow> map_of t i = None) \<and> consistent C (restore t u) \<and>
     (\<forall>i v j w. map_of (old_values u) i = Some v \<longrightarrow> map_of t j = Some w \<longrightarrow> j \<noteq> i \<longrightarrow> \<not> clash C v w)"

lemma undo_undoable:
  assumes u: "undoable C t u"
    and g: "indices g = t" "stack g = u # us"
  shows "undo C g = Inr (g\<lparr>indices := restore t u, next_id := old_next_id u, stack := us,
           revision := revision g - 1\<rparr>)"
proof -
  let ?o = "old_values u" and ?d = "removed_values u" and ?n = "new_ids u"
  have wf: "wf_table t" "wf_table ?o" "wf_table ?d" "wf_undo u" using u by (auto simp: undoable_def wf_undo_def)
  note R = map_of_restore [OF wf(4), of t]
  have cons: "\<not> clash C v w" if "map_of (restore t u) i = Some v" "map_of (restore t u) j = Some w" "i \<noteq> j" for i v j w
    using u that by (auto simp: undoable_def consistent_def)
  have o_in: "map_of (restore t u) i = Some v" if "map_of ?o i = Some v" for i v
    using u that unfolding R by (auto simp: undoable_def wf_undo_def map_add_def restrict_map_def split: option.split)
  have d_in: "map_of (restore t u) i = Some v" if "map_of ?d i = Some v" for i v
    using that unfolding R by (simp add: map_add_def)
  have 1: "rfold (restore_old C) ?o t = Inr (tputs ?o t)"
  proof (rule restore_old_ok)
    fix i v j w
    assume a: "(i, v) \<in> set ?o" "j \<noteq> i" "map_of t j = Some w \<or> (j, w) \<in> set ?o"
    then have "map_of ?o i = Some v" "map_of t j = Some w \<or> map_of ?o j = Some w" using wf by (simp_all add: wf_map_of_iff)
    then show "\<not> clash C v w" using u a(2) cons o_in unfolding undoable_def by blast
  qed (rule wf)
  have 2: "rfold erase_new ?n (tputs ?o t) = Inr (tdels ?n (tputs ?o t))"
    using u wf by (intro erase_new_ok) (auto simp: undoable_def wf_undo_def table_simps)
  have 3: "rfold (restore_removed C) ?d (tdels ?n (tputs ?o t)) = Inr (restore t u)"
    unfolding restore_def
  proof (rule restore_removed_ok)
    show "set (ids ?d) \<inter> dom (map_of (tdels ?n (tputs ?o t))) = {}"
      using u wf by (auto simp: undoable_def wf_undo_def table_simps set_ids restrict_map_def split: if_splits)
    fix i v j w
    assume a: "(i, v) \<in> set ?d" "j \<noteq> i" "map_of (tdels ?n (tputs ?o t)) j = Some w \<or> (j, w) \<in> set ?d"
    have "map_of (restore t u) j = Some w" if "map_of (tdels ?n (tputs ?o t)) j = Some w"
    proof -
      have "j \<notin> dom (map_of ?d)"
        using that u wf by (auto simp: undoable_def wf_undo_def table_simps restrict_map_def split: if_splits)
      then show ?thesis using that wf unfolding R by (simp add: table_simps map_add_def domIff)
    qed
    then show "\<not> clash C v w" using a wf cons d_in by (metis wf_map_of_iff)
  qed (simp_all add: wf)
  show ?thesis using 1 2 3 by (simp add: undo_def g)
qed

subsection \<open>The invariant of the undo stack\<close>

definition same_keys :: "'v container \<Rightarrow> 'v \<Rightarrow> 'v \<Rightarrow> bool" where
  "same_keys C v w \<longleftrightarrow> (\<forall>x. clash C v x = clash C w x)"

definition level :: "'v container \<Rightarrow> 'v table \<Rightarrow> nat \<Rightarrow> bool" where
  "level C t n \<longleftrightarrow> wf_table t \<and> (\<forall>i v. map_of t i = Some v \<longrightarrow> i < n) \<and> consistent C t"

definition linked :: "'v container \<Rightarrow> 'v table \<Rightarrow> nat \<Rightarrow> 'v undo_state \<Rightarrow> bool" where
  "linked C t n u \<longleftrightarrow> wf_undo u \<and> old_next_id u \<le> n \<and>
     (\<forall>i \<in> set (new_ids u). old_next_id u \<le> i \<and> map_of t i \<noteq> None) \<and>
     (\<forall>i v. map_of t i = Some v \<longrightarrow> old_next_id u \<le> i \<longrightarrow> i \<in> set (new_ids u)) \<and>
     (\<forall>i v. map_of (removed_values u) i = Some v \<longrightarrow> i < old_next_id u \<and> map_of t i = None) \<and>
     (\<forall>i v. map_of (old_values u) i = Some v \<longrightarrow>
        i < old_next_id u \<and> (\<exists>w. map_of t i = Some w \<and> same_keys C v w))"

primrec chain :: "'v container \<Rightarrow> 'v table \<Rightarrow> nat \<Rightarrow> int \<Rightarrow> 'v undo_state list \<Rightarrow> bool" where
  "chain C t n r [] = level C t n"
| "chain C t n r (u # us) =
     (level C t n \<and> linked C t n u \<and> us_revision u = r \<and>
      chain C (restore t u) (old_next_id u) (r - 1) us)"

definition good :: "'v container \<Rightarrow> 'v generic_index \<Rightarrow> bool" where
  "good C g \<longleftrightarrow> chain C (indices g) (next_id g) (revision g) (stack g)"

text \<open>The states the undo stack can go back to, newest first: the abstract value of the stack.\<close>

primrec snapshots :: "'v table \<Rightarrow> 'v undo_state list \<Rightarrow> ('v table \<times> nat) list" where
  "snapshots t [] = []"
| "snapshots t (u # us) = (restore t u, old_next_id u) # snapshots (restore t u) us"

lemma chain_level: "chain C t n r us \<Longrightarrow> level C t n"
  by (cases us) simp_all

lemma same_keys_trans: "same_keys C u v \<Longrightarrow> same_keys C v w \<Longrightarrow> same_keys C u w"
  by (simp add: same_keys_def)

lemma same_keys_refl [simp]: "same_keys C v v"
  by (simp add: same_keys_def)

lemma linked_undoable:
  assumes "container_laws C" "level C t n" "linked C t n u" "level C (restore t u) m"
  shows "undoable C t u"
proof -
  have "\<not> clash C v w"
    if ov: "map_of (old_values u) i = Some v" and w: "map_of t j = Some w" and ne: "j \<noteq> i" for i v j w
  proof -
    obtain x where "map_of t i = Some x" "same_keys C v x" using assms(3) ov unfolding linked_def by blast
    moreover have "\<not> clash C x w"
      using assms(2) calculation(1) w ne by (auto simp: level_def consistent_def)
    ultimately show ?thesis by (simp add: same_keys_def)
  qed
  then show ?thesis using assms by (auto simp: undoable_def linked_def level_def)
qed

lemma undo_good:
  assumes "container_laws C" "good C g" "stack g = u # us"
  shows "undo C g = Inr (g\<lparr>indices := restore (indices g) u, next_id := old_next_id u, stack := us,
           revision := revision g - 1\<rparr>)"
proof (rule undo_undoable)
  show "undoable C (indices g) u"
    using assms chain_level by (intro linked_undoable) (auto simp: good_def)
qed (simp_all add: assms)

subsection \<open>Object operations keep the snapshots\<close>

lemma restore_eqI:
  assumes "wf_table t" "wf_table t'" "wf_undo u" "wf_undo u'"
    and "\<And>i. map_of (restore t' u') i = map_of (restore t u) i"
  shows "restore t' u' = restore t u"
  using assms by (intro wf_table_ext) (auto simp: fun_eq_iff)

lemma restore_at:
  "wf_undo u \<Longrightarrow> map_of (restore t u) i =
     (case map_of (removed_values u) i of Some v \<Rightarrow> Some v
      | None \<Rightarrow> (if i \<in> set (new_ids u) then None
                else (case map_of (old_values u) i of Some v \<Rightarrow> Some v | None \<Rightarrow> map_of t i)))"
  by (auto simp: map_of_restore map_add_def restrict_map_def split: option.splits)

lemma linkedI:
  assumes "wf_undo u" "old_next_id u \<le> n"
    and "\<And>i. i \<in> set (new_ids u) \<Longrightarrow> old_next_id u \<le> i \<and> map_of t i \<noteq> None"
    and "\<And>i v. map_of t i = Some v \<Longrightarrow> old_next_id u \<le> i \<Longrightarrow> i \<in> set (new_ids u)"
    and "\<And>i v. map_of (removed_values u) i = Some v \<Longrightarrow> i < old_next_id u \<and> map_of t i = None"
    and "\<And>i v. map_of (old_values u) i = Some v \<Longrightarrow>
           i < old_next_id u \<and> (\<exists>w. map_of t i = Some w \<and> same_keys C v w)"
  shows "linked C t n u"
  using assms unfolding linked_def by blast

lemma linkedD:
  assumes "linked C t n u"
  shows linked_wf: "wf_undo u"
    and linked_next: "old_next_id u \<le> n"
    and linked_new: "i \<in> set (new_ids u) \<Longrightarrow> old_next_id u \<le> i \<and> map_of t i \<noteq> None"
    and linked_new': "map_of t i = Some v \<Longrightarrow> old_next_id u \<le> i \<Longrightarrow> i \<in> set (new_ids u)"
    and linked_removed: "map_of (removed_values u) i = Some v \<Longrightarrow> i < old_next_id u \<and> map_of t i = None"
    and linked_old: "map_of (old_values u) i = Some v \<Longrightarrow>
           i < old_next_id u \<and> (\<exists>w. map_of t i = Some w \<and> same_keys C v w)"
  using assms unfolding linked_def by blast+

lemma emplace_linked:
  assumes l: "linked C t n u" and t: "wf_table t" "map_of t n = None"
    and u': "u' = u\<lparr>new_ids := List.insert n (new_ids u)\<rparr>"
  shows "linked C (tput n v t) (Suc n) u'" "restore (tput n v t) u' = restore t u"
proof -
  note D = linkedD [OF l]
  have none: "map_of (old_values u) n = None" "map_of (removed_values u) n = None"
    using D(2) D(5) [of n] D(6) [of n] by (cases "map_of (old_values u) n", auto)
      (cases "map_of (removed_values u) n", auto)
  have wf: "wf_undo u'" "wf_undo u"
    using D(1) none by (auto simp: wf_undo_def u')
  show "linked C (tput n v t) (Suc n) u'"
  proof (rule linkedI)
    fix i w
    show "i \<in> set (new_ids u') \<Longrightarrow> old_next_id u' \<le> i \<and> map_of (tput n v t) i \<noteq> None"
      using D(2) D(3) [of i] by (auto simp: u')
    show "map_of (tput n v t) i = Some w \<Longrightarrow> old_next_id u' \<le> i \<Longrightarrow> i \<in> set (new_ids u')"
      using D(4) [of i] by (auto simp: u' split: if_splits)
    show "map_of (removed_values u') i = Some w \<Longrightarrow> i < old_next_id u' \<and> map_of (tput n v t) i = None"
      using none D(5) [of i] by (auto simp: u')
    show "map_of (old_values u') i = Some w \<Longrightarrow>
        i < old_next_id u' \<and> (\<exists>x. map_of (tput n v t) i = Some x \<and> same_keys C w x)"
      using none D(6) [of i w] by (cases "i = n") (simp_all add: u')
  qed (use wf D(2) u' in auto)
  show "restore (tput n v t) u' = restore t u"
  proof (rule restore_eqI)
    fix i show "map_of (restore (tput n v t) u') i = map_of (restore t u) i"
      unfolding restore_at [OF wf(1)] restore_at [OF wf(2)]
      using none t by (cases "i = n") (auto simp: u' split: option.split)
  qed (use wf t in auto)
qed

lemma modify_linked:
  assumes l: "linked C t n u" and t: "wf_table t" "map_of t i = Some v" and k: "same_keys C v w"
    and u': "u' = (if i \<in> set (new_ids u) then u else if map_of (old_values u) i \<noteq> None then u
         else u\<lparr>old_values := tput i v (old_values u)\<rparr>)"
  shows "linked C (tput i w t) n u'" "restore (tput i w t) u' = restore t u"
    "old_next_id u' = old_next_id u" "us_revision u' = us_revision u"
proof -
  note D = linkedD [OF l]
  have rem: "map_of (removed_values u) i = None"
    using t D(5) [of i] by (cases "map_of (removed_values u) i") auto
  have f: "old_next_id u' = old_next_id u" "us_revision u' = us_revision u" "new_ids u' = new_ids u"
    "removed_values u' = removed_values u" by (simp_all add: u')
  have old: "map_of (old_values u') j = (if j = i \<and> i \<notin> set (new_ids u) \<and> map_of (old_values u) i = None
      then Some v else map_of (old_values u) j)" for j
    by (simp add: u')
  have wfu: "wf_table (old_values u')" using D(1) by (simp add: u' wf_undo_def)
  have wf: "wf_undo u'" "wf_undo u"
    using D(1) rem wfu by (auto simp: wf_undo_def f old)
  have lt: "i < old_next_id u" if "i \<notin> set (new_ids u)"
    using that D(4) [of i] t by (meson not_less)
  show "linked C (tput i w t) n u'"
  proof (rule linkedI)
    fix j x
    show "j \<in> set (new_ids u') \<Longrightarrow> old_next_id u' \<le> j \<and> map_of (tput i w t) j \<noteq> None"
      using D(3) [of j] by (auto simp: f)
    show "map_of (tput i w t) j = Some x \<Longrightarrow> old_next_id u' \<le> j \<Longrightarrow> j \<in> set (new_ids u')"
      using D(4) [of j] t lt by (cases "j = i") (auto simp: f)
    show "map_of (removed_values u') j = Some x \<Longrightarrow> j < old_next_id u' \<and> map_of (tput i w t) j = None"
      using rem D(5) [of j] by (auto simp: f)
    show "map_of (old_values u') j = Some x \<Longrightarrow>
        j < old_next_id u' \<and> (\<exists>y. map_of (tput i w t) j = Some y \<and> same_keys C x y)"
      using D(6) [of j x] t k lt same_keys_trans [of C x v w]
      by (cases "j = i") (auto simp: f old split: if_splits)
  qed (use wf D(2) f in auto)
  show "restore (tput i w t) u' = restore t u"
  proof (rule restore_eqI)
    fix j show "map_of (restore (tput i w t) u') j = map_of (restore t u) j"
      using rem t by (cases "j = i") (auto simp: restore_at wf f old split: option.split)
  qed (use wf t in auto)
  show "old_next_id u' = old_next_id u" "us_revision u' = us_revision u" by (rule f)+
qed

definition removed_head :: "nat \<Rightarrow> 'v \<Rightarrow> 'v undo_state \<Rightarrow> 'v undo_state" where
  "removed_head i v u =
     (if i \<in> set (new_ids u) then u\<lparr>new_ids := removeAll i (new_ids u)\<rparr>
     else case map_of (old_values u) i of
       Some w \<Rightarrow> u\<lparr>removed_values := map_emplace i w (removed_values u),
                  old_values := tdel i (old_values u)\<rparr>
     | None \<Rightarrow>
         if map_of (removed_values u) i \<noteq> None then u
         else u\<lparr>removed_values := map_emplace i v (removed_values u)\<rparr>)"

lemma remove_linked:
  assumes l: "linked C t n u" and t: "wf_table t" "map_of t i = Some v"
    and u': "u' = removed_head i v u"
  shows "linked C (tdel i t) n u'" "restore (tdel i t) u' = restore t u"
    "old_next_id u' = old_next_id u" "us_revision u' = us_revision u"
proof -
  note D = linkedD [OF l]
  have rem: "map_of (removed_values u) i = None"
    using t D(5) [of i] by (cases "map_of (removed_values u) i") auto
  have f: "old_next_id u' = old_next_id u" "us_revision u' = us_revision u"
    "set (new_ids u') = set (new_ids u) - {i}"
    by (auto simp: u' removed_head_def split: option.split)
  have new_old: "map_of (old_values u) i = None" if "i \<in> set (new_ids u)"
    using that D(1) by (simp add: wf_undo_def)
  have old: "map_of (old_values u') j = (if j = i then None else map_of (old_values u) j)" for j
    using new_old by (auto simp: u' removed_head_def split: option.split)
  have remv: "map_of (removed_values u') j =
      (if j = i \<and> i \<notin> set (new_ids u)
       then (case map_of (old_values u) i of Some w \<Rightarrow> Some w | None \<Rightarrow> Some v)
       else map_of (removed_values u) j)" for j
    using rem by (auto simp: u' removed_head_def map_emplace_def split: option.split)
  have wfu: "wf_table (old_values u')" "wf_table (removed_values u')" "distinct (new_ids u')"
    using D(1) by (auto simp: u' removed_head_def map_emplace_def wf_undo_def distinct_removeAll split: option.split)
  have wf: "wf_undo u'" "wf_undo u"
    using D(1) wfu by (auto simp: wf_undo_def f old remv)
  have lt: "i < old_next_id u" if "i \<notin> set (new_ids u)"
    using that D(4) [of i] t by (meson not_less)
  show "linked C (tdel i t) n u'"
  proof (rule linkedI)
    fix j x
    show "j \<in> set (new_ids u') \<Longrightarrow> old_next_id u' \<le> j \<and> map_of (tdel i t) j \<noteq> None"
      using D(3) [of j] by (auto simp: f)
    show "map_of (tdel i t) j = Some x \<Longrightarrow> old_next_id u' \<le> j \<Longrightarrow> j \<in> set (new_ids u')"
      using D(4) [of j] by (auto simp: f split: if_splits)
    show "map_of (removed_values u') j = Some x \<Longrightarrow> j < old_next_id u' \<and> map_of (tdel i t) j = None"
      using D(5) [of j] lt by (cases "j = i") (auto simp: f remv split: if_splits)
    show "map_of (old_values u') j = Some x \<Longrightarrow>
        j < old_next_id u' \<and> (\<exists>y. map_of (tdel i t) j = Some y \<and> same_keys C x y)"
      using D(6) [of j x] by (cases "j = i") (auto simp: f old)
  qed (use wf D(2) f in auto)
  show "restore (tdel i t) u' = restore t u"
  proof (rule restore_eqI)
    fix j show "map_of (restore (tdel i t) u') j = map_of (restore t u) j"
      using rem t new_old
      by (cases "j = i") (auto simp: restore_at wf f old remv split: option.split)
  qed (use wf t in auto)
  show "old_next_id u' = old_next_id u" "us_revision u' = us_revision u" by (rule f)+
qed

subsection \<open>Merging two undo states\<close>

lemma merge_old_fold:
  assumes "wf_table us" "wf_table (old_values p)"
  shows "map_of (old_values (fold merge_old us p)) i =
      (if i \<in> set (new_ids p) then map_of (old_values p) i
       else case map_of (old_values p) i of Some v \<Rightarrow> Some v | None \<Rightarrow> map_of us i)"
    and "wf_table (old_values (fold merge_old us p))"
    and "new_ids (fold merge_old us p) = new_ids p" "removed_values (fold merge_old us p) = removed_values p"
      "old_next_id (fold merge_old us p) = old_next_id p" "us_revision (fold merge_old us p) = us_revision p"
proof -
  have "wf_table us \<Longrightarrow> wf_table (old_values p) \<Longrightarrow>
      (\<forall>i. map_of (old_values (fold merge_old us p)) i =
      (if i \<in> set (new_ids p) then map_of (old_values p) i
       else case map_of (old_values p) i of Some v \<Rightarrow> Some v | None \<Rightarrow> map_of us i)) \<and>
      wf_table (old_values (fold merge_old us p)) \<and>
      new_ids (fold merge_old us p) = new_ids p \<and> removed_values (fold merge_old us p) = removed_values p \<and>
      old_next_id (fold merge_old us p) = old_next_id p \<and> us_revision (fold merge_old us p) = us_revision p"
  proof (induction us arbitrary: p)
    case Nil
    then show ?case by (auto split: option.split)
  next
    case (Cons x us)
    obtain k v where x: "x = (k, v)" by (cases x)
    have k: "map_of us k = None" using Cons.prems x by (force simp: set_ids)
    let ?q = "merge_old x p"
    have q: "new_ids ?q = new_ids p" "removed_values ?q = removed_values p" "old_next_id ?q = old_next_id p"
      "us_revision ?q = us_revision p" "wf_table (old_values ?q)"
      "\<And>i. map_of (old_values ?q) i = (if i = k \<and> i \<notin> set (new_ids p) \<and> map_of (old_values p) i = None
         then Some v else map_of (old_values p) i)"
      using Cons.prems by (auto simp: x merge_old_def map_emplace_def)
    have "wf_table us" using Cons.prems x by simp
    then show ?case using Cons.IH [of ?q] q k by (auto simp: x split: option.split)
  qed
  then show "map_of (old_values (fold merge_old us p)) i =
      (if i \<in> set (new_ids p) then map_of (old_values p) i
       else case map_of (old_values p) i of Some v \<Rightarrow> Some v | None \<Rightarrow> map_of us i)"
    "wf_table (old_values (fold merge_old us p))"
    "new_ids (fold merge_old us p) = new_ids p" "removed_values (fold merge_old us p) = removed_values p"
      "old_next_id (fold merge_old us p) = old_next_id p" "us_revision (fold merge_old us p) = us_revision p"
    using assms by blast+
qed

lemma merge_new_fold:
  "set (new_ids (fold merge_new is p)) = set is \<union> set (new_ids p) \<and>
   (distinct (new_ids p) \<longrightarrow> distinct (new_ids (fold merge_new is p))) \<and>
   old_values (fold merge_new is p) = old_values p \<and> removed_values (fold merge_new is p) = removed_values p \<and>
   old_next_id (fold merge_new is p) = old_next_id p \<and> us_revision (fold merge_new is p) = us_revision p"
  by (induction "is" arbitrary: p) (auto simp: merge_new_def)

lemma merge_removed_fold:
  "wf_table us \<Longrightarrow> wf_undo p \<Longrightarrow>
   wf_undo (fold merge_removed us p) \<and>
   set (new_ids (fold merge_removed us p)) = set (new_ids p) - dom (map_of us) \<and>
   (\<forall>i. map_of (old_values (fold merge_removed us p)) i =
      (if i \<in> dom (map_of us) then None else map_of (old_values p) i)) \<and>
   (\<forall>i. map_of (removed_values (fold merge_removed us p)) i =
      (case map_of (removed_values p) i of Some v \<Rightarrow> Some v
       | None \<Rightarrow> (if i \<in> set (new_ids p) then None
                 else (case map_of us i of None \<Rightarrow> None
                       | Some v \<Rightarrow> (case map_of (old_values p) i of Some w \<Rightarrow> Some w | None \<Rightarrow> Some v))))) \<and>
   old_next_id (fold merge_removed us p) = old_next_id p \<and> us_revision (fold merge_removed us p) = us_revision p"
proof (induction us arbitrary: p)
  case Nil
  then show ?case by (auto split: option.split)
next
  case (Cons x us)
  obtain k v where x: "x = (k, v)" by (cases x)
  have k: "map_of us k = None" and us: "wf_table us" using Cons.prems x by (force simp: set_ids)+
  let ?q = "merge_removed x p"
  have kn: "k \<in> set (new_ids p) \<Longrightarrow> map_of (old_values p) k = None \<and> map_of (removed_values p) k = None"
    and ko: "\<And>w. map_of (old_values p) k = Some w \<Longrightarrow> map_of (removed_values p) k = None"
    using Cons.prems(2) by (auto simp: wf_undo_def)
  have q: "set (new_ids ?q) = set (new_ids p) - {k}" "old_next_id ?q = old_next_id p"
    "us_revision ?q = us_revision p"
    "\<And>i. map_of (old_values ?q) i = (if i = k then None else map_of (old_values p) i)"
    "\<And>i. map_of (removed_values ?q) i =
       (if i = k \<and> k \<notin> set (new_ids p) \<and> map_of (removed_values p) k = None
        then (case map_of (old_values p) k of Some w \<Rightarrow> Some w | None \<Rightarrow> Some v)
        else map_of (removed_values p) i)"
    using kn ko by (auto simp: x merge_removed_def map_emplace_def split: option.split)
  have "wf_table (old_values ?q)" "wf_table (removed_values ?q)" "distinct (new_ids ?q)"
    using Cons.prems(2)
    by (auto simp: x merge_removed_def map_emplace_def wf_undo_def distinct_removeAll split: option.split)
  then have wq: "wf_undo ?q" using Cons.prems(2) q by (auto simp: wf_undo_def)
  note IH = Cons.IH [OF us wq]
  have "map_of (removed_values (fold merge_removed us ?q)) i =
      (case map_of (removed_values p) i of Some v \<Rightarrow> Some v
       | None \<Rightarrow> (if i \<in> set (new_ids p) then None
                 else (case map_of (x # us) i of None \<Rightarrow> None
                       | Some v \<Rightarrow> (case map_of (old_values p) i of Some w \<Rightarrow> Some w | None \<Rightarrow> Some v))))" for i
    using IH q k kn by (cases "i = k") (auto simp: x split: option.split)
  moreover have "map_of (old_values (fold merge_removed us ?q)) i =
      (if i \<in> dom (map_of (x # us)) then None else map_of (old_values p) i)" for i
    using IH q by (auto simp: x)
  moreover have "set (new_ids (fold merge_removed us ?q)) = set (new_ids p) - dom (map_of (x # us))"
    using IH q(1) by (auto simp: x split: if_splits)
  moreover have "fold merge_removed (x # us) p = fold merge_removed us ?q" by simp
  moreover have "old_next_id (fold merge_removed us ?q) = old_next_id p \<and>
      us_revision (fold merge_removed us ?q) = us_revision p \<and> wf_undo (fold merge_removed us ?q)"
    using IH q(2,3) by simp
  ultimately show ?case by metis
qed

text \<open>The merged undo state goes back as far as both states together.\<close>

lemma merge_linked:
  assumes t: "level C t n" and B: "linked C t n b"
    and A: "linked C (restore t b) (old_next_id b) a"
  shows "linked C t n (merge_states b a)" "restore t (merge_states b a) = restore (restore t b) a"
    "old_next_id (merge_states b a) = old_next_id a" "us_revision (merge_states b a) = us_revision a"
proof -
  let ?p1 = "fold merge_old (old_values b) a"
  let ?p2 = "fold merge_new (new_ids b) ?p1"
  let ?m = "merge_states b a"
  note DB = linkedD [OF B] and DA = linkedD [OF A]
  have wb: "wf_undo b" and wa: "wf_undo a" by (rule DB(1), rule DA(1))
  have wt: "wf_table t" using t by (simp add: level_def)
  have ob: "wf_table (old_values b)" "wf_table (removed_values b)" and oa: "wf_table (old_values a)"
    using wb wa by (simp_all add: wf_undo_def)
  note R = restore_at [OF wb, of t]
  have a_rem: "map_of (removed_values b) i = None" "map_of (old_values b) i = None" if "map_of (removed_values a) i = Some v" for i v
    using DA(5) [OF that] R [of i] DB(6) [of i] wb
    by (auto simp: wf_undo_def split: option.splits if_splits)
  have a_new: "i < old_next_id b" if "i \<in> set (new_ids a)" for i
    using DA(3) [OF that] R [of i] DB(4) [of i] DB(5) [of i] DB(6) [of i]
    by (cases "old_next_id b \<le> i") (auto split: option.splits if_splits)
  note O = merge_old_fold [OF ob(1) oa]
  note N = merge_new_fold [of "new_ids b" ?p1]
  have new2: "set (new_ids ?p2) = set (new_ids b) \<union> set (new_ids a)" using N O by simp
  have old2: "map_of (old_values ?p2) i = (if i \<in> set (new_ids a) then None
       else case map_of (old_values a) i of Some v \<Rightarrow> Some v | None \<Rightarrow> map_of (old_values b) i)" for i
    using N O(1) [of i] wa by (auto simp: wf_undo_def)
  have rem2: "removed_values ?p2 = removed_values a" using N O by simp
  have bn: "old_next_id b \<le> i" "map_of (old_values a) i = None" "map_of (removed_values a) i = None" 
    "map_of (old_values b) i = None" "map_of (removed_values b) i = None" if "i \<in> set (new_ids b)" for i
    using that DB(3) [of i] DA(2) DA(5) [of i] DA(6) [of i] wb
    by (auto simp: wf_undo_def intro: ccontr)
  have w2: "wf_undo ?p2"
    unfolding wf_undo_def
  proof (intro conjI ballI allI impI)
    show "wf_table (old_values ?p2)" "wf_table (removed_values ?p2)" "distinct (new_ids ?p2)"
      using N O(2,3,4) wa by (simp_all add: wf_undo_def)
    fix i show "i \<in> set (new_ids ?p2) \<Longrightarrow> map_of (old_values ?p2) i = None"
      using bn [of i] by (auto simp: new2 old2)
    show "i \<in> set (new_ids ?p2) \<Longrightarrow> map_of (removed_values ?p2) i = None"
      using bn [of i] wa by (auto simp: new2 rem2 wf_undo_def)
    fix v show "map_of (old_values ?p2) i = Some v \<Longrightarrow> map_of (removed_values ?p2) i = None"
      using a_rem [of i] wa by (cases "map_of (removed_values a) i") (auto simp: old2 rem2 wf_undo_def split: if_splits option.splits)
  qed
  note M = merge_removed_fold [OF ob(2) w2, folded merge_states_def]
  have wm: "wf_undo ?m" using M by blast
  have newm: "set (new_ids ?m) = (set (new_ids b) \<union> set (new_ids a)) - dom (map_of (removed_values b))"
    using M by (simp only: new2)
  have oldm: "map_of (old_values ?m) i = (if i \<in> dom (map_of (removed_values b)) then None
       else if i \<in> set (new_ids a) then None
       else case map_of (old_values a) i of Some v \<Rightarrow> Some v | None \<Rightarrow> map_of (old_values b) i)" for i
    using M by (simp only: old2)
  have remm: "map_of (removed_values ?m) i =
      (case map_of (removed_values a) i of Some v \<Rightarrow> Some v
       | None \<Rightarrow> (if i \<in> set (new_ids b) \<union> set (new_ids a) then None
                 else (case map_of (removed_values b) i of None \<Rightarrow> None
                       | Some v \<Rightarrow> (case map_of (old_values a) i of Some w \<Rightarrow> Some w
                                   | None \<Rightarrow> (case map_of (old_values b) i of Some w \<Rightarrow> Some w | None \<Rightarrow> Some v)))))" for i
  proof -
    have "map_of (removed_values ?m) i =
      (case map_of (removed_values a) i of Some v \<Rightarrow> Some v
       | None \<Rightarrow> (if i \<in> set (new_ids b) \<union> set (new_ids a) then None
                 else (case map_of (removed_values b) i of None \<Rightarrow> None
                       | Some v \<Rightarrow> (case map_of (old_values ?p2) i of Some w \<Rightarrow> Some w | None \<Rightarrow> Some v))))"
      using M unfolding rem2 new2 by blast
    then show ?thesis unfolding old2 by (auto split: option.splits)
  qed
  show nm: "old_next_id ?m = old_next_id a" "us_revision ?m = us_revision a"
    using M N O by simp_all
  show "restore t ?m = restore (restore t b) a"
  proof (rule restore_eqI [of "restore t b" t a ?m])
    fix i
    have bo: "map_of (removed_values b) i = None" if "map_of (old_values b) i = Some v" for v
      using that wb by (simp add: wf_undo_def)
    show "map_of (restore t ?m) i = map_of (restore (restore t b) a) i"
      unfolding restore_at [OF wm] restore_at [OF wa] R newm oldm remm
      using bn [of i] bo a_rem [of i] wa DB(5) [of i] by (auto simp: wf_undo_def split: option.splits)
  qed (simp_all add: wt wa wm)
  show "linked C t n ?m"
  proof (rule linkedI)
    show "wf_undo ?m" by (rule wm)
    show "old_next_id ?m \<le> n" using nm DA(2) DB(2) by simp
    fix i v
    show "i \<in> set (new_ids ?m) \<Longrightarrow> old_next_id ?m \<le> i \<and> map_of t i \<noteq> None"
      using DB(3) [of i] DA(2) DA(3) [of i] R [of i] DB(6) [of i] unfolding nm newm
      by (auto split: option.splits if_splits)
    have lt: "i < old_next_id a" if "map_of (restore t b) i = Some x" "i \<notin> set (new_ids a)" for x
      using that DA(4) [of i x] by (meson not_less)
    show "i \<in> set (new_ids ?m)" if ti: "map_of t i = Some v" and le: "old_next_id ?m \<le> i"
    proof -
      have "map_of (removed_values b) i = None"
        using DB(5) [of i] ti by (cases "map_of (removed_values b) i") auto
      moreover have "map_of (restore t b) i \<noteq> None" if "i \<notin> set (new_ids b)"
        using that ti calculation R [of i] by (auto split: option.split)
      ultimately show ?thesis using DA(4) [of i] le unfolding nm newm by auto
    qed
    show "i < old_next_id ?m \<and> map_of t i = None" if rv: "map_of (removed_values ?m) i = Some v"
    proof (cases "map_of (removed_values a) i")
      case (Some x)
      have "i < old_next_id a" "map_of (restore t b) i = None" using DA(5) [OF Some] by simp_all
      moreover have "i \<notin> set (new_ids b)" using bn(1) [of i] DA(2) calculation(1) by auto
      ultimately show ?thesis using R [of i] unfolding nm by (auto split: option.splits)
    next
      case None
      then obtain x where n: "i \<notin> set (new_ids b)" "i \<notin> set (new_ids a)" and x: "map_of (removed_values b) i = Some x"
        using rv unfolding remm by (auto split: if_splits option.splits)
      then have "map_of (restore t b) i = Some x" using R [of i] by simp
      then show ?thesis using lt n DB(5) [OF x] unfolding nm by simp
    qed
    show "i < old_next_id ?m \<and> (\<exists>w. map_of t i = Some w \<and> same_keys C v w)"
      if ov: "map_of (old_values ?m) i = Some v"
    proof -
      have rb: "map_of (removed_values b) i = None" and na: "i \<notin> set (new_ids a)"
        using ov unfolding oldm by (auto split: if_splits)
      show ?thesis
      proof (cases "map_of (old_values a) i")
        case (Some x)
        then have x: "x = v" using ov na rb unfolding oldm by (auto split: if_splits)
        obtain w where w: "i < old_next_id a" "map_of (restore t b) i = Some w" "same_keys C v w"
          using DA(6) [OF Some] x by blast
        then show ?thesis
          using R [of i] rb DB(6) [of i w] same_keys_trans [of C v w] unfolding nm
          by (auto split: if_splits option.splits)
      next
        case None
        then have o: "map_of (old_values b) i = Some v"
          using ov na rb unfolding oldm by (auto split: if_splits)
        then have "i \<notin> set (new_ids b)" using bn(4) [of i] by auto
        then have "map_of (restore t b) i = Some v" using R [of i] rb o by simp
        then show ?thesis using DB(6) [OF o] lt na unfolding nm by blast
      qed
    qed
  qed
qed

subsection \<open>Runs of operations and nested sessions\<close>

text \<open>
  The operations a transaction performs on an index, with the modifications that leave the unique
  keys alone, and sessions nested inside, squashed into the outer one or undone.
\<close>

inductive session_run :: "'v container \<Rightarrow> 'v generic_index \<Rightarrow> 'v generic_index \<Rightarrow> bool"
  for C :: "'v container" where
  run_refl: "session_run C g g"
| run_emplace: "session_run C g h \<Longrightarrow> emplace C c h = Inr (i, h') \<Longrightarrow> session_run C g h'"
| run_modify: "session_run C g h \<Longrightarrow> find_obj i h = Some v \<Longrightarrow> same_keys C v (m v) \<Longrightarrow>
     modify C i m h = (h', Inr ()) \<Longrightarrow> session_run C g h'"
| run_remove: "session_run C g h \<Longrightarrow> remove i h = Inr h' \<Longrightarrow> session_run C g h'"
| run_squash: "session_run C g h \<Longrightarrow> session_run C (snd (start_undo_session h)) k \<Longrightarrow>
     session_run C g (squash k)"
| run_undo: "session_run C g h \<Longrightarrow> session_run C (snd (start_undo_session h)) k \<Longrightarrow>
     undo C k = Inr h' \<Longrightarrow> session_run C g h'"

text \<open>Two states of an index with the same history under the head undo state.\<close>

definition same_past :: "'v generic_index \<Rightarrow> 'v generic_index \<Rightarrow> bool" where
  "same_past g h \<longleftrightarrow> length (stack h) = length (stack g) \<and> tl (stack h) = tl (stack g) \<and>
     (stack g \<noteq> [] \<longrightarrow> revision h = revision g) \<and>
     snapshots (indices h) (stack h) = snapshots (indices g) (stack g)"

lemma same_past_refl [simp]: "same_past g g"
  by (simp add: same_past_def)

lemma same_past_trans: "same_past g h \<Longrightarrow> same_past h k \<Longrightarrow> same_past g k"
  by (auto simp: same_past_def)

lemma on_head_indices [simp]: "indices (on_head f g) = indices g" "next_id (on_head f g) = next_id g"
  "revision (on_head f g) = revision g"
  by (simp_all add: on_head_def split: list.split)

lemma level_tput:
  assumes "level C t n" "i < m" "n \<le> m" "\<not> collides C i v t" "container_laws C"
  shows "level C (tput i v t) m"
  using assms
  by (auto simp: level_def consistent_def container_laws_def collides_iff intro: less_le_trans)

lemma level_tdel: "level C t n \<Longrightarrow> level C (tdel i t) n"
  by (auto simp: level_def consistent_def)

lemma emplace_good:
  assumes "container_laws C" "good C g" "emplace C c g = Inr (i, h)"
  shows "good C h \<and> same_past g h \<and> i = next_id g \<and> indices h = tput i (c i) (indices g)"
proof -
  have lv: "level C (indices g) (next_id g)" using assms(2) chain_level by (auto simp: good_def)
  have i: "i = next_id g" and nc: "\<not> collides C i (c i) (indices g)"
    and h: "h = on_create i (g\<lparr>indices := tput i (c i) (indices g), next_id := i + 1\<rparr>)"
    using assms(3) by (auto simp: emplace_def Let_def idx_emplace_def split: if_splits)
  have ind: "indices h = tput i (c i) (indices g)" by (simp add: h on_create_def)
  have none: "map_of (indices g) i = None"
    using lv i by (cases "map_of (indices g) i") (auto simp: level_def)
  have lv': "level C (tput i (c i) (indices g)) (i + 1)"
    using lv i nc assms(1) by (intro level_tput) auto
  have "good C h \<and> same_past g h"
  proof (cases "stack g")
    case Nil
    then show ?thesis using lv' by (simp add: good_def h on_create_def on_head_def same_past_def)
  next
    case (Cons u us)
    note E = emplace_linked [of C "indices g" i u "u\<lparr>new_ids := List.insert i (new_ids u)\<rparr>" "c i"]
    show ?thesis using Cons assms(2) E lv lv' none i
      by (auto simp: good_def h on_create_def on_head_def same_past_def level_def)
  qed
  then show ?thesis using i ind by simp
qed

lemma modify_good:
  assumes "container_laws C" "good C g" "modify C i m g = (h, Inr ())"
    and "find_obj i g = Some v" "same_keys C v (m v)"
  shows "good C h \<and> same_past g h \<and> indices h = tput i (m v) (indices g)"
proof -
  have lv: "level C (indices g) (next_id g)" using assms(2) chain_level by (auto simp: good_def)
  have v: "map_of (indices g) i = Some v" using assms(4) by (simp add: find_obj_def)
  have nc: "\<not> collides C i (m v) (indices g)"
    and h: "h = (on_modify i v g)\<lparr>indices := tput i (m v) (indices g)\<rparr>"
    using assms(3) v by (auto simp: modify_def Let_def idx_modify_def on_modify_def split: if_splits)
  have lv': "level C (tput i (m v) (indices g)) (next_id g)"
    using lv v nc assms(1) by (intro level_tput) (auto simp: level_def)
  show ?thesis
  proof (cases "stack g")
    case Nil
    then show ?thesis using lv' by (simp add: good_def h on_modify_def on_head_def same_past_def)
  next
    case (Cons u us)
    have "wf_table (indices g)" using lv by (simp add: level_def)
    moreover have "linked C (indices g) (next_id g) u" using Cons assms(2) by (simp add: good_def)
    ultimately show ?thesis using Cons assms(2) lv' modify_linked [OF _ _ v assms(5) refl]
      by (simp add: good_def h on_modify_def on_head_def same_past_def)
  qed
qed

lemma remove_good:
  assumes "good C g" "remove i g = Inr h"
  shows "good C h \<and> same_past g h \<and> indices h = tdel i (indices g)"
proof -
  have lv: "level C (indices g) (next_id g)" using assms chain_level by (auto simp: good_def)
  obtain v where v: "map_of (indices g) i = Some v"
    and h: "h = (on_remove i v g)\<lparr>indices := tdel i (indices g)\<rparr>"
    using assms(2) by (auto simp: remove_def Let_def on_remove_def split: option.splits)
  have hd: "on_remove i v = on_head (removed_head i v)"
    unfolding on_remove_def removed_head_def by (rule refl)
  show ?thesis
  proof (cases "stack g")
    case Nil
    then show ?thesis using lv level_tdel by (simp add: good_def h hd on_head_def same_past_def)
  next
    case (Cons u us)
    have "wf_table (indices g)" using lv by (simp add: level_def)
    moreover have "linked C (indices g) (next_id g) u" using Cons assms(1) by (simp add: good_def)
    ultimately show ?thesis using Cons assms(1) level_tdel [OF lv] remove_linked [OF _ _ v refl]
      by (simp add: good_def h hd on_head_def same_past_def)
  qed
qed

lemma restore_empty [simp]:
  "restore t \<lparr>old_values = [], removed_values = [], new_ids = [], old_next_id = n, us_revision = r\<rparr> = t"
  by (simp add: restore_def)

lemma start_good:
  assumes "good C g"
  shows "good C (snd (start_undo_session g))"
    and "snapshots (indices g) (stack (snd (start_undo_session g))) =
         (indices g, next_id g) # snapshots (indices g) (stack g)"
proof -
  have "level C (indices g) (next_id g)" using assms chain_level by (auto simp: good_def)
  then show "good C (snd (start_undo_session g))"
    using assms
    by (auto simp: good_def start_undo_session_def Let_def linked_def wf_undo_def level_def)
  show "snapshots (indices g) (stack (snd (start_undo_session g))) =
         (indices g, next_id g) # snapshots (indices g) (stack g)"
    by (simp add: start_undo_session_def Let_def)
qed

text \<open>Undoing a session brings back the index as it was when the session started.\<close>

lemma undo_of_start:
  assumes "container_laws C" "good C g" "good C k" "same_past (snd (start_undo_session g)) k"
  shows "undo C k = Inr g"
proof -
  have s: "snapshots (indices k) (stack k) = (indices g, next_id g) # snapshots (indices g) (stack g)"
    "tl (stack k) = stack g" "revision k = revision g + 1"
    using assms(4) by (simp_all add: same_past_def start_undo_session_def Let_def)
  then obtain u where u: "stack k = u # stack g" by (cases "stack k") auto
  then show ?thesis using undo_good [OF assms(1,3) u] s by simp
qed

lemma squash_of_start:
  assumes "good C g" "good C k" "same_past (snd (start_undo_session g)) k"
  shows "good C (squash k) \<and> same_past g (squash k) \<and> indices (squash k) = indices k"
proof -
  have s: "snapshots (indices k) (stack k) = (indices g, next_id g) # snapshots (indices g) (stack g)"
    "tl (stack k) = stack g" "revision k = revision g + 1"
    using assms(3) by (simp_all add: same_past_def start_undo_session_def Let_def)
  then obtain b where b: "stack k = b # stack g" by (cases "stack k") auto
  have lv: "level C (indices k) (next_id k)" using assms chain_level by (auto simp: good_def)
  show ?thesis
  proof (cases "stack g")
    case Nil
    then show ?thesis using b lv by (simp add: squash_def good_def same_past_def)
  next
    case (Cons a us)
    have "linked C (indices k) (next_id k) b" "linked C (restore (indices k) b) (old_next_id b) a"
      using assms(2) b Cons by (simp_all add: good_def)
    then show ?thesis using assms(2) b s Cons lv merge_linked [OF lv, of b a]
      by (simp add: squash_def good_def same_past_def)
  qed
qed

lemma session_run_good:
  assumes "session_run C g h" "container_laws C" "good C g"
  shows "good C h \<and> same_past g h"
  using assms
proof (induction rule: session_run.induct)
  case (run_squash g h k)
  then have "good C h" "same_past g h" "good C k" "same_past (snd (start_undo_session h)) k"
    using start_good by blast+
  then show ?case using squash_of_start same_past_trans by blast
next
  case (run_undo g h k h')
  then have "good C h" "same_past g h" "good C k" "same_past (snd (start_undo_session h)) k"
    using start_good by blast+
  then show ?case using undo_of_start [OF run_undo.prems(1)] run_undo.hyps by auto
next
  case (run_emplace g h c i h')
  then show ?case using emplace_good [of C h c i h'] same_past_trans [of g h h'] by simp
next
  case (run_modify g h i v m h')
  then show ?case using modify_good [of C h i m h' v] same_past_trans [of g h h'] by simp
next
  case (run_remove g h i h')
  then show ?case using remove_good [of C h i h'] same_past_trans [of g h h'] by simp
qed simp

lemma run_undo_restores:
  assumes "container_laws C" "good C g" "session_run C (snd (start_undo_session g)) h"
  shows "undo C h = Inr g"
  using session_run_good [OF assms(3,1)] start_good(1) [OF assms(2)] undo_of_start assms by blast

lemma run_squash_merges:
  assumes "container_laws C" "good C g" "session_run C (snd (start_undo_session g)) h"
  shows "indices (squash h) = indices h \<and> next_id (squash h) = next_id h \<and>
    (stack g \<noteq> [] \<longrightarrow> undo C (squash h) = undo C g)"
proof -
  have h: "good C h" "same_past (snd (start_undo_session g)) h"
    using session_run_good assms start_good by blast+
  then have q: "good C (squash h)" "same_past g (squash h)" "indices (squash h) = indices h"
    using squash_of_start assms(2) by blast+
  have "undo C (squash h) = undo C g" if ne: "stack g \<noteq> []"
  proof -
    obtain u us where u: "stack g = u # us" using ne by (cases "stack g") auto
    then obtain v where v: "stack (squash h) = v # us" using q(2) by (cases "stack (squash h)") (auto simp: same_past_def)
    then show ?thesis using u q undo_good [OF assms(1,2) u] undo_good [OF assms(1) q(1) v]
      by (simp add: same_past_def)
  qed
  moreover have "next_id (squash h) = next_id h" by (simp add: squash_def split: list.split)
  ultimately show ?thesis using q(3) by simp
qed

subsection \<open>Failing operations\<close>

text \<open>A refused modification of an older object leaves an undo state that still restores it.\<close>

lemma refused_modify_undo:
  assumes "container_laws C" "good C g" "session_run C (snd (start_undo_session g)) h"
    and "i < next_id g" "modify C i m h = (k, Inl e)"
  shows "undo C k = Inr g"
proof (cases "map_of (indices h) i")
  case None
  then have "k = h" using assms(5) by (simp add: modify_def)
  then show ?thesis using run_undo_restores assms by blast
next
  case (Some v)
  have h: "good C h" "same_past (snd (start_undo_session g)) h"
    using session_run_good assms start_good by blast+
  have s: "snapshots (indices h) (stack h) = (indices g, next_id g) # snapshots (indices g) (stack g)"
    "tl (stack h) = stack g" "revision h = revision g + 1"
    using h(2) by (simp_all add: same_past_def start_undo_session_def Let_def)
  then obtain u where u: "stack h = u # stack g" by (cases "stack h") auto
  have r: "restore (indices h) u = indices g" "old_next_id u = next_id g" using s(1) u by simp_all
  let ?t = "indices h"
  define u' where "u' = (if i \<in> set (new_ids u) then u else if map_of (old_values u) i \<noteq> None then u
         else u\<lparr>old_values := tput i v (old_values u)\<rparr>)"
  have l: "linked C ?t (next_id h) u" and lv: "level C ?t (next_id h)" and lg: "level C (indices g) (next_id g)"
    using h(1) u r assms(2) chain_level by (auto simp: good_def)
  have wt: "wf_table ?t" using lv by (simp add: level_def)
  have self: "tput i v ?t = ?t"
    using wt Some by (intro wf_table_ext) (auto simp: fun_eq_iff)
  have l': "linked C ?t (next_id h) u'" "restore ?t u' = indices g" "old_next_id u' = next_id g"
    using modify_linked [OF l wt Some same_keys_refl u'_def] self r by simp_all
  have und: "undoable C ?t u'" using linked_undoable [OF assms(1) lv l'(1)] lg l'(2) by simp
  have i: "i \<notin> set (new_ids u')" "map_of (old_values u') i \<noteq> None"
    using linked_new [OF l, of i] r(2) assms(4) by (auto simp: u'_def)
  define t' where "t' = indices k"
  have k: "k = h\<lparr>indices := t', stack := u' # stack g\<rparr>" and t': "t' = ?t \<or> t' = tdel i ?t"
    using assms(5) Some
    by (auto simp: modify_def Let_def on_modify_def on_head_def u u'_def t'_def idx_modify_def split: if_splits)
  have R: "restore (tdel i ?t) u' = restore ?t u'"
    using und i wt by (intro restore_eqI) (auto simp: undoable_def restore_at split: option.splits)
  have "undoable C t' u'"
  proof -
    have "undoable C (tdel i ?t) u'" using und i R by (auto simp: undoable_def)
    then show ?thesis using t' und by blast
  qed
  moreover have "restore t' u' = indices g" using t' R l'(2) by auto
  ultimately show ?thesis
    using undo_undoable [of C t' u' k "stack g"] l'(3) s(3) by (simp add: k)
qed

text \<open>
  When a session gives the unique key of an old object away, undoing the session fails: the old
  value is written back while the new object still holds the key.
\<close>

lemma key_reuse_breaks_undo:
  assumes "container_laws C" "good C g" "find_obj i g = Some v"
    and "modify C i m (snd (start_undo_session g)) = (h, Inr ())"
    and "emplace C c h = Inr (j, k)" "clash C v (c j)"
  shows "undo C k = Inl (Logic_error ''Could not modify object'')"
proof -
  have lv: "level C (indices g) (next_id g)" using assms(2) chain_level by (auto simp: good_def)
  have v: "map_of (indices g) i = Some v" using assms(3) by (simp add: find_obj_def)
  then have lt: "i < next_id g" and wt: "wf_table (indices g)" using lv by (auto simp: level_def)
  let ?t = "tput i (m v) (indices g)"
  have h: "indices h = ?t" "next_id h = next_id g"
    "stack h = \<lparr>old_values = [(i, v)], removed_values = [], new_ids = [], old_next_id = next_id g,
               us_revision = revision g + 1\<rparr> # stack g"
    using assms(4) v
    by (auto simp: modify_def start_undo_session_def Let_def on_modify_def on_head_def idx_modify_def split: if_splits)
  have k: "j = next_id g" "indices k = tput j (c j) ?t"
    "stack k = \<lparr>old_values = [(i, v)], removed_values = [], new_ids = [j], old_next_id = next_id g,
               us_revision = revision g + 1\<rparr> # stack g"
    using assms(5) h
    by (auto simp: emplace_def Let_def on_create_def on_head_def idx_emplace_def split: if_splits)
  have "collides C i v (indices k)"
    using wt assms(6) lt by (auto simp: collides_iff k)
  then show ?thesis
    using lt by (simp add: undo_def k restore_old_def idx_modify_def)
qed

subsection \<open>Commit and undoing everything\<close>

lemma chain_revisions: "chain C t n r us \<Longrightarrow> u \<in> set us \<Longrightarrow> us_revision u \<le> r"
  by (induction us arbitrary: t n r) fastforce+

lemma drop_committed:
  "chain C t n r us \<Longrightarrow> rev (dropWhile (\<lambda>u. us_revision u \<le> q) (rev us)) = takeWhile (\<lambda>u. q < us_revision u) us"
proof (induction us arbitrary: t n r)
  case (Cons u us)
  have ch: "chain C (restore t u) (old_next_id u) (r - 1) us" and u: "us_revision u = r"
    using Cons.prems by simp_all
  note IH = Cons.IH [OF ch]
  show ?case
  proof (cases "us_revision u \<le> q")
    case True
    then have "\<forall>x \<in> set (rev us). us_revision x \<le> q" using chain_revisions [OF ch] u by fastforce
    then show ?thesis using True by (simp add: dropWhile_append)
  next
    case False
    show ?thesis
    proof (cases "\<forall>x \<in> set (rev us). us_revision x \<le> q")
      case all: True
      then have "takeWhile (\<lambda>u. q < us_revision u) us = []" by (cases us) auto
      then show ?thesis using False all by (simp add: dropWhile_append)
    next
      case ex: False
      have "dropWhile (\<lambda>u. us_revision u \<le> q) (rev us) = rev (takeWhile (\<lambda>u. q < us_revision u) us)"
        using IH by (metis rev_rev_ident)
      then show ?thesis using False ex by (auto simp: dropWhile_append)
    qed
  qed
qed simp

lemma chain_takeWhile: "chain C t n r us \<Longrightarrow> chain C t n r (takeWhile P us)"
proof (induction us arbitrary: t n r)
  case (Cons u us)
  then show ?case using chain_level by (auto simp: chain_level)
qed simp

lemma commit_stack: "good C g \<Longrightarrow> stack (commit q g) = takeWhile (\<lambda>u. q < us_revision u) (stack g)"
  by (simp add: commit_def good_def drop_committed)

lemma commit_good: "good C g \<Longrightarrow> good C (commit q g)"
  using commit_stack [of C g q] chain_takeWhile by (simp add: good_def commit_def)

lemma commit_undo:
  assumes "container_laws C" "good C g"
  shows "undo C (commit q g) = (if stack g = [] \<or> revision g \<le> q then Inr (commit q g)
           else rbind (undo C g) (\<lambda>h. Inr (commit q h)))"
proof (cases "stack g")
  case Nil
  then show ?thesis by (simp add: commit_def undo_def)
next
  case (Cons u us)
  have r: "us_revision u = revision g" using assms(2) Cons by (simp add: good_def)
  have st: "stack (commit q g) = (if q < revision g then u # takeWhile (\<lambda>u. q < us_revision u) us else [])"
    using commit_stack [OF assms(2), of q] Cons r by simp
  show ?thesis
  proof (cases "q < revision g")
    case True
    let ?h = "g\<lparr>indices := restore (indices g) u, next_id := old_next_id u, stack := us, revision := revision g - 1\<rparr>"
    have gh: "good C ?h" using assms(2) Cons by (simp add: good_def)
    have "undo C (commit q g) = Inr (commit q ?h)"
      using undo_good [OF assms(1) commit_good [OF assms(2)], of q u] st True commit_stack [OF gh, of q]
      by (simp add: commit_def)
    moreover have "undo C g = Inr ?h" using undo_good [OF assms Cons] .
    ultimately show ?thesis using True Cons by simp
  next
    case False
    then show ?thesis using st Cons by (simp add: undo_def)
  qed
qed

lemma undo_all_good:
  assumes "container_laws C" "good C g"
  shows "\<exists>h. undo_all C g = Inr h \<and> good C h \<and> stack h = [] \<and>
     revision h = revision g - int (length (stack g)) \<and>
     (stack g \<noteq> [] \<longrightarrow> (indices h, next_id h) = last (snapshots (indices g) (stack g)))"
proof -
  have "\<exists>h. rfold (\<lambda>_. undo C) us g = Inr h \<and> good C h \<and> stack h = [] \<and>
     revision h = revision g - int (length (stack g)) \<and>
     (stack g \<noteq> [] \<longrightarrow> (indices h, next_id h) = last (snapshots (indices g) (stack g)))"
    if "good C g" "stack g = us" for us g
    using that
  proof (induction us arbitrary: g)
    case (Cons u us)
    let ?h = "g\<lparr>indices := restore (indices g) u, next_id := old_next_id u, stack := us, revision := revision g - 1\<rparr>"
    have "good C ?h" using Cons.prems by (simp add: good_def)
    then obtain h where "rfold (\<lambda>_. undo C) us ?h = Inr h" "good C h" "stack h = []"
      "revision h = revision ?h - int (length (stack ?h))"
      "stack ?h \<noteq> [] \<longrightarrow> (indices h, next_id h) = last (snapshots (indices ?h) (stack ?h))"
      using Cons.IH [of ?h] by auto
    moreover have "us = [] \<Longrightarrow> h = ?h" using calculation(1) by simp
    ultimately show ?case using undo_good [OF assms(1) Cons.prems] Cons.prems(2)
      by (cases us) auto
  qed simp
  then show ?thesis using assms(2) by (simp add: undo_all_def)
qed

subsection \<open>The session interface\<close>

text \<open>
  What the chain code relies on when it brackets work in a session: starting, undoing and squashing
  sessions over some state, with a relation of runs that stay inside the session. The code brackets
  a fallible action with a session in many places (\<open>_push_transaction\<close>, proposal voting, plugin
  operations): \<open>with_session\<close> is that pattern, the destructor of the session included.
\<close>

definition with_session ::
  "('s \<Rightarrow> 's) \<Rightarrow> ('s \<Rightarrow> 's res) \<Rightarrow> ('s \<Rightarrow> 's) \<Rightarrow> ('s \<Rightarrow> 's \<times> unit res) \<Rightarrow> 's \<Rightarrow> 's \<times> unit res" where
  "with_session start und squa act s =
     (case act (start s) of
        (t, Inr _) \<Rightarrow> (squa t, Inr ())
      | (t, Inl e) \<Rightarrow> (case und t of Inr s' \<Rightarrow> (s', Inl e) | Inl e' \<Rightarrow> (t, Inl e')))"

locale undo_log =
  fixes start :: "'s \<Rightarrow> 's"
    and und :: "'s \<Rightarrow> 's res"
    and squa :: "'s \<Rightarrow> 's"
    and inv :: "'s \<Rightarrow> bool"
    and run :: "'s \<Rightarrow> 's \<Rightarrow> bool"
  assumes start_inv: "inv s \<Longrightarrow> inv (start s)"
    and run_inv: "inv s \<Longrightarrow> run s t \<Longrightarrow> inv t"
    and run_self: "inv s \<Longrightarrow> run s s"
    and run_trans: "run s t \<Longrightarrow> run t u \<Longrightarrow> run s u"
    and undo_start: "inv s \<Longrightarrow> run (start s) t \<Longrightarrow> und t = Inr s"
    and squash_run: "inv s \<Longrightarrow> run (start s) t \<Longrightarrow> run s (squa t)"
begin

text \<open>An action that only runs operations is atomic under a session.\<close>

lemma with_session_atomic:
  assumes "inv s" and "\<And>t. inv t \<Longrightarrow> run t (fst (act t))"
  shows "(\<exists>t. act (start s) = (t, Inr ()) \<and> with_session start und squa act s = (squa t, Inr ()) \<and>
            run s (squa t)) \<or>
         (\<exists>e. snd (act (start s)) = Inl e \<and> with_session start und squa act s = (s, Inl e))"
proof -
  obtain t r where act: "act (start s) = (t, r)" by (cases "act (start s)")
  have r: "run (start s) t" using assms(2) [OF start_inv [OF assms(1)]] act by simp
  show ?thesis
  proof (cases r)
    case (Inl e)
    then show ?thesis using undo_start [OF assms(1) r] by (simp add: with_session_def act)
  next
    case (Inr u)
    then show ?thesis using squash_run [OF assms(1) r] by (simp add: with_session_def act)
  qed
qed

lemma with_session_run:
  assumes "inv s" and "\<And>t. inv t \<Longrightarrow> run t (fst (act t))"
  shows "run s (fst (with_session start und squa act s))"
  using with_session_atomic [OF assms] run_self [OF assms(1)] by auto

text \<open>A queue of actions, each in a session of its own: what fails leaves no trace.\<close>

lemma with_session_queue:
  assumes "inv s" and "\<And>a t. a \<in> set acts \<Longrightarrow> inv t \<Longrightarrow> run t (fst (a t))"
  shows "run s (fold (\<lambda>a s. fst (with_session start und squa a s)) acts s)"
  using assms
proof (induction acts arbitrary: s)
  case Nil
  then show ?case by (simp add: run_self)
next
  case (Cons a acts)
  let ?t = "fst (with_session start und squa a s)"
  have r: "run s ?t"
    by (rule with_session_run [OF Cons.prems(1)]) (rule Cons.prems(2), simp_all)
  have "run ?t (fold (\<lambda>a s. fst (with_session start und squa a s)) acts ?t)"
    by (rule Cons.IH [OF run_inv [OF Cons.prems(1) r]]) (rule Cons.prems(2), simp_all)
  then show ?case using run_trans [OF r] by simp
qed

lemma undo_after_queue:
  assumes "inv s" and "\<And>a t. a \<in> set acts \<Longrightarrow> inv t \<Longrightarrow> run t (fst (a t))"
  shows "und (fold (\<lambda>a s. fst (with_session start und squa a s)) acts (start s)) = Inr s"
  by (rule undo_start [OF assms(1)]) (rule with_session_queue, auto intro: start_inv assms)

end

lemma session_run_trans: "session_run C t u \<Longrightarrow> session_run C s t \<Longrightarrow> session_run C s u"
proof (induction rule: session_run.induct)
  case (run_modify g h i v m h')
  then show ?case by (intro session_run.run_modify [of C s h i v m h']) auto
next
  case (run_undo g h k h')
  then show ?case by (intro session_run.run_undo [of C s h k h']) auto
next
  case (run_emplace g h c i h')
  then show ?case by (intro session_run.run_emplace [of C s h c i h']) auto
next
  case (run_remove g h i h')
  then show ?case by (intro session_run.run_remove [of C s h i h']) auto
next
  case (run_squash g h k)
  then show ?case by (intro session_run.run_squash [of C s h k]) auto
qed simp

interpretation idx_log: undo_log "\<lambda>g. snd (start_undo_session g)" "undo C" squash
    "\<lambda>g. container_laws C \<and> good C g" "session_run C" for C :: "'v container"
proof unfold_locales
  fix s t u :: "'v generic_index"
  show "container_laws C \<and> good C s \<Longrightarrow> container_laws C \<and> good C (snd (start_undo_session s))"
    using start_good by blast
  show "container_laws C \<and> good C s \<Longrightarrow> session_run C s t \<Longrightarrow> container_laws C \<and> good C t"
    using session_run_good by blast
  show "session_run C s s" by (rule run_refl)
  show "session_run C s t \<Longrightarrow> session_run C t u \<Longrightarrow> session_run C s u" by (rule session_run_trans)
  show "container_laws C \<and> good C s \<Longrightarrow> session_run C (snd (start_undo_session s)) t \<Longrightarrow> undo C t = Inr s"
    using run_undo_restores by blast
  show "session_run C (snd (start_undo_session s)) t \<Longrightarrow> session_run C s (squash t)"
    by (rule run_squash [OF run_refl])
qed

subsection \<open>The database of several indexes\<close>

definition db_good :: "'v container list \<Rightarrow> 'v database \<Rightarrow> bool" where
  "db_good Cs db \<longleftrightarrow> list_all2 (\<lambda>C g. container_laws C \<and> good C g) Cs db"

definition db_run :: "'v container list \<Rightarrow> 'v database \<Rightarrow> 'v database \<Rightarrow> bool" where
  "db_run Cs db db' \<longleftrightarrow> length db = length Cs \<and> length db' = length Cs \<and>
     (\<forall>k < length Cs. session_run (Cs ! k) (db ! k) (db' ! k))"

lemma db_undo_start:
  assumes "db_good Cs db" "db_run Cs (snd (db_start_undo_session db)) db'"
  shows "db_undo Cs db' = Inr db"
proof -
  have len: "length db = length Cs" and g: "\<And>k. k < length Cs \<Longrightarrow> container_laws (Cs ! k) \<and> good (Cs ! k) (db ! k)"
    using assms(1) by (auto simp: db_good_def list_all2_conv_all_nth)
  let ?st = "\<lambda>k. snd (start_undo_session (db ! k))"
  have st: "snd (db_start_undo_session db) ! k = ?st k" if "k < length Cs" for k
    using that len by (simp add: db_start_undo_session_def Let_def)
  have r: "length db' = length Cs" "\<And>k. k < length Cs \<Longrightarrow> session_run (Cs ! k) (?st k) (db' ! k)"
    using assms(2) st len run_refl
    by (auto simp: db_run_def db_start_undo_session_def Let_def)
  show ?thesis unfolding db_undo_def
  proof (rule rmap_nth)
    fix k assume "k < length (zip Cs db')"
    then have k: "k < length Cs" using r by simp
    then show "(case zip Cs db' ! k of (C, g) \<Rightarrow> undo C g) = Inr (db ! k)"
      using r(1) run_undo_restores [of "Cs ! k" "db ! k" "db' ! k"] g [OF k] r(2) [OF k] by simp
  qed (simp add: r len)
qed

interpretation db_log: undo_log "\<lambda>db. snd (db_start_undo_session db)" "db_undo Cs" db_squash
    "db_good Cs" "db_run Cs" for Cs :: "'v container list"
proof unfold_locales
  fix s t u :: "'v database"
  show "db_good Cs (snd (db_start_undo_session s))" if "db_good Cs s"
    using that
    by (auto simp: db_good_def db_start_undo_session_def Let_def list_all2_conv_all_nth intro: start_good(1))
  show "db_good Cs t" if "db_good Cs s" "db_run Cs s t"
    using that by (simp add: db_good_def db_run_def list_all2_conv_all_nth) (metis session_run_good)
  show "db_good Cs s \<Longrightarrow> db_run Cs s s"
    by (auto simp: db_run_def db_good_def run_refl list_all2_conv_all_nth)
  show "db_run Cs s t \<Longrightarrow> db_run Cs t u \<Longrightarrow> db_run Cs s u"
    unfolding db_run_def using session_run_trans by blast
  show "db_good Cs s \<Longrightarrow> db_run Cs (snd (db_start_undo_session s)) t \<Longrightarrow> db_undo Cs t = Inr s"
    by (rule db_undo_start)
  show "db_run Cs s (db_squash t)" if "db_good Cs s" "db_run Cs (snd (db_start_undo_session s)) t"
    using that by (auto simp: db_run_def db_squash_def db_start_undo_session_def Let_def
        intro: run_squash [OF run_refl])
qed

subsection \<open>Properties\<close>

text \<open>A small index of accounts with a name and a balance, for concrete runs.\<close>

definition sample_container :: "(nat \<times> nat) container" where
  "sample_container = \<lparr>clash = (\<lambda>v w. fst v = fst w), erases = True\<rparr>"

definition sample_index :: "(nat \<times> nat) generic_index" where
  "sample_index = \<lparr>indices = [(0, (1, 10)), (1, (2, 20))], stack = [], revision = 7, next_id = 2\<rparr>"

lemma sample_laws [simp]: "container_laws sample_container"
  by (simp add: container_laws_def sample_container_def)

lemma sample_good [simp]: "good sample_container sample_index"
  by (auto simp: good_def sample_index_def level_def consistent_def sample_container_def split: if_splits)

lemmas sample_eval = sample_container_def sample_index_def start_undo_session_def Let_def modify_def
  emplace_def remove_def on_modify_def on_create_def on_remove_def on_head_def idx_modify_def idx_emplace_def
  collides_def map_emplace_def tdel_def find_obj_def

text \<open>The state after paying 5, creating an account and removing one inside a session.\<close>

definition sample_after :: "(nat \<times> nat) generic_index" where
  "sample_after =
    (let h = fst (modify sample_container 0 (\<lambda>(k, b). (k, b + 5)) (snd (start_undo_session sample_index))) in
     case emplace sample_container (\<lambda>_. (3, 30)) h of
       Inr (_, k) \<Rightarrow> (case remove 1 k of Inr l \<Rightarrow> l | Inl _ \<Rightarrow> k) | Inl _ \<Rightarrow> h)"

lemma sample_run: "session_run sample_container (snd (start_undo_session sample_index)) sample_after"
proof -
  let ?s = "snd (start_undo_session sample_index)"
  let ?m = "\<lambda>(k, b). (k, b + 5) :: nat \<times> nat"
  let ?h = "fst (modify sample_container 0 ?m ?s)"
  have 1: "session_run sample_container ?s ?h"
    by (rule run_modify [OF run_refl, where i = 0 and v = "(1, 10)" and m = ?m])
      (simp_all add: sample_eval same_keys_def)
  obtain k where k: "emplace sample_container (\<lambda>_. (3, 30)) ?h = Inr (2, k)"
    by (simp add: sample_eval)
  have 2: "session_run sample_container ?s k" by (rule run_emplace [OF 1 k])
  obtain l where l: "remove 1 k = Inr l" using k by (auto simp: sample_eval)
  have 3: "session_run sample_container ?s l" by (rule run_remove [OF 2 l])
  have "sample_after = l" using k l by (simp add: sample_after_def Let_def)
  then show ?thesis using 3 by simp
qed

lemma sample_after_rows: "indices sample_after = [(0, (1, 15)), (2, (3, 30))]"
  by (simp add: sample_after_def sample_eval)

text \<open>C5: undoing a session restores the index exactly as it was when the session started (rows, next id,
  older undo states and revision), whatever operations ran in the session, nested sessions included,
  as long as no modification changed a unique key.\<close>

theorem session_undo_restores:
  assumes "container_laws C" "good C g" "session_run C (snd (start_undo_session g)) h"
  shows "undo C h = Inr g"
  using assms by (rule run_undo_restores)

lemma session_undo_restores_witness:
  "indices sample_after = [(0, (1, 15)), (2, (3, 30))] \<and>
   undo sample_container sample_after = Inr sample_index"
  using session_undo_restores [OF sample_laws sample_good sample_run] sample_after_rows by simp

text \<open>Squashing a session keeps the rows and the next id, and undoing the squashed undo state goes back
  to the state before the enclosing session, exactly as undoing without the inner session would.\<close>

theorem session_squash_merges:
  assumes "container_laws C" "good C g" "session_run C (snd (start_undo_session g)) h"
  shows "indices (squash h) = indices h \<and> next_id (squash h) = next_id h \<and>
    (stack g \<noteq> [] \<longrightarrow> undo C (squash h) = undo C g)"
  using assms by (rule run_squash_merges)

lemma session_squash_merges_witness:
  "indices (squash sample_after) = [(0, (1, 15)), (2, (3, 30))] \<and> next_id (squash sample_after) = next_id sample_after"
  using session_squash_merges [OF sample_laws sample_good sample_run] sample_after_rows by simp

text \<open>A modification of an older object that the container refuses (the element may be erased by it) is
  made good by undoing the session it happened in.\<close>

theorem refused_modify_is_undone:
  assumes "container_laws C" "good C g" "session_run C (snd (start_undo_session g)) h"
    and "i < next_id g" "modify C i m h = (k, Inl e)"
  shows "undo C k = Inr g"
  using assms by (rule refused_modify_undo)

lemma refused_modify_is_undone_witness:
  "undo sample_container (fst (modify sample_container 0 (\<lambda>_. (3, 0)) sample_after)) = Inr sample_index"
proof (rule refused_modify_is_undone [OF sample_laws sample_good sample_run])
  show "0 < next_id sample_index" by (simp add: sample_index_def)
  show "modify sample_container 0 (\<lambda>_. (3, 0)) sample_after =
     (fst (modify sample_container 0 (\<lambda>_. (3, 0)) sample_after), Inl (Logic_error ''Could not modify object''))"
    by (simp add: sample_after_def sample_eval)
qed

text \<open>C35: when a session changes the unique key of an old object and a new object takes that key, undoing the
  session throws: old values are written back before the new objects are erased.\<close>

theorem undo_fails_on_key_reuse:
  assumes "container_laws C" "good C g" "find_obj i g = Some v"
    and "modify C i m (snd (start_undo_session g)) = (h, Inr ())"
    and "emplace C c h = Inr (j, k)" "clash C v (c j)"
  shows "undo C k = Inl (Logic_error ''Could not modify object'')"
  using assms by (rule key_reuse_breaks_undo)

lemma undo_fails_on_key_reuse_witness:
  "\<exists>h k. modify sample_container 0 (\<lambda>(_, b). (9, b)) (snd (start_undo_session sample_index)) = (h, Inr ()) \<and>
     emplace sample_container (\<lambda>_. (1, 0)) h = Inr (2, k) \<and>
     undo sample_container k = Inl (Logic_error ''Could not modify object'')"
proof -
  obtain h k where h: "modify sample_container 0 (\<lambda>(_, b). (9, b)) (snd (start_undo_session sample_index)) = (h, Inr ())"
    and k: "emplace sample_container (\<lambda>_. (1, 0)) h = Inr (2, k)"
    by (simp add: sample_eval)
  have "undo sample_container k = Inl (Logic_error ''Could not modify object'')"
    by (rule undo_fails_on_key_reuse [OF sample_laws sample_good _ h k, of "(1, 10)"])
      (simp_all add: sample_eval)
  with h k show ?thesis by blast
qed

text \<open>Committing a revision drops the undo states up to it and no other: afterwards an undo does
  nothing when the head revision is committed, and otherwise commutes with the commit.\<close>

theorem commit_then_undo:
  assumes "container_laws C" "good C g"
  shows "undo C (commit q g) = (if stack g = [] \<or> revision g \<le> q then Inr (commit q g)
           else rbind (undo C g) (\<lambda>h. Inr (commit q h)))"
  using assms by (rule commit_undo)

lemma commit_then_undo_witness:
  "undo sample_container (commit 8 sample_after) = Inr (commit 8 sample_after) \<and>
   undo sample_container (commit 7 sample_after) = Inr (commit 7 sample_index)"
proof -
  have g: "good sample_container sample_after"
    using session_run_good [OF sample_run sample_laws start_good(1) [OF sample_good]] by simp
  have r: "revision sample_after = 8" "stack sample_after \<noteq> []"
    by (simp_all add: sample_after_def sample_eval)
  show ?thesis
    using commit_then_undo [OF sample_laws g, of 8] commit_then_undo [OF sample_laws g, of 7] r
      run_undo_restores [OF sample_laws sample_good sample_run] by simp
qed



end
