(* ===== verification/Undo_Stack.thy ===== *)
theory Undo_Stack
  imports Chainbase
begin

section \<open>The undo stack as saved states\<close>

text \<open>
  The abstract view of \<open>chainbase\<close> that the rest of the chain relies on: a state, and the states it can
  go back to, each with the revision of its undo state, newest first. An index and its sessions implement it.
\<close>

record 's undo_stack =
  now :: 's
  saved :: "(int \<times> 's) list"
  at_revision :: int

definition u_start :: "'s undo_stack \<Rightarrow> 's undo_stack" where
  "u_start u = u\<lparr>saved := (at_revision u + 1, now u) # saved u, at_revision := at_revision u + 1\<rparr>"

definition u_undo :: "'s undo_stack \<Rightarrow> 's undo_stack" where
  "u_undo u =
     (case saved u of [] \<Rightarrow> u
      | (_, s) # ss \<Rightarrow> u\<lparr>now := s, saved := ss, at_revision := at_revision u - 1\<rparr>)"

definition u_squash :: "'s undo_stack \<Rightarrow> 's undo_stack" where
  "u_squash u =
     (case saved u of [] \<Rightarrow> u
      | [_] \<Rightarrow> u\<lparr>saved := []\<rparr>
      | _ # ss \<Rightarrow> u\<lparr>saved := ss, at_revision := at_revision u - 1\<rparr>)"

definition u_commit :: "int \<Rightarrow> 's undo_stack \<Rightarrow> 's undo_stack" where
  "u_commit r u = u\<lparr>saved := takeWhile (\<lambda>(q, _). r < q) (saved u)\<rparr>"

lemma u_undo_start [simp]: "u_undo (u_start u) = u" "u_undo (u_start u\<lparr>now := s\<rparr>) = u"
  by (simp_all add: u_undo_def u_start_def)

text \<open>The abstract value of an index: its rows with the next id, and what the undo states go back to.\<close>

definition undo_view :: "'v generic_index \<Rightarrow> ('v table \<times> nat) undo_stack" where
  "undo_view g = \<lparr>now = (indices g, next_id g),
     saved = zip (map us_revision (stack g)) (snapshots (indices g) (stack g)), at_revision = revision g\<rparr>"

lemma length_snapshots [simp]: "length (snapshots t us) = length us"
  by (induction us arbitrary: t) simp_all

lemma view_start: "good C g \<Longrightarrow> undo_view (snd (start_undo_session g)) = u_start (undo_view g)"
  using start_good(2) [of C g] by (simp add: undo_view_def u_start_def start_undo_session_def Let_def)

lemma view_undo: "container_laws C \<Longrightarrow> good C g \<Longrightarrow> \<exists>h. undo C g = Inr h \<and> undo_view h = u_undo (undo_view g)"
proof (cases "stack g")
  case Nil
  then show ?thesis by (simp add: undo_def undo_view_def u_undo_def)
next
  case (Cons u us)
  assume "container_laws C" "good C g"
  from undo_good [OF this Cons] show ?thesis using Cons by (simp add: undo_view_def u_undo_def)
qed

lemma view_squash: "good C g \<Longrightarrow> undo_view (squash g) = u_squash (undo_view g)"
proof -
  assume g: "good C g"
  show ?thesis
  proof (cases "stack g")
    case (Cons b us)
    show ?thesis
    proof (cases us)
      case Cons': (Cons a vs)
      have lv: "level C (indices g) (next_id g)" and lk: "linked C (indices g) (next_id g) b"
          "linked C (restore (indices g) b) (old_next_id b) a" "us_revision b = revision g" "us_revision a = revision g - 1"
        using g Cons Cons' by (simp_all add: good_def)
      have m: "restore (indices g) (merge_states b a) = restore (restore (indices g) b) a"
        "old_next_id (merge_states b a) = old_next_id a" "us_revision (merge_states b a) = us_revision a"
        using merge_linked [OF lv lk(1,2)] by simp_all
      show ?thesis using Cons Cons' m by (simp add: squash_def undo_view_def u_squash_def)
    qed (use Cons in \<open>simp add: squash_def undo_view_def u_squash_def\<close>)
  qed (simp add: squash_def undo_view_def u_squash_def)
qed

lemma view_commit: "good C g \<Longrightarrow> undo_view (commit r g) = u_commit r (undo_view g)"
proof -
  assume "good C g"
  then have s: "stack (commit r g) = takeWhile (\<lambda>u. r < us_revision u) (stack g)" by (rule commit_stack)
  have "zip (map us_revision (takeWhile (\<lambda>u. r < us_revision u) us)) (snapshots t (takeWhile (\<lambda>u. r < us_revision u) us)) =
      takeWhile (\<lambda>(q, _). r < q) (zip (map us_revision us) (snapshots t us))" for t :: "'a table" and us
    by (induction us arbitrary: t) simp_all
  then show ?thesis by (simp add: undo_view_def u_commit_def s) (simp add: commit_def)
qed

text \<open>The operations of an index leave what can be gone back to alone: they change the present only.\<close>

lemma view_run:
  assumes "session_run C (snd (start_undo_session g)) h" "container_laws C" "good C g"
  shows "undo_view h = (u_start (undo_view g))\<lparr>now := (indices h, next_id h)\<rparr>"
proof -
  have "good C h \<and> same_past (snd (start_undo_session g)) h"
    using session_run_good [OF assms(1,2)] start_good(1) [OF assms(3)] by blast
  then have sp: "same_past (snd (start_undo_session g)) h" and gh: "good C h" by simp_all
  then obtain u where u: "stack h = u # stack g" "revision h = revision g + 1"
    "snapshots (indices h) (stack h) = (indices g, next_id g) # snapshots (indices g) (stack g)"
    by (cases "stack h") (simp_all add: same_past_def start_undo_session_def Let_def)
  moreover have "us_revision u = revision h" using gh u(1) by (simp add: good_def)
  ultimately show ?thesis by (simp add: undo_view_def u_start_def)
qed

text \<open>The abstract stack satisfies the interface of the sessions, for every state.\<close>

definition u_changes :: "'s undo_stack \<Rightarrow> 's undo_stack \<Rightarrow> bool" where
  "u_changes u v \<longleftrightarrow> saved v = saved u \<and> (saved u \<noteq> [] \<longrightarrow> at_revision v = at_revision u)"

interpretation stack_log: undo_log u_start "\<lambda>u. Inr (u_undo u)" u_squash "\<lambda>_. True" u_changes
  by unfold_locales (auto simp: u_changes_def u_start_def u_undo_def u_squash_def split: list.splits)

text \<open>C15: an index with its undo states implements a stack of saved states: starting a session saves the present
  state, undoing goes back to the last saved one, squashing forgets it, committing forgets the ones up to the
  revision, and every run of operations inside a session changes the present state and no saved one.\<close>
theorem undo_log_refines_stack:
  assumes "container_laws C" "good C g"
  shows "undo_view (snd (start_undo_session g)) = u_start (undo_view g) \<and>
    (\<exists>h. undo C g = Inr h \<and> undo_view h = u_undo (undo_view g)) \<and>
    undo_view (squash g) = u_squash (undo_view g) \<and>
    undo_view (commit r g) = u_commit r (undo_view g) \<and>
    (\<forall>h. session_run C (snd (start_undo_session g)) h \<longrightarrow>
       undo_view h = (u_start (undo_view g))\<lparr>now := (indices h, next_id h)\<rparr>)"
  using view_start [OF assms(2)] view_undo [OF assms] view_squash [OF assms(2)] view_commit [OF assms(2)] view_run [OF _ assms]
  by blast

lemma undo_log_refines_stack_witness:
  "undo_view sample_after = (u_start (undo_view sample_index))\<lparr>now := (indices sample_after, next_id sample_after)\<rparr> \<and>
   (\<exists>h. undo sample_container sample_after = Inr h \<and> undo_view h = undo_view sample_index)"
proof -
  have run: "undo_view sample_after = (u_start (undo_view sample_index))\<lparr>now := (indices sample_after, next_id sample_after)\<rparr>"
    using undo_log_refines_stack [OF sample_laws sample_good] sample_run by blast
  have "\<exists>h. undo sample_container sample_after = Inr h" using run_undo_restores [OF sample_laws sample_good sample_run] by blast
  moreover have "undo sample_container sample_after = Inr sample_index"
    by (rule run_undo_restores [OF sample_laws sample_good sample_run])
  ultimately show ?thesis using run by simp
qed

end
