(* ===== verification/Node.thy ===== *)
theory Node
  imports Block_Application Block_Log Fork_Database Undo_Stack
begin

section \<open>Pushing blocks and transactions\<close>

text \<open>
  \<open>push_block\<close>, \<open>push_transaction\<close>, \<open>pop_block\<close> and what they call in chain/database.cpp, and the restorer of
  pending transactions in chain/db_with.hpp. A node is the chain with its undo stack, the fork
  database, the block log, and the transactions that wait for a block. A call gives the new state
  with its result or error, since a call that throws may have changed the state; \<open>None\<close> is a call that never
  returns. What a block that fails had changed in the chain is not computed: every caller undoes it.
\<close>


record ('sig, 'd) node =
  nd_state :: "Block_Application.database undo_stack"
  nd_fork :: "('sig signed_transaction, 'd, (u32, u32 \<times> time_point_sec) header_extension) fork_database"
  nd_log :: "('sig signed_transaction, 'd, (u32, u32 \<times> time_point_sec) header_extension) block_log"
  nd_pending_tx :: "'sig signed_transaction list"
  nd_popped_tx :: "'sig signed_transaction list"
  nd_pending_session :: bool
  nd_checkpoints :: "(u32, block_id) tbl"

record ('sig, 'd) chain_env =
  ce_node :: "('sig, 'd) node_env"
  ce_pack :: "('sig, 'd) chain_block \<Rightarrow> u8 list"
  ce_unpack :: "u8 list \<Rightarrow> (('sig, 'd) chain_block \<times> nat) res"
  ce_trx_size :: "'sig signed_transaction \<Rightarrow> nat"

type_synonym ('n, 'a) outcome = "('n \<times> 'a res) option"

definition ce_log ::
  "('sig, 'd) chain_env \<Rightarrow> ('sig signed_transaction, 'd, (u32, u32 \<times> time_point_sec) header_extension) log_env" where
  "ce_log C = \<lparr>le_hashes = ne_hashes (ce_node C), le_pack = ce_pack C, le_unpack = ce_unpack C\<rparr>"

abbreviation (input) hashes_of where "hashes_of C \<equiv> ne_hashes (ce_node C)"

definition skip_block_log :: u32 where "skip_block_log = 2 ^ 13"

definition head_id :: "('sig, 'd) node \<Rightarrow> block_id" where
  "head_id n = db_head_id (now (nd_state n))"

definition head_num :: "('sig, 'd) node \<Rightarrow> u32" where
  "head_num n = head_block_num (db_chain (now (nd_state n)))"

text \<open>Sequencing of calls: an error ends the sequence, in the state it left.\<close>

definition and_then :: "('n, 'a) outcome \<Rightarrow> ('n \<Rightarrow> 'a \<Rightarrow> ('n, 'b) outcome) \<Rightarrow> ('n, 'b) outcome" where
  "and_then m f = (case m of None \<Rightarrow> None | Some (n, Inl e) \<Rightarrow> Some (n, Inl e) | Some (n, Inr x) \<Rightarrow> f n x)"

definition map_state :: "(Block_Application.database undo_stack \<Rightarrow> Block_Application.database undo_stack) \<Rightarrow> ('sig, 'd) node \<Rightarrow> ('sig, 'd) node" where
  "map_state f n = n\<lparr>nd_state := f (nd_state n)\<rparr>"

subsection \<open>Irreversible blocks\<close>

text \<open>The blocks between the head of the log and the last irreversible block, all of them or an error.\<close>

primrec main_blocks ::
  "('t, 'd, 'x) fork_database \<Rightarrow> u32 list \<Rightarrow> ('t, 'd, 'x) signed_block list res option" where
  "main_blocks f [] = Some (Inr [])"
| "main_blocks f (k # ks) =
     (case fetch_block_on_main_branch_by_number k f of
        None \<Rightarrow> None
      | Some (Inl e) \<Rightarrow> Some (Inl e)
      | Some (Inr None) \<Rightarrow> Some (Inl (Assert ''Current fork in the fork database does not contain the last_irreversible_block''))
      | Some (Inr (Some a)) \<Rightarrow>
          (case main_blocks f ks of None \<Rightarrow> None
           | Some r \<Rightarrow> Some (rbind r (\<lambda>bs. Inr (data (item f a) # bs)))))"

primrec append_blocks ::
  "('t, 'd, 'x) log_env \<Rightarrow> ('t, 'd, 'x) signed_block list \<Rightarrow> ('t, 'd, 'x) block_log \<Rightarrow> ('t, 'd, 'x) block_log \<times> unit res" where
  "append_blocks E [] l = (l, Inr ())"
| "append_blocks E (b # bs) l = (case log_append E b l of Inl e \<Rightarrow> (l, Inl e) | Inr (_, l) \<Rightarrow> append_blocks E bs l)"

definition write_irreversible :: "('sig, 'd) chain_env \<Rightarrow> u32 \<Rightarrow> ('sig, 'd) node \<Rightarrow> (('sig, 'd) node, unit) outcome" where
  "write_irreversible C lib n =
     (let log_head_num = (case log_head (nd_log n) of None \<Rightarrow> 0 | Some b \<Rightarrow> unat (block_num b))
      in case main_blocks (nd_fork n) (map of_nat [Suc log_head_num..<Suc (unat lib)]) of
           None \<Rightarrow> None
         | Some (Inl e) \<Rightarrow> Some (n, Inl e)
         | Some (Inr bs) \<Rightarrow> (case append_blocks (ce_log C) bs (nd_log n) of (l, r) \<Rightarrow> Some (n\<lparr>nd_log := l\<rparr>, r)))"

definition migrate_irreversible_state ::
  "('sig, 'd) chain_env \<Rightarrow> u32 \<Rightarrow> ('sig, 'd) node \<Rightarrow> (('sig, 'd) node, unit) outcome" where
  "migrate_irreversible_state C skip n =
     (let dpo = gpo (db_chain (now (nd_state n))); lib = last_irreversible_block_num dpo
      in if case head (nd_fork n) of Some h \<Rightarrow> num (item (nd_fork n) h) \<noteq> head_block_number dpo | None \<Rightarrow> False
         then Some (n, Inl (Assert ''fork_head->num == dpo.head_block_number''))
         else and_then (if skipped skip skip_block_log then Some (n, Inr ()) else write_irreversible C lib n) (\<lambda>n _.
           Some (map_state (u_commit (uint lib)) (n\<lparr>nd_fork := set_max_size (head_block_number dpo - lib + 1) (nd_fork n)\<rparr>),
                 Inr ())))"

subsection \<open>Applying a block\<close>

text \<open>\<open>apply_block\<close> with its last step and, after it, the audit.\<close>

definition node_apply_block ::
  "('sig, 'd) chain_env \<Rightarrow> u32 \<Rightarrow> ('sig, 'd) chain_block \<Rightarrow> ('sig, 'd) node \<Rightarrow> (('sig, 'd) node, unit) outcome" where
  "node_apply_block C skip b n =
     (case apply_block_steps (ce_node C) skip b (now (nd_state n)) of
        Inl e \<Rightarrow> Some (n, Inl e)
      | Inr d \<Rightarrow>
          and_then (migrate_irreversible_state C skip (map_state (\<lambda>u. u\<lparr>now := d\<rparr>) n)) (\<lambda>n _.
          Some (n, if skipped skip skip_validate_invariants then Inr ()
                   else validate_invariants (env_fc (ne_env (ce_node C))) (db_chain (now (nd_state n))))))"

text \<open>A block in a session of its own, kept when the block applies and undone by the destructor when it throws.\<close>

definition apply_in_session ::
  "('sig, 'd) chain_env \<Rightarrow> u32 \<Rightarrow> ('sig, 'd) chain_block \<Rightarrow> ('sig, 'd) node \<Rightarrow> (('sig, 'd) node, unit) outcome" where
  "apply_in_session C skip b n =
     (case node_apply_block C skip b (map_state u_start n) of
        None \<Rightarrow> None
      | Some (n, Inr _) \<Rightarrow> Some (n, Inr ())
      | Some (n, Inl e) \<Rightarrow> Some (map_state u_undo n, Inl e))"

subsection \<open>Popping blocks\<close>

definition reset_pending_session :: "('sig, 'd) node \<Rightarrow> ('sig, 'd) node" where
  "reset_pending_session n =
     (if nd_pending_session n then (map_state u_undo n)\<lparr>nd_pending_session := False\<rparr> else n)"

definition clear_pending :: "('sig, 'd) node \<Rightarrow> ('sig, 'd) node" where
  "clear_pending n = reset_pending_session (n\<lparr>nd_pending_tx := []\<rparr>)"

definition fetch_block_by_id ::
  "('sig, 'd) chain_env \<Rightarrow> block_id \<Rightarrow> ('sig, 'd) node \<Rightarrow> ('sig, 'd) node \<times> ('sig, 'd) chain_block option res" where
  "fetch_block_by_id C i n =
     (case fetch_block i (nd_fork n) of
        Some a \<Rightarrow> (n, Inr (Some (data (item (nd_fork n) a))))
      | None \<Rightarrow>
          (case read_block_by_num (ce_log C) (num_from_id i) (nd_log n) of
             Inl e \<Rightarrow> (n, Inl e)
           | Inr (b, l) \<Rightarrow>
               (n\<lparr>nd_log := l\<rparr>,
                Inr (case b of Some x \<Rightarrow> if block_id (hashes_of C) x = i then Some x else None | None \<Rightarrow> None))))"

definition pop_block :: "('sig, 'd) chain_env \<Rightarrow> ('sig, 'd) node \<Rightarrow> ('sig, 'd) node \<times> unit res" where
  "pop_block C n =
     (case fetch_block_by_id C (head_id (reset_pending_session n)) (reset_pending_session n) of
        (n, Inl e) \<Rightarrow> (n, Inl e)
      | (n, Inr None) \<Rightarrow> (n, Inl Pop_empty_chain)
      | (n, Inr (Some b)) \<Rightarrow>
          (case fdb_pop_block (nd_fork n) of
             Inl e \<Rightarrow> (n, Inl e)
           | Inr f \<Rightarrow>
               ((map_state u_undo (n\<lparr>nd_fork := f\<rparr>))\<lparr>nd_popped_tx := transactions b @ nd_popped_tx n\<rparr>, Inr ())))"

partial_function (option) pop_until ::
  "('sig, 'd) chain_env \<Rightarrow> block_id \<Rightarrow> ('sig, 'd) node \<Rightarrow> (('sig, 'd) node \<times> unit res) option" where
  "pop_until C i n =
     (if head_id n = i then Some (n, Inr ())
      else case pop_block C n of
             (n, Inl e) \<Rightarrow> Some (n, Inl e)
           | (n, Inr _) \<Rightarrow> pop_until C i n)"

subsection \<open>Switching forks\<close>

text \<open>One block of a branch becomes the head of the fork database and is applied.\<close>

definition apply_item :: "('sig, 'd) chain_env \<Rightarrow> u32 \<Rightarrow> nat \<Rightarrow> ('sig, 'd) node \<Rightarrow> (('sig, 'd) node, unit) outcome" where
  "apply_item C skip a n =
     (let n = n\<lparr>nd_fork := set_head a (nd_fork n)\<rparr>
      in apply_in_session C skip (data (item (nd_fork n) a)) n)"

primrec apply_items ::
  "('sig, 'd) chain_env \<Rightarrow> u32 \<Rightarrow> nat list \<Rightarrow> ('sig, 'd) node \<Rightarrow> (('sig, 'd) node, unit) outcome" where
  "apply_items C skip [] n = Some (n, Inr ())"
| "apply_items C skip (a # as) n = and_then (apply_item C skip a n) (\<lambda>n _. apply_items C skip as n)"

definition remove_items :: "nat list \<Rightarrow> ('sig, 'd) node \<Rightarrow> ('sig, 'd) node" where
  "remove_items as n = n\<lparr>nd_fork := fold (\<lambda>a f. fdb_remove (item_id (item f a)) f) as (nd_fork n)\<rparr>"

text \<open>
  The new branch, oldest block first. At a block that does not apply, it and the rest are removed,
  the blocks applied so far are popped, and the old branch is applied again; then the exception goes on.
\<close>

primrec apply_branch ::
  "('sig, 'd) chain_env \<Rightarrow> u32 \<Rightarrow> block_id \<Rightarrow> nat list \<Rightarrow> nat list \<Rightarrow> ('sig, 'd) node \<Rightarrow> (('sig, 'd) node, unit) outcome" where
  "apply_branch C skip fork_id old [] n = Some (n, Inr ())"
| "apply_branch C skip fork_id old (a # as) n =
     (case apply_item C skip a n of
        None \<Rightarrow> None
      | Some (n, Inr _) \<Rightarrow> apply_branch C skip fork_id old as n
      | Some (n, Inl e) \<Rightarrow>
          and_then (pop_until C fork_id (remove_items (a # as) n)) (\<lambda>n _.
          and_then (apply_items C skip old n) (\<lambda>n _. Some (n, Inl e))))"

definition switch_fork ::
  "('sig, 'd) chain_env \<Rightarrow> u32 \<Rightarrow> nat \<Rightarrow> ('sig, 'd) node \<Rightarrow> (('sig, 'd) node, unit) outcome" where
  "switch_fork C skip h n =
     (case fetch_branch_from (item_id (item (nd_fork n) h)) (head_id n) (nd_fork n) of
        None \<Rightarrow> None
      | Some (Inl e) \<Rightarrow> Some (n, Inl e)
      | Some (Inr (first, second)) \<Rightarrow>
          let fork_id = previous (data (item (nd_fork n) (last second)));
              was_held = held (nd_fork n);
              n = n\<lparr>nd_fork := (nd_fork n)\<lparr>held := h # first @ second @ was_held\<rparr>\<rparr>
          in map_option (\<lambda>(n, r). (n\<lparr>nd_fork := (nd_fork n)\<lparr>held := was_held\<rparr>\<rparr>, r))
               (and_then (pop_until C fork_id n) (\<lambda>n _. apply_branch C skip fork_id (rev second) (rev first) n)))"

subsection \<open>Pushing a block\<close>

definition extend_head ::
  "('sig, 'd) chain_env \<Rightarrow> u32 \<Rightarrow> ('sig, 'd) chain_block \<Rightarrow> ('sig, 'd) node \<Rightarrow> (('sig, 'd) node, bool) outcome" where
  "extend_head C skip b n =
     (case apply_in_session C skip b n of
        None \<Rightarrow> None
      | Some (n, Inr _) \<Rightarrow> Some (n, Inr False)
      | Some (n, Inl e) \<Rightarrow> Some (n\<lparr>nd_fork := fdb_remove (block_id (hashes_of C) b) (nd_fork n)\<rparr>, Inl e))"

definition push_block_in ::
  "('sig, 'd) chain_env \<Rightarrow> u32 \<Rightarrow> ('sig, 'd) chain_block \<Rightarrow> ('sig, 'd) node \<Rightarrow> (('sig, 'd) node, bool) outcome" where
  "push_block_in C skip b n =
     (if skipped skip skip_fork_db then extend_head C skip b n
      else case fdb_push_block (hashes_of C) b (nd_fork n) of
        Inl e \<Rightarrow> Some (n, Inl e)
      | Inr (None, f) \<Rightarrow> Some (n\<lparr>nd_fork := f\<rparr>, Inl (Logic_error ''null head''))
      | Inr (Some h, f) \<Rightarrow>
          let n = n\<lparr>nd_fork := f\<rparr>; new_head = data (item f h)
          in if previous new_head \<noteq> head_id n then
               if block_num new_head > head_num n
               then and_then (switch_fork C skip h n) (\<lambda>n _. Some (n, Inr True))
               else Some (n, Inr False)
             else extend_head C skip b n)"

subsection \<open>Pending transactions\<close>

definition push_transaction_in ::
  "('sig, 'd) chain_env \<Rightarrow> u32 \<Rightarrow> 'sig signed_transaction \<Rightarrow> ('sig, 'd) node \<Rightarrow> ('sig, 'd) node \<times> unit res" where
  "push_transaction_in C skip trx n =
     (let n = (if nd_pending_session n then n else (map_state u_start n)\<lparr>nd_pending_session := True\<rparr>);
          n = map_state u_start n
      in case apply_transaction (ce_node C) skip trx (now (nd_state n)) of
           Inl e \<Rightarrow> (map_state u_undo n, Inl e)
         | Inr d \<Rightarrow>
             (map_state (\<lambda>u. u_squash (u\<lparr>now := d\<rparr>)) (n\<lparr>nd_pending_tx := nd_pending_tx n @ [trx]\<rparr>), Inr ()))"

definition push_transaction ::
  "('sig, 'd) chain_env \<Rightarrow> u32 \<Rightarrow> 'sig signed_transaction \<Rightarrow> ('sig, 'd) node \<Rightarrow> ('sig, 'd) node \<times> unit res" where
  "push_transaction C skip trx n =
     (if ce_trx_size C trx \<le> unat (maximum_block_size (gpo (db_chain (now (nd_state n)))) - 256)
      then push_transaction_in C skip trx n
      else (n, Inl (Assert ''pack_size(trx) <= maximum_block_size - 256'')))"

text \<open>
  The restorer tries the popped transactions and then the ones that were pending, as long as the
  time limit is not reached: \<open>k\<close> is the number it still gets to, which the clock decides. The rest stay in
  the queue untried. Errors are swallowed.
\<close>

primrec restore_transactions ::
  "('sig, 'd) chain_env \<Rightarrow> u32 \<Rightarrow> nat \<Rightarrow> 'sig signed_transaction list \<Rightarrow> ('sig, 'd) node \<Rightarrow> ('sig, 'd) node" where
  "restore_transactions C skip k [] n = n"
| "restore_transactions C skip k (trx # trxs) n =
     restore_transactions C skip (k - 1) trxs
       (if k = 0 then n\<lparr>nd_pending_tx := nd_pending_tx n @ [trx]\<rparr>
        else if is_known_transaction (ne_trx_id (ce_node C) trx) (now (nd_state n)) then n
        else fst (push_transaction_in C skip trx n))"

definition restore_pending ::
  "('sig, 'd) chain_env \<Rightarrow> u32 \<Rightarrow> nat \<Rightarrow> 'sig signed_transaction list \<Rightarrow> ('sig, 'd) node \<Rightarrow> ('sig, 'd) node" where
  "restore_pending C skip k pending n =
     (let popped = nd_popped_tx n;
          n = (restore_transactions C skip k popped n)\<lparr>nd_popped_tx := []\<rparr>
      in restore_transactions C skip (k - length popped) pending n)"

subsection \<open>The public call\<close>

definition checkpoint_skip :: u32 where
  "checkpoint_skip = skip_siming_signature OR skip_transaction_signatures OR skip_transaction_dupe_check OR
     skip_block_size_check OR skip_tapos_check OR skip_authority_check OR skip_undo_history_check OR
     skip_siming_schedule_check OR skip_validate OR skip_validate_invariants"

definition checkpoint_flags ::
  "('sig, 'd) chain_env \<Rightarrow> ('sig, 'd) chain_block \<Rightarrow> u32 \<Rightarrow> ('sig, 'd) node \<Rightarrow> u32 res" where
  "checkpoint_flags C b skip n =
     (let cps = nd_checkpoints n
      in if cps \<noteq> [] \<and> snd (last cps) \<noteq> null_block_id then
           rguard (case map_of cps (block_num b) of Some i \<Rightarrow> block_id (hashes_of C) b = i | None \<Rightarrow> True)
             (Assert ''Block did not match checkpoint'')
             (Inr (if fst (last cps) \<ge> block_num b then checkpoint_skip else skip))
         else Inr skip)"

definition push_block ::
  "('sig, 'd) chain_env \<Rightarrow> nat \<Rightarrow> u32 \<Rightarrow> ('sig, 'd) chain_block \<Rightarrow> ('sig, 'd) node \<Rightarrow> (('sig, 'd) node, bool) outcome" where
  "push_block C k skip b n =
     (case checkpoint_flags C b skip n of
        Inl e \<Rightarrow> Some (n, Inl e)
      | Inr skip \<Rightarrow>
          map_option (\<lambda>(m, r). (restore_pending C skip k (nd_pending_tx n) m, r)) (push_block_in C skip b (clear_pending n)))"

end
