(* ===== verification/Node_History.thy ===== *)
theory Node_History
  imports Node "HOL-Library.Sublist"
begin

section \<open>The history of a node\<close>

text \<open>
  What holds of the undo stack whatever is pushed to a node, in whatever order and with whatever
  errors: each saved state becomes the next one by a block, the pending transactions are on top, and
  what is committed is never taken back.
\<close>

subsection \<open>Stacks of applied blocks\<close>

definition applied ::
  "('sig, 'd) chain_env \<Rightarrow> Block_Application.database \<Rightarrow> Block_Application.database \<Rightarrow> bool" where
  "applied C s d \<longleftrightarrow> (\<exists>skip b. apply_block_steps (ce_node C) skip b s = Inr d)"

definition states :: "'s undo_stack \<Rightarrow> 's list" where
  "states u = now u # map snd (saved u)"

definition history_ok :: "('sig, 'd) chain_env \<Rightarrow> Block_Application.database undo_stack \<Rightarrow> bool" where
  "history_ok C u \<longleftrightarrow> successively (\<lambda>d s. applied C s d) (states u)"

text \<open>The oldest state that can be gone back to: everything up to it is committed.\<close>

definition committed :: "'s undo_stack \<Rightarrow> 's" where
  "committed u = last (states u)"

text \<open>A step of the stack that keeps a sound history and only moves the committed state forward.\<close>

definition sound_step ::
  "('sig, 'd) chain_env \<Rightarrow> Block_Application.database undo_stack \<Rightarrow> Block_Application.database undo_stack \<Rightarrow> bool" where
  "sound_step C u v \<longleftrightarrow> (history_ok C u \<longrightarrow> history_ok C v \<and> (applied C)\<^sup>*\<^sup>* (committed u) (committed v))"

lemma states_simps [simp]: "states u \<noteq> []" "states (u\<lparr>at_revision := r\<rparr>) = states u"
  by (simp_all add: states_def)

lemma sound_refl [simp, intro]: "sound_step C u u"
  by (simp add: sound_step_def)

lemma sound_trans [trans]: "sound_step C u v \<Longrightarrow> sound_step C v w \<Longrightarrow> sound_step C u w"
  by (auto simp: sound_step_def)

lemma successively_last:
  "successively (\<lambda>d s. r s d) (xs @ y # ys) \<Longrightarrow> r\<^sup>*\<^sup>* (last (y # ys)) y"
proof (induction ys arbitrary: xs y)
  case (Cons z zs)
  then have "successively (\<lambda>d s. r s d) ((xs @ [y]) @ z # zs)" by simp
  then have "r\<^sup>*\<^sup>* (last (z # zs)) z" by (rule Cons.IH)
  moreover have "r z y" using Cons.prems by (simp add: successively_append_iff)
  ultimately show ?case by simp
qed simp

text \<open>Dropping saved states from the old end.\<close>

lemma sound_prefix:
  assumes p: "states u = states v @ xs"
  shows "sound_step C u v"
  unfolding sound_step_def
proof
  assume h: "history_ok C u"
  have v: "states v = butlast (states v) @ [committed v]" by (simp add: committed_def)
  have "history_ok C v" using h p by (simp add: history_ok_def successively_append_iff)
  moreover have "(applied C)\<^sup>*\<^sup>* (committed u) (committed v)"
  proof -
    have "states u = butlast (states v) @ committed v # xs" using p v by (metis append.assoc append_Cons append_Nil)
    then show ?thesis using h successively_last [of "applied C" "butlast (states v)" "committed v" xs]
      by (simp add: history_ok_def committed_def)
  qed
  ultimately show "history_ok C v \<and> (applied C)\<^sup>*\<^sup>* (committed u) (committed v)" by blast
qed

text \<open>Going back to a saved state, and saving the present one for a block.\<close>

lemma sound_undo: "sound_step C u (u_undo u)"
proof (cases "saved u")
  case (Cons p ss)
  then have "states u = now u # states (u_undo u)" by (cases p) (simp add: states_def u_undo_def)
  then show ?thesis by (auto simp: sound_step_def history_ok_def committed_def successively_Cons)
qed (simp add: u_undo_def)

lemma sound_apply:
  assumes "apply_block_steps (ce_node C) skip b (now u) = Inr d"
  shows "sound_step C u (u_start u\<lparr>now := d\<rparr>)"
proof -
  have "states (u_start u\<lparr>now := d\<rparr>) = d # states u" by (simp add: states_def u_start_def)
  then show ?thesis using assms
    by (auto simp: sound_step_def history_ok_def committed_def successively_Cons applied_def states_def)
qed

lemma states_commit: "\<exists>xs. states u = states (u_commit r u) @ xs \<and> now (u_commit r u) = now u"
proof -
  have "saved u = takeWhile (\<lambda>(q, _). r < q) (saved u) @ dropWhile (\<lambda>(q, _). r < q) (saved u)" by simp
  then have "map snd (saved u) = map snd (takeWhile (\<lambda>(q, _). r < q) (saved u)) @ map snd (dropWhile (\<lambda>(q, _). r < q) (saved u))"
    by (metis map_append)
  then show ?thesis by (simp add: states_def u_commit_def)
qed

lemma start_simps [simp]:
  "now (u_start u) = now u" "states (u_start u\<lparr>now := d\<rparr>) = d # states u"
  by (simp_all add: u_start_def states_def)

subsection \<open>What the steps of a node do to the stack\<close>

definition same_queue :: "('sig, 'd) node \<Rightarrow> ('sig, 'd) node \<Rightarrow> bool" where
  "same_queue n m \<longleftrightarrow> nd_pending_tx m = nd_pending_tx n \<and> nd_pending_session m = nd_pending_session n"

lemma same_queue_refl [simp]: "same_queue n n"
  by (simp add: same_queue_def)

lemma same_queue_trans: "same_queue n m \<Longrightarrow> same_queue m k \<Longrightarrow> same_queue n k"
  by (simp add: same_queue_def)

lemma map_state_simps [simp]:
  "nd_state (map_state f n) = f (nd_state n)" "nd_fork (map_state f n) = nd_fork n" "nd_log (map_state f n) = nd_log n"
  "nd_pending_tx (map_state f n) = nd_pending_tx n" "nd_popped_tx (map_state f n) = nd_popped_tx n"
  "nd_pending_session (map_state f n) = nd_pending_session n" "nd_checkpoints (map_state f n) = nd_checkpoints n"
  by (simp_all add: map_state_def)

lemma and_then_Some:
  "and_then m f = Some (n, r) \<longleftrightarrow>
     (\<exists>k e. m = Some (k, Inl e) \<and> n = k \<and> r = Inl e) \<or> (\<exists>k x. m = Some (k, Inr x) \<and> f k x = Some (n, r))"
  by (auto simp: and_then_def split: option.splits sum.splits)

lemma write_irreversible_state:
  "write_irreversible C lib n = Some (m, r) \<Longrightarrow> nd_state m = nd_state n \<and> same_queue n m"
  by (auto simp: write_irreversible_def Let_def same_queue_def split: option.splits sum.splits prod.splits)

lemma migrate_state:
  assumes "migrate_irreversible_state C skip n = Some (m, r)"
  shows "\<exists>xs. states (nd_state n) = states (nd_state m) @ xs \<and> now (nd_state m) = now (nd_state n) \<and> same_queue n m"
proof -
  let ?lib = "uint (last_irreversible_block_num (gpo (db_chain (now (nd_state n)))))"
  have "nd_state m = nd_state n \<or> nd_state m = u_commit ?lib (nd_state n)" "same_queue n m"
    using assms
    by (auto simp: migrate_irreversible_state_def Let_def and_then_Some same_queue_def dest!: write_irreversible_state
        split: if_splits option.splits)
  then show ?thesis using states_commit [of "nd_state n" ?lib] by auto
qed

text \<open>A block in its session. The last case is a block that was committed and then failed its audit.\<close>

lemma apply_in_session_ok:
  assumes "apply_in_session C skip b n = Some (m, Inr ())"
  shows "\<exists>d xs. apply_block_steps (ce_node C) skip b (now (nd_state n)) = Inr d \<and> now (nd_state m) = d \<and>
    d # states (nd_state n) = states (nd_state m) @ xs \<and> same_queue n m"
proof -
  have "node_apply_block C skip b (map_state u_start n) = Some (m, Inr ())"
    using assms by (auto simp: apply_in_session_def split: option.splits sum.splits prod.splits)
  then obtain d where d: "apply_block_steps (ce_node C) skip b (now (nd_state n)) = Inr d"
    and g: "migrate_irreversible_state C skip (map_state (\<lambda>u. u\<lparr>now := d\<rparr>) (map_state u_start n)) = Some (m, Inr ())"
    by (auto simp: node_apply_block_def and_then_Some u_start_def split: sum.splits if_splits)
  obtain xs where "states (u_start (nd_state n)\<lparr>now := d\<rparr>) = states (nd_state m) @ xs"
    "now (nd_state m) = d" "same_queue n m"
    using migrate_state [OF g] by (auto simp: same_queue_def)
  then show ?thesis using d by auto
qed

lemma apply_in_session_fails:
  assumes "apply_in_session C skip b n = Some (m, Inl e)"
  shows "same_queue n m \<and> ((\<exists>xs. states (nd_state n) = states (nd_state m) @ xs) \<or>
    (\<exists>d. apply_block_steps (ce_node C) skip b (now (nd_state n)) = Inr d \<and> states (nd_state m) = [d]))"
proof -
  obtain k where k: "node_apply_block C skip b (map_state u_start n) = Some (k, Inl e)" "m = map_state u_undo k"
    using assms by (auto simp: apply_in_session_def split: option.splits sum.splits)
  show ?thesis
  proof (cases "apply_block_steps (ce_node C) skip b (now (nd_state n))")
    case (Inl e')
    then have "k = map_state u_start n" using k(1) by (simp add: node_apply_block_def u_start_def)
    then show ?thesis using k(2) by (auto simp: same_queue_def)
  next
    case (Inr d)
    then obtain r where "migrate_irreversible_state C skip (map_state (\<lambda>u. u\<lparr>now := d\<rparr>) (map_state u_start n)) = Some (k, r)"
      using k(1) by (auto simp: node_apply_block_def and_then_Some u_start_def)
    from migrate_state [OF this] obtain xs where xs: "d # states (nd_state n) = states (nd_state k) @ xs"
      "now (nd_state k) = d" "same_queue n k" by (auto simp: same_queue_def)
    show ?thesis
    proof (cases "saved (nd_state k)")
      case Nil
      then have "states (nd_state m) = [d]" using k(2) xs(2) by (simp add: u_undo_def states_def)
      then show ?thesis using Inr xs(3) k(2) by (simp add: same_queue_def)
    next
      case (Cons p ss)
      then have "states (nd_state k) = d # states (nd_state m)" using k(2) xs(2) by (cases p) (simp add: states_def u_undo_def)
      then show ?thesis using xs k(2) by (auto simp: same_queue_def)
    qed
  qed
qed

definition sound_node :: "('sig, 'd) chain_env \<Rightarrow> ('sig, 'd) node \<Rightarrow> ('sig, 'd) node \<Rightarrow> bool" where
  "sound_node C n m \<longleftrightarrow> sound_step C (nd_state n) (nd_state m) \<and> same_queue n m"

lemma sound_node_refl [simp, intro]: "sound_node C n n"
  by (simp add: sound_node_def)

lemma sound_node_trans [trans]: "sound_node C n m \<Longrightarrow> sound_node C m k \<Longrightarrow> sound_node C n k"
  using sound_trans same_queue_trans unfolding sound_node_def by blast

lemma sound_node_frame [simp]: "nd_state m = nd_state n \<Longrightarrow> same_queue n m \<Longrightarrow> sound_node C n m"
  by (simp add: sound_node_def)

lemma sound_apply_in_session: "apply_in_session C skip b n = Some (m, r) \<Longrightarrow> sound_node C n m"
proof (cases r)
  case (Inr x)
  assume "apply_in_session C skip b n = Some (m, r)"
  then obtain d xs where d: "apply_block_steps (ce_node C) skip b (now (nd_state n)) = Inr d"
    "d # states (nd_state n) = states (nd_state m) @ xs" "same_queue n m"
    using apply_in_session_ok [of C skip b n m] Inr by auto
  let ?u = "u_start (nd_state n)\<lparr>now := d\<rparr>"
  have "states ?u = states (nd_state m) @ xs" using d(2) by (simp add: states_def u_start_def)
  then show ?thesis using sound_trans [OF sound_apply [OF d(1)] sound_prefix] d(3) by (simp add: sound_node_def)
next
  case (Inl e)
  assume "apply_in_session C skip b n = Some (m, r)"
  then have q: "same_queue n m" and c: "(\<exists>xs. states (nd_state n) = states (nd_state m) @ xs) \<or>
    (\<exists>d. apply_block_steps (ce_node C) skip b (now (nd_state n)) = Inr d \<and> states (nd_state m) = [d])"
    using apply_in_session_fails [of C skip b n m e] Inl by auto
  from c have "sound_step C (nd_state n) (nd_state m)"
  proof (elim disjE exE conjE)
    fix d assume d: "apply_block_steps (ce_node C) skip b (now (nd_state n)) = Inr d" "states (nd_state m) = [d]"
    let ?u = "u_start (nd_state n)\<lparr>now := d\<rparr>"
    have "states ?u = states (nd_state m) @ states (nd_state n)" using d(2) by (simp add: states_def u_start_def)
    then show ?thesis using sound_trans [OF sound_apply [OF d(1)] sound_prefix] by blast
  qed (rule sound_prefix)
  then show ?thesis using q by (simp add: sound_node_def)
qed


lemma sound_reset: "\<not> nd_pending_session n \<Longrightarrow> reset_pending_session n = n"
  by (simp add: reset_pending_session_def)

lemma fetch_frame: "fetch_block_by_id C i n = (m, r) \<Longrightarrow> nd_state m = nd_state n \<and> same_queue n m"
  by (auto simp: fetch_block_by_id_def same_queue_def split: option.splits sum.splits)

lemma sound_pop:
  assumes "pop_block C n = (m, r)" "\<not> nd_pending_session n"
  shows "sound_node C n m"
proof -
  obtain k f where k: "fetch_block_by_id C (head_id n) n = (k, f)" by fastforce
  have "nd_state k = nd_state n" "same_queue n k" using fetch_frame [OF k] by simp_all
  then show ?thesis using assms k sound_undo [of C "nd_state n"]
    by (auto simp: pop_block_def sound_reset sound_node_def same_queue_def split: sum.splits option.splits)
qed

lemma pop_until_run:
  assumes "pop_until C i n = Some mr"
  shows "\<not> nd_pending_session n \<longrightarrow> sound_node C n (fst mr) \<and> (snd mr = Inr () \<longrightarrow> head_id (fst mr) = i)"
proof (rule pop_until.raw_induct [where P = "\<lambda>C i n mr. \<not> nd_pending_session n \<longrightarrow>
    sound_node C n (fst mr) \<and> (snd mr = Inr () \<longrightarrow> head_id (fst mr) = i)", OF _ assms], rule impI)
  fix f and C :: "('a, 'b) chain_env" and i n mr
  assume IH: "\<And>C i n mr. f C i n = Some mr \<Longrightarrow> \<not> nd_pending_session n \<longrightarrow>
      sound_node C n (fst mr) \<and> (snd mr = Inr () \<longrightarrow> head_id (fst mr) = i)"
    and run: "(if head_id n = i then Some (n, Inr ()) else case pop_block C n of
        (n, Inl e) \<Rightarrow> Some (n, Inl e) | (n, Inr _) \<Rightarrow> f C i n) = Some mr"
    and p: "\<not> nd_pending_session n"
  obtain k s where k: "pop_block C n = (k, s)" by fastforce
  note sk = sound_pop [OF k p]
  then have pk: "\<not> nd_pending_session k" using p by (simp add: sound_node_def same_queue_def)
  show "sound_node C n (fst mr) \<and> (snd mr = Inr () \<longrightarrow> head_id (fst mr) = i)"
  proof (cases "head_id n = i")
    case False
    then show ?thesis using run k sk IH [of C i k mr] pk sound_node_trans [OF sk] by (cases s) auto
  qed (use run in auto)
qed

lemma sound_pop_until:
  "pop_until C i n = Some (m, r) \<Longrightarrow> \<not> nd_pending_session n \<Longrightarrow> sound_node C n m \<and> (r = Inr () \<longrightarrow> head_id m = i)"
  using pop_until_run [of C i n "(m, r)"] by simp

lemma sound_apply_item: "apply_item C skip a n = Some (m, r) \<Longrightarrow> sound_node C n m"
  by (auto simp: apply_item_def Let_def sound_node_def same_queue_def dest!: sound_apply_in_session)

lemma sound_apply_items: "apply_items C skip as n = Some (m, r) \<Longrightarrow> sound_node C n m"
proof (induction as arbitrary: n)
  case (Cons a as)
  then obtain k s where k: "apply_item C skip a n = Some (k, s)" "k = m \<or> apply_items C skip as k = Some (m, r)"
    by (auto simp: and_then_Some)
  have "k = m \<or> sound_node C k m" using Cons.IH k(2) by blast
  then show ?case using sound_node_trans [OF sound_apply_item [OF k(1)]] sound_apply_item [OF k(1)] by blast
qed simp

lemma remove_items_frame: "nd_state (remove_items as n) = nd_state n" "same_queue n (remove_items as n)"
  by (simp_all add: remove_items_def same_queue_def)

lemma sound_apply_branch:
  "apply_branch C skip i old as n = Some (m, r) \<Longrightarrow> \<not> nd_pending_session n \<Longrightarrow> sound_node C n m"
proof (induction as arbitrary: n)
  case (Cons a as)
  obtain k s where k: "apply_item C skip a n = Some (k, s)"
    using Cons.prems(1) by (cases "apply_item C skip a n") auto
  note sk = sound_apply_item [OF k]
  then have p: "\<not> nd_pending_session k" using Cons.prems(2) by (simp add: sound_node_def same_queue_def)
  show ?case
  proof (cases s)
    case (Inr x)
    then show ?thesis using Cons.IH [OF _ p] Cons.prems(1) k sound_node_trans [OF sk] by simp
  next
    case (Inl e)
    let ?k = "remove_items (a # as) k"
    have sk': "sound_node C n ?k" "\<not> nd_pending_session ?k"
      using sound_node_trans [OF sk, of ?k] remove_items_frame [where as = "a # as" and n = k] p by (auto simp: same_queue_def)
    have "and_then (pop_until C i ?k) (\<lambda>n _. and_then (apply_items C skip old n) (\<lambda>n _. Some (n, Inl e))) = Some (m, r)"
      using Cons.prems(1) k Inl by simp
    then obtain l t where l: "pop_until C i ?k = Some (l, t)" "l = m \<or> (\<exists>u. apply_items C skip old l = Some (m, u))"
      by (auto simp: and_then_Some)
    have "sound_node C n l" using sound_node_trans [OF sk'(1)] sound_pop_until [OF l(1) sk'(2)] by blast
    then show ?thesis using l(2) sound_apply_items sound_node_trans by blast
  qed
qed simp

lemma sound_switch_fork:
  assumes "switch_fork C skip h n = Some (m, r)" "\<not> nd_pending_session n"
  shows "sound_node C n m"
proof (cases "fetch_branch_from (item_id (item (nd_fork n) h)) (head_id n) (nd_fork n)")
  case (Some s)
  show ?thesis
  proof (cases s)
    case (Inr p)
    obtain xs ys where xy: "p = (xs, ys)" by (cases p)
    let ?i = "previous (data (item (nd_fork n) (last ys)))"
    let ?n = "n\<lparr>nd_fork := (nd_fork n)\<lparr>held := h # xs @ ys @ held (nd_fork n)\<rparr>\<rparr>"
    obtain k where k: "and_then (pop_until C ?i ?n) (\<lambda>n _. apply_branch C skip ?i (rev ys) (rev xs) n) = Some (k, r)"
      "m = k\<lparr>nd_fork := (nd_fork k)\<lparr>held := held (nd_fork n)\<rparr>\<rparr>"
      using assms(1) Some Inr xy by (auto simp: switch_fork_def Let_def)
    then obtain l t where l: "pop_until C ?i ?n = Some (l, t)" "l = k \<or> (\<exists>u. apply_branch C skip ?i (rev ys) (rev xs) l = Some (k, u))"
      by (auto simp: and_then_Some)
    have n: "sound_node C n ?n" "\<not> nd_pending_session ?n" using assms(2) by (simp_all add: same_queue_def)
    have sl: "sound_node C n l" using sound_node_trans [OF n(1)] sound_pop_until [OF l(1) n(2)] by blast
    then have "\<not> nd_pending_session l" using assms(2) by (simp add: sound_node_def same_queue_def)
    then have "sound_node C n k" using l(2) sl sound_apply_branch sound_node_trans by blast
    then show ?thesis using k(2) by (simp add: sound_node_def same_queue_def)
  qed (use assms Some in \<open>auto simp: switch_fork_def\<close>)
qed (use assms in \<open>simp add: switch_fork_def\<close>)

lemma sound_extend: "extend_head C skip b n = Some (m, r) \<Longrightarrow> sound_node C n m"
  by (auto simp: extend_head_def sound_node_def same_queue_def dest!: sound_apply_in_session split: option.splits sum.splits)

lemma sound_push_block_in:
  assumes "push_block_in C skip b n = Some (m, r)" "\<not> nd_pending_session n"
  shows "sound_node C n m"
proof (cases "skipped skip skip_fork_db")
  case True
  then show ?thesis using assms sound_extend by (simp add: push_block_in_def)
next
  case False
  show ?thesis
  proof (cases "fdb_push_block (hashes_of C) b (nd_fork n)")
    case (Inr p)
    obtain h f where p: "p = (h, f)" by (cases p)
    let ?n = "n\<lparr>nd_fork := f\<rparr>"
    have n: "sound_node C n ?n" "\<not> nd_pending_session ?n" using assms(2) by (simp_all add: same_queue_def)
    have "sound_node C ?n m"
      using assms(1) False Inr p n(2) sound_extend [of C skip b ?n m r] sound_switch_fork [of C skip _ ?n m]
      by (auto simp: push_block_in_def Let_def and_then_Some split: option.splits if_splits)
    then show ?thesis using sound_node_trans [OF n(1)] by blast
  qed (use assms False in \<open>simp add: push_block_in_def\<close>)
qed


subsection \<open>Pending transactions\<close>

inductive tx_run ::
  "('sig, 'd) chain_env \<Rightarrow> Block_Application.database \<Rightarrow> 'sig signed_transaction list \<Rightarrow> Block_Application.database \<Rightarrow> bool"
  for C where
  tx_none: "tx_run C s [] s"
| tx_more: "tx_run C s ts d \<Longrightarrow> apply_transaction (ce_node C) skip t d = Inr d' \<Longrightarrow> tx_run C s (ts @ [t]) d'"

text \<open>The stack of the head block: without the session of the pending transactions.\<close>

definition block_stack :: "('sig, 'd) node \<Rightarrow> Block_Application.database undo_stack" where
  "block_stack n = (if nd_pending_session n then u_undo (nd_state n) else nd_state n)"

definition pending_ok :: "('sig, 'd) chain_env \<Rightarrow> ('sig, 'd) node \<Rightarrow> bool" where
  "pending_ok C n \<longleftrightarrow> (nd_pending_session n \<longrightarrow> saved (nd_state n) \<noteq> [] \<and>
     (\<exists>ts. subseq ts (nd_pending_tx n) \<and> tx_run C (now (block_stack n)) ts (now (nd_state n))))"

lemma block_stack_clear [simp]: "nd_state (clear_pending n) = block_stack n" "\<not> nd_pending_session (clear_pending n)"
  by (simp_all add: clear_pending_def reset_pending_session_def block_stack_def)

lemma undo_squash:
  assumes "saved u \<noteq> []"
  shows "u_squash (u_start u\<lparr>now := d\<rparr>) = u\<lparr>now := d\<rparr>"
  using assms by (cases "saved u") (simp_all add: u_squash_def u_start_def)

lemma undo_now: "saved u \<noteq> [] \<Longrightarrow> u_undo (u\<lparr>now := d\<rparr>) = u_undo u"
  by (cases "saved u") (auto simp: u_undo_def split: prod.splits)

lemma push_transaction_stack:
  assumes ok: "pending_ok C n" and m: "push_transaction_in C skip t n = (m, r)"
  shows "block_stack m = block_stack n \<and> pending_ok C m"
proof -
  define l where "l = (if nd_pending_session n then n else (map_state u_start n)\<lparr>nd_pending_session := True\<rparr>)"
  have b: "block_stack l = block_stack n" by (simp add: block_stack_def l_def)
  have s: "nd_pending_session l" "saved (nd_state l) \<noteq> []" "nd_pending_tx l = nd_pending_tx n"
    using ok by (auto simp: pending_ok_def u_start_def l_def)
  have "pending_ok C l"
  proof (cases "nd_pending_session n")
    case False
    then have "now (block_stack l) = now (nd_state l)" by (simp add: block_stack_def l_def)
    then show ?thesis using s(2) by (auto simp: pending_ok_def intro!: exI [of _ "[]"] tx_none)
  qed (use ok in \<open>simp add: l_def\<close>)
  then obtain ts where ts: "subseq ts (nd_pending_tx n)" "tx_run C (now (block_stack l)) ts (now (nd_state l))"
    using s by (auto simp: pending_ok_def)
  show ?thesis
  proof (cases "apply_transaction (ce_node C) skip t (now (nd_state l))")
    case (Inl e)
    then have "m = l" using m by (simp add: push_transaction_in_def Let_def flip: l_def) (simp add: map_state_def)
    then show ?thesis using b \<open>pending_ok C l\<close> by simp
  next
    case (Inr d)
    then have m': "m = l\<lparr>nd_state := (nd_state l)\<lparr>now := d\<rparr>, nd_pending_tx := nd_pending_tx n @ [t]\<rparr>"
      using m undo_squash [OF s(2)] s(3) by (simp add: push_transaction_in_def Let_def flip: l_def) (auto simp: map_state_def)
    have bm: "block_stack m = block_stack l" using m' s undo_now by (simp add: block_stack_def)
    have "subseq (ts @ [t]) (nd_pending_tx n @ [t])" using ts(1) by (simp add: list_emb_append_mono)
    then have "pending_ok C m" using s(1,2) tx_more [OF ts(2) Inr] unfolding pending_ok_def bm
      by (auto simp: m' intro!: exI [of _ "ts @ [t]"])
    then show ?thesis using b bm by simp
  qed
qed

lemma restore_transactions_stack:
  "pending_ok C n \<Longrightarrow> block_stack (restore_transactions C skip k ts n) = block_stack n \<and>
     pending_ok C (restore_transactions C skip k ts n)"
proof (induction ts arbitrary: n k)
  case (Cons t ts)
  let ?m = "if k = 0 then n\<lparr>nd_pending_tx := nd_pending_tx n @ [t]\<rparr>
        else if is_known_transaction (ne_trx_id (ce_node C) t) (now (nd_state n)) then n
        else fst (push_transaction_in C skip t n)"
  have "block_stack (n\<lparr>nd_pending_tx := nd_pending_tx n @ [t]\<rparr>) = block_stack n" by (simp add: block_stack_def)
  moreover from this have "pending_ok C (n\<lparr>nd_pending_tx := nd_pending_tx n @ [t]\<rparr>)"
    using Cons.prems unfolding pending_ok_def by (auto intro: subseq_order.trans)
  ultimately have "block_stack ?m = block_stack n \<and> pending_ok C ?m"
    using Cons.prems push_transaction_stack [OF Cons.prems, of skip t] by (cases "push_transaction_in C skip t n") auto
  then show ?case using Cons.IH [of ?m "k - 1"] by simp
qed simp

lemma restore_pending_stack:
  assumes "\<not> nd_pending_session n"
  shows "block_stack (restore_pending C skip k ts n) = nd_state n \<and> pending_ok C (restore_pending C skip k ts n)"
proof -
  have "pending_ok C n" using assms by (simp add: pending_ok_def)
  note r = restore_transactions_stack [OF this, of skip k "nd_popped_tx n"]
  let ?q = "restore_transactions C skip k (nd_popped_tx n) n" and ?m = "(restore_transactions C skip k (nd_popped_tx n) n)\<lparr>nd_popped_tx := []\<rparr>"
  have bm: "block_stack ?m = block_stack ?q" by (simp add: block_stack_def)
  have "block_stack ?q = block_stack n" "pending_ok C ?q" using r by simp_all
  then have "pending_ok C ?m" unfolding pending_ok_def bm by simp
  moreover have "block_stack ?m = block_stack n" using bm r by simp
  ultimately show ?thesis
    using restore_transactions_stack [of C ?m] assms by (simp add: restore_pending_def Let_def block_stack_def)
qed

subsection \<open>Reachable nodes\<close>

inductive node_step :: "('sig, 'd) chain_env \<Rightarrow> ('sig, 'd) node \<Rightarrow> ('sig, 'd) node \<Rightarrow> bool" for C where
  step_push: "push_block C k skip b n = Some (m, r) \<Longrightarrow> node_step C n m"
| step_transaction: "push_transaction C skip t n = (m, r) \<Longrightarrow> node_step C n m"
| step_pop: "pop_block C n = (m, r) \<Longrightarrow> node_step C n m"
| step_clear: "node_step C n (clear_pending n)"

definition node_ok :: "('sig, 'd) chain_env \<Rightarrow> ('sig, 'd) node \<Rightarrow> bool" where
  "node_ok C n \<longleftrightarrow> history_ok C (block_stack n) \<and> pending_ok C n"

lemma push_block_stack:
  assumes "push_block C k skip b n = Some (m, r)" "pending_ok C n"
  shows "sound_step C (block_stack n) (block_stack m) \<and> pending_ok C m"
proof (cases "checkpoint_flags C b skip n")
  case (Inr flags)
  obtain l where l: "push_block_in C flags b (clear_pending n) = Some (l, r)" "m = restore_pending C flags k (nd_pending_tx n) l"
    using assms(1) Inr by (auto simp: push_block_def)
  note s = sound_push_block_in [OF l(1) block_stack_clear(2)]
  then have "\<not> nd_pending_session l" by (simp add: sound_node_def same_queue_def)
  from restore_pending_stack [OF this] show ?thesis using s l(2) by (simp add: sound_node_def)
qed (use assms in \<open>simp add: push_block_def\<close>)

lemma node_step_stack: "node_step C n m \<Longrightarrow> pending_ok C n \<Longrightarrow> sound_step C (block_stack n) (block_stack m) \<and> pending_ok C m"
proof (induction rule: node_step.induct)
  case (step_transaction skip t n m r)
  then show ?case using push_transaction_stack [of C n skip t m r] by (auto simp: push_transaction_def split: if_splits)
next
  case (step_pop n m r)
  let ?n = "reset_pending_session n"
  have n: "nd_state ?n = block_stack n" "\<not> nd_pending_session ?n" by (simp_all add: reset_pending_session_def block_stack_def)
  have "pop_block C ?n = (m, r)" using step_pop(1) n(2) by (simp add: pop_block_def sound_reset)
  note s = sound_pop [OF this n(2)]
  then have "\<not> nd_pending_session m" using n(2) by (simp add: sound_node_def same_queue_def)
  then show ?case using s n(1) by (simp add: sound_node_def block_stack_def pending_ok_def)
next
  case (step_clear n)
  have "block_stack (clear_pending n) = block_stack n" by (simp add: block_stack_def [of "clear_pending n"])
  then show ?case by (simp add: pending_ok_def)
qed (rule push_block_stack)

lemma node_history:
  assumes "(node_step C)\<^sup>*\<^sup>* n m" "node_ok C n"
  shows "node_ok C m \<and> (applied C)\<^sup>*\<^sup>* (committed (block_stack n)) (committed (block_stack m))"
  using assms
proof (induction rule: rtranclp_induct)
  case (step k m)
  then show ?case using node_step_stack [OF step.hyps(2)] by (auto simp: node_ok_def sound_step_def)
qed simp

end
