(* ===== verification/Withdrawals.thy ===== *)
theory Withdrawals
  imports Block_Upkeep Evaluation
begin

section \<open>Withdrawals keep the ledger\<close>

text \<open>
  A withdrawal credits its routes before it debits the account, so in between the accounts hold more
  qi than the total says: \<open>flow g\<close> is a step that leaves the books of the adores right and raises that
  gap by \<open>g\<close>, and with it the worth of all balances, but for what the conversions to YANG round away,
  less than one YANG for each announced transfer.
\<close>

definition qi_gap :: "chain \<Rightarrow> int" where
  "qi_gap s = total_of qi s + nfa_qi_total s - amount (total_qi (gpo s))"

definition sane_account :: "account_object \<Rightarrow> bool" where
  "sane_account a \<longleftrightarrow> 0 \<le> amount (qi a) \<and> amount (qi a) < 2 ^ 63 \<and> 0 \<le> amount (qi_withdraw_rate a) \<and> 0 \<le> to_withdraw a"

definition withdrawals_sane :: "chain \<Rightarrow> bool" where
  "withdrawals_sane s \<longleftrightarrow> (\<forall>n a. map_of (accounts s) n = Some a \<longrightarrow> sane_account a) \<and>
     (\<forall>k r. (k, r) \<in> set (routes s) \<longrightarrow> route_percent r \<le> TAIYI_100_PERCENT)"

definition side :: "chain \<Rightarrow> int \<times> int \<times> int \<times> asset \<times> nat \<times> ((account_name_type \<times> account_name_type) \<times> withdraw_qi_route_object) list" where
  "side s = (amount (pending_rewarded_feigang (gpo s)) - total_of reward_feigang_balance s,
     amount (pending_rewarded_qi (gpo s)) - total_of reward_qi_balance s - fund_of fund_qi_balance s,
     amount (pending_cultivation_qi (gpo s)) - cultivated s,
     current_supply (gpo s), head_block_time s, routes s)"

definition flow :: "int \<Rightarrow> chain \<Rightarrow> chain \<Rightarrow> bool" where
  "flow g s s' \<longleftrightarrow> (balanced s \<and> withdrawals_sane s \<longrightarrow>
     balanced s' \<and> withdrawals_sane s' \<and> qi_gap s' = qi_gap s + g \<and> side s' = side s \<and> same_proxies s s' \<and>
     worth s' \<le> worth s + g \<and>
     worth s + g \<le> worth s' + 999 * (int (length (vops s')) - int (length (vops s))))"

lemma flow_refl: "flow 0 s s"
  by (simp add: flow_def)

lemma flow_trans:
  assumes "flow g s t" "flow h t u"
  shows "flow (g + h) s u"
  unfolding flow_def
proof
  assume s: "balanced s \<and> withdrawals_sane s"
  note t = assms(1) [unfolded flow_def, rule_format, OF s]
  then have "balanced t \<and> withdrawals_sane t" by blast
  note u = assms(2) [unfolded flow_def, rule_format, OF this]
  show "balanced u \<and> withdrawals_sane u \<and> qi_gap u = qi_gap s + (g + h) \<and> side u = side s \<and> same_proxies s u \<and>
      worth u \<le> worth s + (g + h) \<and> worth s + (g + h) \<le> worth u + 999 * (int (length (vops u)) - int (length (vops s)))"
    using t u same_proxies_trans [of s t u] by (auto simp: algebra_simps)
qed

lemma flow_eq: "flow g s s' \<Longrightarrow> g = h \<Longrightarrow> flow h s s'"
  by simp

text \<open>The step every withdrawal is made of: an account changes, the total changes, one operation is
  announced, and the adores follow.\<close>

lemma totals_vop [simp]: "total_of g (push_vop v s) = total_of g s" "nfa_qi_total (push_vop v s) = nfa_qi_total s"
  "fund_of h (push_vop v s) = fund_of h s"
  by (simp_all add: total_of_def nfa_qi_total_def cultivated_def fund_of_def push_vop_def)

lemma accounts_vop [simp]: "accounts (push_vop v s) = accounts s" "gpo (push_vop v s) = gpo s" "routes (push_vop v s) = routes s"
  by (simp_all add: push_vop_def)

lemma sane_put:
  "withdrawals_sane s \<Longrightarrow> sane_account a' \<Longrightarrow> withdrawals_sane (put_account n a' s)"
  by (auto simp: withdrawals_sane_def put_account_def)

lemma sane_adores:
  assumes "only_adores s s'" "withdrawals_sane s"
  shows "withdrawals_sane s'"
proof -
  have r: "routes s' = routes s"
  proof -
    have "routes (s'\<lparr>accounts := [], simings := []\<rparr>) = routes (s\<lparr>accounts := [], simings := []\<rparr>)"
      using assms(1) by (simp only: only_adores_def)
    then show ?thesis by simp
  qed
  have "sane_account a" if a: "map_of (accounts s') n = Some a" for n a
  proof -
    have "map_option (\<lambda>a. a\<lparr>proxied_vsf_adores := []\<rparr>) (map_of (accounts s) n) = Some (a\<lparr>proxied_vsf_adores := []\<rparr>)"
      using assms(1) a unfolding only_adores_def by (metis option.simps(9))
    then obtain b where b: "map_of (accounts s) n = Some b" "b\<lparr>proxied_vsf_adores := []\<rparr> = a\<lparr>proxied_vsf_adores := []\<rparr>"
      by auto
    have "sane_account (x\<lparr>proxied_vsf_adores := []\<rparr>) = sane_account x" for x by (simp add: sane_account_def)
    then show ?thesis using b assms(2) unfolding withdrawals_sane_def by metis
  qed
  then show ?thesis using assms(2) r by (simp add: withdrawals_sane_def)
qed

lemma only_adores_vops: "only_adores s s' \<Longrightarrow> vops s' = vops s \<and> head_block_time s' = head_block_time s \<and> routes s' = routes s \<and> gpo s' = gpo s"
proof -
  assume "only_adores s s'"
  then have e: "s'\<lparr>accounts := [], simings := []\<rparr> = s\<lparr>accounts := [], simings := []\<rparr>" by (simp add: only_adores_def)
  show ?thesis
    using arg_cong [OF e, of vops] arg_cong [OF e, of gpo] arg_cong [OF e, of routes] by (simp add: head_block_time_def)
qed

definition less_total_qi :: "int \<Rightarrow> chain \<Rightarrow> chain" where
  "less_total_qi c s = s\<lparr>gpo := (gpo s)\<lparr>total_qi := (total_qi (gpo s))\<lparr>amount := amount (total_qi (gpo s)) - c\<rparr>\<rparr>\<rparr>"

lemma less_total_qi_simps [simp]:
  "total_of g (less_total_qi c s) = total_of g s" "nfa_qi_total (less_total_qi c s) = nfa_qi_total s"
  "cultivated (less_total_qi c s) = cultivated s"
  "fund_of h (less_total_qi c s) = fund_of h s" "vops (less_total_qi c s) = vops s" "routes (less_total_qi c s) = routes s"
  "accounts (less_total_qi c s) = accounts s" "withdrawals_sane (less_total_qi c s) = withdrawals_sane s"
  "head_block_time (less_total_qi c s) = head_block_time s" "current_supply (gpo (less_total_qi c s)) = current_supply (gpo s)"
  "pending_rewarded_feigang (gpo (less_total_qi c s)) = pending_rewarded_feigang (gpo s)"
  "pending_rewarded_qi (gpo (less_total_qi c s)) = pending_rewarded_qi (gpo s)"
  "amount (total_qi (gpo (less_total_qi c s))) = amount (total_qi (gpo s)) - c"
  "gbooks f n D (less_total_qi c s) = gbooks f n D s"
  "same_proxies t (less_total_qi c s) = same_proxies t s" "worth (less_total_qi c s) = worth s"
  by (simp_all add: less_total_qi_def withdrawals_sane_def head_block_time_def worth_def)

lemma flow_step:
  assumes F: "fc_laws F" and a: "map_of (accounts s) n = Some a"
    and a': "proxy a' = proxy a" "proxied_vsf_adores a' = proxied_vsf_adores a" "acc_id a' = acc_id a"
      "reward_yang_balance a' = reward_yang_balance a" "reward_qi_balance a' = reward_qi_balance a"
      "reward_feigang_balance a' = reward_feigang_balance a" "sane_account a \<Longrightarrow> sane_account a'"
    and d: "amount (qi a') = amount (qi a) + d"
    and g: "d + c = g" "1000 * (amount (balance a') - amount (balance a)) \<le> c" "c \<le> 1000 * (amount (balance a') - amount (balance a)) + 999"
    and t: "t = less_total_qi c (put_account n a' (push_vop v s))"
    and run: "(if d \<noteq> 0 then adjust_proxied_siming_adores F n d t else Inr t) = Inr s'"
  shows "flow g s s'"
  unfolding flow_def
proof
  assume s: "balanced s \<and> withdrawals_sane s"
  then have b: "balanced (push_vop v s)" by (simp add: gbalanced_def)
  have av: "map_of (accounts (push_vop v s)) n = Some a" using a by simp
  have wf: "wf_table (accounts (push_vop v s))" using balanced_wf(1) [OF b] .
  have bt: "books n (single 0 d) t" using books_put [OF b av a'(1,2)] d t by simp
  have "balanced s' \<and> same_totals t s' \<and> only_adores t s'"
  proof (cases "d = 0")
    case True
    have "single 0 0 = (\<lambda>_. 0)" by (simp add: single_def fun_eq_iff)
    then show ?thesis using True run bt by (simp add: books_zero)
  next
    case False
    then show ?thesis using adjust_adores_effect [OF F bt] run by simp
  qed
  then have b': "balanced s'" and same: "same_totals t s'" and only: "only_adores t s'" by blast+
  have tot: "total_of g t = total_of g s + amount (g a') - amount (g a)" for g
    using total_put [OF wf av, of g a'] t by simp
  have "same_proxies s t" using put_proxies [OF av a'(1,3)] t by simp
  then have p: "same_proxies s s'" using only_adores_proxies [OF only] same_proxies_trans by blast
  have "sane_account a" using s a unfolding withdrawals_sane_def by blast
  then have "withdrawals_sane t" using s a'(7) t by (simp add: sane_put withdrawals_sane_def [of "push_vop v s"] withdrawals_sane_def [of s])
  then have sn: "withdrawals_sane s'" by (rule sane_adores [OF only])
  note o = only_adores_vops [OF only]
  have fr: "nfa_qi_total s' = nfa_qi_total s" "cultivated s' = cultivated s" "fund_of h s' = fund_of h s" for h
    using same t by (simp_all add: same_totals_def nfa_qi_total_def cultivated_def fund_of_def put_account_def push_vop_def less_total_qi_def)
  have gap: "qi_gap s' = qi_gap s + g"
    using same tot [of qi] d g(1) t fr by (simp add: qi_gap_def same_totals_def)
  have sd: "side s' = side s"
  proof -
    have "side t = side s" using tot [of reward_feigang_balance] tot [of reward_qi_balance] a'(5,6) t
      by (simp add: side_def head_block_time_def fund_of_def cultivated_def put_account_def push_vop_def less_total_qi_def)
    moreover have "side s' = side t" using same o by (simp add: side_def same_totals_def fund_of_def cultivated_def head_block_time_def)
    ultimately show ?thesis by simp
  qed
  have w: "worth s' = worth s + d + 1000 * (amount (balance a') - amount (balance a))"
    using same tot [of balance] tot [of reward_yang_balance] tot [of qi] tot [of reward_qi_balance] tot [of reward_feigang_balance]
      d a'(4-6) fr by (simp add: worth_def same_totals_def)
  have v: "int (length (vops s')) - int (length (vops s)) = 1"
    using o t by (simp add: put_account_def push_vop_def)
  show "balanced s' \<and> withdrawals_sane s' \<and> qi_gap s' = qi_gap s + g \<and> side s' = side s \<and> same_proxies s s' \<and>
      worth s' \<le> worth s + g \<and> worth s + g \<le> worth s' + 999 * (int (length (vops s')) - int (length (vops s)))"
    unfolding v using b' sn gap sd p w g by simp
qed

subsection \<open>The passes over the routes\<close>

text \<open>What a route gets: its share of the withdrawal, rounded down.\<close>

lemma route_deposit_value:
  assumes F: "fc_laws F" and w: "0 \<le> w" "w < 2 ^ 63" and p: "route_percent r \<le> TAIYI_100_PERCENT"
  shows "route_deposit F w r = Inr (w * uint (route_percent r) div 10000)"
proof -
  have p': "uint (route_percent r) \<le> 10000" using p by (simp add: TAIYI_100_PERCENT_def word_le_def)
  have u: "uint (ucast (route_percent r) :: u128) = uint (route_percent r)"
    using uint_lt2p [of "route_percent r"] by (simp add: unsigned_ucast_eq take_bit_int_eq_self)
  have "uint (word_of_int w * word_of_int (uint (route_percent r)) :: u128) = w * uint (route_percent r)"
    using w p' by (intro u128_mul) simp_all
  then have m: "uint (word_of_int w * ucast (route_percent r) :: u128) = w * uint (route_percent r)"
    by (simp only: u [symmetric] word_of_int_uint)
  have le: "w * uint (route_percent r) div 10000 \<le> w"
  proof -
    have "w * uint (route_percent r) \<le> w * 10000" using w(1) p' by (rule mult_left_mono [rotated])
    then have "w * uint (route_percent r) div 10000 \<le> w * 10000 div 10000" by (rule zdiv_mono1) simp
    then show ?thesis by simp
  qed
  let ?q = "(word_of_int w * ucast (route_percent r) :: u128) div ucast TAIYI_100_PERCENT"
  have h: "(ucast TAIYI_100_PERCENT :: u128) = 10000" by (simp add: TAIYI_100_PERCENT_def)
  have q: "uint ?q = w * uint (route_percent r) div 10000" unfolding h by (simp add: uint_div_distrib m)
  then have q63: "uint ?q < 2 ^ 63" using le w(2) by simp
  then have "u_hi ?q = 0" by (simp add: u_hi_0_iff)
  then have "u_to_u64 F ?q = Inr (u_lo ?q)" using F by (simp add: fc_simps)
  moreover have "i64_of_u64 (u_lo ?q) = uint ?q" using q63 by (simp add: i64_of_u64_val u_lo_uint)
  ultimately show ?thesis using F q h by (simp add: route_deposit_def fc_simps)
qed

lemma route_deposit_bounds:
  assumes "fc_laws F" "0 \<le> w" "w < 2 ^ 63" "route_percent r \<le> TAIYI_100_PERCENT" "route_deposit F w r = Inr d"
  shows "0 \<le> d" "d \<le> w"
proof -
  have d: "d = w * uint (route_percent r) div 10000" using route_deposit_value [OF assms(1-4)] assms(5) by simp
  have "uint (route_percent r) \<le> 10000" using assms(4) by (simp add: TAIYI_100_PERCENT_def word_le_def)
  then have "w * uint (route_percent r) \<le> w * 10000" using assms(2) by (rule mult_left_mono)
  then have "w * uint (route_percent r) div 10000 \<le> w * 10000 div 10000" by (rule zdiv_mono1) simp
  then show "d \<le> w" using d by simp
  show "0 \<le> d" using d assms(2) by (simp add: pos_imp_zdiv_nonneg_iff)
qed

definition sane_routes :: "(account_name_type \<times> withdraw_qi_route_object) list \<Rightarrow> bool" where
  "sane_routes rs \<longleftrightarrow> (\<forall>(t, r) \<in> set rs. route_percent r \<le> TAIYI_100_PERCENT)"

lemma flow_qi_pass:
  assumes F: "fc_laws F" and w: "0 \<le> w" "w < 2 ^ 63"
  shows "sane_routes rs \<Longrightarrow> rfold (deposit_as_qi F n w) rs (acc, s) = Inr (acc', s') \<Longrightarrow> flow (acc' - acc) s s'"
proof (induction rs arbitrary: acc s)
  case Nil
  then show ?case by (simp add: flow_refl)
next
  case (Cons x rs)
  obtain t r where x: "x = (t, r)" by (cases x)
  have p: "route_percent r \<le> TAIYI_100_PERCENT" and rs: "sane_routes rs" using Cons.prems(1) x by (auto simp: sane_routes_def)
  obtain acc1 s1 where one: "deposit_as_qi F n w (t, r) (acc, s) = Inr (acc1, s1)"
    and rest: "rfold (deposit_as_qi F n w) rs (acc1, s1) = Inr (acc', s')"
    using Cons.prems(2) x by auto
  have "flow (acc1 - acc) s s1"
  proof (cases "auto_vest r")
    case False
    then show ?thesis using one by (simp add: deposit_as_qi_def flow_refl)
  next
    case True
    let ?d = "w * uint (route_percent r) div 10000"
    note d = route_deposit_value [OF F w p]
    have "0 \<le> ?d" using route_deposit_bounds(1) [OF F w p d] .
    show ?thesis
    proof (cases "?d = 0")
      case z: True
      then show ?thesis using one True d F by (simp add: deposit_as_qi_def flow_refl fc_simps)
    next
      case False
      then have pos: "?d > 0" using \<open>0 \<le> ?d\<close> by simp
      let ?v = "Fill_qi_withdraw n t (qis ?d) (qis ?d)"
      obtain a where a: "map_of (accounts s) t = Some a" "in_i64 (amount (qi a) + ?d)" "acc1 = acc + ?d"
        and adj: "adjust_proxied_siming_adores F t ?d (put_account t (a\<lparr>qi := (qi a)\<lparr>amount := amount (qi a) + ?d\<rparr>\<rparr>) (push_vop ?v s)) = Inr s1"
        using one True d pos F by (auto simp: deposit_as_qi_def modify_account_def fc_simps)
      have "less_total_qi 0 u = u" for u by (simp add: less_total_qi_def)
      then have "flow ?d s s1"
        by (intro flow_step [OF F a(1), where d = ?d and c = 0 and v = ?v and a' = "a\<lparr>qi := (qi a)\<lparr>amount := amount (qi a) + ?d\<rparr>\<rparr>"])
          (use adj a(2) pos in \<open>auto simp: sane_account_def in_i64_def\<close>)
      then show ?thesis using a(3) by simp
    qed
  qed
  from flow_trans [OF this Cons.IH [OF rs rest]] show ?case by simp
qed

lemma flow_yang_pass:
  assumes F: "fc_laws F" and w: "0 \<le> w" "w < 2 ^ 63"
  shows "sane_routes rs \<Longrightarrow> rfold (deposit_as_yang F n w) rs (acc, ty, s) = Inr (acc', ty', s') \<Longrightarrow> flow (acc' - acc) s s'"
proof (induction rs arbitrary: acc ty s)
  case Nil
  then show ?case by (simp add: flow_refl)
next
  case (Cons x rs)
  obtain t r where x: "x = (t, r)" by (cases x)
  have p: "route_percent r \<le> TAIYI_100_PERCENT" and rs: "sane_routes rs" using Cons.prems(1) x by (auto simp: sane_routes_def)
  obtain acc1 ty1 s1 where one: "deposit_as_yang F n w (t, r) (acc, ty, s) = Inr (acc1, ty1, s1)"
    and rest: "rfold (deposit_as_yang F n w) rs (acc1, ty1, s1) = Inr (acc', ty', s')"
    using Cons.prems(2) x by auto
  have "flow (acc1 - acc) s s1"
  proof (cases "auto_vest r")
    case True
    then show ?thesis using one by (simp add: deposit_as_yang_def flow_refl)
  next
    case False
    let ?d = "w * uint (route_percent r) div 10000"
    note d = route_deposit_value [OF F w p]
    have dw: "0 \<le> ?d" "?d \<le> w" using route_deposit_bounds [OF F w p d] by simp_all
    then have "?d < 2 ^ 63" using w(2) by (rule_tac order_le_less_trans)
    note conv = qi_to_yang [OF F dw(1) this]
    show ?thesis
    proof (cases "?d = 0")
      case z: True
      then show ?thesis using one False d F conv by (auto simp: deposit_as_yang_def flow_refl fc_simps)
    next
      case nz: False
      then have pos: "?d > 0" using dw(1) by simp
      let ?v = "Fill_qi_withdraw n t (qis ?d) (yang (?d div 1000))"
      obtain a b where a: "map_of (accounts s) t = Some a" "asset_add F (balance a) (yang (?d div 1000)) = Inr b" "acc1 = acc + ?d"
        and s1: "s1 = less_total_qi ?d (put_account t (a\<lparr>balance := b\<rparr>) (push_vop ?v s))"
        using one False d pos F conv by (auto simp: deposit_as_yang_def modify_account_def modify_gpo_def less_total_qi_def fc_simps)
      have b: "amount b = amount (balance a) + ?d div 1000" using a(2) F by (auto simp: asset_add_def fc_simps)
      have "flow ?d s s1"
        by (rule flow_step [OF F a(1), where d = 0 and c = ?d and v = ?v and a' = "a\<lparr>balance := b\<rparr>" and t = s1])
          (use s1 b in \<open>auto simp: sane_account_def\<close>)
      then show ?thesis using a(3) by simp
    qed
  qed
  from flow_trans [OF this Cons.IH [OF rs rest]] show ?case by simp
qed

text \<open>The passes only credit.\<close>

lemma only_adores_put_cells:
  "map_of (accounts s) q = Some p \<Longrightarrow> only_adores s (put_account q (p\<lparr>proxied_vsf_adores := xs\<rparr>) s)"
  by (auto simp: only_adores_def put_account_def)

lemma adjust_only_adores: "adjust_proxied F left n d s = Inr s' \<Longrightarrow> only_adores s s'"
proof (induction left arbitrary: n s)
  have simings: "only_adores s s'" if "adjust_siming_adores F n d s = Inr s'" for n s
    using that unfolding adjust_siming_adores_def
  proof (rule rfold_invariant [where P = "only_adores s"])
    fix w t t' assume "only_adores s t" "adjust_siming_adore F w d t = Inr t'"
    moreover from this(2) have "only_adores t t'"
      by (auto simp: adjust_siming_adore_def modify_siming_def put_siming_def only_adores_simings)
    ultimately show "only_adores s t'" using only_adores_trans by blast
  qed simp
  {
    case 0
    then show ?case using simings by (auto split: if_splits)
  next
    case (Suc left)
    then obtain a where a: "map_of (accounts s) n = Some a" by auto
    show ?case
    proof (cases "proxy a = 0")
      case True
      then show ?thesis using Suc.prems a simings by simp
    next
      case False
      then obtain p xs where p: "map_of (accounts s) (proxy a) = Some p"
        and rest: "adjust_proxied F left (proxy a) d (put_account (proxy a) (p\<lparr>proxied_vsf_adores := xs\<rparr>) s) = Inr s'"
        using Suc.prems a by (auto simp: modify_account_def)
      show ?thesis using Suc.IH [OF rest] only_adores_put_cells [OF p] only_adores_trans by blast
    qed
  }
qed

definition qi_up :: "chain \<Rightarrow> chain \<Rightarrow> bool" where
  "qi_up s s' \<longleftrightarrow> (\<forall>n a. map_of (accounts s) n = Some a \<longrightarrow>
     (\<exists>a'. map_of (accounts s') n = Some a' \<and> amount (qi a) \<le> amount (qi a')))"

lemma qi_up_refl: "qi_up s s" by (auto simp: qi_up_def)

lemma qi_up_trans: "qi_up s t \<Longrightarrow> qi_up t u \<Longrightarrow> qi_up s u"
  unfolding qi_up_def by (meson order_trans)

lemma qi_up_adores:
  assumes "only_adores s s'"
  shows "qi_up s s'"
  unfolding qi_up_def
proof (intro allI impI)
  fix n a assume a: "map_of (accounts s) n = Some a"
  have "map_option (\<lambda>a. a\<lparr>proxied_vsf_adores := []\<rparr>) (map_of (accounts s') n) = Some (a\<lparr>proxied_vsf_adores := []\<rparr>)"
    using assms a unfolding only_adores_def by (metis option.simps(9))
  then obtain a' where a': "map_of (accounts s') n = Some a'" "a'\<lparr>proxied_vsf_adores := []\<rparr> = a\<lparr>proxied_vsf_adores := []\<rparr>" by auto
  have "qi (a'\<lparr>proxied_vsf_adores := []\<rparr>) = qi (a\<lparr>proxied_vsf_adores := []\<rparr>)" by (simp only: a'(2))
  then show "\<exists>a'. map_of (accounts s') n = Some a' \<and> amount (qi a) \<le> amount (qi a')" using a'(1) by simp
qed

lemma qi_up_put:
  "map_of (accounts s) n = Some a \<Longrightarrow> amount (qi a) \<le> amount (qi a') \<Longrightarrow> qi_up s (put_account n a' (push_vop v s))"
  by (auto simp: qi_up_def put_account_def)

lemma qi_pass_up:
  assumes F: "fc_laws F" and w: "0 \<le> w" "w < 2 ^ 63"
  shows "sane_routes rs \<Longrightarrow> rfold (deposit_as_qi F n w) rs (acc, s) = Inr (acc', s') \<Longrightarrow> acc \<le> acc' \<and> qi_up s s'"
proof (induction rs arbitrary: acc s)
  case Nil
  then show ?case by (simp add: qi_up_refl)
next
  case (Cons x rs)
  obtain t r where x: "x = (t, r)" by (cases x)
  have p: "route_percent r \<le> TAIYI_100_PERCENT" and rs: "sane_routes rs" using Cons.prems(1) x by (auto simp: sane_routes_def)
  obtain acc1 s1 where one: "deposit_as_qi F n w (t, r) (acc, s) = Inr (acc1, s1)"
    and rest: "rfold (deposit_as_qi F n w) rs (acc1, s1) = Inr (acc', s')"
    using Cons.prems(2) x by auto
  note d = route_deposit_value [OF F w p]
  have "0 \<le> w * uint (route_percent r) div 10000" using route_deposit_bounds(1) [OF F w p d] .
  have "acc \<le> acc1 \<and> qi_up s s1"
  proof (cases "auto_vest r \<and> w * uint (route_percent r) div 10000 > 0")
    case False
    then show ?thesis using one d F \<open>0 \<le> w * uint (route_percent r) div 10000\<close>
      by (cases "auto_vest r") (auto simp: deposit_as_qi_def fc_simps qi_up_refl)
  next
    case True
    let ?d = "w * uint (route_percent r) div 10000"
    let ?v = "Fill_qi_withdraw n t (qis ?d) (qis ?d)"
    obtain a where a: "map_of (accounts s) t = Some a" "acc1 = acc + ?d"
      and adj: "adjust_proxied_siming_adores F t ?d (put_account t (a\<lparr>qi := (qi a)\<lparr>amount := amount (qi a) + ?d\<rparr>\<rparr>) (push_vop ?v s)) = Inr s1"
      using one True d F by (auto simp: deposit_as_qi_def modify_account_def fc_simps)
    have "qi_up s (put_account t (a\<lparr>qi := (qi a)\<lparr>amount := amount (qi a) + ?d\<rparr>\<rparr>) (push_vop ?v s))"
      by (rule qi_up_put [OF a(1)]) (use True in simp)
    moreover have "only_adores (put_account t (a\<lparr>qi := (qi a)\<lparr>amount := amount (qi a) + ?d\<rparr>\<rparr>) (push_vop ?v s)) s1"
      using adj unfolding adjust_proxied_siming_adores_def by (rule adjust_only_adores)
    ultimately show ?thesis using a(2) True qi_up_trans [OF _ qi_up_adores] by auto
  qed
  then show ?case using Cons.IH [OF rs rest] qi_up_trans by auto
qed

lemma yang_pass_up:
  assumes F: "fc_laws F" and w: "0 \<le> w" "w < 2 ^ 63"
  shows "sane_routes rs \<Longrightarrow> rfold (deposit_as_yang F n w) rs (acc, ty, s) = Inr (acc', ty', s') \<Longrightarrow> acc \<le> acc' \<and> qi_up s s'"
proof (induction rs arbitrary: acc ty s)
  case Nil
  then show ?case by (simp add: qi_up_refl)
next
  case (Cons x rs)
  obtain t r where x: "x = (t, r)" by (cases x)
  have p: "route_percent r \<le> TAIYI_100_PERCENT" and rs: "sane_routes rs" using Cons.prems(1) x by (auto simp: sane_routes_def)
  obtain acc1 ty1 s1 where one: "deposit_as_yang F n w (t, r) (acc, ty, s) = Inr (acc1, ty1, s1)"
    and rest: "rfold (deposit_as_yang F n w) rs (acc1, ty1, s1) = Inr (acc', ty', s')"
    using Cons.prems(2) x by auto
  note d = route_deposit_value [OF F w p]
  have "0 \<le> w * uint (route_percent r) div 10000" using route_deposit_bounds(1) [OF F w p d] .
  have "acc \<le> acc1 \<and> qi_up s s1"
  proof (cases "\<not> auto_vest r \<and> w * uint (route_percent r) div 10000 > 0")
    case False
    then show ?thesis using one d F \<open>0 \<le> w * uint (route_percent r) div 10000\<close>
      by (cases "auto_vest r") (auto simp: deposit_as_yang_def fc_simps qi_up_refl)
  next
    case True
    obtain a b g v where a: "map_of (accounts s) t = Some a" "acc1 = acc + w * uint (route_percent r) div 10000"
      and s1: "s1 = (put_account t (a\<lparr>balance := b\<rparr>) (push_vop v s))\<lparr>gpo := g\<rparr>"
      using one True d F by (auto simp: deposit_as_yang_def modify_account_def modify_gpo_def fc_simps)
    have "qi_up s (put_account t (a\<lparr>balance := b\<rparr>) (push_vop v s))" by (rule qi_up_put [OF a(1)]) simp
    then show ?thesis using a(2) s1 True by (simp add: qi_up_def)
  qed
  then show ?case using Cons.IH [OF rs rest] qi_up_trans by auto
qed

subsection \<open>The withdrawal\<close>

lemma withdrawal_due_bounds:
  assumes "fc_laws F" "sane_account a" "withdrawal_due F a = Inr w"
  shows "0 \<le> w" "w \<le> amount (qi a)"
proof -
  have s: "0 \<le> amount (qi a)" "0 \<le> amount (qi_withdraw_rate a)" "0 \<le> to_withdraw a"
    using assms(2) by (simp_all add: sane_account_def)
  have m: "0 \<le> to_withdraw a smod amount (qi_withdraw_rate a)" if "amount (qi_withdraw_rate a) \<noteq> 0"
    using s that by (simp add: smod_nonneg)
  show "0 \<le> w" "w \<le> amount (qi a)"
    using assms(1,3) s m by (auto simp: withdrawal_due_def fc_simps min_def split: if_splits)
qed

lemma routes_from_sane: "withdrawals_sane s \<Longrightarrow> sane_routes (routes_from s n)"
  unfolding withdrawals_sane_def sane_routes_def routes_from_def by auto

lemma modify_total_qi:
  "fc_laws F \<Longrightarrow> modify_gpo (\<lambda>o'. rbind (s_sub F (amount (total_qi o')) c)
      (\<lambda>x. Inr (o'\<lparr>total_qi := (total_qi o')\<lparr>amount := x\<rparr>\<rparr>))) s = Inr t \<longleftrightarrow>
     in_i64 (amount (total_qi (gpo s)) - c) \<and> t = less_total_qi c s"
  by (auto simp: modify_gpo_def less_total_qi_def fc_simps)

lemma flow_withdrawal:
  assumes F: "fc_laws F" and run: "process_withdrawal F n s = Inr s'"
  shows "flow 0 s s'"
  unfolding flow_def
proof (rule impI)
  assume s: "balanced s \<and> withdrawals_sane s"
  obtain a w acc s1 acc2 ty s2 where a: "map_of (accounts s) n = Some a" and w: "withdrawal_due F a = Inr w"
    and one: "rfold (deposit_as_qi F n w) (routes_from s n) (0, s) = Inr (acc, s1)"
    and two: "rfold (deposit_as_yang F n w) (routes_from s1 n) (0, yang 0, s1) = Inr (acc2, ty, s2)"
    and c0: "0 \<le> w - acc2 - acc"
    and last: "rbind (asset_at_price F (qis (w - acc2 - acc)) TAIYI_QI_SHARE_PRICE) (\<lambda>conv.
      rbind (modify_account n (withdraw_rest F w conv)
               (push_vop (Fill_qi_withdraw n n (qis (w - acc2 - acc)) conv) s2)) (\<lambda>s.
      rbind (modify_gpo (\<lambda>o'. rbind (s_sub F (amount (total_qi o')) (w - acc2 - acc))
               (\<lambda>x. Inr (o'\<lparr>total_qi := (total_qi o')\<lparr>amount := x\<rparr>\<rparr>))) s) (\<lambda>s.
      if w > 0 then rbind (s_neg F w) (\<lambda>d. adjust_proxied_siming_adores F n d s) else Inr s))) = Inr s'"
    using run F unfolding process_withdrawal_def by (auto simp: fc_simps)
  have sa: "sane_account a" using s a unfolding withdrawals_sane_def by blast
  have "amount (qi a) < 2 ^ 63" using sa by (simp add: sane_account_def)
  then have wb: "0 \<le> w" "w < 2 ^ 63" using withdrawal_due_bounds [OF F sa w] by simp_all
  have f1: "flow acc s s1" using flow_qi_pass [OF F wb routes_from_sane one] s by simp
  then have s1: "withdrawals_sane s1" using s by (simp add: flow_def)
  have f2: "flow acc2 s1 s2" using flow_yang_pass [OF F wb routes_from_sane [OF s1] two] by simp
  have f12: "flow (acc + acc2) s s2" by (rule flow_trans [OF f1 f2])
  let ?c = "w - acc2 - acc"
  have nn: "0 \<le> acc" "0 \<le> acc2" and up: "qi_up s s2"
    using qi_pass_up [OF F wb _ one] yang_pass_up [OF F wb _ two] routes_from_sane s s1 qi_up_trans by auto
  then have "?c < 2 ^ 63" using wb(2) by simp
  note conv = qi_to_yang [OF F c0 this]
  let ?v = "Fill_qi_withdraw n n (qis ?c) (yang (?c div 1000))"
  obtain b b' t where b: "map_of (accounts s2) n = Some b" "withdraw_rest F w (yang (?c div 1000)) b = Inr b'"
    and t: "t = less_total_qi ?c (put_account n b' (push_vop ?v s2))"
    and adj: "(if w > 0 then rbind (s_neg F w) (\<lambda>d. adjust_proxied_siming_adores F n d t) else Inr t) = Inr s'"
    using last F conv by (auto simp: modify_account_def modify_total_qi)
  obtain bal where bal: "asset_add F (balance b) (yang (?c div 1000)) = Inr bal" "in_i64 (amount (qi b) - w)" "in_i64 (withdrawn b + w)"
    and b': "b' = (let a = b\<lparr>qi := (qi b)\<lparr>amount := amount (qi b) - w\<rparr>, balance := bal, withdrawn := withdrawn b + w\<rparr>
       in if withdrawn a \<ge> to_withdraw a \<or> amount (qi a) = 0
          then a\<lparr>qi_withdraw_rate := (qi_withdraw_rate a)\<lparr>amount := 0\<rparr>, next_qi_withdrawal_time := TIME_MAX\<rparr>
          else a\<lparr>next_qi_withdrawal_time := next_qi_withdrawal_time a + TAIYI_QI_WITHDRAW_INTERVAL_SECONDS\<rparr>)"
    using b(2) F by (auto simp: withdraw_rest_def fc_simps Let_def)
  have "w \<le> amount (qi b)"
  proof -
    obtain c where "map_of (accounts s2) n = Some c" "amount (qi a) \<le> amount (qi c)" using up a unfolding qi_up_def by blast
    then show ?thesis using b(1) withdrawal_due_bounds(2) [OF F sa w] by simp
  qed
  moreover have "amount bal = amount (balance b) + ?c div 1000" using bal(1) F by (auto simp: asset_add_def fc_simps)
  ultimately have "flow (- w + ?c) s2 s'"
    by (intro flow_step [OF F b(1), where d = "- w" and c = ?c and v = ?v and a' = b' and t = t])
      (use adj t b' bal wb F in \<open>auto simp: Let_def fc_simps sane_account_def split: if_splits\<close>)
  from flow_trans [OF f12 this] have "flow 0 s s'" by simp
  then show "balanced s' \<and> withdrawals_sane s' \<and> qi_gap s' = qi_gap s + 0 \<and> side s' = side s \<and> same_proxies s s' \<and>
      worth s' \<le> worth s + 0 \<and> worth s + 0 \<le> worth s' + 999 * (int (length (vops s')) - int (length (vops s)))"
    using s by (simp add: flow_def)
qed

lemma flow_loop: "fc_laws F \<Longrightarrow> withdraw_loop F now k s = Inr s' \<Longrightarrow> flow 0 s s'"
proof (induction F now k s rule: withdraw_loop.induct)
  case (1 F now s)
  then show ?case by (simp add: flow_refl)
next
  case (2 F now t n s)
  show ?case
  proof (cases "t \<le> now")
    case False
    then show ?thesis using 2 by (simp add: flow_refl)
  next
    case True
    then obtain s1 where s1: "process_withdrawal F n s = Inr s1" "withdraw_loop F now (next_due s (t, n)) s1 = Inr s'"
      using "2.prems"(2) by auto
    from flow_trans [OF flow_withdrawal [OF "2.prems"(1) s1(1)] "2.IH" [OF True "2.prems"(1) s1(2)]] show ?thesis by simp
  qed
qed

lemma flow_chain_ok:
  assumes "flow 0 s s'" "chain_ok s" "withdrawals_sane s"
  shows "chain_ok s' \<and> withdrawals_sane s' \<and> current_supply (gpo s') = current_supply (gpo s) \<and> worth s' \<le> worth s \<and>
    worth s \<le> worth s' + 999 * (int (length (vops s')) - int (length (vops s)))"
proof -
  have b: "balanced s \<and> withdrawals_sane s" using assms(2,3) by (simp add: chain_ok_def ledger_ok_def)
  note f = assms(1) [unfolded flow_def, rule_format, OF b]
  have "ledger_ok s'" using f assms(2) unfolding chain_ok_def ledger_ok_def by (simp add: qi_gap_def side_def)
  moreover have "proxies_ok s'" using f assms(2) proxies_ok_cong unfolding chain_ok_def by blast
  ultimately show ?thesis using f by (simp add: chain_ok_def side_def)
qed

lemma withdrawals_effect:
  assumes "fc_laws F" "process_qi_withdrawals F s = Inr s'" "chain_ok s" "withdrawals_sane s"
  shows "chain_ok s' \<and> withdrawals_sane s' \<and> current_supply (gpo s') = current_supply (gpo s) \<and> worth s' \<le> worth s \<and>
    worth s \<le> worth s' + 999 * (int (length (vops s')) - int (length (vops s)))"
  using flow_chain_ok [OF flow_loop [OF assms(1) assms(2) [unfolded process_qi_withdrawals_def]] assms(3,4)] .

text \<open>C7: the withdrawals of a block, whatever the routes and however often an account comes up, keep
  all equations of the audit that are about qi and adores, the proxies and the supply; the worth of all
  balances never grows, and what it loses to rounding is at most 999 QI for each transfer announced.
  The supply is not lowered by that loss.\<close>
theorem withdrawals_keep_ledger:
  assumes "fc_laws F" "chain_ok s" "withdrawals_sane s" "process_qi_withdrawals F s = Inr s'"
  shows "chain_ok s' \<and> withdrawals_sane s' \<and> current_supply (gpo s') = current_supply (gpo s) \<and> worth s' \<le> worth s \<and>
    worth s \<le> worth s' + 999 * (int (length (vops s')) - int (length (vops s)))"
  by (rule withdrawals_effect [OF assms(1,4,2,3)])

definition withdrawing :: "chain \<Rightarrow> chain" where
  "withdrawing s = put_account n_alice (acc_alice\<lparr>qi_withdraw_rate := qis 225, next_qi_withdrawal_time := 1762850000, to_withdraw := 900\<rparr>) s"

lemma withdrawing_ok: "chain_ok (withdrawing sample_chain)"
proof -
  have "map_of (accounts sample_chain) n_alice = Some acc_alice" by (simp add: sample_chain_def)
  then have "kept sample_chain (withdrawing sample_chain)"
    unfolding withdrawing_def by (rule kept_put) (simp add: same_core_def)
  then show ?thesis using sample_ok by (simp add: kept_def)
qed

lemma withdrawing_sane: "withdrawals_sane (withdrawing sample_chain)"
  by (auto simp: withdrawals_sane_def withdrawing_def put_account_def sample_chain_def sane_account_def acc_simps n_defs split: if_splits)

lemma withdrawing_due: "due_keys (withdrawing sample_chain) = [(1762850000, n_alice), (TIME_MAX, n_bob), (TIME_MAX, n_dao)]"
  by (simp add: due_keys_def withdrawing_def put_account_def sample_chain_def acc_simps n_defs TIME_MAX_def)

lemmas fc_ref_simps = fc_simps [OF fc_ref_laws]

lemma adjust_alice:
  assumes "map_of (accounts t) n_alice = Some a" "proxy a = 0" "siming_adores t = siming_adores sample_chain"
    and "simings t = simings sample_chain" "775 \<le> amount (total_qi (gpo t))"
  shows "\<exists>u. adjust_proxied_siming_adores fc_ref n_alice (- 225) t = Inr u"
proof -
  have "adored_by t n_alice = [n_carol]" using assms(3) by (simp add: adored_by_def sample_chain_def)
  moreover obtain w where w: "map_of (simings t) n_carol = Some w" "adores w = 1000"
    using assms(4) by (simp add: sample_chain_def)
  moreover have "(word_of_int 776 :: u128) \<noteq> 0" by simp
  ultimately show ?thesis
    using assms(1,2,5) adjust_proxied_self [of t n_alice a fc_ref 4 "- 225"]
    by (simp add: adjust_proxied_siming_adores_def TAIYI_MAX_PROXY_RECURSION_DEPTH_def adjust_siming_adores_def
        adjust_siming_adore_def modify_siming_def adore_siming_def Let_def fc_ref_simps get_siming_def in_i64_def)
qed

lemma withdrawing_alice:
  "map_of (accounts (withdrawing sample_chain)) n_alice =
     Some (acc_alice\<lparr>qi_withdraw_rate := qis 225, next_qi_withdrawal_time := 1762850000, to_withdraw := 900\<rparr>)"
  by (simp add: withdrawing_def put_account_def)

lemma withdrawing_runs: "\<exists>s'. process_qi_withdrawals fc_ref (withdrawing sample_chain) = Inr s'"
proof -
  let ?s = "withdrawing sample_chain" and ?c = "yang 0"
  let ?v = "Fill_qi_withdraw n_alice n_alice (qis 225) ?c"
  let ?a = "acc_alice\<lparr>qi_withdraw_rate := qis 225, next_qi_withdrawal_time := 1762850000, to_withdraw := 900\<rparr>"
  have due: "withdrawal_due fc_ref ?a = Inr 225"
    by (simp add: withdrawal_due_def fc_ref_simps in_i64_def acc_simps)
  have routes: "routes_from t n = []" if "routes t = []" for t n using that by (simp add: routes_from_def)
  have r: "routes ?s = []" by (simp add: withdrawing_def put_account_def sample_chain_def)
  obtain b where b: "withdraw_rest fc_ref 225 ?c ?a = Inr b" "proxy b = 0"
    by (simp add: withdraw_rest_def fc_ref_simps in_i64_def acc_simps asset_add_def Let_def)
  let ?t = "less_total_qi 225 (put_account n_alice b (push_vop ?v ?s))"
  have "total_qi (gpo ?s) = qis 1500" by (simp add: withdrawing_def sample_chain_def sample_gpo_def)
  then obtain u where u: "adjust_proxied_siming_adores fc_ref n_alice (- 225) ?t = Inr u"
    using adjust_alice [of ?t b] b(2)
    by (auto simp: less_total_qi_def put_account_def withdrawing_def push_vop_def)
  have m: "modify_gpo (\<lambda>o'. rbind (s_sub fc_ref (amount (total_qi o')) 225)
      (\<lambda>x. Inr (o'\<lparr>total_qi := (total_qi o')\<lparr>amount := x\<rparr>\<rparr>))) (put_account n_alice b (push_vop ?v ?s)) = Inr ?t"
    using \<open>total_qi (gpo ?s) = qis 1500\<close> by (simp add: modify_total_qi in_i64_def)
  have "process_withdrawal fc_ref n_alice ?s = Inr u"
    using due b(1) u m qi_to_yang [OF fc_ref_laws, of 225]
    by (simp add: process_withdrawal_def withdrawing_alice get_account_def routes r modify_account_def fc_ref_simps in_i64_def)
  moreover have "next_due ?s (1762850000, n_alice) = Some (TIME_MAX, n_bob)"
    by (simp add: next_due_def withdrawing_due TIME_MAX_def)
  moreover have "head_block_time ?s = 1762850000"
    by (simp add: withdrawing_def put_account_def head_block_time_def sample_chain_def sample_gpo_def)
  ultimately show ?thesis by (simp add: process_qi_withdrawals_def withdrawing_due TIME_MAX_def)
qed

lemma withdrawals_keep_ledger_witness:
  "\<exists>s'. process_qi_withdrawals fc_ref (withdrawing sample_chain) = Inr s' \<and> chain_ok s' \<and> worth s' \<le> worth (withdrawing sample_chain)"
proof -
  obtain s' where s': "process_qi_withdrawals fc_ref (withdrawing sample_chain) = Inr s'" using withdrawing_runs by blast
  show ?thesis using s' withdrawals_keep_ledger [OF fc_ref_laws withdrawing_ok withdrawing_sane s'] by blast
qed

subsection \<open>A withdrawal that stops the chain\<close>

lemma adjust_limit:
  assumes F: "fc_laws F" and run: "adjust_siming_adores F n d s = Inr s'" and wf: "wf_table (siming_adores s)"
    and x: "x \<in> set (adored_by s n)" "map_of (simings s) x = Some v"
  shows "adores v + d \<le> amount (total_qi (gpo s))"
proof -
  obtain us vs where split: "adored_by s n = us @ x # vs" using x(1) by (meson split_list)
  have "distinct (us @ x # vs)" using distinct_adored_by [OF wf] split by metis
  then have us: "distinct us" "x \<notin> set us" by simp_all
  obtain t u where t: "rfold (\<lambda>w. adjust_siming_adore F w d) us s = Inr t" and u: "adjust_siming_adore F x d t = Inr u"
    using run unfolding adjust_siming_adores_def split by (auto simp: rfold_append)
  obtain sims where sims: "t = s\<lparr>simings := sims\<rparr>" "votes_moved s (set us) d sims"
    using adjust_siming_adores_effect [OF F t us(1)] by blast
  have "map_option adores (map_of sims x) = Some (adores v)"
    using sims(2) us(2) x(2) by (simp add: votes_moved_def)
  then obtain w where w: "map_of sims x = Some w" "adores w = adores v" by auto
  then show ?thesis using u F sims(1)
    by (auto simp: adjust_siming_adore_def modify_siming_def adore_siming_def Let_def fc_simps get_siming_def)
qed


definition one_siming :: chain where
  "one_siming = sample_chain\<lparr>
     accounts := [(n_alice, acc_alice\<lparr>qi_withdraw_rate := qis 225, next_qi_withdrawal_time := 1762850000, to_withdraw := 900\<rparr>),
                  (n_bob, acc_bob), (n_dao, acc_dao)],
     simings := [(n_carol, new_siming_object\<lparr>adores := 1500, signing_key := 4\<rparr>)],
     siming_adores := [((n_alice, n_carol), ()), ((n_dao, n_carol), ())],
     routes := [((n_alice, n_dao), \<lparr>route_percent = 10000, auto_vest = True\<rparr>)]\<rparr>"

lemma one_siming_balanced: "balanced one_siming"
  unfolding gbalanced_def gbooks_def
proof (intro conjI allI impI)
  show "shape one_siming"
    by (auto simp: shape_def one_siming_def sample_chain_def acc_simps n_defs replicate_4 split: if_splits)
next
  fix m p and j :: nat assume "map_of (accounts one_siming) m = Some p" "j < 4"
  then show "proxied_vsf_adores p ! j = proxied_level 0 (\<lambda>_. 0) m j one_siming"
    by (auto simp: one_siming_def sample_chain_def gproxied_def level_def acc_simps n_defs replicate_4 less_4 split: if_splits)
next
  fix w sim assume "map_of (simings one_siming) w = Some sim"
  then show "adores sim = adored_weight 0 (\<lambda>_. 0) w one_siming"
    by (auto simp: one_siming_def sample_chain_def gadored_def gfull_def sum_5 level_def acc_simps n_defs replicate_4 split: if_splits)
qed

lemma one_siming_ledger: "ledger_ok one_siming"
  unfolding ledger_ok_def
  by (intro conjI one_siming_balanced)
    (simp_all add: one_siming_def sample_chain_def sample_gpo_def total_of_def fund_of_def nfa_qi_total_def cultivated_def acc_simps)


end
