(* ===== verification/Upkeep_Ledger.thy ===== *)
theory Upkeep_Ledger
  imports Withdrawals
begin

section \<open>The queues and the inflation keep the ledger\<close>

text \<open>
  The queues of a block remove exactly the rows that are due, and what they do for a row keeps the
  books; the inflation raises the supply by exactly what it hands out.
\<close>

subsection \<open>Queues\<close>

lemma drain_idle: "drain ord due (\<lambda>_. Inr) t s = Inr (t', s') \<Longrightarrow> s' = s"
proof (induction t arbitrary: t' rule: measure_induct_rule [where f = length])
  case (less t)
  show ?case
  proof (cases "sort_key ord t")
    case Nil
    then show ?thesis using less.prems by (simp add: drain.simps [of ord due _ t s])
  next
    case (Cons row rows)
    have "row \<in> set t" using Cons by (metis list.set_intros(1) set_sort)
    then have "length (tdel (fst row) t) < length t"
      unfolding tdel_def by (rule length_filter_less) (simp add: case_prod_beta)
    then show ?thesis using less Cons by (simp add: drain.simps [of ord due _ t s] split: if_splits)
  qed
qed

text \<open>
  A queue is read in an order in which the rows that are due come first: the loop that takes the
  first row as long as it is due then leaves the rows that are not.
\<close>

locale due_queue =
  fixes ord :: "'k::linorder \<times> 'v \<Rightarrow> 'o::linorder" and due :: "'k \<times> 'v \<Rightarrow> bool"
  assumes due_first: "ord x \<le> ord y \<Longrightarrow> due y \<Longrightarrow> due x"
begin

lemma none_due: "sort_key ord t = row # rows \<Longrightarrow> \<not> due row \<Longrightarrow> filter (\<lambda>r. \<not> due r) t = t"
proof (rule filter_True, rule ballI)
  fix y assume s: "sort_key ord t = row # rows" "\<not> due row" and "y \<in> set t"
  then have "y \<in> set (row # rows)" by (metis set_sort)
  moreover have "sorted (map ord (row # rows))" using sorted_sort_key [of ord t] s(1) by simp
  ultimately have "ord row \<le> ord y" by auto
  then show "\<not> due y" using due_first s(2) by blast
qed

text \<open>The loop takes one due row after the other.\<close>

lemma drain_step:
  assumes "drain ord due step t s = Inr (t', s')"
  obtains "\<forall>r \<in> set t. \<not> due r" "t' = t" "s' = s"
  | row s1 where "row \<in> set t" "due row" "step row s = Inr s1" "drain ord due step (tdel (fst row) t) s1 = Inr (t', s')"
proof (cases "sort_key ord t")
  case Nil
  then have "set t = {}" by (metis list.set(1) set_sort)
  moreover have "t' = t \<and> s' = s" using assms Nil by (simp add: drain.simps [of ord due step t s])
  ultimately show thesis using that(1) by simp
next
  case (Cons row rows)
  have "row \<in> set t" using Cons by (metis list.set_intros(1) set_sort)
  moreover have "\<forall>r \<in> set t. \<not> due r" if "\<not> due row"
    using none_due [OF Cons that] by (simp add: filter_id_conv)
  moreover obtain k v where "row = (k, v)" by (cases row)
  ultimately show thesis using that assms Cons by (auto simp: drain.simps [of ord due step t s] split: if_splits)
qed

lemma drained:
  "wf_table t \<Longrightarrow> drain ord due step t s = Inr (t', s') \<Longrightarrow> t' = filter (\<lambda>r. \<not> due r) t"
proof (induction t arbitrary: s rule: measure_induct_rule [where f = length])
  case (less t)
  from less.prems(2) show ?case
  proof (cases rule: drain_step)
    case 1
    then show ?thesis by (simp add: filter_id_conv)
  next
    case (2 row s1)
    let ?t = "tdel (fst row) t"
    have "length ?t < length t" unfolding tdel_def by (rule length_filter_less [OF 2(1)]) (simp add: case_prod_beta)
    then have "t' = filter (\<lambda>r. \<not> due r) ?t" using less.IH 2(4) less.prems(1) by (meson wf_tdel)
    moreover have "due r" if "r \<in> set t" "fst r = fst row" for r
      using that 2 wf_map_of_iff [OF less.prems(1)] by (metis option.inject prod.collapse)
    then have "filter (\<lambda>r. \<not> due r) ?t = filter (\<lambda>r. \<not> due r) t"
      unfolding tdel_def filter_filter by (intro filter_cong) auto
    ultimately show ?thesis by simp
  qed
qed

lemma drain_frame:
  "(\<And>row s s'. step row s = Inr s' \<Longrightarrow> g s' = g s) \<Longrightarrow> drain ord due step t s = Inr (t', s') \<Longrightarrow> g s' = g s"
proof (induction t arbitrary: s rule: measure_induct_rule [where f = length])
  case (less t)
  from less.prems(2) show ?case
  proof (cases rule: drain_step)
    case (2 row s1)
    have "length (tdel (fst row) t) < length t"
      unfolding tdel_def by (rule length_filter_less [OF 2(1)]) (simp add: case_prod_beta)
    then show ?thesis using less.IH [of "tdel (fst row) t" s1] less.prems(1) 2(3,4) by metis
  qed simp
qed

lemma drain_keeps:
  "(\<And>row s. row \<in> set t \<Longrightarrow> keeps s (step row s)) \<Longrightarrow> drain ord due step t s = Inr (t', s') \<Longrightarrow> kept s s'"
proof (induction t arbitrary: s rule: measure_induct_rule [where f = length])
  case (less t)
  from less.prems(2) show ?case
  proof (cases rule: drain_step)
    case 1
    then show ?thesis by simp
  next
    case (2 row s1)
    let ?t = "tdel (fst row) t"
    have "length ?t < length t" unfolding tdel_def by (rule length_filter_less [OF 2(1)]) (simp add: case_prod_beta)
    moreover have "set ?t \<subseteq> set t" by (auto simp: tdel_def)
    ultimately have "kept s1 s'" using less.IH [of ?t s1] less.prems(1) 2(4) by blast
    moreover have "kept s s1" using less.prems(1) 2(1,3) by (simp add: keeps_def)
    ultimately show ?thesis by (rule kept_trans [rotated])
  qed
qed

end

text \<open>The queues by time of this block and, among equal times, by key.\<close>

interpretation timed: due_queue "\<lambda>(k, v). (time v :: nat, k)" "\<lambda>(k, v). time v \<le> now" for time and now
  by unfold_locales auto

interpretation timed_before: due_queue "\<lambda>(k, v). (time v :: nat, k)" "\<lambda>(k, v). time v < now" for time and now
  by unfold_locales auto

subsection \<open>What the queues do\<close>

lemma keeps_return: "keeps s (modify_account (exp_delegator d) (\<lambda>a.
    rbind (asset_sub F (delegated_qi a) (exp_qi d)) (\<lambda>x. Inr (a\<lparr>delegated_qi := x\<rparr>)))
    (push_vop (Return_qi_delegation (exp_delegator d) (exp_qi d)) s))"
  by (rule keeps_modify) (auto simp: same_core_def push_vop_def)

lemma keeps_recovery_change: "keeps s (modify_account n (\<lambda>a. Inr (a\<lparr>recovery_account := r\<rparr>)) s)"
  by (rule keeps_modify_pure) (simp_all add: same_core_def)

lemma clear_delegations_effect:
  assumes "clear_expired_delegations F s = Inr s'"
  shows "kept s s'" and "wf_table (delegation_expirations s) \<Longrightarrow>
    delegation_expirations s' = filter (\<lambda>(i, d). \<not> exp_expiration d < head_block_time s) (delegation_expirations s)"
proof -
  obtain t s1 where run: "drain (\<lambda>(i, d). (exp_expiration d, i)) (\<lambda>(i, d). exp_expiration d < head_block_time s)
      (\<lambda>(i, d) s. modify_account (exp_delegator d) (\<lambda>a.
         rbind (asset_sub F (delegated_qi a) (exp_qi d)) (\<lambda>x. Inr (a\<lparr>delegated_qi := x\<rparr>)))
         (push_vop (Return_qi_delegation (exp_delegator d) (exp_qi d)) s)) (delegation_expirations s) s = Inr (t, s1)"
    and s': "s' = s1\<lparr>delegation_expirations := t\<rparr>"
    using assms by (auto simp: clear_expired_delegations_def Let_def)
  have k: "kept s s1" by (rule timed_before.drain_keeps [OF _ run]) (auto simp: case_prod_beta intro: keeps_return)
  show "kept s s'" by (rule kept_trans [OF k]) (simp add: s' kept_view)
  show "delegation_expirations s' = filter (\<lambda>(i, d). \<not> exp_expiration d < head_block_time s) (delegation_expirations s)"
    if "wf_table (delegation_expirations s)"
    using timed_before.drained [OF that run] s' by (simp add: case_prod_unfold)
qed

lemma recovery_effect:
  assumes "account_recovery_processing s = Inr s'"
  shows "kept s s'" and "wf_table (recovery_requests s) \<Longrightarrow> wf_table (change_requests s) \<Longrightarrow>
    recovery_requests s' = filter (\<lambda>(n, r). \<not> rec_expires r \<le> head_block_time s) (recovery_requests s) \<and>
    change_requests s' = filter (\<lambda>(n, c). \<not> effective_on c \<le> head_block_time s) (change_requests s)"
proof -
  obtain t1 s1 t2 s2 t3 s3 where
    run1: "drain (\<lambda>(n, r). (rec_expires r, n)) (\<lambda>(n, r). rec_expires r \<le> head_block_time s) (\<lambda>_. Inr) (recovery_requests s) s = Inr (t1, s1)"
    and run2: "drain fst (\<lambda>(i, h). last_valid_time h + TAIYI_OWNER_AUTH_RECOVERY_PERIOD < head_block_time s) (\<lambda>_. Inr)
        (owner_history (s1\<lparr>recovery_requests := t1\<rparr>)) (s1\<lparr>recovery_requests := t1\<rparr>) = Inr (t2, s2)"
    and run3: "drain (\<lambda>(n, c). (effective_on c, n)) (\<lambda>(n, c). effective_on c \<le> head_block_time s)
        (\<lambda>(n, c). modify_account n (\<lambda>a. Inr (a\<lparr>recovery_account := chg_recovery_account c\<rparr>)))
        (change_requests (s2\<lparr>owner_history := t2\<rparr>)) (s2\<lparr>owner_history := t2\<rparr>) = Inr (t3, s3)"
    and s': "s' = s3\<lparr>change_requests := t3\<rparr>"
    using assms by (auto simp: account_recovery_processing_def Let_def)
  have s1: "s1 = s" and s2: "s2 = s\<lparr>recovery_requests := t1\<rparr>" using drain_idle [OF run1] drain_idle [OF run2] by simp_all
  have k3: "kept (s2\<lparr>owner_history := t2\<rparr>) s3"
    by (rule timed.drain_keeps [OF _ run3]) (auto simp: case_prod_beta intro: keeps_recovery_change)
  have k: "kept s s3" by (rule kept_irrelevant [OF _ _ k3]) (simp_all add: s2)
  show "kept s s'" by (rule kept_trans [OF k]) (simp add: s' kept_view)
  assume wf: "wf_table (recovery_requests s)" "wf_table (change_requests s)"
  have "recovery_requests s3 = recovery_requests (s2\<lparr>owner_history := t2\<rparr>)"
    by (rule timed.drain_frame [OF _ run3]) (auto simp: modify_account_def put_account_def)
  then show "recovery_requests s' = filter (\<lambda>(n, r). \<not> rec_expires r \<le> head_block_time s) (recovery_requests s) \<and>
      change_requests s' = filter (\<lambda>(n, c). \<not> effective_on c \<le> head_block_time s) (change_requests s)"
    using timed.drained [OF wf(1) run1] timed.drained [OF _ run3] wf(2) s1 s2 s' by (simp add: case_prod_unfold)
qed

text \<open>Giving up the right to adore takes the account's levels from its proxies and simings for good.\<close>

lemma kept_decline:
  assumes F: "fc_laws F" and run: "decline_adoring_rights_of F n s = Inr s'"
  shows "kept s s'"
  unfolding kept_def
proof
  assume ok: "chain_ok s"
  then have b: "balanced s" and sh: "shape s" and pr: "proxies_ok s" and l: "ledger_ok s"
    by (simp_all add: chain_ok_def ledger_ok_def gbalanced_def gbooks_def)
  obtain a delta s1 s2 where a: "map_of (accounts s) n = Some a" and delta: "own_levels F a = Inr delta"
    and s1: "adjust_proxied_siming_adores_array F n delta s = Inr s1" and s2: "clear_siming_adores n s1 = Inr s2"
    and s3: "modify_account n (\<lambda>a. Inr (a\<lparr>can_adore := False, proxy := 0\<rparr>)) s2 = Inr s'"
    using run by (auto simp: decline_adoring_rights_of_def)
  have len: "length (proxied_vsf_adores a) = 4" using sh a by (simp add: shape_def)
  note dl = own_levels_value(2) [OF F len delta]
  have acyc: "(n, n) \<notin> (proxy_rel s)\<^sup>+" using pr by (auto simp: proxies_ok_def acyclic_def)
  have run1: "adjust_proxied_array F 4 n delta s = Inr s1"
    using s1 by (simp add: adjust_proxied_siming_adores_array_def TAIYI_MAX_PROXY_RECURSION_DEPTH_def)
  have e1: "gbalanced (taken n delta) s1" "only_adores s s1"
    using adjust_proxied_array_books [OF F order_refl, of "taken n delta" n delta s s1] run1 gbooks_take b by simp_all
  have a1: "map_of (accounts s1) n = Some a" using array_untouched [OF run1 acyc] a by simp
  have pr1: "proxies_ok s1" using pr proxies_ok_cong [OF only_adores_proxies [OF e1(2)]] by simp
  have z: "level a j + taken n delta n j = 0" if "j < 5" for j using dl [OF that] that by (simp add: taken_def)
  have sh1: "shape s1" using e1(1) by (simp add: gbalanced_def gbooks_def)
  have wf: "wf_table (accounts s)" "wf_table (accounts s1)" "wf_table (siming_adores s1)"
    using sh sh1 by (simp_all add: shape_def)
  let ?a = "a\<lparr>simings_adored_for := 0, can_adore := False, proxy := 0\<rparr>"
  let ?A = "tdels (map (Product_Type.Pair n) (adored_by s1 n)) (siming_adores s1)"
  have tt: "tput n x (tput n y (accounts s1)) = tput n x (accounts s1)" for x y
    using wf(2) by (intro wf_table_ext) auto
  have s': "s' = s1\<lparr>accounts := tput n ?a (accounts s1), siming_adores := ?A\<rparr>"
    using s2 s3 a1 by (auto simp: clear_siming_adores_def modify_account_def put_account_def tt)
  have wfA: "wf_table ?A" using wf(3) by simp
  have g: "gbalanced (taken n delta) s'"
    by (rule gbalanced_replace [OF e1(1) a1 z _ _ wfA _ _ _ s']) (simp_all add: adored_cleared)
  have b': "balanced s'"
    by (rule gbalanced_idle [OF g, where a = ?a]) (simp_all add: s' adored_cleared)
  have ln: "links s1 n = Some (proxy a, acc_id a)" using a1 by (simp add: links_def)
  have "links s' = (links s1)(n \<mapsto> (0, acc_id a))" by (auto simp: s' links_def fun_eq_iff)
  from proxies_ok_change [OF pr1 ln this] have pr': "proxies_ok s'" by (simp add: s')
  have "total_of h s' = total_of h s1" if "h ?a = h a" for h
    using that by (simp add: total_of_def s' tsum_update [OF wf(2) a1])
  then have "same_totals s1 s'" by (simp add: same_totals_def s')
  then have t': "same_totals s s'" using same_totals_trans [OF only_adores_totals [OF e1(2) wf(1,2)]] by blast
  then show "chain_ok s' \<and> worth s' = worth s \<and> current_supply (gpo s') = current_supply (gpo s)"
    using same_totals_ledger [OF t' l b'] pr' by (simp add: chain_ok_def same_totals_def)
qed

lemma decline_effect:
  assumes F: "fc_laws F" and run: "process_decline_adoring_rights F s = Inr s'"
  shows "kept s s'" and "wf_table (decline_requests s) \<Longrightarrow> decline_requests s' = filter (\<lambda>(n, t). \<not> t \<le> head_block_time s) (decline_requests s)"
proof -
  obtain t s1 where d: "drain (\<lambda>(n, effective). (effective, n)) (\<lambda>(n, effective). effective \<le> head_block_time s)
      (\<lambda>(n, _). decline_adoring_rights_of F n) (decline_requests s) s = Inr (t, s1)"
    and s': "s' = s1\<lparr>decline_requests := t\<rparr>"
    using run by (auto simp: process_decline_adoring_rights_def Let_def)
  have k: "kept s s1"
    by (rule timed.drain_keeps [OF _ d]) (auto simp: keeps_def intro: kept_decline [OF F])
  show "kept s s'" by (rule kept_trans [OF k]) (simp add: s' kept_view)
  show "decline_requests s' = filter (\<lambda>(n, t). \<not> t \<le> head_block_time s) (decline_requests s)"
    if "wf_table (decline_requests s)"
    using timed.drained [OF that d] s' by (simp add: case_prod_unfold)
qed

subsection \<open>Inflation\<close>

lemma sdiv_le: "a \<le> c * b \<Longrightarrow> 0 \<le> c \<Longrightarrow> 0 < b \<Longrightarrow> (a::int) sdiv b \<le> c"
proof (cases "0 \<le> a")
  case True
  assume "a \<le> c * b" "0 < b"
  then have "a div b \<le> c * b div b" by (intro zdiv_mono1) simp_all
  then show ?thesis using True \<open>0 < b\<close> by (simp add: sdiv_nonneg)
next
  case False
  assume "0 \<le> c" "0 < b"
  then have "sgn a = - 1" "sgn b = 1" using False by simp_all
  then have "a sdiv b = - (\<bar>a\<bar> div \<bar>b\<bar>)" by (simp add: signed_divide_int_def)
  moreover have "0 \<le> \<bar>a\<bar> div \<bar>b\<bar>" using \<open>0 < b\<close> by (simp add: pos_imp_zdiv_nonneg_iff)
  ultimately show ?thesis using \<open>0 \<le> c\<close> by linarith
qed

lemma percent_of_bounds:
  assumes F: "fc_laws F" and run: "percent_of F x p = Inr v" and x: "x \<le> m" "0 \<le> m"
  shows "1000 \<le> v" "v \<le> 7 * m + 1000"
proof -
  have v: "v = max ((x * uint p) sdiv 10000) 1000"
    using run F by (auto simp: percent_of_def TAIYI_100_PERCENT_def TAIYI_MIN_REWARD_FUND_def fc_simps)
  have p: "0 \<le> uint p" "uint p \<le> 65535" using uint_lt2p [of p] by simp_all
  have "x * uint p \<le> m * uint p" by (rule mult_right_mono [OF x(1) p(1)])
  also have "\<dots> \<le> m * 65535" by (rule mult_left_mono [OF p(2) x(2)])
  finally have "x * uint p \<le> (7 * m) * 10000" using x(2) by simp
  then have "(x * uint p) sdiv 10000 \<le> 7 * m" by (rule sdiv_le) (use x(2) in simp_all)
  then show "1000 \<le> v" "v \<le> 7 * m + 1000" using v x(2) by simp_all
qed

lemma fund_put:
  assumes "wf_table (reward_funds s)" "map_of (reward_funds s) i = Some rf"
  shows "fund_of g (s\<lparr>reward_funds := tput i rf' (reward_funds s)\<rparr>) = fund_of g s + amount (g rf') - amount (g rf)"
  by (simp add: fund_of_def tsum_update [OF assms])

lemma moved_fund:
  assumes wf: "wf_table (reward_funds s)" and rf: "map_of (reward_funds s) i = Some rf"
    and d: "amount (reward_balance rf') = amount (reward_balance rf) + y" "amount (fund_qi_balance rf') = amount (fund_qi_balance rf) + 1000 * q"
    and g: "amount (pending_rewarded_qi p) = amount (pending_rewarded_qi (gpo s)) + 1000 * q"
      "p = (gpo s)\<lparr>pending_rewarded_qi := z\<rparr>"
    and s': "s' = s\<lparr>reward_funds := tput i rf' (reward_funds s), gpo := p\<rparr>"
  shows "moved (1000 * (y + q)) s s'"
  unfolding moved_def
proof
  assume ok: "chain_ok s"
  let ?t = "s\<lparr>reward_funds := tput i rf' (reward_funds s)\<rparr>"
  have b: "balanced s'" using ok s' by (simp add: chain_ok_def ledger_ok_def gbalanced_def gbooks_def shape_def gproxied_def gadored_def)
  have f: "fund_of h s' = fund_of h s + amount (h rf') - amount (h rf)" for h
    using fund_put [OF wf rf, of h rf'] s' by (simp add: fund_of_def)
  have t: "total_of h s' = total_of h s" "nfa_qi_total s' = nfa_qi_total s" "cultivated s' = cultivated s" for h
    by (simp_all add: s' total_of_def nfa_qi_total_def cultivated_def)
  have "ledger_ok s'" using ok b f t d g s' by (simp add: chain_ok_def ledger_ok_def)
  moreover have "worth s' = worth s + 1000 * (y + q)" using f [of reward_balance] f [of fund_qi_balance] t d by (simp add: worth_def)
  moreover have "proxies_ok s'"
    using ok proxies_ok_cong [of s s'] s' by (simp add: chain_ok_def same_proxies_accounts)
  ultimately show "chain_ok s' \<and> worth s' = worth s + 1000 * (y + q) \<and> current_supply (gpo s') = current_supply (gpo s)"
    using s' g(2) by (simp add: chain_ok_def)
qed

lemma pay_reward_fund_effect:
  assumes F: "fc_laws F" and wf: "wf_table (reward_funds s)" and rf: "map_of (reward_funds s) i = Some rf"
    and b: "ry \<le> 10 ^ 10" "rq \<le> 10 ^ 10"
    and run: "pay_reward_fund F modify_gpo ry rq (i, rf) (uy, uq, s) = Inr (uy', uq', s')"
  shows "moved (1000 * ((uy' - uy) + (uq' - uq))) s s' \<and> uy \<le> uy' \<and> uq \<le> uq' \<and> uy' \<le> ry \<and> uq' \<le> rq \<and>
    (\<exists>rf' p z. s' = s\<lparr>reward_funds := tput i rf' (reward_funds s), gpo := p\<rparr> \<and> p = (gpo s)\<lparr>pending_rewarded_qi := z\<rparr>)"
proof -
  obtain y q where y: "percent_of F ry (percent_content_rewards rf) = Inr y"
    and q: "percent_of F rq (percent_content_rewards rf) = Inr q"
    using run by (auto simp: pay_reward_fund_def)
  have yb: "1000 \<le> y" using percent_of_bounds [OF F y b(1)] by simp
  have qb: "1000 \<le> q" "q \<le> 7 * 10 ^ 10 + 1000" using percent_of_bounds [OF F q b(2)] by simp_all
  have conv: "asset_at_price F (yang q) TAIYI_QI_SHARE_PRICE = Inr (qis (1000 * q))"
    by (rule yang_to_qi [OF F]) (use qb in simp_all)
  obtain b' q' p z where b': "asset_add F (reward_balance rf) (yang y) = Inr b'"
    and q': "asset_add F (fund_qi_balance rf) (qis (1000 * q)) = Inr q'"
    and z: "asset_add F (pending_rewarded_qi (gpo s)) (qis (1000 * q)) = Inr z"
    and p: "p = (gpo s)\<lparr>pending_rewarded_qi := z\<rparr>"
    and s': "s' = s\<lparr>reward_funds := tput i (rf\<lparr>reward_balance := b', fund_qi_balance := q', fund_last_update := head_block_time s\<rparr>)
                 (reward_funds s), gpo := p\<rparr>"
    and u: "uy' = uy + y" "uq' = uq + q" "uy' \<le> ry" "uq' \<le> rq"
    using run y q conv F by (auto simp: pay_reward_fund_def modify_gpo_def Let_def fc_simps)
  have "moved (1000 * (y + q)) s s'"
    by (rule moved_fund [OF wf rf _ _ _ p s']) (use b' q' z p F in simp_all)
  then show ?thesis using u yb qb s' p by (auto simp: add.commute)
qed

lemma pay_reward_funds_effect:
  assumes F: "fc_laws F" and b: "ry \<le> 10 ^ 10" "rq \<le> 10 ^ 10"
  shows "rfold (pay_reward_fund F modify_gpo ry rq) rows (uy, uq, s) = Inr (uy', uq', s') \<Longrightarrow>
    wf_table (reward_funds s) \<Longrightarrow> distinct (map fst rows) \<Longrightarrow>
    (\<And>i rf. (i, rf) \<in> set rows \<Longrightarrow> map_of (reward_funds s) i = Some rf) \<Longrightarrow>
    moved (1000 * ((uy' - uy) + (uq' - uq))) s s' \<and> uy \<le> uy' \<and> uq \<le> uq' \<and>
    (uy \<le> ry \<longrightarrow> uy' \<le> ry) \<and> (uq \<le> rq \<longrightarrow> uq' \<le> rq) \<and> head_block_num s' = head_block_num s \<and> current_siming (gpo s') = current_siming (gpo s)"
proof (induction rows arbitrary: uy uq s)
  case Nil
  then show ?case by simp
next
  case (Cons x rows)
  obtain i rf where x: "x = (i, rf)" by (cases x)
  obtain uy1 uq1 s1 where one: "pay_reward_fund F modify_gpo ry rq (i, rf) (uy, uq, s) = Inr (uy1, uq1, s1)"
    and rest: "rfold (pay_reward_fund F modify_gpo ry rq) rows (uy1, uq1, s1) = Inr (uy', uq', s')"
    using Cons.prems(1) x by auto
  have rf: "map_of (reward_funds s) i = Some rf" using Cons.prems(4) x by simp
  note e = pay_reward_fund_effect [OF F Cons.prems(2) rf b one]
  then obtain rf' p z where s1: "s1 = s\<lparr>reward_funds := tput i rf' (reward_funds s), gpo := p\<rparr>"
    and p: "p = (gpo s)\<lparr>pending_rewarded_qi := z\<rparr>" by blast
  have "map_of (reward_funds s1) j = Some r" if "(j, r) \<in> set rows" for j r
  proof -
    have "j \<noteq> i" using Cons.prems(3) x that by (auto simp: image_iff)
    then show ?thesis using Cons.prems(4) that s1 by simp
  qed
  then have ih: "moved (1000 * ((uy' - uy1) + (uq' - uq1))) s1 s' \<and> uy1 \<le> uy' \<and> uq1 \<le> uq' \<and>
      (uy1 \<le> ry \<longrightarrow> uy' \<le> ry) \<and> (uq1 \<le> rq \<longrightarrow> uq' \<le> rq) \<and> head_block_num s' = head_block_num s1 \<and> current_siming (gpo s') = current_siming (gpo s1)"
    using Cons.IH [OF rest] Cons.prems(2,3) s1 by simp
  have "moved (1000 * ((uy1 - uy) + (uq1 - uq)) + 1000 * ((uy' - uy1) + (uq' - uq1))) s s'"
    using moved_trans e ih by blast
  then show ?case using e ih s1 p by (simp add: algebra_simps head_block_num_def)
qed

lemma pay_siming_effect:
  assumes F: "fc_laws F" and r: "0 \<le> r" "r * 1000 < 2 ^ 63" and run: "pay_siming F r s = Inr (v, s')"
  shows "moved (1000 * r) s s'"
proof -
  let ?o = "current_siming (gpo s)"
  obtain a where a: "map_of (accounts s) ?o = Some a" using run by (auto simp: pay_siming_def Let_def)
  consider (qi) "create_qi2 F ?o (yang r) False (\<lambda>qi. push_vop (Producer_reward ?o qi)) s = Inr (v, s')"
    | (yang) "modify_account ?o (\<lambda>a. rbind (asset_add F (balance a) (yang r)) (\<lambda>x. Inr (a\<lparr>balance := x\<rparr>)))
        (push_vop (Producer_reward ?o (yang r)) s) = Inr s'"
    using run by (auto simp: pay_siming_def Let_def split: if_splits)
  then show ?thesis
  proof cases
    case qi
    let ?s = "push_vop (Producer_reward ?o (qis (1000 * r))) s"
    have c: "create_qi F ?o (yang r) False ?s = Inr (v, s')"
      using qi yang_to_qi [OF F r] by (simp add: create_qi_def create_qi2_def)
    have v: "view ?s = view s" "next_account_id ?s = next_account_id s" by (simp_all add: push_vop_def view_def)
    have "moved (1000 * r) ?s s'" using moved_create_qi [OF F c r] by simp
    then show ?thesis using moved_trans [of 0 s ?s "1000 * r" s'] kept_view [OF v] by simp
  next
    case yang
    let ?s = "push_vop (Producer_reward ?o (yang r)) s"
    obtain x where x: "asset_add F (balance a) (yang r) = Inr x" and s': "s' = put_account ?o (a\<lparr>balance := x\<rparr>) ?s"
      using yang a by (auto simp: modify_account_def)
    have v: "view ?s = view s" "next_account_id ?s = next_account_id s" by (simp_all add: push_vop_def view_def)
    have "modify_balance F ?o (yang r) False ?s = Inr s'"
      using x a s' by (simp add: modify_balance_def modify_account_def add_checked_def get_account_def)
    then have "moved (1000 * r) ?s s'" by (rule moved_modify_yang [OF F])
    then show ?thesis using moved_trans [of 0 s ?s "1000 * r" s'] kept_view [OF v] by simp
  qed
qed

lemma moved_supply:
  assumes run: "modify_gpo (\<lambda>p. rbind (asset_add F (current_supply p) (yang y)) (\<lambda>supply.
      rbind (f p) (\<lambda>r. Inr (p\<lparr>current_supply := supply, last_siming_production_reward := r\<rparr>)))) s = Inr s'"
    and F: "fc_laws F" and ok: "chain_ok s"
  shows "chain_ok s' \<and> worth s' = worth s \<and> amount (current_supply (gpo s')) = amount (current_supply (gpo s)) + y"
proof -
  obtain x r where x: "asset_add F (current_supply (gpo s)) (yang y) = Inr x"
    and s': "s' = s\<lparr>gpo := (gpo s)\<lparr>current_supply := x, last_siming_production_reward := r\<rparr>\<rparr>"
    using run by (auto simp: modify_gpo_def)
  have "ledger_ok s'" using ok by (simp add: chain_ok_def ledger_ok_def gbalanced_def s')
  moreover have "proxies_ok s' = proxies_ok s" by (rule proxies_ok_cong) (simp add: s')
  ultimately have "chain_ok s'" using ok by (simp add: chain_ok_def)
  then show ?thesis using x F by (simp add: s' worth_def)
qed

lemma new_yang_bound: "in_i64 p \<Longrightarrow> p sdiv (10000 * 10512000) \<le> 10 ^ 8"
  by (rule sdiv_le) (simp_all add: in_i64_def)

lemma inflation_effect:
  assumes F: "fc_laws F" and ok: "chain_ok s" and wf: "wf_table (reward_funds s)"
    and run: "process_funds F modify_gpo s = Inr s'"
  shows "\<exists>y u v. chain_ok s' \<and> amount (current_supply (gpo s')) = amount (current_supply (gpo s)) + y \<and>
    worth s' = worth s + 1000 * y \<and>
    (let rate = current_inflation_rate s; new = amount (current_supply (gpo s)) * rate sdiv (10000 * TAIYI_BLOCKS_PER_YEAR);
         share = \<lambda>p. max (new * uint p sdiv 10000) TAIYI_MIN_REWARD_FUND
     in 100 \<le> rate \<and> rate \<le> 1000 \<and> y = max new (u + v + TAIYI_MIN_REWARD_FUND) \<and>
        0 \<le> u \<and> u \<le> share (content_reward_yang_percent (gpo s)) \<and>
        0 \<le> v \<and> v \<le> share (content_reward_qi_fund_percent (gpo s)))"
proof -
  define rate where "rate = current_inflation_rate s"
  define new where "new = amount (current_supply (gpo s)) * rate sdiv (10000 * TAIYI_BLOCKS_PER_YEAR)"
  have year: "TAIYI_BLOCKS_PER_YEAR = 10512000" by (simp add: TAIYI_BLOCKS_PER_YEAR_def)
  have r: "100 \<le> rate" "rate \<le> 1000"
    by (simp_all add: rate_def current_inflation_rate_def TAIYI_INFLATION_RATE_START_PERCENT_def TAIYI_INFLATION_RATE_STOP_PERCENT_def)
  obtain ry rq u v s1 w s2 y where ny: "in_i64 (amount (current_supply (gpo s)) * rate)"
    and ry: "percent_of F new (content_reward_yang_percent (gpo s)) = Inr ry"
    and rq: "percent_of F new (content_reward_qi_fund_percent (gpo s)) = Inr rq"
    and funds: "pay_reward_funds F modify_gpo ry rq s = Inr (u, v, s1)"
    and pay: "pay_siming F (max (new - u - v) 1000) s1 = Inr (w, s2)"
    and y: "y = u + v + max (new - u - v) 1000"
    and fin: "modify_gpo (\<lambda>p. rbind (asset_add F (current_supply p) (yang y)) (\<lambda>supply.
       rbind (if symbol w = QI_SYMBOL then Inr w else asset_at_price F w TAIYI_QI_SHARE_PRICE) (\<lambda>r.
       Inr (p\<lparr>current_supply := supply, last_siming_production_reward := r\<rparr>)))) s2 = Inr s'"
    using run F by (auto simp: process_funds_def Let_def fc_simps rate_def new_def year TAIYI_100_PERCENT_def
        TAIYI_MIN_REWARD_FUND_def)
  have nb: "new \<le> 10 ^ 8" unfolding new_def year by (rule new_yang_bound [OF ny])
  note rb = percent_of_bounds [OF F ry nb] percent_of_bounds [OF F rq nb]
  have "moved (1000 * ((u - 0) + (v - 0))) s s1 \<and> 0 \<le> u \<and> 0 \<le> v \<and> (0 \<le> ry \<longrightarrow> u \<le> ry) \<and> (0 \<le> rq \<longrightarrow> v \<le> rq) \<and>
      head_block_num s1 = head_block_num s \<and> current_siming (gpo s1) = current_siming (gpo s)"
    by (rule pay_reward_funds_effect [OF F _ _ funds [unfolded pay_reward_funds_def] wf])
      (use rb wf wf_distinct [OF wf] in \<open>simp_all add: wf_map_of_iff ids_def\<close>)
  then have e: "moved (1000 * (u + v)) s s1" "0 \<le> u" "0 \<le> v" "u \<le> ry" "v \<le> rq" using rb by simp_all
  have "max (new - u - v) 1000 \<le> 10 ^ 8" using nb e by simp
  then have "max (new - u - v) 1000 * 1000 \<le> 10 ^ 8 * 1000" by (rule mult_right_mono) simp
  then have "max (new - u - v) 1000 * 1000 < 2 ^ 63" by (rule le_less_trans) simp
  then have "moved (1000 * max (new - u - v) 1000) s1 s2"
    by (intro pay_siming_effect [OF F _ _ pay]) simp_all
  from moved_trans [OF e(1) this] have m: "moved (1000 * y) s s2" by (simp add: y algebra_simps)
  then have s2: "chain_ok s2" "worth s2 = worth s + 1000 * y" "current_supply (gpo s2) = current_supply (gpo s)"
    using ok by (simp_all add: moved_def)
  have pv: "x = max (new * uint p sdiv 10000) 1000" if "percent_of F new p = Inr x" for p x
    using that F by (auto simp: percent_of_def TAIYI_100_PERCENT_def TAIYI_MIN_REWARD_FUND_def fc_simps)
  have "y = max new (u + v + 1000)" unfolding y by (simp add: max_def)
  then show ?thesis
    unfolding Let_def rate_def [symmetric] new_def [symmetric] TAIYI_MIN_REWARD_FUND_def
    using moved_supply [OF fin F s2(1)] s2 r e pv [OF ry] pv [OF rq]
    by (intro exI [of "\<lambda>y. \<exists>u v. _ y u v" y] exI [of "\<lambda>u. \<exists>v. _ u v" u] exI [of _ v]) simp
qed


definition funded :: chain where
  "funded = sample_chain\<lparr>
     simings := [(n_alice, new_siming_object\<lparr>signing_key := 5\<rparr>), (n_carol, new_siming_object\<lparr>adores := 1000, signing_key := 4\<rparr>)],
     reward_funds := [(0, \<lparr>fund_name = n_cultivation, reward_balance = yang 0, fund_qi_balance = qis 0, fund_last_update = 0, percent_content_rewards = 10000\<rparr>)],
     gpo := sample_gpo\<lparr>current_siming := n_alice\<rparr>\<rparr>"

lemma funded_balanced: "balanced funded"
  unfolding gbalanced_def gbooks_def
proof (intro conjI allI impI)
  show "shape funded"
    by (auto simp: shape_def funded_def sample_chain_def acc_simps n_defs replicate_4 split: if_splits)
next
  fix m p and j :: nat assume "map_of (accounts funded) m = Some p" "j < 4"
  then show "proxied_vsf_adores p ! j = proxied_level 0 (\<lambda>_. 0) m j funded"
    by (auto simp: funded_def sample_chain_def gproxied_def level_def acc_simps n_defs replicate_4 less_4 split: if_splits)
next
  fix w sim assume "map_of (simings funded) w = Some sim"
  then show "adores sim = adored_weight 0 (\<lambda>_. 0) w funded"
    by (auto simp: funded_def sample_chain_def new_siming_object_def gadored_def gfull_def sum_5 level_def acc_simps n_defs replicate_4 split: if_splits)
qed

lemma funded_ok: "chain_ok funded"
proof -
  have "ledger_ok funded"
    unfolding ledger_ok_def
    by (intro conjI funded_balanced)
      (simp_all add: funded_def sample_chain_def sample_gpo_def total_of_def fund_of_def nfa_qi_total_def cultivated_def acc_simps)
  moreover have "same_proxies sample_chain funded" by (simp add: same_proxies_accounts funded_def)
  then have "proxies_ok funded" using sample_ok proxies_ok_cong by (simp add: chain_ok_def)
  ultimately show ?thesis by (simp add: chain_ok_def)
qed

lemma funded_rate: "current_inflation_rate funded = 1000"
  by (simp add: current_inflation_rate_def head_block_num_def funded_def sample_gpo_def TAIYI_INFLATION_RATE_START_PERCENT_def
      TAIYI_INFLATION_RATE_STOP_PERCENT_def TAIYI_INFLATION_NARROWING_PERIOD_def)

lemma percent_of_small:
  assumes "fc_laws F" "0 \<le> x * uint p" "x * uint p < 10 ^ 18"
  shows "percent_of F x p = Inr (max (x * uint p div 10000) 1000)"
proof -
  have "0 \<le> x * uint p div 10000" "x * uint p div 10000 \<le> x * uint p"
    using assms(2) zdiv_mono2 [of "x * uint p" 1 10000] by (simp_all add: pos_imp_zdiv_nonneg_iff)
  then show ?thesis
    using assms by (simp add: percent_of_def TAIYI_100_PERCENT_def TAIYI_MIN_REWARD_FUND_def fc_simps in_i64_def sdiv_nonneg)
qed

lemma funded_parts:
  "gpo funded = sample_gpo\<lparr>current_siming := n_alice\<rparr>" "map_of (accounts funded) n_alice = Some acc_alice"
  "map_of (simings funded) n_alice = Some (new_siming_object\<lparr>signing_key := 5\<rparr>)"
  "reward_funds funded = [(0, \<lparr>fund_name = n_cultivation, reward_balance = yang 0, fund_qi_balance = qis 0, fund_last_update = 0, percent_content_rewards = 10000\<rparr>)]"
  by (simp_all add: funded_def sample_chain_def)

lemma funded_runs: "\<exists>s'. process_funds fc_ref modify_gpo funded = Inr s'"
proof -
  have price: "asset_at_price fc_ref (yang 1000) TAIYI_QI_SHARE_PRICE = Inr (qis 1000000)"
    using yang_to_qi [OF fc_ref_laws, of 1000] by simp
  have z: "(50004000 :: int) sdiv 105120000000 = 0" by (simp add: sdiv_nonneg)
  have p: "percent_of fc_ref 0 q = Inr 1000" "percent_of fc_ref 1000 (10000 :: u16) = Inr 1000" for q
    using percent_of_small [OF fc_ref_laws, of 0 q] percent_of_small [OF fc_ref_laws, of 1000 10000] by simp_all
  have q: "amount (qi acc_alice) = 900" "balance acc_alice = yang 50000" by (simp_all add: acc_alice_def)
  show ?thesis
    by (simp add: process_funds_def funded_rate fc_ref_simps z p price pay_reward_funds_def pay_reward_fund_def pay_siming_def
        TAIYI_100_PERCENT_def TAIYI_BLOCKS_PER_YEAR_def TAIYI_MIN_REWARD_FUND_def asset_add_def in_i64_def modify_gpo_def
        modify_account_def get_account_def get_siming_def Let_def head_block_num_def TAIYI_START_ADORING_BLOCK_def
        TAIYI_BLOCKS_PER_DAY_def TAIYI_BLOCK_INTERVAL_def funded_parts q sample_gpo_def push_vop_def)
qed


subsection \<open>The queues together\<close>

definition wf_queues :: "chain \<Rightarrow> bool" where
  "wf_queues s \<longleftrightarrow> wf_table (delegation_expirations s) \<and> wf_table (recovery_requests s) \<and>
     wf_table (change_requests s) \<and> wf_table (decline_requests s)"


definition declining :: chain where
  "declining = sample_chain\<lparr>decline_requests := [(n_alice, 1762850000), (n_bob, 1762850001)]\<rparr>"

lemma declining_ok: "chain_ok declining"
proof -
  have "kept sample_chain declining" by (rule kept_view) (simp_all add: declining_def)
  then show ?thesis using sample_ok by (simp add: kept_def)
qed

lemma declining_runs: "\<exists>s'. process_decline_adoring_rights fc_ref declining = Inr s'"
proof -
  have d: "\<exists>u. decline_adoring_rights_of fc_ref n_alice declining = Inr u"
    by (simp add: decline_adoring_rights_of_def declining_def run_simps own_levels_def up_4 adjust_array_self
        adjust_proxied_siming_adores_array_def clear_siming_adores_def del: upt_Suc)
  then obtain u where u: "decline_adoring_rights_of fc_ref n_alice declining = Inr u" by blast
  have "n_bob \<noteq> n_alice" "head_block_time declining = 1762850000" "decline_requests declining = [(n_alice, 1762850000), (n_bob, 1762850001)]"
    by (simp_all add: declining_def sample_chain_def sample_gpo_def head_block_time_def n_defs)
  then show ?thesis using u
    by (simp add: process_decline_adoring_rights_def Let_def tdel_def drain.simps [of _ _ _ "[_, _]"] drain.simps [of _ _ _ "[_]"])
qed


end
