(* ===== verification/Block_Ledger.thy ===== *)
theory Block_Ledger
  imports Block_Application Upkeep_Ledger
begin

section \<open>A block keeps the ledger\<close>

text \<open>
  Every step of a block that is neither an operation nor a payment leaves the money alone: \<open>quiet\<close>.
  With the steps that pay this gives the whole block.
\<close>

subsection \<open>Steps that leave the money alone\<close>

definition money :: "dynamic_global_property_object \<Rightarrow> asset \<times> asset \<times> asset \<times> asset \<times> asset" where
  "money p = (total_qi p, pending_rewarded_qi p, pending_rewarded_feigang p, pending_cultivation_qi p, current_supply p)"

definition same_adores :: "(account_name_type, siming_object) tbl \<Rightarrow> (account_name_type, siming_object) tbl \<Rightarrow> bool" where
  "same_adores t u \<longleftrightarrow> ids u = ids t \<and> (\<forall>w. map_option adores (map_of u w) = map_option adores (map_of t w))"

definition quiet :: "chain \<Rightarrow> chain \<Rightarrow> bool" where
  "quiet s s' \<longleftrightarrow> accounts s' = accounts s \<and> siming_adores s' = siming_adores s \<and> reward_funds s' = reward_funds s \<and>
     nfas s' = nfas s \<and> next_account_id s' = next_account_id s \<and> money (gpo s') = money (gpo s) \<and>
     (wf_table (simings s) \<longrightarrow> same_adores (simings s) (simings s'))"

lemma same_adores_refl [simp]: "same_adores t t"
  by (simp add: same_adores_def)

lemma same_adores_wf: "same_adores t u \<Longrightarrow> wf_table t \<Longrightarrow> wf_table u"
  by (simp add: same_adores_def wf_table_def)

lemma same_adores_trans: "same_adores t u \<Longrightarrow> same_adores u v \<Longrightarrow> same_adores t v"
  by (simp add: same_adores_def)

lemma quiet_refl [simp, intro]: "quiet s s"
  by (simp add: quiet_def)

lemma quiet_trans: "quiet s t \<Longrightarrow> quiet t u \<Longrightarrow> quiet s u"
  unfolding quiet_def using same_adores_trans same_adores_wf by metis

lemma quiet_kept: "quiet s s' \<Longrightarrow> kept s s'"
  unfolding kept_def
proof
  assume q: "quiet s s'" and ok: "chain_ok s"
  then have b: "balanced s" and l: "ledger_ok s" by (simp_all add: chain_ok_def ledger_ok_def)
  have wf: "wf_table (simings s)" using b by (simp add: gbalanced_def gbooks_def shape_def)
  then have sa: "same_adores (simings s) (simings s')" using q by (simp add: quiet_def)
  have "balanced (s\<lparr>simings := simings s'\<rparr>)"
    by (rule balanced_simings [OF b]) (use sa same_adores_wf [OF sa wf] in \<open>simp_all add: same_adores_def\<close>)
  then have b': "balanced s'" using q by (simp add: gbalanced_def gbooks_def shape_def gproxied_def gadored_def quiet_def)
  have "ledger_ok s'" using l b' q by (simp add: ledger_ok_def total_of_def fund_of_def nfa_qi_total_def cultivated_def quiet_def money_def)
  moreover have "worth s' = worth s" using q by (simp add: worth_def total_of_def fund_of_def nfa_qi_total_def cultivated_def quiet_def)
  moreover have "proxies_ok s' = proxies_ok s"
    by (rule proxies_ok_cong) (use q in \<open>simp add: quiet_def same_proxies_accounts\<close>)
  ultimately show "chain_ok s' \<and> worth s' = worth s \<and> current_supply (gpo s') = current_supply (gpo s)"
    using ok q by (simp add: chain_ok_def quiet_def money_def)
qed

lemma quiet_frame:
  "quiet s (push_vop v s)" "quiet s (s\<lparr>hardforks := h\<rparr>)" "quiet s (s\<lparr>schedule := c\<rparr>)"
  "money p = money (gpo s) \<Longrightarrow> quiet s (s\<lparr>gpo := p\<rparr>)"
  by (simp_all add: quiet_def push_vop_def)

lemma ids_tput_present: "map_of t n = Some w \<Longrightarrow> wf_table t \<Longrightarrow> ids (tput n v t) = ids t"
proof -
  assume "map_of t n = Some w" "wf_table t"
  then have "set (ids (tput n v t)) = set (ids t)" by (auto simp: set_ids)
  moreover have "wf_table (tput n v t)" using \<open>wf_table t\<close> by simp
  ultimately show ?thesis using \<open>wf_table t\<close> unfolding wf_table_def by (metis strict_sorted_equal)
qed

lemma quiet_put_siming:
  "map_of (simings s) n = Some w \<Longrightarrow> adores w' = adores w \<Longrightarrow> quiet s (put_siming n w' s)"
  by (auto simp: quiet_def put_siming_def same_adores_def ids_tput_present)

lemma quiet_modify_siming:
  "modify_siming n f s = Inr s' \<Longrightarrow> (\<And>w w'. f w = Inr w' \<Longrightarrow> adores w' = adores w) \<Longrightarrow> quiet s s'"
  by (auto simp: modify_siming_def intro: quiet_put_siming)

lemma quiet_rfold:
  "rfold f xs s = Inr s' \<Longrightarrow> (\<And>x s s'. f x s = Inr s' \<Longrightarrow> quiet s s') \<Longrightarrow> quiet s s'"
  by (rule rfold_invariant [where P = "quiet s"]) (auto intro: quiet_trans)

subsection \<open>The counters\<close>

lemma quiet_count_missed: "count_missed b i s = Inr s' \<Longrightarrow> quiet s s'"
proof -
  assume run: "count_missed b i s = Inr s'"
  let ?n = "get_scheduled_siming s (of_nat i + 1)"
  obtain w where w: "map_of (simings s) ?n = Some w" using run by (auto simp: count_missed_def Let_def)
  have v: "quiet s (push_vop v s)" "map_of (simings (push_vop v s)) ?n = Some w" for v
    using w by (simp_all add: quiet_frame) (simp add: push_vop_def)
  consider "s' = s" | "s' = put_siming ?n (w\<lparr>total_missed := total_missed w + 1\<rparr>) s"
    | v where "s' = put_siming ?n (w\<lparr>total_missed := total_missed w + 1, signing_key := 0\<rparr>) (push_vop v s)"
    using run w by (auto simp: count_missed_def Let_def split: if_splits)
  then show ?thesis
  proof cases
    case 3
    show ?thesis unfolding 3 by (rule quiet_trans [OF v(1) quiet_put_siming [OF v(2)]]) simp
  qed (auto intro: quiet_put_siming [OF w])
qed

lemma money_fill: "money (fold fill_slot is p) = money p"
  by (induction "is" arbitrary: p) (simp_all add: fill_slot_def money_def Let_def)

lemma quiet_global_data: "update_global_dynamic_data k b s = Inr s' \<Longrightarrow> quiet s s'"
proof -
  assume "update_global_dynamic_data k b s = Inr s'"
  then obtain m s1 p where r: "rfold (count_missed (fs_of (siming b))) [0..<m] s = Inr s1"
    and p: "p = fold fill_slot [0..<m + 1] (gpo s1)"
    and s': "s' = s1\<lparr>gpo := p\<lparr>head_block_number := block_num b, head_time := timestamp b, current_aslot := current_aslot p + of_nat (m + 1)\<rparr>\<rparr>"
    unfolding update_global_dynamic_data_def Let_def by auto
  have "money p = money (gpo s1)" unfolding p by (rule money_fill)
  then have "quiet s1 s'" unfolding s' by (intro quiet_frame) (simp add: money_def)
  moreover have "quiet s s1" by (rule quiet_rfold [OF r]) (rule quiet_count_missed)
  ultimately show ?thesis using quiet_trans by blast
qed

lemma quiet_signing: "update_signing_siming n b s = Inr s' \<Longrightarrow> quiet s s'"
  unfolding update_signing_siming_def Let_def by (erule quiet_modify_siming) auto

lemma quiet_irreversible: "update_last_irreversible_block s = Inr (v, s') \<Longrightarrow> quiet s s'"
  by (auto simp: update_last_irreversible_block_def Let_def money_def split: if_splits intro!: quiet_frame)

lemma quiet_header: "process_header_extensions b s = Inr s' \<Longrightarrow> quiet s s'"
proof -
  assume run: "process_header_extensions b s = Inr s'"
  have "quiet t t'" if "process_header_extension n x t = Inr t'" for n x t t'
    using that by (cases "(n, x, t)" rule: process_header_extension.cases) (auto split: if_splits elim!: quiet_modify_siming)
  then show ?thesis using run unfolding process_header_extensions_def by (elim quiet_rfold) blast
qed

subsection \<open>The schedule and the hardforks\<close>

lemma quiet_adored: "elect_adored m ws (sel, act, s) = Inr (sel', act', s') \<Longrightarrow> quiet s s'"
proof (induction ws arbitrary: sel act s)
  case (Cons x ws)
  obtain n w where x: "x = (n, w)" by (cases x)
  consider "elect_adored m ws (sel, act, s) = Inr (sel', act', s')" | "s' = s"
    | t where "modify_siming n (\<lambda>wo. Inr (wo\<lparr>sim_schedule := elected\<rparr>)) s = Inr t"
        "elect_adored m ws (insort_insert (sim_id w) sel, act @ [n], t) = Inr (sel', act', s')"
    using Cons.prems x by (auto split: if_splits)
  then show ?case
  proof cases
    case (3 t)
    have "quiet s t" using quiet_modify_siming [OF 3(1)] by auto
    then show ?thesis using quiet_trans Cons.IH [OF 3(2)] by blast
  qed (auto dest: Cons.IH)
qed simp

lemma quiet_timeshare: "elect_timeshare sel ws (c, vt, pr, act, s) = Inr (c', vt', pr', act', s') \<Longrightarrow> quiet s s'"
proof (induction ws arbitrary: c vt pr act s)
  case (Cons x ws)
  obtain n w where x: "x = (n, w)" by (cases x)
  consider d where "elect_timeshare sel ws (c, virtual_scheduled_time w, pr @ [n], act, s) = Inr (c', vt', pr', act', s')" | "s' = s"
    | t where "modify_siming n (\<lambda>wo. Inr (wo\<lparr>sim_schedule := timeshare\<rparr>)) s = Inr t"
        "elect_timeshare sel ws (Suc c, virtual_scheduled_time w, pr @ [n], act @ [n], t) = Inr (c', vt', pr', act', s')"
    using Cons.prems x by (auto simp: Let_def split: if_splits)
  then show ?case
  proof cases
    case (3 t)
    have "quiet s t" using quiet_modify_siming [OF 3(1)] by auto
    then show ?thesis using quiet_trans Cons.IH [OF 3(2)] by blast
  qed (auto dest: Cons.IH)
qed simp

lemma quiet_advance: "advance_processed F vt ns s = Inr (r, s') \<Longrightarrow> quiet s s'"
proof (induction ns arbitrary: s)
  case (Cons n ns)
  obtain w lap where w: "map_of (simings s) n = Some w"
    and r: "(if u_add F vt lap < vt then Inr (True, s)
       else rbind (modify_siming n (\<lambda>wo. Inr (wo\<lparr>virtual_position := 0, virtual_last_update := vt,
                      virtual_scheduled_time := u_add F vt lap\<rparr>)) s) (advance_processed F vt ns)) = Inr (r, s')"
    using Cons.prems by (auto simp: Let_def)
  show ?case
  proof (cases "u_add F vt lap < vt")
    case False
    then obtain t where t: "modify_siming n (\<lambda>wo. Inr (wo\<lparr>virtual_position := 0, virtual_last_update := vt,
                      virtual_scheduled_time := u_add F vt lap\<rparr>)) s = Inr t" "advance_processed F vt ns t = Inr (r, s')"
      using r by auto
    have "quiet s t" using quiet_modify_siming [OF t(1)] by auto
    then show ?thesis using quiet_trans Cons.IH [OF t(2)] by blast
  qed (use r in simp)
qed simp

lemma same_adores_rows:
  assumes "list_all2 (\<lambda>x y. fst y = fst x \<and> adores (snd y) = adores (snd x)) t u"
  shows "same_adores t u"
proof -
  have "ids u = ids t" using assms by (induction rule: list_all2_induct) (auto simp: ids_def)
  moreover have "map_option adores (map_of u w) = map_option adores (map_of t w)" for w
    using assms by (induction rule: list_all2_induct) auto
  ultimately show ?thesis by (simp add: same_adores_def)
qed

lemma quiet_simings:
  "list_all2 (\<lambda>x y. fst y = fst x \<and> adores (snd y) = adores (snd x)) (simings s) t \<Longrightarrow> quiet s (s\<lparr>simings := t\<rparr>)"
  by (simp add: quiet_def same_adores_rows)

lemma quiet_reset: "reset_virtual_schedule_time F s = Inr s' \<Longrightarrow> quiet s s'"
proof -
  let ?s = "s\<lparr>schedule := (schedule s)\<lparr>current_virtual_time := 0\<rparr>\<rparr>"
  assume "reset_virtual_schedule_time F s = Inr s'"
  then obtain t where t: "rmap (\<lambda>(n, w). rbind (u_div F TAIYI_VIRTUAL_SCHEDULE_LAP_LENGTH (u_of_int F (adores w + 1))) (\<lambda>t.
           Inr (n, w\<lparr>virtual_position := 0, virtual_last_update := current_virtual_time (schedule ?s),
                     virtual_scheduled_time := t\<rparr>))) (simings ?s) = Inr t" and s': "s' = ?s\<lparr>simings := t\<rparr>"
    by (auto simp: reset_virtual_schedule_time_def Let_def)
  have "list_all2 (\<lambda>x y. fst y = fst x \<and> adores (snd y) = adores (snd x)) (simings ?s) t"
    using t unfolding rmap_Inr_iff by (rule list_all2_mono) auto
  then have "quiet ?s s'" unfolding s' by (rule quiet_simings)
  then show ?thesis using quiet_trans quiet_frame(3) by blast
qed

lemma quiet_median: "update_median_siming_props s = Inr s' \<Longrightarrow> quiet s s'"
  by (auto simp: update_median_siming_props_def Let_def quiet_def money_def)

lemma quiet_schedule: "update_siming_schedule F s = Inr s' \<Longrightarrow> quiet s s'"
proof (cases "head_block_num s mod of_nat TAIYI_MAX_SIMINGS = 0")
  case True
  assume "update_siming_schedule F s = Inr s'"
  then have run: "update_siming_schedule4 F s = Inr s'" using True by (simp add: update_siming_schedule_def)
  obtain sel act s1 c vt pr act2 s2 r s3 s4 ws mj V H where
    1: "elect_adored (unat (max_adored_simings (schedule s))) (simings_by_adores s) ([], [], s) = Inr (sel, act, s1)"
    and 2: "elect_timeshare sel (by_schedule_time s1) (length sel, current_virtual_time (schedule s1), [], act, s1) = Inr (c, vt, pr, act2, s2)"
    and 3: "advance_processed F vt pr s2 = Inr (r, s3)"
    and 4: "(if r then reset_virtual_schedule_time F s3 else Inr s3) = Inr s4"
    and 5: "update_median_siming_props (install_schedule act2 V mj (s4\<lparr>hardforks := H\<rparr>)) = Inr s'"
    using run unfolding update_siming_schedule4_def Let_def by auto
  have "quiet s3 s4" using 4 quiet_reset by (auto split: if_splits)
  moreover have "quiet s4 (install_schedule act2 V mj (s4\<lparr>hardforks := H\<rparr>))"
    unfolding install_schedule_def Let_def by (simp add: quiet_def)
  ultimately show ?thesis
    using quiet_adored [OF 1] quiet_timeshare [OF 2] quiet_advance [OF 3] quiet_median [OF 5] by (blast intro: quiet_trans)
qed (simp add: update_siming_schedule_def)

lemma quiet_apply_hardfork: "apply_hardfork V n s = Inr s' \<Longrightarrow> quiet s s'"
  by (auto simp: apply_hardfork_def Let_def quiet_def push_vop_def)

lemma quiet_set_hardfork: "set_hardfork V n b s = Inr s' \<Longrightarrow> quiet s s'"
  unfolding set_hardfork_def Let_def
  by (erule quiet_rfold) (auto split: if_splits intro: quiet_frame quiet_trans [OF quiet_frame(2) quiet_apply_hardfork])

lemma quiet_process_hardforks: "process_hardforks V s = Inr s' \<Longrightarrow> quiet s s'"
proof (induction V s rule: process_hardforks.induct)
  case (1 V s)
  have step: "process_hardforks V s =
     (if hf_versions V ! unat (last_hardfork (hardforks s)) < next_hardfork (hardforks s) \<and> next_hardfork_time (hardforks s) \<le> head_block_time s then
        if unat (last_hardfork (hardforks s)) < num_hardforks V
        then rbind (apply_hardfork V (Suc (unat (last_hardfork (hardforks s)))) s) (process_hardforks V)
        else Inl Unknown_hardfork
      else Inr s)"
    by (simp add: process_hardforks.simps [of V s] Let_def)
  consider "s' = s" | t where "apply_hardfork V (Suc (unat (last_hardfork (hardforks s)))) s = Inr t" "process_hardforks V t = Inr s'"
      "hf_versions V ! unat (last_hardfork (hardforks s)) < next_hardfork (hardforks s)"
      "next_hardfork_time (hardforks s) \<le> head_block_time s" "unat (last_hardfork (hardforks s)) < num_hardforks V"
    using "1.prems" unfolding step by (auto split: if_splits)
  then show ?case
  proof cases
    case (2 t)
    have "quiet t s'" using "1.IH" [OF refl refl _ 2(5) 2(1,2)] 2(3,4) by simp
    then show ?thesis using quiet_trans quiet_apply_hardfork [OF 2(1)] by blast
  qed simp
qed

lemma quiet_genesis: "apply_genesis_hardforks V b s = Inr s' \<Longrightarrow> quiet s s'"
proof -
  assume run: "apply_genesis_hardforks V b s = Inr s'"
  let ?n = "genesis_hardforks V (timestamp b)"
  consider "s' = s" | t where "set_hardfork V ?n True s = Inr t"
      "s' = t\<lparr>simings := map (\<lambda>(k, w). (k, w\<lparr>running_version := hf_versions V ! ?n,
                 hardfork_version_vote := hf_versions V ! ?n, hardfork_time_vote := hf_times V ! ?n\<rparr>)) (simings t)\<rparr>"
    using run by (auto simp: apply_genesis_hardforks_def Let_def split: if_splits)
  then show ?thesis
  proof cases
    case (2 t)
    have "quiet t s'" unfolding 2(2) by (rule quiet_simings) (auto simp: list_all2_conv_all_nth case_prod_beta)
    then show ?thesis using quiet_trans quiet_set_hardfork [OF 2(1)] by blast
  qed simp
qed

subsection \<open>Transactions\<close>

lemma on_chain_Inr: "on_chain f d = Inr d' \<longleftrightarrow> (\<exists>s. f (db_chain d) = Inr s \<and> d' = d\<lparr>db_chain := s\<rparr>)"
  by (auto simp: on_chain_def)

lemma kept_on_chain:
  "on_chain f d = Inr d' \<Longrightarrow> (\<And>s s'. f s = Inr s' \<Longrightarrow> kept s s') \<Longrightarrow> kept (db_chain d) (db_chain d')"
  by (auto simp: on_chain_Inr)

lemma kept_ops:
  assumes "fc_laws (env_fc E)" "\<forall>op \<in> set ops. validate_op L op = Inr () \<and> keeps_ledger op" "rfold (evaluate E) ops s = Inr s'"
  shows "kept s s'"
  by (rule rfold_invariant [OF assms(3), where P = "kept s"])
    (use assms(2) in \<open>auto intro: kept_trans dest: evaluate_kept [OF assms(1)]\<close>)

lemma validate_all:
  "rfold (\<lambda>v _. f v) xs () = Inr () \<Longrightarrow> x \<in> set xs \<Longrightarrow> f x = Inr ()"
  by (induction xs) (auto simp: old.unit.exhaust)

lemma kept_transaction:
  assumes F: "fc_laws (env_fc (ne_env N))" and v: "\<not> skipped skip skip_validate" and k: "\<forall>op \<in> set (tx_operations trx). keeps_ledger op"
    and run: "apply_transaction N skip trx d = Inr d'"
  shows "kept (db_chain d) (db_chain d')"
proof -
  let ?L = "env_lib (ne_env N)"
  let ?e = "if skipped skip skip_transaction_dupe_check then d
    else d\<lparr>db_transactions := tput (db_next_transaction d) \<lparr>trx_id = ne_trx_id N trx, trx_expiration = expiration trx\<rparr> (db_transactions d),
           db_next_transaction := Suc (db_next_transaction d)\<rparr>"
  obtain u where val: "validate_transaction (taiyi_ops ?L) (transaction.truncate trx) = Inr u"
    and e: "on_chain (rfold (evaluate (ne_env N)) (tx_operations trx)) ?e = Inr d'"
    using run v unfolding apply_transaction_def Let_def by (auto simp del: if_image_distrib)
  have e0: "db_chain ?e = db_chain d" by simp
  have "validate_op ?L op = Inr ()" if "op \<in> set (tx_operations trx)" for op
    using val that validate_all [of "op_validate (taiyi_ops ?L)" "tx_operations trx" op]
    by (simp add: validate_transaction_def transaction.truncate_def taiyi_ops_def)
  then show ?thesis using kept_ops [OF F, of "tx_operations trx" ?L "db_chain d"] k e e0 unfolding on_chain_Inr by auto
qed

lemma drain_chain:
  "clear_expired_transactions d = Inr d' \<Longrightarrow> db_chain d' = db_chain d"
  unfolding clear_expired_transactions_def by (auto dest: drain_idle)

subsection \<open>The block\<close>

text \<open>What this development assumes of the four steps it does not model.\<close>

definition others_keep :: "('sig, 'd) node_env \<Rightarrow> ('sig, 'd) chain_block \<Rightarrow> bool" where
  "others_keep N b \<longleftrightarrow> (\<forall>s. keeps s (ne_proposals N b s) \<and> keeps s (ne_tiandao N s) \<and> keeps s (ne_nfa_tick N s) \<and>
     keeps s (ne_clean_cultivations N s))"

definition block_keeps_ledger :: "('sig, 'd) chain_block \<Rightarrow> bool" where
  "block_keeps_ledger b \<longleftrightarrow> (\<forall>trx \<in> set (transactions b). \<forall>op \<in> set (tx_operations trx). keeps_ledger op)"

lemma kept_begin:
  assumes F: "fc_laws (env_fc (ne_env N))" and v: "\<not> skipped skip skip_validate" and k: "block_keeps_ledger b"
    and run: "begin_block N skip b d = Inr d'"
  shows "kept (db_chain d) (db_chain d')"
proof -
  let ?F = "env_fc (ne_env N)"
  obtain e1 e2 e3 e4 e5 n e6 e7 e8 e9 where 1: "on_chain (apply_genesis_hardforks (ne_hardforks N) b) d = Inr e1"
    and 2: "on_chain (modify_gpo (\<lambda>dgp. Inr (dgp\<lparr>current_siming := fs_of (siming b)\<rparr>))) e1 = Inr e2"
    and 3: "on_chain (process_header_extensions b) e2 = Inr e3"
    and 4: "rfold (apply_transaction N skip) (transactions b) e3 = Inr e4"
    and 5: "on_chain (update_global_dynamic_data (skipped skip skip_undo_history_check) b) e4 = Inr e5"
    and 6: "on_chain (update_signing_siming n b) (e5\<lparr>db_head_id := block_id (ne_hashes N) b\<rparr>) = Inr e6"
    and 7: "on_chain (\<lambda>s. rbind (update_last_irreversible_block s) (\<lambda>(announced, s). Inr s)) e6 = Inr e7"
    and 8: "create_block_summary N b e7 = Inr e8"
    and 9: "clear_expired_transactions e8 = Inr e9"
    and 10: "on_chain (\<lambda>s. rbind (clear_expired_delegations ?F s) (update_siming_schedule ?F)) e9 = Inr d'"
    using run unfolding begin_block_def Let_def rbind_Inr_iff rguard_Inr_iff by blast
  have "kept (db_chain d) (db_chain e1)"
    by (rule kept_on_chain [OF 1]) (rule quiet_kept [OF quiet_genesis])
  also have "kept (db_chain e1) (db_chain e2)"
    by (rule kept_on_chain [OF 2], clarsimp simp: modify_gpo_def, rule quiet_kept, rule quiet_frame(4), simp add: money_def)
  also have "kept (db_chain e2) (db_chain e3)" by (rule kept_on_chain [OF 3]) (rule quiet_kept [OF quiet_header])
  also have "kept (db_chain e3) (db_chain e4)"
  proof (rule rfold_invariant [OF 4, where P = "\<lambda>e. kept (db_chain e3) (db_chain e)"])
    fix trx e e' assume t: "trx \<in> set (transactions b)" "kept (db_chain e3) (db_chain e)" "apply_transaction N skip trx e = Inr e'"
    then have "\<forall>op \<in> set (tx_operations trx). keeps_ledger op" using k by (simp add: block_keeps_ledger_def)
    from kept_trans [OF t(2) kept_transaction [OF F v this t(3)]] show "kept (db_chain e3) (db_chain e')" .
  qed simp
  also have "kept (db_chain e4) (db_chain e5)" by (rule kept_on_chain [OF 5]) (rule quiet_kept [OF quiet_global_data])
  also have "db_chain e5 = db_chain (e5\<lparr>db_head_id := block_id (ne_hashes N) b\<rparr>)" by simp
  also have "kept \<dots> (db_chain e6)" by (rule kept_on_chain [OF 6]) (rule quiet_kept [OF quiet_signing])
  also have "kept (db_chain e6) (db_chain e7)"
    by (rule kept_on_chain [OF 7]) (auto intro: quiet_kept [OF quiet_irreversible])
  also have "db_chain e7 = db_chain e8" using 8 by (auto simp: create_block_summary_def Let_def split: option.splits)
  also have "db_chain e8 = db_chain e9" using drain_chain [OF 9] by simp
  also have "kept (db_chain e9) (db_chain d')"
    by (rule kept_on_chain [OF 10]) (auto intro: kept_trans [OF clear_delegations_effect(1) quiet_kept [OF quiet_schedule]])
  finally show ?thesis .
qed

lemma kept_finish:
  assumes F: "fc_laws (env_fc (ne_env N))" and o: "others_keep N b" and run: "finish_block N b s = Inr s'"
  shows "kept s s'"
proof -
  obtain s1 s2 s3 s4 s5 s6 where "account_recovery_processing s = Inr s1" "process_decline_adoring_rights (env_fc (ne_env N)) s1 = Inr s2"
    "ne_proposals N b s2 = Inr s3" "ne_tiandao N s3 = Inr s4" "ne_nfa_tick N s4 = Inr s5" "ne_clean_cultivations N s5 = Inr s6"
    "process_hardforks (ne_hardforks N) s6 = Inr s'"
    using run by (auto simp: finish_block_def)
  then have "kept s s1" "kept s1 s2" "kept s2 s3" "kept s3 s4" "kept s4 s5" "kept s5 s6" "kept s6 s'"
    using recovery_effect(1) decline_effect(1) [OF F] o quiet_kept [OF quiet_process_hardforks]
    by (auto simp: others_keep_def keeps_def)
  then show ?thesis using kept_trans by blast
qed

text \<open>The YANG, QI and pending rewards beyond the supply, in QI.\<close>

definition unbacked :: "chain \<Rightarrow> int" where
  "unbacked s = worth s - 1000 * amount (current_supply (gpo s))"

lemma unbacked_kept: "kept s s' \<Longrightarrow> chain_ok s \<Longrightarrow> chain_ok s' \<and> unbacked s' = unbacked s"
  by (simp add: kept_def unbacked_def)

lemma due_keys_none:
  "\<forall>(n, a) \<in> set (accounts s). head_block_time s < next_qi_withdrawal_time a \<Longrightarrow> process_qi_withdrawals F s = Inr s"
proof -
  assume none: "\<forall>(n, a) \<in> set (accounts s). head_block_time s < next_qi_withdrawal_time a"
  show ?thesis
  proof (cases "due_keys s")
    case (Cons k ks)
    obtain t n where k: "k = (t, n)" by (cases k)
    have "k \<in> set (due_keys s)" using Cons by simp
    then have "head_block_time s < t" using none k by (auto simp: due_keys_def)
    then show ?thesis using Cons k by (simp add: process_qi_withdrawals_def)
  qed (simp add: process_qi_withdrawals_def)
qed


subsection \<open>A block that is applied\<close>

text \<open>Alice produces the eleventh block, which pays her the minimum for it.\<close>

definition producing :: database where
  "producing = \<lparr>db_chain = funded\<lparr>schedule := sample_schedule\<lparr>current_shuffled_simings := [n_alice]\<rparr>\<rparr>,
     db_head_id = \<lparr>id_num = 10, id_hash = 7\<rparr>, db_transactions = [], db_next_transaction = 0,
     db_summaries = [(11, null_block_id)]\<rparr>"

definition produced :: "(nat, unit) chain_block" where
  "produced = \<lparr>previous = \<lparr>id_num = 10, id_hash = 7\<rparr>, timestamp = 1762850001, siming = ''alice'', transaction_merkle_root = (),
     extensions = [], siming_signature = 0, transactions = []\<rparr>"

definition sample_node :: "(nat, unit) node_env" where
  "sample_node = \<lparr>ne_env = sample_env,
     ne_hashes = \<lparr>sha224_tail = (\<lambda>_. 9), merkle_digest = (\<lambda>_. ()), hash_pair = (\<lambda>_ _. ()), checksum = (\<lambda>x. x), empty_checksum = ()\<rparr>,
     ne_trx_id = (\<lambda>_. 0), ne_recover = (\<lambda>_ _. Inl Out_of_range), ne_pack_size = (\<lambda>_. 200), ne_signee = (\<lambda>_ k. k = 5),
     ne_hardforks = \<lparr>hf_times = [TAIYI_GENESIS_TIME], hf_versions = [0]\<rparr>, ne_stray_modify = modify_gpo,
     ne_proposals = (\<lambda>_. Inr), ne_tiandao = Inr, ne_nfa_tick = Inr, ne_clean_cultivations = Inr\<rparr>"

lemma producing_parts:
  "gpo (db_chain producing) = sample_gpo\<lparr>current_siming := n_alice\<rparr>"
  "map_of (simings (db_chain producing)) n_alice = Some (new_siming_object\<lparr>signing_key := 5\<rparr>)"
  "schedule (db_chain producing) = sample_schedule\<lparr>current_shuffled_simings := [n_alice]\<rparr>"
  "hardforks (db_chain producing) = sample_hardforks" "db_head_id producing = previous produced"
  "delegation_expirations (db_chain producing) = []" "db_transactions producing = []"
  "db_summaries producing = [(11, null_block_id)]"
  by (simp_all add: producing_def funded_def sample_chain_def produced_def)

lemma produced_parts: "fs_of (siming produced) = n_alice" "timestamp produced = 1762850001" "extensions produced = []"
  "transactions produced = []" "block_num produced = 11" "transaction_merkle_root produced = ()"
  by (simp_all add: produced_def names_of block_num_def num_from_id_def)

lemma sample_node_parts: "ne_env sample_node = sample_env" "ne_pack_size sample_node b = 200" "ne_signee sample_node b k = (k = 5)"
  "ne_hardforks sample_node = \<lparr>hf_times = [TAIYI_GENESIS_TIME], hf_versions = [0]\<rparr>" "ne_stray_modify sample_node = modify_gpo"
  "ne_proposals sample_node b = Inr" "ne_tiandao sample_node = Inr" "ne_nfa_tick sample_node = Inr"
  "ne_clean_cultivations sample_node = Inr" "env_fc sample_env = fc_ref"
  by (simp_all add: sample_node_def sample_env_def)

lemmas parts = producing_parts produced_parts sample_node_parts

definition began :: chain where
  "began = put_siming n_alice (new_siming_object\<lparr>signing_key := 5, last_aslot := 11, last_confirmed_block_num := 11\<rparr>)
     ((db_chain producing)\<lparr>gpo := sample_gpo\<lparr>current_siming := n_alice, head_block_number := 11, head_time := 1762850001,
        current_aslot := 11, recent_slots_filled := 2047, participation_count := 11\<rparr>\<rparr>)"

lemmas block_simps = on_chain_def apply_genesis_hardforks_def skipped_def skip_validate_invariants_def
  skip_merkle_check_def validate_block_header_def head_block_time_def sample_gpo_def get_siming_def skip_siming_signature_def
  new_siming_object_def skip_siming_schedule_check_def Let_def get_slot_at_time_def get_slot_time_def head_block_num_def
  TAIYI_BLOCK_INTERVAL_def get_scheduled_siming_def sample_schedule_def modify_gpo_def process_header_extensions_def
  sample_hardforks_def update_global_dynamic_data_def fill_slot_def u_hi_def TAIYI_MAX_UNDO_HISTORY_def update_signing_siming_def
  modify_siming_def put_siming_def update_last_irreversible_block_def TAIYI_START_ADORING_BLOCK_def TAIYI_BLOCKS_PER_DAY_def
  TAIYI_MAX_SIMINGS_def create_block_summary_def clear_expired_transactions_def clear_expired_delegations_def drain.simps
  update_siming_schedule_def skip_undo_history_check_def

lemma sample_begin:
  "\<exists>d1. begin_block sample_node skip_validate_invariants produced producing = Inr d1 \<and> db_chain d1 = began"
  by (simp add: begin_block_def parts block_simps began_def)

lemma began_parts:
  "map_of (accounts began) n_alice = Some acc_alice" "accounts began = accounts funded"
  "map_of (simings began) n_alice = Some (new_siming_object\<lparr>signing_key := 5, last_aslot := 11, last_confirmed_block_num := 11\<rparr>)"
  "gpo began = sample_gpo\<lparr>current_siming := n_alice, head_block_number := 11, head_time := 1762850001,
        current_aslot := 11, recent_slots_filled := 2047, participation_count := 11\<rparr>"
  "reward_funds began = reward_funds funded" "recovery_requests began = []" "change_requests began = []" "owner_history began = []"
  "decline_requests began = []" "hardforks began = sample_hardforks" "routes began = []"
  by (simp_all add: began_def producing_def funded_def sample_chain_def put_siming_def)

definition paid :: chain where
  "paid = (put_account n_alice (acc_alice\<lparr>balance := yang 51000\<rparr>) (push_vop (Producer_reward n_alice (yang 1000)) began))
     \<lparr>reward_funds := [(0, \<lparr>fund_name = n_cultivation, reward_balance = yang 1000, fund_qi_balance = qis 1000000, fund_last_update = 1762850001,
                         percent_content_rewards = 10000\<rparr>)],
      gpo := (gpo began)\<lparr>pending_rewarded_qi := qis 1000005, current_supply := yang 53004,
                last_siming_production_reward := qis 1000000\<rparr>\<rparr>"

lemma sample_paid: "process_funds fc_ref modify_gpo began = Inr paid"
proof -
  have price: "asset_at_price fc_ref (yang 1000) TAIYI_QI_SHARE_PRICE = Inr (qis 1000000)"
    using yang_to_qi [OF fc_ref_laws, of 1000] by simp
  have z: "(50004000 :: int) sdiv 105120000000 = 0" by (simp add: sdiv_nonneg)
  have p: "percent_of fc_ref 0 q = Inr 1000" "percent_of fc_ref 1000 (10000 :: u16) = Inr 1000" for q
    using percent_of_small [OF fc_ref_laws, of 0 q] percent_of_small [OF fc_ref_laws, of 1000 10000] by simp_all
  have q: "amount (qi acc_alice) = 900" "balance acc_alice = yang 50000" by (simp_all add: acc_alice_def)
  have r: "current_inflation_rate began = 1000"
    by (simp add: current_inflation_rate_def head_block_num_def began_parts TAIYI_INFLATION_RATE_START_PERCENT_def
      TAIYI_INFLATION_RATE_STOP_PERCENT_def TAIYI_INFLATION_NARROWING_PERIOD_def)
  show ?thesis
    by (simp add: process_funds_def r fc_ref_simps z p price pay_reward_funds_def pay_reward_fund_def pay_siming_def
        TAIYI_100_PERCENT_def TAIYI_BLOCKS_PER_YEAR_def TAIYI_MIN_REWARD_FUND_def asset_add_def in_i64_def modify_gpo_def
        modify_account_def get_account_def get_siming_def Let_def head_block_num_def TAIYI_START_ADORING_BLOCK_def
        TAIYI_BLOCKS_PER_DAY_def TAIYI_BLOCK_INTERVAL_def began_parts funded_parts(2,4) q sample_gpo_def push_vop_def paid_def
        head_block_time_def put_account_def)
qed

lemma paid_parts:
  "head_block_time paid = 1762850001" "recovery_requests paid = []" "change_requests paid = []" "owner_history paid = []"
  "decline_requests paid = []" "hardforks paid = sample_hardforks" "routes paid = []"
  "accounts paid = tput n_alice (acc_alice\<lparr>balance := yang 51000\<rparr>) (accounts funded)"
  by (simp_all add: paid_def began_parts push_vop_def put_account_def head_block_time_def)

lemma paid_accounts: "\<forall>(n, a) \<in> set (accounts paid). next_qi_withdrawal_time a = TIME_MAX"
  by (simp add: paid_parts funded_def sample_chain_def acc_simps n_defs TIME_MAX_def)

lemma paid_sane: "withdrawals_sane paid"
  by (auto simp: withdrawals_sane_def sane_account_def paid_parts funded_def sample_chain_def acc_simps n_defs split: if_splits)

lemma paid_withdrawals: "process_qi_withdrawals F paid = Inr paid"
  by (rule due_keys_none) (use paid_accounts in \<open>auto simp: paid_parts TIME_MAX_def\<close>)

lemma paid_finish: "finish_block sample_node produced paid = Inr paid"
  by (simp add: finish_block_def account_recovery_processing_def Let_def paid_parts drain.simps process_decline_adoring_rights_def parts
    process_hardforks.simps sample_hardforks_def)


end
