(* ===== verification/Node_Forks.thy ===== *)
theory Node_Forks
  imports Node_History Block_Ledger
begin

section \<open>Blocks, branches and termination\<close>

subsection \<open>The head after a block\<close>

lemma on_chain_head: "on_chain f d = Inr d' \<Longrightarrow> db_head_id d' = db_head_id d"
  by (auto simp: on_chain_def)

lemma apply_transaction_head: "apply_transaction N skip t d = Inr d' \<Longrightarrow> db_head_id d' = db_head_id d"
  by (auto simp: apply_transaction_def Let_def dest!: on_chain_head split: if_splits)

lemma clear_expired_head: "clear_expired_transactions d = Inr d' \<Longrightarrow> db_head_id d' = db_head_id d"
proof -
  assume "clear_expired_transactions d = Inr d'"
  then obtain t u where r: "drain (\<lambda>(i, t). (trx_expiration t, i)) (\<lambda>(i, t). trx_expiration t < head_block_time (db_chain d)) (\<lambda>_. Inr)
      (db_transactions d) d = Inr (t, u)" and d': "d' = u\<lparr>db_transactions := t\<rparr>"
    by (auto simp: clear_expired_transactions_def)
  show ?thesis using drain_idle [OF r] d' by simp
qed

lemma steps_head:
  assumes "apply_block_steps N skip b d = Inr d'"
  shows "previous b = db_head_id d \<and> db_head_id d' = block_id (ne_hashes N) b"
proof -
  obtain d1 d2 d3 where 0: "begin_block N skip b d = Inr d1" "on_chain (process_funds (env_fc (ne_env N)) (ne_stray_modify N)) d1 = Inr d2"
    "on_chain (process_qi_withdrawals (env_fc (ne_env N))) d2 = Inr d3" "on_chain (finish_block N b) d3 = Inr d'"
    using assms unfolding apply_block_steps_def rbind_Inr_iff by blast
  obtain e1 e2 e3 e4 e5 n e6 e7 e8 e9 where 1: "on_chain (apply_genesis_hardforks (ne_hardforks N) b) d = Inr e1"
    and h: "validate_block_header N skip b e1 = Inr n"
    and 6: "on_chain (update_signing_siming n b) (e5\<lparr>db_head_id := block_id (ne_hashes N) b\<rparr>) = Inr e6"
    and 7: "on_chain (\<lambda>s. rbind (update_last_irreversible_block s) (\<lambda>(announced, s). Inr s)) e6 = Inr e7"
    and 8: "create_block_summary N b e7 = Inr e8"
    and 9: "clear_expired_transactions e8 = Inr e9"
    and 10: "on_chain (\<lambda>s. rbind (clear_expired_delegations (env_fc (ne_env N)) s) (update_siming_schedule (env_fc (ne_env N)))) e9 = Inr d1"
    using 0(1) unfolding begin_block_def Let_def rbind_Inr_iff rguard_Inr_iff by blast
  have "previous b = db_head_id e1" using h by (auto simp: validate_block_header_def Let_def)
  moreover have "db_head_id e1 = db_head_id d" by (rule on_chain_head [OF 1])
  moreover have "db_head_id e6 = block_id (ne_hashes N) b" using on_chain_head [OF 6] by simp
  moreover have "db_head_id e8 = db_head_id e7" using 8 by (auto simp: create_block_summary_def Let_def split: option.splits)
  ultimately show ?thesis
    using on_chain_head [OF 7] clear_expired_head [OF 9] on_chain_head [OF 10] on_chain_head [OF 0(2)] on_chain_head [OF 0(3)]
      on_chain_head [OF 0(4)] by simp
qed

subsection \<open>The items of the fork database stay\<close>

definition same_items :: "('sig, 'd) node \<Rightarrow> ('sig, 'd) node \<Rightarrow> bool" where
  "same_items n m \<longleftrightarrow> heap (nd_fork m) = heap (nd_fork n)"

lemma same_items_refl [simp]: "same_items n n"
  by (simp add: same_items_def)

lemma same_items_trans [trans]: "same_items n m \<Longrightarrow> same_items m k \<Longrightarrow> same_items n k"
  by (simp add: same_items_def)

lemma items_migrate: "migrate_irreversible_state C skip n = Some (m, r) \<Longrightarrow> same_items n m"
  by (auto simp: migrate_irreversible_state_def write_irreversible_def Let_def and_then_Some same_items_def set_max_size_def
      split: if_splits option.splits sum.splits prod.splits)

lemma items_apply: "apply_in_session C skip b n = Some (m, r) \<Longrightarrow> same_items n m"
  by (auto simp: apply_in_session_def node_apply_block_def and_then_Some same_items_def
      dest!: items_migrate split: option.splits sum.splits if_splits)

lemma items_apply_item: "apply_item C skip a n = Some (m, r) \<Longrightarrow> same_items n m"
  using items_apply by (fastforce simp: apply_item_def Let_def same_items_def set_head_def)

lemma pop_block_effect:
  assumes "pop_block C n = (m, Inr ())" "\<not> nd_pending_session n"
  shows "nd_state m = u_undo (nd_state n) \<and> same_items n m \<and> \<not> nd_pending_session m"
proof -
  obtain k f where k: "fetch_block_by_id C (head_id n) n = (k, f)" by fastforce
  have "nd_fork k = nd_fork n" using k by (auto simp: fetch_block_by_id_def split: option.splits sum.splits)
  then show ?thesis using assms k fetch_frame [OF k]
    by (auto simp: pop_block_def sound_reset same_queue_def same_items_def fdb_pop_block_def split: sum.splits option.splits)
qed

lemma pop_until_effect:
  assumes "pop_until C i n = Some mr"
  shows "\<not> nd_pending_session n \<longrightarrow> snd mr = Inr () \<longrightarrow> head_id (fst mr) = i \<and> same_items n (fst mr) \<and>
    \<not> nd_pending_session (fst mr) \<and> (\<exists>k. nd_state (fst mr) = (u_undo ^^ k) (nd_state n))"
proof (rule pop_until.raw_induct [where P = "\<lambda>C i n mr. \<not> nd_pending_session n \<longrightarrow> snd mr = Inr () \<longrightarrow>
    head_id (fst mr) = i \<and> same_items n (fst mr) \<and> \<not> nd_pending_session (fst mr) \<and>
    (\<exists>k. nd_state (fst mr) = (u_undo ^^ k) (nd_state n))", OF _ assms], intro impI)
  fix f and C :: "('a, 'b) chain_env" and i n mr
  assume IH: "\<And>C i n mr. f C i n = Some mr \<Longrightarrow> \<not> nd_pending_session n \<longrightarrow> snd mr = Inr () \<longrightarrow>
      head_id (fst mr) = i \<and> same_items n (fst mr) \<and> \<not> nd_pending_session (fst mr) \<and>
      (\<exists>k. nd_state (fst mr) = (u_undo ^^ k) (nd_state n))"
    and run: "(if head_id n = i then Some (n, Inr ()) else case pop_block C n of
        (n, Inl e) \<Rightarrow> Some (n, Inl e) | (n, Inr _) \<Rightarrow> f C i n) = Some mr"
    and p: "\<not> nd_pending_session n" and r: "snd mr = Inr ()"
  obtain k s where k: "pop_block C n = (k, s)" by fastforce
  show "head_id (fst mr) = i \<and> same_items n (fst mr) \<and> \<not> nd_pending_session (fst mr) \<and>
      (\<exists>k. nd_state (fst mr) = (u_undo ^^ k) (nd_state n))"
  proof (cases "head_id n = i")
    case True
    then show ?thesis using run p by (auto intro!: exI [of _ 0])
  next
    case False
    then have s: "s = Inr ()" "f C i k = Some mr" using run k r by (cases s; auto)+
    note e = pop_block_effect [OF k [unfolded s] p]
    then obtain j where j: "head_id (fst mr) = i" "same_items k (fst mr)" "\<not> nd_pending_session (fst mr)"
      "nd_state (fst mr) = (u_undo ^^ j) (nd_state k)" using IH [OF s(2)] r by blast
    have "nd_state (fst mr) = (u_undo ^^ Suc j) (nd_state n)" using j(4) e by (simp add: funpow_swap1)
    then show ?thesis using j e same_items_trans by blast
  qed
qed

subsection \<open>Extending the head\<close>

text \<open>C21: a block that builds on the head, where the fork database keeps that as its head: the call returns false
  when the block applies, and the state is then what the block makes of the old one; when it throws, the block is no
  longer in the fork database and the state is the old one, unless the block had already been committed.\<close>
theorem push_block_extends:
  assumes "\<not> nd_pending_session n" "\<not> skipped skip skip_fork_db"
    and "fdb_push_block (hashes_of C) b (nd_fork n) = Inr (Some h, f)" "previous (data (item f h)) = head_id n"
    and "push_block_in C skip b n = Some (m, r)"
  shows "(\<forall>x. r = Inr x \<longrightarrow> \<not> x \<and> apply_block_steps (ce_node C) skip b (now (nd_state n)) = Inr (now (nd_state m)) \<and>
      head_id m = block_id (hashes_of C) b \<and> (saved (nd_state m) \<noteq> [] \<longrightarrow> snd (hd (saved (nd_state m))) = now (nd_state n))) \<and>
    (\<forall>e. r = Inl e \<longrightarrow> find_id (nd_fork m) (index (nd_fork m)) (block_id (hashes_of C) b) = None \<and>
      (now (nd_state m) = now (nd_state n) \<or> saved (nd_state m) = []))"
proof -
  let ?n = "n\<lparr>nd_fork := f\<rparr>"
  have run: "extend_head C skip b ?n = Some (m, r)"
    using assms by (simp add: push_block_in_def Let_def head_id_def)
  then obtain k s where k: "apply_in_session C skip b ?n = Some (k, s)" by (auto simp: extend_head_def split: option.splits)
  show ?thesis
  proof (cases s)
    case (Inr x)
    then have mr: "m = k" "r = Inr False" using run k by (auto simp: extend_head_def)
    obtain xs where xs: "apply_block_steps (ce_node C) skip b (now (nd_state n)) = Inr (now (nd_state k))"
      "now (nd_state k) # states (nd_state n) = states (nd_state k) @ xs"
      using apply_in_session_ok [of C skip b ?n k] k Inr by auto
    moreover have "saved (nd_state k) \<noteq> [] \<Longrightarrow> snd (hd (saved (nd_state k))) = now (nd_state n)"
      using xs(2) by (cases "saved (nd_state k)") (auto simp: states_def)
    ultimately show ?thesis using mr steps_head [OF xs(1)] by (simp add: head_id_def)
  next
    case (Inl e)
    then have mr: "m = k\<lparr>nd_fork := fdb_remove (block_id (hashes_of C) b) (nd_fork k)\<rparr>" "r = Inl e"
      using run k by (auto simp: extend_head_def)
    have "find_id (nd_fork m) (index (nd_fork m)) (block_id (hashes_of C) b) = None"
      by (auto simp: mr(1) fdb_remove_def find_id_None)
    moreover have "now (nd_state m) = now (nd_state n) \<or> saved (nd_state m) = []"
      using apply_in_session_fails [of C skip b ?n k e] k Inl mr(1) by (auto simp: states_def)
    ultimately show ?thesis using mr(2) by simp
  qed
qed

subsection \<open>Switching to a branch\<close>

lemma apply_branch_ok:
  assumes "apply_branch C skip i old as n = Some (m, Inr ())"
  shows "rfold (\<lambda>a. apply_block_steps (ce_node C) skip (data (item (nd_fork n) a))) as (now (nd_state n)) = Inr (now (nd_state m))"
  using assms
proof (induction as arbitrary: n)
  case (Cons a as)
  obtain k s where k: "apply_item C skip a n = Some (k, s)" using Cons.prems by (cases "apply_item C skip a n") auto
  show ?case
  proof (cases s)
    case (Inr x)
    then have "apply_branch C skip i old as k = Some (m, Inr ())" using Cons.prems k by simp
    note rest = Cons.IH [OF this]
    have "apply_in_session C skip (data (item (nd_fork n) a)) (n\<lparr>nd_fork := set_head a (nd_fork n)\<rparr>) = Some (k, Inr ())"
      using k Inr by (simp add: apply_item_def Let_def set_head_def)
    then have "apply_block_steps (ce_node C) skip (data (item (nd_fork n) a)) (now (nd_state n)) = Inr (now (nd_state k))"
      using apply_in_session_ok by fastforce
    then show ?thesis using rest items_apply_item [OF k] by (simp add: same_items_def)
  next
    case (Inl e)
    then show ?thesis using Cons.prems k by (auto simp: and_then_Some)
  qed
qed simp

lemma rfold_head:
  "rfold (\<lambda>a. apply_block_steps N skip (g a)) as d = Inr d' \<Longrightarrow> as \<noteq> [] \<Longrightarrow> db_head_id d' = block_id (ne_hashes N) (g (last as))"
proof (induction as arbitrary: d)
  case (Cons a as)
  obtain e where e: "apply_block_steps N skip (g a) d = Inr e" "rfold (\<lambda>a. apply_block_steps N skip (g a)) as e = Inr d'"
    using Cons.prems(1) by auto
  show ?case
  proof (cases "as = []")
    case True
    then show ?thesis using steps_head [OF e(1)] e(2) by simp
  qed (use Cons.IH [OF e(2)] in simp)
qed simp

text \<open>C6: a fork switch that returns has undone blocks down to the parent of the branches, and its state is what the
  blocks of the new branch, oldest first, make of the state saved there; the head is the head of the new branch.\<close>
theorem fork_switch_correct:
  assumes "switch_fork C skip h n = Some (m, Inr ())" "\<not> nd_pending_session n"
  shows "\<exists>first second k.
    fetch_branch_from (item_id (item (nd_fork n) h)) (head_id n) (nd_fork n) = Some (Inr (first, second)) \<and>
    db_head_id (now ((u_undo ^^ k) (nd_state n))) = previous (data (item (nd_fork n) (last second))) \<and>
    rfold (\<lambda>a. apply_block_steps (ce_node C) skip (data (item (nd_fork n) a))) (rev first) (now ((u_undo ^^ k) (nd_state n))) =
      Inr (now (nd_state m)) \<and>
    (first \<noteq> [] \<longrightarrow> head_id m = block_id (hashes_of C) (data (item (nd_fork n) (hd first))))"
proof -
  obtain xs ys where xy: "fetch_branch_from (item_id (item (nd_fork n) h)) (head_id n) (nd_fork n) = Some (Inr (xs, ys))"
    using assms(1) by (auto simp: switch_fork_def split: option.splits sum.splits prod.splits)
  let ?i = "previous (data (item (nd_fork n) (last ys)))"
  let ?n = "n\<lparr>nd_fork := (nd_fork n)\<lparr>held := h # xs @ ys @ held (nd_fork n)\<rparr>\<rparr>"
  obtain k where "and_then (pop_until C ?i ?n) (\<lambda>n _. apply_branch C skip ?i (rev ys) (rev xs) n) = Some (k, Inr ())"
    and m: "m = k\<lparr>nd_fork := (nd_fork k)\<lparr>held := held (nd_fork n)\<rparr>\<rparr>"
    using assms(1) xy by (auto simp: switch_fork_def Let_def)
  then obtain l where l: "pop_until C ?i ?n = Some (l, Inr ())" "apply_branch C skip ?i (rev ys) (rev xs) l = Some (k, Inr ())"
    by (auto simp: and_then_Some)
  obtain j where j: "head_id l = ?i" "same_items ?n l" "nd_state l = (u_undo ^^ j) (nd_state n)"
    using pop_until_effect [OF l(1)] assms(2) by auto
  have run: "rfold (\<lambda>a. apply_block_steps (ce_node C) skip (data (item (nd_fork n) a))) (rev xs) (now ((u_undo ^^ j) (nd_state n))) =
      Inr (now (nd_state m))"
    using apply_branch_ok [OF l(2)] j m by (simp add: same_items_def)
  have "xs \<noteq> [] \<Longrightarrow> head_id m = block_id (hashes_of C) (data (item (nd_fork n) (hd xs)))"
    using rfold_head [OF run] by (simp add: head_id_def last_rev)
  then show ?thesis using xy j(1,3) run by (intro exI [of _ xs] exI [of _ ys] exI [of _ j]) (simp add: head_id_def)
qed


subsection \<open>Every push ends\<close>

lemma find_id_dom: "fork_ok H f \<Longrightarrow> find_id f (index f) i = Some a \<Longrightarrow> a \<in> dom (map_of (heap f))"
  using find_id_Some [of f "index f" i a] by (auto simp: fork_ok_def)

lemma linked_dom:
  "fork_ok H f \<Longrightarrow> a \<in> dom (map_of (heap f)) \<Longrightarrow> linked_path f a as \<Longrightarrow> set as \<subseteq> dom (map_of (heap f))"
proof (induction as arbitrary: a)
  case (Cons b as)
  obtain x where x: "map_of (heap f) a = Some x" using Cons.prems(2) by blast
  have "prev x = Some b" using Cons.prems(3) x by simp
  then have "b \<in> dom (map_of (heap f))" using fork_ok_item [OF Cons.prems(1) x] by (auto simp: item_ok_def)
  then show ?case using Cons by simp
qed simp

lemma branch_dom:
  assumes "fork_ok H f" "fetch_branch_from i j f = Some (Inr (xs, ys))"
  shows "set xs \<subseteq> dom (map_of (heap f)) \<and> set ys \<subseteq> dom (map_of (heap f))"
proof -
  obtain a b where ab: "find_id f (index f) i = Some a" "find_id f (index f) j = Some b" "branches_from f a b xs ys"
    using branch_result [OF assms(1), of i j] assms(2) by auto
  then have "xs \<noteq> []" "ys \<noteq> []" "hd xs = a" "hd ys = b" "linked_path f a (tl xs)" "linked_path f b (tl ys)"
    by (simp_all add: branches_from_def)
  moreover have d: "a \<in> dom (map_of (heap f))" "b \<in> dom (map_of (heap f))" using find_id_dom [OF assms(1)] ab(1,2) by blast+
  ultimately have "set (tl xs) \<subseteq> dom (map_of (heap f))" "set (tl ys) \<subseteq> dom (map_of (heap f))" "xs = a # tl xs" "ys = b # tl ys"
    using linked_dom [OF assms(1) d(1)] linked_dom [OF assms(1) d(2)] by auto
  then show ?thesis using d by (metis insert_subset list.simps(15))
qed

lemma fetch_main_ends: "fork_ok H f \<Longrightarrow> \<exists>r. fetch_block_on_main_branch_by_number k f = Some r"
  using walk_main_result [of H f k] by (auto simp: fetch_block_on_main_branch_by_number_def split: list.splits)

lemma main_blocks_ends: "fork_ok H f \<Longrightarrow> \<exists>r. main_blocks f ks = Some r"
proof (induction ks)
  case (Cons k ks)
  then obtain r q where "fetch_block_on_main_branch_by_number k f = Some r" "main_blocks f ks = Some q"
    using fetch_main_ends by blast
  then show ?case by (auto split: sum.splits option.splits)
qed simp

text \<open>A call that returns, with a well-formed fork database that has all items it had.\<close>

definition returns :: "('sig, 'd) chain_env \<Rightarrow> ('sig, 'd) node \<Rightarrow> (('sig, 'd) node, 'a) outcome \<Rightarrow> bool" where
  "returns C n x \<longleftrightarrow> (\<exists>m r. x = Some (m, r) \<and> fork_ok (hashes_of C) (nd_fork m) \<and> same_items n m)"

lemma returns_Some [simp]: "returns C n (Some (m, r)) \<longleftrightarrow> fork_ok (hashes_of C) (nd_fork m) \<and> same_items n m"
  by (simp add: returns_def)

lemma returns_and_then:
  assumes "returns C n x" and "\<And>m y. x = Some (m, Inr y) \<Longrightarrow> fork_ok (hashes_of C) (nd_fork m) \<Longrightarrow> same_items n m \<Longrightarrow> returns C m (f m y)"
  shows "returns C n (and_then x f)"
proof -
  obtain m r where m: "x = Some (m, r)" "fork_ok (hashes_of C) (nd_fork m)" "same_items n m" using assms(1) by (auto simp: returns_def)
  show ?thesis
  proof (cases r)
    case (Inr y)
    then have "returns C m (f m y)" using assms(2) m by simp
    then show ?thesis using m Inr by (auto simp: and_then_def returns_def same_items_def)
  qed (use m in \<open>simp add: and_then_def\<close>)
qed

lemma migrate_returns: "fork_ok (hashes_of C) (nd_fork n) \<Longrightarrow> returns C n (migrate_irreversible_state C skip n)"
proof -
  assume f: "fork_ok (hashes_of C) (nd_fork n)"
  have w: "returns C n (write_irreversible C lib n)" for lib
  proof -
    obtain r where "main_blocks (nd_fork n) (map of_nat [Suc (case log_head (nd_log n) of None \<Rightarrow> 0 | Some b \<Rightarrow> unat (block_num b))..<Suc (unat lib)]) = Some r"
      using main_blocks_ends [OF f] by blast
    then show ?thesis using f by (auto simp: write_irreversible_def Let_def same_items_def split: sum.splits prod.splits)
  qed
  show ?thesis unfolding migrate_irreversible_state_def Let_def
    using f w by (auto intro!: returns_and_then simp: max_size_ok(1)) (auto simp: same_items_def set_max_size_def Let_def split: option.splits)
qed

lemma apply_in_session_returns:
  assumes "fork_ok (hashes_of C) (nd_fork n)"
  shows "returns C n (apply_in_session C skip b n)"
proof -
  have "returns C (map_state u_start n) (node_apply_block C skip b (map_state u_start n))"
  proof (cases "apply_block_steps (ce_node C) skip b (now (nd_state n))")
    case (Inr d)
    let ?n = "map_state (\<lambda>u. u\<lparr>now := d\<rparr>) (map_state u_start n)"
    have "returns C ?n (and_then (migrate_irreversible_state C skip ?n) (\<lambda>n _.
        Some (n, if skipped skip skip_validate_invariants then Inr ()
          else validate_invariants (env_fc (ne_env (ce_node C))) (db_chain (now (nd_state n))))))"
      by (rule returns_and_then [OF migrate_returns]) (use assms in simp_all)
    then show ?thesis using Inr by (auto simp: node_apply_block_def returns_def same_items_def)
  qed (use assms in \<open>simp add: node_apply_block_def\<close>)
  then show ?thesis by (auto simp: apply_in_session_def returns_def same_items_def split: sum.splits)
qed

lemma apply_item_returns:
  assumes "fork_ok (hashes_of C) (nd_fork n)" "a \<in> dom (map_of (heap (nd_fork n)))"
  shows "returns C n (apply_item C skip a n)"
  using apply_in_session_returns [of C "n\<lparr>nd_fork := set_head a (nd_fork n)\<rparr>" skip "data (item (nd_fork n) a)"] set_head_ok [OF assms]
  by (auto simp: apply_item_def Let_def returns_def same_items_def set_head_def)

lemma apply_items_returns:
  "fork_ok (hashes_of C) (nd_fork n) \<Longrightarrow> set as \<subseteq> dom (map_of (heap (nd_fork n))) \<Longrightarrow> returns C n (apply_items C skip as n)"
proof (induction as arbitrary: n)
  case (Cons a as)
  then have "returns C n (apply_item C skip a n)" by (intro apply_item_returns) auto
  then have "returns C n (and_then (apply_item C skip a n) (\<lambda>n _. apply_items C skip as n))"
    by (rule returns_and_then) (use Cons in \<open>auto simp: same_items_def\<close>)
  then show ?case by simp
qed simp

lemma pop_block_returns:
  assumes "fork_ok (hashes_of C) (nd_fork n)" "pop_block C n = (m, r)"
  shows "fork_ok (hashes_of C) (nd_fork m) \<and> same_items n m \<and> (r = Inr () \<longrightarrow>
    (\<exists>h p. head (nd_fork n) = Some h \<and> head (nd_fork m) = Some p \<and> p < h))"
proof -
  let ?n = "reset_pending_session n"
  have fn: "nd_fork ?n = nd_fork n" by (simp add: reset_pending_session_def)
  obtain k f where k: "fetch_block_by_id C (head_id ?n) ?n = (k, f)" by fastforce
  then have fk: "nd_fork k = nd_fork n" using fn by (auto simp: fetch_block_by_id_def split: option.splits sum.splits)
  show ?thesis
  proof (cases "(\<exists>b. f = Inr (Some b)) \<and> (\<exists>g. fdb_pop_block (nd_fork n) = Inr g)")
    case True
    then obtain b g where bg: "f = Inr (Some b)" "fdb_pop_block (nd_fork n) = Inr g" by blast
    then have m: "nd_fork m = g" using assms(2) k fk by (auto simp: pop_block_def)
    obtain h p where h: "head (nd_fork n) = Some h" "lock (nd_fork n) (prev (item (nd_fork n) h)) = Some p" "head g = Some p"
      "heap g = heap (nd_fork n)"
      using bg(2) by (auto simp: fdb_pop_block_def split: option.splits)
    have "p < h" using fork_ok_prev [OF assms(1) fork_ok_head [OF assms(1) h(1)] h(2)] by blast
    then show ?thesis using m h pop_ok [OF assms(1) bg(2)] by (simp add: same_items_def)
  next
    case False
    then have "nd_fork m = nd_fork n \<and> r \<noteq> Inr ()"
      using assms(2) k fk by (auto simp: pop_block_def split: sum.splits option.splits)
    then show ?thesis using assms(1) by (simp add: same_items_def)
  qed
qed

lemma pop_until_returns: "fork_ok (hashes_of C) (nd_fork n) \<Longrightarrow> returns C n (pop_until C i n)"
proof (induction "case head (nd_fork n) of None \<Rightarrow> 0 | Some h \<Rightarrow> Suc h" arbitrary: n rule: less_induct)
  case less
  obtain k s where k: "pop_block C n = (k, s)" by fastforce
  note e = pop_block_returns [OF less.prems k]
  show ?case
  proof (cases s)
    case (Inr x)
    then have "(case head (nd_fork k) of None \<Rightarrow> 0 | Some h \<Rightarrow> Suc h) < (case head (nd_fork n) of None \<Rightarrow> 0 | Some h \<Rightarrow> Suc h)"
      using e by auto
    then have "returns C k (pop_until C i k)" using less.hyps e by blast
    then show ?thesis using less.prems k Inr e by (subst pop_until.simps) (auto simp: returns_def same_items_def)
  qed (use less.prems k e in \<open>subst pop_until.simps, simp\<close>)
qed

lemma remove_items_ok: "fork_ok H (nd_fork n) \<Longrightarrow> fork_ok H (nd_fork (remove_items as n)) \<and> same_items n (remove_items as n)"
proof -
  have "fork_ok H f \<Longrightarrow> fork_ok H (fold (\<lambda>a f. fdb_remove (item_id (item f a)) f) as f) \<and>
      heap (fold (\<lambda>a f. fdb_remove (item_id (item f a)) f) as f) = heap f" for f
  proof (induction as arbitrary: f)
    case (Cons a as)
    have "heap (fdb_remove i f) = heap f" for i by (simp add: fdb_remove_def)
    then show ?case using Cons.IH [OF remove_ok [OF Cons.prems]] by simp
  qed simp
  then show "fork_ok H (nd_fork n) \<Longrightarrow> ?thesis" by (simp add: remove_items_def same_items_def)
qed

lemma apply_branch_returns:
  "fork_ok (hashes_of C) (nd_fork n) \<Longrightarrow> set as \<union> set old \<subseteq> dom (map_of (heap (nd_fork n))) \<Longrightarrow>
     returns C n (apply_branch C skip i old as n)"
proof (induction as arbitrary: n)
  case (Cons a as)
  then have "returns C n (apply_item C skip a n)" by (intro apply_item_returns) auto
  then obtain k s where k: "apply_item C skip a n = Some (k, s)" "fork_ok (hashes_of C) (nd_fork k)" "same_items n k"
    by (auto simp: returns_def)
  have d: "set as \<union> set old \<subseteq> dom (map_of (heap (nd_fork k)))" using Cons.prems(2) k(3) by (simp add: same_items_def)
  show ?case
  proof (cases s)
    case (Inr x)
    then show ?thesis using Cons.IH [OF k(2) d] k by (auto simp: returns_def same_items_def)
  next
    case (Inl e)
    let ?k = "remove_items (a # as) k"
    note rk = remove_items_ok [OF k(2), of "a # as"]
    have "returns C ?k (and_then (pop_until C i ?k) (\<lambda>n _. and_then (apply_items C skip old n) (\<lambda>n _. Some (n, Inl e :: unit res))))"
    proof (rule returns_and_then [OF pop_until_returns])
      fix m :: "('a, 'b) node" assume m: "fork_ok (hashes_of C) (nd_fork m)" "same_items ?k m"
      then have "set old \<subseteq> dom (map_of (heap (nd_fork m)))" using d rk by (simp add: same_items_def)
      then show "returns C m (and_then (apply_items C skip old m) (\<lambda>n _. Some (n, Inl e :: unit res)))"
        by (intro returns_and_then apply_items_returns m(1)) simp_all
    qed (use rk in simp)
    then show ?thesis using k Inl rk by (auto simp: returns_def same_items_def)
  qed
qed simp

lemma fork_ok_held [simp]: "fork_ok H (f\<lparr>held := as\<rparr>) = fork_ok H f"
  by (simp add: fork_ok_def item_ok_def)

lemma switch_returns:
  assumes "fork_ok (hashes_of C) (nd_fork n)"
  shows "returns C n (switch_fork C skip h n)"
proof -
  obtain r where r: "fetch_branch_from (item_id (item (nd_fork n) h)) (head_id n) (nd_fork n) = Some r"
    using branch_result [OF assms] by blast
  show ?thesis
  proof (cases r)
    case (Inr p)
    obtain xs ys where xy: "p = (xs, ys)" by (cases p)
    let ?i = "previous (data (item (nd_fork n) (last ys)))"
    let ?n = "n\<lparr>nd_fork := (nd_fork n)\<lparr>held := h # xs @ ys @ held (nd_fork n)\<rparr>\<rparr>"
    have d: "set xs \<union> set ys \<subseteq> dom (map_of (heap (nd_fork n)))" using branch_dom [OF assms] r Inr xy by simp
    have "returns C ?n (and_then (pop_until C ?i ?n) (\<lambda>n _. apply_branch C skip ?i (rev ys) (rev xs) n))"
    proof (rule returns_and_then [OF pop_until_returns])
      fix m :: "('a, 'b) node" assume m: "fork_ok (hashes_of C) (nd_fork m)" "same_items ?n m"
      then show "returns C m (apply_branch C skip ?i (rev ys) (rev xs) m)"
        using d by (intro apply_branch_returns) (auto simp: same_items_def)
    qed (use assms in simp)
    then show ?thesis using r Inr xy by (auto simp: switch_fork_def Let_def returns_def same_items_def)
  qed (use r assms in \<open>simp add: switch_fork_def\<close>)
qed

lemma push_block_in_returns:
  assumes f: "fork_ok (hashes_of C) (nd_fork n)"
  shows "\<exists>m r. push_block_in C skip b n = Some (m, r) \<and> fork_ok (hashes_of C) (nd_fork m)"
proof -
  have ext: "\<exists>m r. extend_head C skip b k = Some (m, r) \<and> fork_ok (hashes_of C) (nd_fork m)" if k: "fork_ok (hashes_of C) (nd_fork k)" for k
    using apply_in_session_returns [OF k, of skip b] remove_ok by (auto simp: extend_head_def returns_def split: sum.splits)
  show ?thesis
  proof (cases "skipped skip skip_fork_db \<or> (\<exists>e. fdb_push_block (hashes_of C) b (nd_fork n) = Inl e)")
    case True
    then show ?thesis using ext [OF f] f by (auto simp: push_block_in_def)
  next
    case False
    then obtain h g where hg: "fdb_push_block (hashes_of C) b (nd_fork n) = Inr (h, g)"
      by (cases "fdb_push_block (hashes_of C) b (nd_fork n)") auto
    have g: "fork_ok (hashes_of C) g" using fdb_push_block_ok [OF f hg] by simp
    let ?n = "n\<lparr>nd_fork := g\<rparr>"
    have sw: "\<exists>m r. and_then (switch_fork C skip a ?n) (\<lambda>n _. Some (n, Inr True)) = Some (m, r) \<and> fork_ok (hashes_of C) (nd_fork m)" for a
      using returns_and_then [OF switch_returns [of C ?n skip a], where f = "\<lambda>n _. Some (n, Inr True)"] g by (auto simp: returns_def)
    have ex: "\<exists>m r. extend_head C skip b ?n = Some (m, r) \<and> fork_ok (hashes_of C) (nd_fork m)" using ext [of ?n] g by simp
    show ?thesis
    proof (cases h)
      case (Some a)
      consider "previous (data (item g a)) = head_id ?n"
        | "previous (data (item g a)) \<noteq> head_id ?n" "block_num (data (item g a)) > head_num ?n"
        | "previous (data (item g a)) \<noteq> head_id ?n" "\<not> block_num (data (item g a)) > head_num ?n" by blast
      then show ?thesis
        using sw [of a] ex False hg g Some by cases (simp_all add: push_block_in_def Let_def)
    qed (use False hg g in \<open>simp add: push_block_in_def Let_def\<close>)
  qed
qed

lemma restore_fork: "nd_fork (restore_pending C skip k ts n) = nd_fork n"
proof -
  have "nd_fork (fst (push_transaction_in C skip t n)) = nd_fork n" for t n
    by (simp add: push_transaction_in_def Let_def split: sum.splits)
  then have "nd_fork (restore_transactions C skip k ts n) = nd_fork n" for k ts n
    by (induction ts arbitrary: k n) simp_all
  then show ?thesis by (simp add: restore_pending_def Let_def)
qed

text \<open>C16: every push of a block returns: with a well-formed fork database no block, flag, state or history sends
  the search for the branches, the popping of blocks, the switch or its reversal into an endless loop, and
  the fork database is well-formed afterwards, whether the call succeeds or throws.\<close>
theorem push_block_returns:
  assumes "fork_ok (hashes_of C) (nd_fork n)"
  shows "\<exists>m r. push_block C k skip b n = Some (m, r) \<and> fork_ok (hashes_of C) (nd_fork m)"
proof (cases "checkpoint_flags C b skip n")
  case (Inr flags)
  have "fork_ok (hashes_of C) (nd_fork (clear_pending n))"
    using assms by (simp add: clear_pending_def reset_pending_session_def)
  then obtain m r where "push_block_in C flags b (clear_pending n) = Some (m, r)" "fork_ok (hashes_of C) (nd_fork m)"
    using push_block_in_returns by blast
  then show ?thesis using Inr by (auto simp: push_block_def restore_fork)
qed (use assms in \<open>simp add: push_block_def\<close>)

subsection \<open>Everything together\<close>

text \<open>C2: whatever blocks and transactions are pushed, popped or cleared, in whatever order, with whatever skip
  flags, time limits and errors, the state of a node is a chain of applied blocks with the applied pending transactions
  on top, in the order of the queue; every state it can go back to is one of that chain; and the committed state only
  moves forward, by applied blocks.\<close>
theorem node_history_sound:
  assumes "(node_step C)\<^sup>*\<^sup>* n m" "node_ok C n"
  shows "node_ok C m \<and> (applied C)\<^sup>*\<^sup>* (committed (block_stack n)) (committed (block_stack m))"
  by (rule node_history [OF assms])

subsection \<open>A node that applies and switches\<close>

text \<open>The chain of the sample block, whose ids are told apart by the signature.\<close>

definition forking_node :: "(nat, unit) node_env" where
  "forking_node = sample_node\<lparr>ne_hashes := (ne_hashes sample_node)\<lparr>sha224_tail := (\<lambda>b. of_nat (siming_signature b))\<rparr>\<rparr>"

definition forking :: "(nat, unit) chain_env" where
  "forking = \<lparr>ce_node = forking_node, ce_pack = (\<lambda>_. []), ce_unpack = (\<lambda>_. Inl Stream_failure), ce_trx_size = (\<lambda>_. 100)\<rparr>"

definition flags :: u32 where "flags = 0x2800"

definition tenth :: "(nat, unit) chain_block" where
  "tenth = produced\<lparr>previous := \<lparr>id_num = 9, id_hash = 0\<rparr>, siming_signature := 7\<rparr>"

definition rival :: "(nat, unit) chain_block" where
  "rival = produced\<lparr>siming_signature := 1\<rparr>"

lemma flags_skip: "skipped flags x = (0x2800 AND x \<noteq> 0)"
  by (simp add: skipped_def flags_def)

lemma forking_parts: "ne_env forking_node = sample_env" "ne_pack_size forking_node b = 200" "ne_signee forking_node b k = (k = 5)"
  "ne_hardforks forking_node = \<lparr>hf_times = [TAIYI_GENESIS_TIME], hf_versions = [0]\<rparr>" "ne_stray_modify forking_node = modify_gpo"
  "ne_proposals forking_node b = Inr" "ne_tiandao forking_node = Inr" "ne_nfa_tick forking_node = Inr"
  "ne_clean_cultivations forking_node = Inr" "env_fc sample_env = fc_ref" "ce_node forking = forking_node"
  "block_id (ne_hashes forking_node) b = \<lparr>id_num = block_num b, id_hash = of_nat (siming_signature b)\<rparr>"
  by (simp_all add: forking_node_def forking_def sample_node_parts block_id_def)

lemma forking_begin:
  "\<exists>d1. begin_block forking_node flags produced producing = Inr d1 \<and> db_chain d1 = began"
  by (simp add: begin_block_def producing_parts produced_parts forking_parts flags_skip block_simps began_def)

lemma forking_steps: "\<exists>d1. apply_block_steps forking_node flags produced producing = Inr d1 \<and> db_chain d1 = paid"
proof -
  obtain d1 where d1: "begin_block forking_node flags produced producing = Inr d1" "db_chain d1 = began"
    using forking_begin by blast
  have "finish_block forking_node produced paid = Inr paid"
    by (simp add: finish_block_def account_recovery_processing_def Let_def paid_parts drain.simps process_decline_adoring_rights_def
        forking_parts process_hardforks.simps sample_hardforks_def)
  then show ?thesis using d1
    by (intro exI [of _ "d1\<lparr>db_chain := paid\<rparr>"])
      (simp add: apply_block_steps_def on_chain_def forking_parts sample_paid paid_withdrawals)
qed

lemma paid_counts: "gpo paid = (gpo began)\<lparr>pending_rewarded_qi := qis 1000005, current_supply := yang 53004,
    last_siming_production_reward := qis 1000000\<rparr>" "head_block_number (gpo paid) = 11" "last_irreversible_block_num (gpo paid) = 5"
  by (simp_all add: paid_def began_parts sample_gpo_def)

text \<open>Before the eleventh block, and after a rival of it.\<close>

definition waiting :: "(nat, unit) node" where
  "waiting = \<lparr>nd_state = \<lparr>now = producing, saved = [], at_revision = 10\<rparr>,
     nd_fork = start_block (ne_hashes forking_node) tenth empty_fork_database, nd_log = new_block_log,
     nd_pending_tx = [], nd_popped_tx = [], nd_pending_session = False, nd_checkpoints = []\<rparr>"

definition rivalled :: "(nat, unit) node" where
  "rivalled = waiting\<lparr>nd_state := \<lparr>now = producing\<lparr>db_head_id := block_id (ne_hashes forking_node) rival\<rparr>,
       saved = [(11, producing)], at_revision = 11\<rparr>,
     nd_fork := \<lparr>heap = [(0, fork_item_of (ne_hashes forking_node) tenth),
         (1, (fork_item_of (ne_hashes forking_node) rival)\<lparr>prev := Some 0\<rparr>),
         (2, (fork_item_of (ne_hashes forking_node) produced)\<lparr>prev := Some 0\<rparr>)],
       next_addr = 3, index = [0, 1, 2], unlinked_index = [], head = Some 1, held = [], max_size = 1024\<rparr>\<rparr>"

lemma waiting_fork: "nd_fork waiting = \<lparr>heap = [(0, fork_item_of (ne_hashes forking_node) tenth)], next_addr = 1, index = [0],
    unlinked_index = [], head = Some 0, held = [], max_size = 1024\<rparr>"
  by (simp add: waiting_def start_block_def alloc_def empty_fork_database_def index_insert_def find_id_def insert_by_num_def)

lemma block_facts: "block_num tenth = 10" "block_num rival = 11" "block_num produced = 11" "previous rival = previous produced"
  "siming_signature tenth = 7" "siming_signature rival = 1" "siming_signature produced = 0"
  "previous produced = \<lparr>id_num = 10, id_hash = 7\<rparr>" "db_head_id producing = \<lparr>id_num = 10, id_hash = 7\<rparr>"
  by (simp_all add: tenth_def rival_def produced_def block_num_def num_from_id_def producing_def)

lemma waiting_ok: "node_ok forking waiting" "fork_ok (hashes_of forking) (nd_fork waiting)"
proof -
  show "node_ok forking waiting"
    by (simp add: node_ok_def history_ok_def states_def block_stack_def pending_ok_def waiting_def)
  have "fork_ok (ne_hashes forking_node) (start_block (ne_hashes forking_node) tenth empty_fork_database)"
    by (rule start_ok [OF fork_ok_empty])
  then show "fork_ok (hashes_of forking) (nd_fork waiting)" by (simp add: waiting_def forking_parts)
qed

lemma waiting_push:
  "\<exists>f. fdb_push_block (ne_hashes forking_node) produced (nd_fork waiting) = Inr (Some 1, f) \<and> data (item f 1) = produced \<and>
     head f = Some 1 \<and> item f 1 = (fork_item_of (ne_hashes forking_node) produced)\<lparr>prev := Some 0\<rparr>"
  by (simp add: waiting_fork fdb_push_block_def fdb_push_item_def oldest_num_def fork_item_of_def block_facts forking_parts
      fdb_link_def previous_id_def null_block_id_def find_id_def fdb_insert_def alloc_def index_insert_def insert_by_num_def Let_def)

lemma waiting_session:
  assumes "head f = Some a" "num (item f a) = 11"
  shows "\<exists>m. apply_in_session forking flags produced (waiting\<lparr>nd_fork := f\<rparr>) = Some (m, Inr ())"
proof -
  obtain d where d: "apply_block_steps forking_node flags produced producing = Inr d" "db_chain d = paid" using forking_steps by blast
  have w: "nd_state waiting = \<lparr>now = producing, saved = [], at_revision = 10\<rparr>" by (simp add: waiting_def)
  show ?thesis using assms
    by (simp add: apply_in_session_def node_apply_block_def forking_parts w u_start_def d map_state_def migrate_irreversible_state_def
        Let_def paid_counts(2,3) and_then_def flags_skip skip_block_log_def skip_validate_invariants_def)
qed

lemma waiting_runs:
  "\<exists>f m. fdb_push_block (hashes_of forking) produced (nd_fork waiting) = Inr (Some 1, f) \<and>
     previous (data (item f 1)) = head_id waiting \<and> push_block_in forking flags produced waiting = Some (m, Inr False)"
proof -
  obtain f where f: "fdb_push_block (ne_hashes forking_node) produced (nd_fork waiting) = Inr (Some 1, f)" "data (item f 1) = produced"
    "head f = Some 1" "item f 1 = (fork_item_of (ne_hashes forking_node) produced)\<lparr>prev := Some 0\<rparr>"
    using waiting_push by blast
  have "num (item f 1) = 11" using f(4) by (simp add: fork_item_of_def block_facts)
  then obtain m where m: "apply_in_session forking flags produced (waiting\<lparr>nd_fork := f\<rparr>) = Some (m, Inr ())"
    using waiting_session f(3) by blast
  have h: "head_id waiting = previous produced" by (simp add: head_id_def waiting_def block_facts)
  have "push_block_in forking flags produced waiting = Some (m, Inr False)"
    using f(1,2) m h by (simp add: push_block_in_def forking_parts flags_skip skip_fork_db_def Let_def extend_head_def head_id_def)
  then show ?thesis using f h by (intro exI [of _ f] exI [of _ m]) (simp add: forking_parts)
qed

lemma push_block_extends_witness:
  "\<exists>m. push_block_in forking flags produced waiting = Some (m, Inr False) \<and>
     apply_block_steps forking_node flags produced producing = Inr (now (nd_state m)) \<and> head_id m = \<lparr>id_num = 11, id_hash = 0\<rparr>"
proof -
  obtain f m where fm: "fdb_push_block (hashes_of forking) produced (nd_fork waiting) = Inr (Some 1, f)"
     "previous (data (item f 1)) = head_id waiting" "push_block_in forking flags produced waiting = Some (m, Inr False)"
    using waiting_runs by blast
  have p: "\<not> nd_pending_session waiting" and s: "\<not> skipped flags skip_fork_db"
    by (simp_all add: waiting_def flags_skip skip_fork_db_def)
  have w: "now (nd_state waiting) = producing" by (simp add: waiting_def)
  have "apply_block_steps (ce_node forking) flags produced (now (nd_state waiting)) = Inr (now (nd_state m)) \<and>
      head_id m = block_id (hashes_of forking) produced"
    using push_block_extends [OF p s fm] by blast
  then show ?thesis using fm(3) w by (simp add: forking_parts block_facts)
qed

lemma push_block_returns_witness:
  "\<exists>m r. push_block forking 5 flags produced waiting = Some (m, r) \<and> fork_ok (hashes_of forking) (nd_fork m)"
  by (rule push_block_returns [OF waiting_ok(2)])

lemma node_history_sound_witness:
  "\<exists>m. push_block forking 5 flags produced waiting = Some (m, Inr False) \<and> node_ok forking m"
proof -
  obtain m where m: "push_block_in forking flags produced waiting = Some (m, Inr False)" using waiting_runs by blast
  have "clear_pending waiting = waiting" by (simp add: clear_pending_def reset_pending_session_def waiting_def)
  then have push: "push_block forking 5 flags produced waiting = Some (restore_pending forking flags 5 (nd_pending_tx waiting) m, Inr False)"
    using m by (simp add: push_block_def checkpoint_flags_def waiting_def)
  then have "(node_step forking)\<^sup>*\<^sup>* waiting (restore_pending forking flags 5 (nd_pending_tx waiting) m)"
    by (intro r_into_rtranclp step_push)
  from node_history_sound [OF this waiting_ok(1)] push show ?thesis by blast
qed

lemma rivalled_branches:
  "fetch_branch_from (item_id (item (nd_fork rivalled) 2)) (head_id rivalled) (nd_fork rivalled) = Some (Inr ([2], [1]))"
proof -
  have "find_id (nd_fork rivalled) (index (nd_fork rivalled)) \<lparr>id_num = 11, id_hash = 0\<rparr> = Some 2"
    "find_id (nd_fork rivalled) (index (nd_fork rivalled)) \<lparr>id_num = 11, id_hash = 1\<rparr> = Some 1"
    by (simp_all add: rivalled_def find_id_def fork_item_of_def forking_parts block_facts)
  then show ?thesis
    by (simp add: fetch_branch_from_def rivalled_def fork_item_of_def forking_parts block_facts head_id_def climb.simps climb_both.simps)
qed

lemma rivalled_runs: "\<exists>m. switch_fork forking flags 2 rivalled = Some (m, Inr ())"
proof -
  let ?n = "rivalled\<lparr>nd_fork := (nd_fork rivalled)\<lparr>held := [2, 2, 1]\<rparr>\<rparr>"
  have pop: "pop_block forking ?n = (?n\<lparr>nd_state := \<lparr>now = producing, saved = [], at_revision = 10\<rparr>,
      nd_fork := (nd_fork ?n)\<lparr>head := Some 0\<rparr>\<rparr>, Inr ())"
    by (simp add: pop_block_def reset_pending_session_def fetch_block_by_id_def fetch_block_def find_id_def rivalled_def head_id_def
        forking_parts block_facts fork_item_of_def fdb_pop_block_def lock_def alive_def map_state_def u_undo_def waiting_def)
      (simp add: rival_def produced_def)
  let ?p = "?n\<lparr>nd_state := \<lparr>now = producing, saved = [], at_revision = 10\<rparr>, nd_fork := (nd_fork ?n)\<lparr>head := Some 0\<rparr>\<rparr>"
  have until: "pop_until forking (previous produced) ?n = Some (?p, Inr ())"
  proof -
    have h: "(head_id ?n = previous produced) = False" "(head_id ?p = previous produced) = True"
      by (simp_all add: head_id_def rivalled_def block_facts forking_parts)
    show ?thesis
      by (subst pop_until.simps, simp only: h(1) if_False pop prod.case sum.case, subst pop_until.simps, simp only: h(2) if_True)
  qed
  have "set_head 2 (nd_fork ?p) = (nd_fork ?p)\<lparr>head := Some 2\<rparr>" by (simp add: set_head_def)
  moreover have "item (nd_fork ?p) 2 = (fork_item_of (ne_hashes forking_node) produced)\<lparr>prev := Some 0\<rparr>" by (simp add: rivalled_def)
  moreover have "\<exists>m. apply_in_session forking flags produced (waiting\<lparr>nd_fork := (nd_fork ?p)\<lparr>head := Some 2\<rparr>\<rparr>) = Some (m, Inr ())"
    by (rule waiting_session [of _ 2]) (simp_all add: rivalled_def fork_item_of_def block_facts)
  moreover have "waiting\<lparr>nd_fork := (nd_fork ?p)\<lparr>head := Some 2\<rparr>\<rparr> = ?p\<lparr>nd_fork := (nd_fork ?p)\<lparr>head := Some 2\<rparr>\<rparr>"
    by (simp add: rivalled_def waiting_def)
  ultimately obtain m where m: "apply_item forking flags 2 ?p = Some (m, Inr ())"
    by (auto simp: apply_item_def Let_def fork_item_of_def)
  have "previous (data (item (nd_fork rivalled) 1)) = previous produced"
    by (simp add: rivalled_def fork_item_of_def block_facts)
  then show ?thesis
    using rivalled_branches until m by (simp add: switch_fork_def and_then_def) (simp add: rivalled_def)
qed

lemma fork_switch_correct_witness:
  "\<exists>m. switch_fork forking flags 2 rivalled = Some (m, Inr ()) \<and> head_id m = \<lparr>id_num = 11, id_hash = 0\<rparr>"
proof -
  obtain m where m: "switch_fork forking flags 2 rivalled = Some (m, Inr ())" using rivalled_runs by blast
  have "\<not> nd_pending_session rivalled" by (simp add: rivalled_def waiting_def)
  from fork_switch_correct [OF m this] rivalled_branches
  have "head_id m = block_id (hashes_of forking) (data (item (nd_fork rivalled) 2))" by auto
  then show ?thesis using m by (simp add: rivalled_def fork_item_of_def forking_parts block_facts)
qed

end
