(* ===== verification/Cultivation.thy ===== *)
theory Cultivation
  imports Nfa
begin

section \<open>Cultivations\<close>

text \<open>
  chain/database_cultivation.cpp, the spiritual energy of a zone of database_zone.cpp, and the contract
  interface to cultivations of contract_handler.cpp (without its counting of execution points). NFAs put
  qi into a cultivation, which earns qi from a fund while it runs; \<open>clean_cultivations\<close> ends the ones
  that are overdue with every block. Block numbers are 32-bit words, the largest one means not started.
\<close>

subsection \<open>Constants and access\<close>

definition TAIYI_CULTIVATION_PREPARE_MIN_TIME_BLOCK_NUM :: u32 where
  "TAIYI_CULTIVATION_PREPARE_MIN_TIME_BLOCK_NUM = 20"

definition TAIYI_CULTIVATION_MAX_TIME_BLOCK_NUM :: u32 where
  "TAIYI_CULTIVATION_MAX_TIME_BLOCK_NUM = 28800 * 7"

definition TAIYI_CULTIVATION_REWARD_FUND_NAME :: account_name_type where
  "TAIYI_CULTIVATION_REWARD_FUND_NAME = fs_of ''cultivation''"

abbreviation (input) never :: u32 where "never \<equiv> - 1"

definition get_cultivation :: "chain \<Rightarrow> nat \<Rightarrow> cultivation_object res" where
  "get_cultivation s i = (case map_of (cultivations s) i of Some c \<Rightarrow> Inr c | None \<Rightarrow> Inl Out_of_range)"

definition put_cultivation :: "nat \<Rightarrow> cultivation_object \<Rightarrow> chain \<Rightarrow> chain" where
  "put_cultivation i c s = s\<lparr>cultivations := tput i c (cultivations s)\<rparr>"

lemma get_cultivation_Inr [simp]: "get_cultivation s i = Inr c \<longleftrightarrow> map_of (cultivations s) i = Some c"
  by (simp add: get_cultivation_def split: option.split)

definition get_zone_by_id :: "chain \<Rightarrow> nat \<Rightarrow> zone_object res" where
  "get_zone_by_id s i = (case map_of (zones s) i of Some z \<Rightarrow> Inr z | None \<Rightarrow> Inl Out_of_range)"

definition get_actor_of_nfa :: "chain \<Rightarrow> nat \<Rightarrow> actor_object res" where
  "get_actor_of_nfa s i =
     (case find (\<lambda>(j, a). actor_nfa a = i) (actors s) of Some (j, a) \<Rightarrow> Inr a | None \<Rightarrow> Inl Out_of_range)"

definition get_reward_fund :: "chain \<Rightarrow> account_name_type \<Rightarrow> (nat \<times> reward_fund_object) res" where
  "get_reward_fund s n =
     (case find (\<lambda>(i, rf). fund_name rf = n) (reward_funds s) of Some r \<Rightarrow> Inr r | None \<Rightarrow> Inl Out_of_range)"

subsection \<open>Creating, joining, starting and dissolving\<close>

definition create_cultivation :: "nat \<Rightarrow> u32 table \<Rightarrow> u32 \<Rightarrow> chain \<Rightarrow> (nat \<times> chain) res" where
  "create_cultivation manager beneficiaries prepare_time_blocks s =
     rguard (prepare_time_blocks \<ge> TAIYI_CULTIVATION_PREPARE_MIN_TIME_BLOCK_NUM) (Assert ''prepare time not enough'')
     (rbind (rfold (\<lambda>(i, share) total.
         rguard (map_of (nfas s) i \<noteq> None) (Assert ''invalid beneficiary nfa id'')
         (rguard (share > 0) (Assert ''invalid beneficiary share weight'') (Inr (total + share)))) beneficiaries 0) (\<lambda>total.
      rguard (total = 10000) (Assert ''sum of beneficiaries share is not 100 percent'')
      (let now = head_block_num s; i = next_cultivation_id s in
       Inr (i, s\<lparr>cultivations := tput i \<lparr>manager_nfa_id = manager, beneficiary_map = beneficiaries, participants = [],
                   create_time = now, start_deadline = now + prepare_time_blocks, start_time = never,
                   last_update_time = never, qi_accumulated = 0\<rparr> (cultivations s),
                 next_cultivation_id := Suc i\<rparr>))))"

definition return_cultivation_value :: "fc_lib \<Rightarrow> nat \<Rightarrow> int \<times> chain \<Rightarrow> (int \<times> chain) res" where
  "return_cultivation_value F p = (\<lambda>(total, s).
     rbind (get_nfa s p) (\<lambda>nfa.
     let v = i64_of_u64 (cultivation_value nfa) in
     rbind (s_add F total v) (\<lambda>total.
     rbind (s_add F (amount (nfa_qi nfa)) v) (\<lambda>q.
     Inr (total, put_nfa p (nfa\<lparr>nfa_qi := (nfa_qi nfa)\<lparr>amount := q\<rparr>, cultivation_value := 0\<rparr>) s)))))"

definition dissolve_cultivation :: "fc_lib \<Rightarrow> nat \<Rightarrow> chain \<Rightarrow> chain res" where
  "dissolve_cultivation F i s =
     rbind (get_cultivation s i) (\<lambda>c.
     rbind (rfold (return_cultivation_value F) (ids (participants c)) (0, s)) (\<lambda>(total, s).
     let s = put_cultivation i (c\<lparr>participants := [], start_time := never, last_update_time := never, qi_accumulated := 0\<rparr>) s in
     if total > 0 then
       modify_gpo (\<lambda>p. rbind (asset_add F (total_qi p) (qis total)) (\<lambda>x.
                       rbind (asset_sub F (pending_cultivation_qi p) (qis total)) (\<lambda>y.
                       Inr (p\<lparr>total_qi := x, pending_cultivation_qi := y\<rparr>)))) s
     else Inr s))"

definition participate_cultivation :: "fc_lib \<Rightarrow> nat \<Rightarrow> nat \<Rightarrow> u64 \<Rightarrow> chain \<Rightarrow> chain res" where
  "participate_cultivation F i n v s =
     rbind (get_cultivation s i) (\<lambda>c. rbind (get_nfa s n) (\<lambda>nfa.
     rguard (start_time c = never) (Assert ''can not participate in a started cultivation'')
     (rguard (cultivation_value nfa = 0) (Assert ''nfa already in underway cultivation'')
     (rguard (v > 0) (Assert ''can not participate in a cultivation without any value'')
     (rguard (word_of_int (amount (nfa_qi nfa)) \<ge> v) (Assert ''nfa have not enough qi to participate'')
     (let s = put_cultivation i (c\<lparr>participants := tput n () (participants c)\<rparr>) s; x = i64_of_u64 v in
      rbind (s_sub F (amount (nfa_qi nfa)) x) (\<lambda>q.
      let s = put_nfa n (nfa\<lparr>nfa_qi := (nfa_qi nfa)\<lparr>amount := q\<rparr>, cultivation_value := v\<rparr>) s in
      modify_gpo (\<lambda>p. rbind (s_sub F (amount (total_qi p)) x) (\<lambda>y.
                      rbind (s_add F (amount (pending_cultivation_qi p)) x) (\<lambda>z.
                      Inr (p\<lparr>total_qi := (total_qi p)\<lparr>amount := y\<rparr>,
                            pending_cultivation_qi := (pending_cultivation_qi p)\<lparr>amount := z\<rparr>\<rparr>)))) s)))))))"

definition start_cultivation :: "nat \<Rightarrow> chain \<Rightarrow> chain res" where
  "start_cultivation i s =
     rbind (get_cultivation s i) (\<lambda>c.
     rguard (start_time c = never) (Assert ''cultivation is already underway'')
     (rguard (length (participants c) > 0) (Assert ''cultivation can not start without any participants'')
     (Inr (put_cultivation i (c\<lparr>start_time := head_block_num s, last_update_time := head_block_num s, qi_accumulated := 0\<rparr>) s))))"

subsection \<open>What a cultivation earns\<close>

text \<open>Each phase generates the next one of wood, fire, earth, metal, water, and overcomes the one after it.\<close>

definition generating :: "phases \<Rightarrow> phases \<Rightarrow> int" where
  "generating x y = i64 (ph_wood x * ph_fire y + ph_fire x * ph_earth y + ph_earth x * ph_metal y + ph_metal x * ph_water y + ph_water x * ph_wood y)"

definition overcoming :: "phases \<Rightarrow> phases \<Rightarrow> int" where
  "overcoming x y = i64 (ph_wood x * ph_earth y + ph_earth x * ph_water y + ph_water x * ph_fire y + ph_fire x * ph_metal y + ph_metal x * ph_wood y)"

definition phase_total :: "phases \<Rightarrow> int" where
  "phase_total p = i64 (ph_wood p + ph_fire p + ph_earth p + ph_metal p + ph_water p)"

definition calculate_zone_spiritual_energy :: "chain \<Rightarrow> zone_object \<Rightarrow> int res" where
  "calculate_zone_spiritual_energy s z =
     rbind (get_nfa_material s (zone_nfa z)) (\<lambda>m.
     let e = phases_of m; base_qi = phase_total e; mu = 100 * 50 in
     Inr (if base_qi > 0
          then i64 (base_qi + i64 (mu * (generating e e - overcoming e e) * 5) sdiv 10000 sdiv base_qi)
          else 0))"

text \<open>The bonus or malus of a pair of phase vectors; \<open>d\<close> is the product of their totals.\<close>

definition harmony_bonus :: "phases \<Rightarrow> phases \<Rightarrow> int \<Rightarrow> int" where
  "harmony_bonus x y d =
     (if d > 0 then
        if generating x y > overcoming x y then i64 ((generating x y - overcoming x y) * (10000 div 2) * 5) sdiv d
        else if overcoming x y > generating x y then - (i64 ((overcoming x y - generating x y) * (10000 div 2) * 5) sdiv d)
        else 0
      else 0)"

definition add_phases :: "phases \<Rightarrow> phases \<Rightarrow> phases" where
  "add_phases p q = \<lparr>ph_metal = i64 (ph_metal p + ph_metal q), ph_wood = i64 (ph_wood p + ph_wood q), ph_water = i64 (ph_water p + ph_water q),
     ph_fire = i64 (ph_fire p + ph_fire q), ph_earth = i64 (ph_earth p + ph_earth q)\<rparr>"

definition no_phases :: phases where
  "no_phases = \<lparr>ph_metal = 0, ph_wood = 0, ph_water = 0, ph_fire = 0, ph_earth = 0\<rparr>"

definition gather :: "chain \<Rightarrow> nat \<Rightarrow> u64 \<times> phases \<Rightarrow> (u64 \<times> phases) res" where
  "gather s p = (\<lambda>(Q, P).
     rbind (get_nfa s p) (\<lambda>nfa.
     rbind (get_nfa_material s p) (\<lambda>m.
     Inr (Q + cultivation_value nfa, add_phases P (phases_of m)))))"

definition cultivation_efficiency :: "chain \<Rightarrow> zone_object \<Rightarrow> phases \<Rightarrow> int res" where
  "cultivation_efficiency s z P =
     (let total_p = phase_total P in
      rbind (if total_p > 0 then
               rbind (get_nfa_material s (zone_nfa z)) (\<lambda>m.
               let Z = phases_of m; total_z = phase_total Z; e = i64 (10000 + harmony_bonus P P (i64 (total_p * total_p))) in
               Inr (if total_z > 0 then i64 (e + harmony_bonus Z P (i64 (total_z * total_p))) else e))
             else Inr 10000) (\<lambda>E.
      Inr (max E (100 * 10))))"

text \<open>The product is formed in unsigned 64-bit arithmetic, whatever the signs of its factors.\<close>

definition cultivation_reward :: "int \<Rightarrow> u64 \<Rightarrow> u32 \<Rightarrow> u32 \<Rightarrow> int \<Rightarrow> int" where
  "cultivation_reward N Q p dt E =
     sint ((word_of_int N + Q) * ucast p * ucast dt * word_of_int E div ucast TAIYI_CULTIVATION_MAX_TIME_BLOCK_NUM
             div 10000 div 10000)"

definition update_cultivation :: "block_id \<Rightarrow> nat \<Rightarrow> chain \<Rightarrow> chain res" where
  "update_cultivation head i s =
     rbind (get_cultivation s i) (\<lambda>c.
     rguard (start_time c \<noteq> never) (Assert ''cultivation have not started'')
     (let now = head_block_num s in
      rguard (start_time c \<le> now) (Assert ''invalid start time'')
      (if last_update_time c \<ge> now then Inr s
       else
         let dt = min (now - last_update_time c) TAIYI_CULTIVATION_MAX_TIME_BLOCK_NUM in
         rbind (get_actor_of_nfa s (manager_nfa_id c)) (\<lambda>act.
         rbind (get_zone_by_id s (location act)) (\<lambda>z.
         rbind (calculate_zone_spiritual_energy s z) (\<lambda>N.
         rbind (rfold (gather s) (ids (participants c)) (0, no_phases)) (\<lambda>(Q, P).
         rbind (cultivation_efficiency s z P) (\<lambda>E.
         let p = hasher_hash (id_seed head + of_nat i) mod 10000; rv = cultivation_reward N Q p dt E in
         Inr (if rv > 0
              then put_cultivation i (c\<lparr>qi_accumulated := i64 (qi_accumulated c + rv), last_update_time := now\<rparr>) s
              else s))))))))) "

subsection \<open>Ending a cultivation\<close>

definition reward_beneficiary :: "fc_lib \<Rightarrow> int \<Rightarrow> nat \<times> u32 \<Rightarrow> int \<times> chain \<Rightarrow> (int \<times> chain) res" where
  "reward_beneficiary F rv = (\<lambda>(n, share) (rv_left, s).
     let rn = qis (i64 (rv * uint share) sdiv 10000) in
     rbind (adjust_nfa_balance F n rn s) (\<lambda>s.
     rbind (get_nfa s n) (\<lambda>nfa.
     rbind (account_of_id s (owner_account nfa)) (\<lambda>owner.
     Inr (i64 (rv_left - amount rn), push_vop (Reward_cultivation owner n rn) s)))))"

text \<open>What the roundings leave goes to the last beneficiary.\<close>

definition reward_rest :: "fc_lib \<Rightarrow> u32 table \<Rightarrow> int \<times> chain \<Rightarrow> chain res" where
  "reward_rest F beneficiaries = (\<lambda>(rv_left, s).
     if rv_left > 0 then
       if beneficiaries = [] then Inl (Logic_error ''null pointer'')
       else let n = fst (last beneficiaries) in
         rbind (get_nfa s n) (\<lambda>nfa.
         rbind (account_of_id s (owner_account nfa)) (\<lambda>owner.
         adjust_nfa_balance F n (qis rv_left) (push_vop (Reward_cultivation owner n (qis rv_left)) s)))
     else Inr s)"

definition pay_cultivation :: "fc_lib \<Rightarrow> cultivation_object \<Rightarrow> chain \<Rightarrow> chain res" where
  "pay_cultivation F c s =
     rbind (get_reward_fund s TAIYI_CULTIVATION_REWARD_FUND_NAME) (\<lambda>(f, rf).
     let rv = min (qi_accumulated c) (amount (fund_qi_balance rf)) in
     if rv > 0 then
       rbind (rfold (reward_beneficiary F rv) (beneficiary_map c) (rv, s)) (\<lambda>st.
       rbind (reward_rest F (beneficiary_map c) st) (\<lambda>s.
       rbind (s_sub F (amount (fund_qi_balance rf)) rv) (\<lambda>b.
       let s = s\<lparr>reward_funds := tput f (rf\<lparr>fund_qi_balance := (fund_qi_balance rf)\<lparr>amount := b\<rparr>\<rparr>) (reward_funds s)\<rparr> in
       modify_gpo (\<lambda>p. rbind (s_sub F (amount (pending_rewarded_qi p)) rv) (\<lambda>x.
                       rbind (s_add F (amount (total_qi p)) rv) (\<lambda>y.
                       Inr (p\<lparr>pending_rewarded_qi := (pending_rewarded_qi p)\<lparr>amount := x\<rparr>,
                             total_qi := (total_qi p)\<lparr>amount := y\<rparr>\<rparr>)))) s)))
     else Inr s)"

definition stop_cultivation :: "fc_lib \<Rightarrow> block_id \<Rightarrow> nat \<Rightarrow> chain \<Rightarrow> chain res" where
  "stop_cultivation F head i s =
     rbind (update_cultivation head i s) (\<lambda>s.
     rbind (get_cultivation s i) (\<lambda>c.
     rbind (pay_cultivation F c s)
     (dissolve_cultivation F i)))"

subsection \<open>The clean-up of every block\<close>

definition dissolve_late :: "fc_lib \<Rightarrow> nat \<Rightarrow> nat list \<times> chain \<Rightarrow> (nat list \<times> chain) res" where
  "dissolve_late F i = (\<lambda>(removed, s).
     rbind (get_cultivation s i) (\<lambda>c.
     if start_time c = never then rbind (dissolve_cultivation F i s) (\<lambda>s. Inr (i # removed, s))
     else Inr (removed, s)))"

text \<open>
  The second loop walks the index by start time while it changes start times: the next element is the
  one after the current key of the element just ended, which has moved to the end of the index.
\<close>

definition by_start_time :: "chain \<Rightarrow> (nat \<times> cultivation_object) list" where
  "by_start_time s = sort_key (\<lambda>(i, c). (start_time c, i)) (cultivations s)"

definition after_start_time :: "chain \<Rightarrow> nat \<Rightarrow> nat option" where
  "after_start_time s i =
     (case map_of (cultivations s) i of
        None \<Rightarrow> None
      | Some c \<Rightarrow> map_option fst (find (\<lambda>(j, d). (start_time d, j) > (start_time c, i)) (by_start_time s)))"

primrec stop_overdue :: "fc_lib \<Rightarrow> block_id \<Rightarrow> nat \<Rightarrow> nat option \<Rightarrow> nat list \<times> chain \<Rightarrow> (nat list \<times> chain) res" where
  "stop_overdue F head 0 cur st = Inr st"
| "stop_overdue F head (Suc fuel) cur st =
     (case (cur, st) of
        (None, _) \<Rightarrow> Inr st
      | (Some i, (removed, s)) \<Rightarrow>
          rbind (get_cultivation s i) (\<lambda>c.
          if start_time c = never \<or> start_time c + TAIYI_CULTIVATION_MAX_TIME_BLOCK_NUM > head_block_num s then Inr st
          else rbind (stop_cultivation F head i s) (\<lambda>s.
               stop_overdue F head fuel (after_start_time s i) (i # removed, s))))"

definition clean_cultivations :: "fc_lib \<Rightarrow> block_id \<Rightarrow> chain \<Rightarrow> chain res" where
  "clean_cultivations F head s =
     rbind (rfold (dissolve_late F)
              (ids (takeWhile (\<lambda>(i, c). start_deadline c \<le> head_block_num s)
                      (sort_key (\<lambda>(i, c). (start_deadline c, i)) (cultivations s)))) ([], s)) (\<lambda>(removed, s).
     rbind (stop_overdue F head (Suc (length (cultivations s))) (map_option fst (find (\<lambda>_. True) (by_start_time s)))
              (removed, s)) (\<lambda>(removed, s).
     Inr (s\<lparr>cultivations := tdels removed (cultivations s)\<rparr>)))"

subsection \<open>The contract interface\<close>

text \<open>A call answers with a message, which is empty when the call went through.\<close>

definition owns_nfa :: "nat \<Rightarrow> nfa_object \<Rightarrow> bool" where
  "owns_nfa caller nfa \<longleftrightarrow> owner_account nfa = caller \<or> active_account nfa = caller"

text \<open>
  The beneficiaries arrive as two Lua tables with the keys 1 to n, here one list of NFAs with their shares,
  which are 64-bit integers of Lua; they are added up in 64 bits and stored in 32.
\<close>

definition parse_share :: "chain \<Rightarrow> nat \<times> int \<Rightarrow> u32 table \<times> u64 \<Rightarrow> (u32 table \<times> u64) res" where
  "parse_share s = (\<lambda>(n, share) (m, total).
     rguard (map_of (nfas s) n \<noteq> None) (Assert ''beneficiary NFA does not exist'')
     (rguard (share > 0) (Assert ''invalid share'')
     (Inr (tput n (word_of_int share) m, total + word_of_int share))))"

definition handle_create :: "nat \<Rightarrow> nat \<Rightarrow> (nat \<times> int) list \<Rightarrow> u32 \<Rightarrow> chain \<Rightarrow> (nat \<times> chain) res" where
  "handle_create caller manager shares prepare_time_blocks s =
     rbind (get_nfa s manager) (\<lambda>nfa.
     rguard (owns_nfa caller nfa) (Assert ''no authority over the NFA'')
     (rbind (rfold (parse_share s) shares ([], 0)) (\<lambda>(beneficiaries, total).
      rguard (total = 10000) (Assert ''sum of shares is not 100 percent'')
      (rguard (prepare_time_blocks \<ge> TAIYI_CULTIVATION_PREPARE_MIN_TIME_BLOCK_NUM) (Assert ''prepare time not enough'')
      (create_cultivation manager beneficiaries prepare_time_blocks s)))))"

definition handle_participate :: "fc_lib \<Rightarrow> nat \<Rightarrow> nat \<Rightarrow> nat \<Rightarrow> u64 \<Rightarrow> chain \<Rightarrow> (string \<times> chain) res" where
  "handle_participate F caller i n v s =
     (case map_of (cultivations s) i of
        None \<Rightarrow> Inr (''cultivation does not exist'', s)
      | Some c \<Rightarrow>
          if start_time c \<noteq> never then Inr (''cultivation has started'', s)
          else rbind (get_nfa s n) (\<lambda>nfa.
            if \<not> owns_nfa caller nfa then Inr (''no authority over the NFA'', s)
            else if cultivation_value nfa \<noteq> 0 then Inr (''participant is cultivating'', s)
            else if v = 0 then Inr (''no qi given'', s)
            else if word_of_int (amount (nfa_qi nfa)) < v then Inr (''not enough qi'', s)
            else rbind (participate_cultivation F i n v s) (\<lambda>s. Inr ('''', s))))"

definition handle_start :: "nat \<Rightarrow> nat \<Rightarrow> chain \<Rightarrow> (string \<times> chain) res" where
  "handle_start caller i s =
     (case map_of (cultivations s) i of
        None \<Rightarrow> Inr (''cultivation does not exist'', s)
      | Some c \<Rightarrow> rbind (get_nfa s (manager_nfa_id c)) (\<lambda>nfa.
          if \<not> owns_nfa caller nfa then Inr (''no authority over the cultivation'', s)
          else if start_time c \<noteq> never then Inr (''cultivation has started'', s)
          else if participants c = [] then Inr (''no participants'', s)
          else rbind (start_cultivation i s) (\<lambda>s. Inr ('''', s))))"

definition handle_stop_and_close :: "fc_lib \<Rightarrow> block_id \<Rightarrow> nat \<Rightarrow> nat \<Rightarrow> chain \<Rightarrow> (string \<times> chain) res" where
  "handle_stop_and_close F head caller i s =
     (case map_of (cultivations s) i of
        None \<Rightarrow> Inr (''cultivation does not exist'', s)
      | Some c \<Rightarrow> rbind (get_nfa s (manager_nfa_id c)) (\<lambda>nfa.
          if \<not> owns_nfa caller nfa then Inr (''no authority over the cultivation'', s)
          else rbind (if start_time c \<noteq> never then stop_cultivation F head i s else dissolve_cultivation F i s) (\<lambda>s.
               Inr ('''', s\<lparr>cultivations := tdel i (cultivations s)\<rparr>))))"

definition handle_update :: "block_id \<Rightarrow> nat \<Rightarrow> nat \<Rightarrow> chain \<Rightarrow> (string \<times> chain) res" where
  "handle_update head caller i s =
     (case map_of (cultivations s) i of
        None \<Rightarrow> Inr (''cultivation does not exist'', s)
      | Some c \<Rightarrow> rbind (get_nfa s (manager_nfa_id c)) (\<lambda>nfa.
          if \<not> owns_nfa caller nfa then Inr (''no authority over the cultivation'', s)
          else rbind (update_cultivation head i s) (\<lambda>s. Inr ('''', s))))"

end
