(* ===== verification/Cultivation_Ledger.thy ===== *)
theory Cultivation_Ledger
  imports Cultivation Sample
begin

section \<open>Cultivations keep the ledger\<close>

text \<open>
  Every operation on cultivations moves qi between an NFA, what it cultivates with and the fund of
  cultivations, and nothing is lost: \<open>garden_ok\<close> is the invariant, with the equations of the audit in it.
  Then what the code does not prevent: shares that add up to 100 percent only modulo \<open>2 ^ 32\<close>, and a
  cultivation whose end throws out of the block.
\<close>

subsection \<open>What the reward of one update is\<close>

lemma word_div3_bound:
  fixes x :: u64
  shows "uint (x div ucast TAIYI_CULTIVATION_MAX_TIME_BLOCK_NUM div 10000 div 10000) = uint x div 20160000000000"
proof -
  have m: "uint (ucast TAIYI_CULTIVATION_MAX_TIME_BLOCK_NUM :: u64) = 201600"
    by (simp add: TAIYI_CULTIVATION_MAX_TIME_BLOCK_NUM_def)
  have "uint (x div ucast TAIYI_CULTIVATION_MAX_TIME_BLOCK_NUM div 10000 div 10000) = uint x div 201600 div 10000 div 10000"
    by (simp add: uint_div_distrib m)
  also have "\<dots> = uint x div 20160000000000"
    by (simp add: zdiv_zmult2_eq [symmetric])
  finally show ?thesis .
qed

lemma reward_quotient: "0 \<le> uint (w :: u64) div 20160000000000" "uint w div 20160000000000 \<le> 915017"
proof -
  have w: "uint w \<le> 18446744073709551615" using uint_lt2p [of w] by simp
  then have "uint w div 20160000000000 \<le> 18446744073709551615 div 20160000000000" by (rule zdiv_mono1) simp
  then show "uint w div 20160000000000 \<le> 915017" by simp
  show "0 \<le> uint w div 20160000000000" by (simp add: pos_imp_zdiv_nonneg_iff)
qed

lemma cultivation_reward_uint:
  "cultivation_reward N Q p dt E =
     uint ((word_of_int N + Q) * ucast p * ucast dt * word_of_int E :: u64) div 20160000000000"
proof -
  let ?w = "(word_of_int N + Q) * ucast p * ucast dt * word_of_int E :: u64"
  let ?r = "?w div ucast TAIYI_CULTIVATION_MAX_TIME_BLOCK_NUM div 10000 div 10000"
  have r: "0 \<le> uint ?r" "uint ?r < 2 ^ 63" unfolding word_div3_bound using reward_quotient [of ?w] by simp_all
  have "sint ?r = signed_take_bit 63 (uint ?r)" by (simp only: sint_uint) simp
  also have "\<dots> = uint ?r" 
    by (rule signed_take_bit_int_eq_self, rule order_trans [OF _ r(1)]) (use r(2) in simp_all)
  finally show ?thesis by (simp only: cultivation_reward_def word_div3_bound)
qed

lemma cultivation_reward_range: "0 \<le> cultivation_reward N Q p dt E" "cultivation_reward N Q p dt E \<le> 915017"
  unfolding cultivation_reward_uint by (rule reward_quotient)+

text \<open>The intended value, as long as nothing wraps.\<close>

lemma cultivation_reward_exact:
  assumes "0 \<le> N + uint Q" "0 \<le> E" "(N + uint Q) * uint p * uint dt * E < 2 ^ 64"
  shows "cultivation_reward N Q p dt E = (N + uint Q) * uint p * uint dt * E div 20160000000000"
proof -
  let ?w = "(word_of_int N + Q) * ucast p * ucast dt * word_of_int E :: u64"
  have "?w = (word_of_int N + word_of_int (uint Q)) * word_of_int (uint p) * word_of_int (uint dt) * word_of_int E"
    by (simp only: word_of_int_uint ucast_eq)
  also have "\<dots> = word_of_int ((N + uint Q) * uint p * uint dt * E)" by (simp only: wi_hom_mult wi_hom_add)
  finally have "uint ?w = take_bit 64 ((N + uint Q) * uint p * uint dt * E)" by (simp only: uint_word_of_int_eq) simp
  also have "\<dots> = (N + uint Q) * uint p * uint dt * E"
    by (rule take_bit_int_eq_self) (use assms in simp_all)
  finally show ?thesis by (simp only: cultivation_reward_uint)
qed

subsection \<open>What moves\<close>

text \<open>No cultivation touches an account, a siming or what they adore.\<close>

definition same_people :: "chain \<Rightarrow> chain \<Rightarrow> bool" where
  "same_people s s' \<longleftrightarrow> accounts s' = accounts s \<and> simings s' = simings s \<and> siming_adores s' = siming_adores s \<and>
     next_account_id s' = next_account_id s"

definition tally :: "chain \<Rightarrow> int list" where
  "tally s = [amount (total_qi (gpo s)) - nfa_qi_total s, amount (pending_rewarded_feigang (gpo s)),
     amount (pending_rewarded_qi (gpo s)) - fund_of fund_qi_balance s, amount (pending_cultivation_qi (gpo s)) - cultivated s,
     nfa_qi_total s + cultivated s + fund_of fund_qi_balance s, fund_of reward_balance s]"

lemma tally_kept:
  assumes "same_people s s'" "current_supply (gpo s') = current_supply (gpo s)" "tally s' = tally s"
  shows "kept s s'"
  unfolding kept_def
proof
  assume ok: "chain_ok s"
  have t: "total_of g s' = total_of g s" for g using assms(1) by (simp add: total_of_def same_people_def)
  have b: "balanced s' = balanced s"
    using assms(1) by (simp add: gbalanced_def gbooks_def shape_def gproxied_def gadored_def same_people_def)
  have "proxies_ok s' = proxies_ok s"
    by (rule proxies_ok_cong) (use assms(1) in \<open>simp add: same_people_def same_proxies_accounts\<close>)
  then show "chain_ok s' \<and> worth s' = worth s \<and> current_supply (gpo s') = current_supply (gpo s)"
    using ok assms(2,3) by (simp add: chain_ok_def ledger_ok_def worth_def tally_def t b)
qed

lemma same_people_simps [simp]:
  "same_people s s" "same_people s (put_nfa i x t) = same_people s t" "same_people s (put_cultivation j c t) = same_people s t"
  "same_people s (t\<lparr>gpo := p\<rparr>) = same_people s t" "same_people s (push_vop v t) = same_people s t"
  "same_people s (t\<lparr>reward_funds := rf\<rparr>) = same_people s t" "same_people s (t\<lparr>cultivations := cs\<rparr>) = same_people s t"
  by (simp_all add: same_people_def put_nfa_def put_cultivation_def push_vop_def)

definition nfa_sane :: "nfa_object \<Rightarrow> bool" where
  "nfa_sane x \<longleftrightarrow> 0 \<le> amount (nfa_qi x) \<and> in_i64 (amount (nfa_qi x)) \<and> 0 \<le> i64_of_u64 (cultivation_value x)"

definition nfas_sane :: "chain \<Rightarrow> bool" where
  "nfas_sane s \<longleftrightarrow> wf_table (nfas s) \<and> (\<forall>i x. map_of (nfas s) i = Some x \<longrightarrow> nfa_sane x)"

lemma i64_zero [simp]: "i64_of_u64 0 = 0"
  by (simp add: i64_of_u64_def)

lemma put_nfa_totals:
  assumes "nfas_sane s" "map_of (nfas s) i = Some x"
  shows "nfa_qi_total (put_nfa i y s) = nfa_qi_total s + amount (nfa_qi y) - amount (nfa_qi x)"
    and "cultivated (put_nfa i y s) = cultivated s + i64_of_u64 (cultivation_value y) - i64_of_u64 (cultivation_value x)"
  using assms by (simp_all add: nfas_sane_def nfa_qi_total_def cultivated_def put_nfa_def tsum_update)

lemma put_nfa_sane: "nfas_sane s \<Longrightarrow> nfa_sane y \<Longrightarrow> nfas_sane (put_nfa i y s)"
  by (auto simp: nfas_sane_def put_nfa_def)

lemma put_nfa_simps [simp]:
  "gpo (put_nfa i y s) = gpo s" "reward_funds (put_nfa i y s) = reward_funds s" "cultivations (put_nfa i y s) = cultivations s"
  "next_cultivation_id (put_nfa i y s) = next_cultivation_id s" "nfas (put_nfa i y s) = tput i y (nfas s)"
  "fund_of g (put_nfa i y s) = fund_of g s"
  by (simp_all add: put_nfa_def fund_of_def)

lemma other_totals [simp]:
  "nfa_qi_total (s\<lparr>gpo := p\<rparr>) = nfa_qi_total s" "nfa_qi_total (push_vop v s) = nfa_qi_total s"
  "nfa_qi_total (put_cultivation i c s) = nfa_qi_total s" "cultivated (put_cultivation i c s) = cultivated s"
  "nfa_qi_total (s\<lparr>reward_funds := t\<rparr>) = nfa_qi_total s" "fund_of g (s\<lparr>gpo := p\<rparr>) = fund_of g s"
  "fund_of g (push_vop v s) = fund_of g s" "fund_of g (put_cultivation i c s) = fund_of g s"
  "nfa_qi_total (s\<lparr>cultivations := cs\<rparr>) = nfa_qi_total s" "cultivated (s\<lparr>cultivations := cs\<rparr>) = cultivated s"
  "fund_of g (s\<lparr>cultivations := cs\<rparr>) = fund_of g s"
  by (simp_all add: nfa_qi_total_def cultivated_def fund_of_def push_vop_def put_cultivation_def)

lemma put_cultivation_simps [simp]:
  "gpo (put_cultivation i c s) = gpo s" "nfas (put_cultivation i c s) = nfas s"
  "reward_funds (put_cultivation i c s) = reward_funds s" "cultivations (put_cultivation i c s) = tput i c (cultivations s)"
  "next_cultivation_id (put_cultivation i c s) = next_cultivation_id s"
  by (simp_all add: put_cultivation_def)

lemma push_vop_simps [simp]:
  "gpo (push_vop v s) = gpo s" "nfas (push_vop v s) = nfas s" "reward_funds (push_vop v s) = reward_funds s"
  "cultivations (push_vop v s) = cultivations s" "next_cultivation_id (push_vop v s) = next_cultivation_id s"
  by (simp_all add: push_vop_def)

subsection \<open>The values that go back to the participants\<close>

definition returned :: "nat set \<Rightarrow> chain \<Rightarrow> chain \<Rightarrow> int \<Rightarrow> bool" where
  "returned P s s' k \<longleftrightarrow> s' = s\<lparr>nfas := nfas s'\<rparr> \<and> nfas_sane s' \<and> 0 \<le> k \<and> nfa_qi_total s' = nfa_qi_total s + k \<and>
     cultivated s' = cultivated s - k \<and>
     (\<forall>n y. map_of (nfas s') n = Some y \<longrightarrow> (\<exists>x. map_of (nfas s) n = Some x \<and>
        y = (if n \<in> P then x\<lparr>nfa_qi := nfa_qi y, cultivation_value := 0\<rparr> else x)))"

lemma return_value_Inr:
  assumes F: "fc_laws F"
  shows "return_cultivation_value F p (k, s) = Inr z \<longleftrightarrow> (\<exists>x. map_of (nfas s) p = Some x \<and>
      in_i64 (k + i64_of_u64 (cultivation_value x)) \<and> in_i64 (amount (nfa_qi x) + i64_of_u64 (cultivation_value x)) \<and>
      z = (k + i64_of_u64 (cultivation_value x), put_nfa p (x\<lparr>nfa_qi := (nfa_qi x)\<lparr>amount :=
        amount (nfa_qi x) + i64_of_u64 (cultivation_value x)\<rparr>, cultivation_value := 0\<rparr>) s))"
  by (auto simp: return_cultivation_value_def s_add_law [OF F] Let_def)

lemma return_values:
  assumes F: "fc_laws F" and run: "rfold (return_cultivation_value F) ps (k, s) = Inr (k', s')" and sane: "nfas_sane s"
  shows "returned (set ps) s s' (k' - k)"
  using run sane
proof (induction ps arbitrary: k s)
  case Nil
  then show ?case by (auto simp: returned_def)
next
  case (Cons p ps)
  obtain x where x: "map_of (nfas s) p = Some x" and "nfa_sane x"
    and q: "in_i64 (k + i64_of_u64 (cultivation_value x))" and qx: "in_i64 (amount (nfa_qi x) + i64_of_u64 (cultivation_value x))"
    and rest: "rfold (return_cultivation_value F) ps (k + i64_of_u64 (cultivation_value x),
      put_nfa p (x\<lparr>nfa_qi := (nfa_qi x)\<lparr>amount := amount (nfa_qi x) + i64_of_u64 (cultivation_value x)\<rparr>, cultivation_value := 0\<rparr>) s)
      = Inr (k', s')"
    using Cons.prems unfolding nfas_sane_def by (auto simp: return_value_Inr [OF F])
  let ?v = "i64_of_u64 (cultivation_value x)"
  let ?y = "x\<lparr>nfa_qi := (nfa_qi x)\<lparr>amount := amount (nfa_qi x) + ?v\<rparr>, cultivation_value := 0\<rparr>"
  let ?t = "put_nfa p ?y s"
  have y: "nfa_sane ?y" using \<open>nfa_sane x\<close> qx by (simp add: nfa_sane_def)
  have t: "nfas_sane ?t" by (rule put_nfa_sane [OF Cons.prems(2) y])
  note tot = put_nfa_totals [OF Cons.prems(2) x, of ?y]
  note r = Cons.IH [OF rest t, unfolded returned_def]
  have e: "s' = s\<lparr>nfas := nfas s'\<rparr>"
  proof -
    have "s' = ?t\<lparr>nfas := nfas s'\<rparr>" using r by blast
    then show ?thesis by (simp add: put_nfa_def)
  qed
  have "0 \<le> ?v" using \<open>nfa_sane x\<close> by (simp add: nfa_sane_def)
  moreover have "\<exists>z. map_of (nfas s) n = Some z \<and>
      y = (if n \<in> set (p # ps) then z\<lparr>nfa_qi := nfa_qi y, cultivation_value := 0\<rparr> else z)"
    if y: "map_of (nfas s') n = Some y" for n y
  proof -
    obtain w where w: "map_of (nfas ?t) n = Some w" "y = (if n \<in> set ps then w\<lparr>nfa_qi := nfa_qi y, cultivation_value := 0\<rparr> else w)"
      using r y by blast
    show ?thesis
    proof (cases "n = p")
      case True
      then have "w = ?y" using w(1) by simp
      then show ?thesis using True x w(2) by (cases "p \<in> set ps") simp_all
    next
      case False
      then show ?thesis using w by simp
    qed
  qed
  ultimately show ?case
    unfolding returned_def using r e tot by simp
qed


subsection \<open>The invariant\<close>

text \<open>
  Shares add up to 100 percent as numbers; what a cultivation has earned is bounded by the blocks it has
  run; an NFA with qi in a cultivation takes part in one that exists, so that its qi can come back.
\<close>

definition share_total :: "u32 table \<Rightarrow> int" where
  "share_total m = sum_list (map (\<lambda>(n, share). uint share) m)"

definition cultivation_ok :: "u32 \<Rightarrow> cultivation_object \<Rightarrow> bool" where
  "cultivation_ok now c \<longleftrightarrow> share_total (beneficiary_map c) = 10000 \<and> 0 \<le> qi_accumulated c \<and>
     (if start_time c = never then qi_accumulated c = 0
      else start_time c \<le> last_update_time c \<and> last_update_time c \<le> now \<and>
        qi_accumulated c \<le> 915017 * (uint (last_update_time c) - uint (start_time c)))"

definition placed :: "chain \<Rightarrow> bool" where
  "placed s \<longleftrightarrow> (\<forall>n x. map_of (nfas s) n = Some x \<longrightarrow> cultivation_value x \<noteq> 0 \<longrightarrow>
     (\<exists>i c. map_of (cultivations s) i = Some c \<and> n \<in> set (ids (participants c))))"

definition garden_ok :: "chain \<Rightarrow> bool" where
  "garden_ok s \<longleftrightarrow> chain_ok s \<and> nfas_sane s \<and> wf_table (reward_funds s) \<and> wf_table (cultivations s) \<and> placed s \<and>
     uint (head_block_num s) < 2 ^ 29 \<and>
     (\<forall>i c. map_of (cultivations s) i = Some c \<longrightarrow> i < next_cultivation_id s \<and> cultivation_ok (head_block_num s) c)"

definition tends :: "chain \<Rightarrow> chain \<Rightarrow> bool" where
  "tends s s' \<longleftrightarrow> garden_ok s' \<and> worth s' = worth s \<and> current_supply (gpo s') = current_supply (gpo s) \<and>
     head_block_num s' = head_block_num s \<and> next_cultivation_id s \<le> next_cultivation_id s'"

lemma tends_trans: "tends s t \<Longrightarrow> tends t u \<Longrightarrow> tends s u"
  by (auto simp: tends_def)

lemma tends_refl: "garden_ok s \<Longrightarrow> tends s s"
  by (simp add: tends_def)

lemma garden_parts:
  assumes "garden_ok s"
  shows "chain_ok s" "nfas_sane s" "wf_table (reward_funds s)" "wf_table (cultivations s)" "placed s"
    "uint (head_block_num s) < 2 ^ 29"
    "map_of (cultivations s) i = Some c \<Longrightarrow> i < next_cultivation_id s"
    "map_of (cultivations s) i = Some c \<Longrightarrow> cultivation_ok (head_block_num s) c"
  using assms by (auto simp: garden_ok_def)

text \<open>Steps that change one cultivation and the money of NFAs.\<close>

lemma tends_step:
  assumes ok: "garden_ok s" and k: "kept s s'" and n: "nfas_sane s'" and r: "wf_table (reward_funds s')"
    and c: "cultivations s' = tput i c (cultivations s)" "i < next_cultivation_id s'" "next_cultivation_id s \<le> next_cultivation_id s'"
    and h: "head_block_num s' = head_block_num s" and co: "cultivation_ok (head_block_num s) c" and p: "placed s'"
  shows "tends s s'"
proof -
  have "chain_ok s' \<and> worth s' = worth s \<and> current_supply (gpo s') = current_supply (gpo s)"
    using k garden_parts(1) [OF ok] by (simp add: kept_def)
  moreover have "j < next_cultivation_id s' \<and> cultivation_ok (head_block_num s) d"
    if "map_of (cultivations s') j = Some d" for j d
    using that c co garden_parts(7,8) [OF ok, of j d] by (auto split: if_splits)
  ultimately show ?thesis
    using garden_parts(4,6) [OF ok] n r p h c(1,3) unfolding tends_def garden_ok_def by simp
qed

text \<open>After a cultivation is dissolved, nobody takes part in it, the others are as they were.\<close>

definition emptied :: "chain \<Rightarrow> nat \<Rightarrow> chain \<Rightarrow> bool" where
  "emptied s i s' \<longleftrightarrow> (\<exists>c. map_of (cultivations s) i = Some c \<and> cultivations s' = tput i (c\<lparr>participants := [], start_time := never,
     last_update_time := never, qi_accumulated := 0\<rparr>) (cultivations s))"

lemma placed_returned:
  assumes p: "placed s" and c: "map_of (cultivations s) i = Some c" and r: "returned (set (ids (participants c))) s t k"
    and s': "nfas s' = nfas t" "cultivations s' = tput i d (cultivations s)"
  shows "placed s'"
  unfolding placed_def
proof (intro allI impI)
  fix n y assume y: "map_of (nfas s') n = Some y" "cultivation_value y \<noteq> 0"
  then obtain x where x: "map_of (nfas s) n = Some x"
      "y = (if n \<in> set (ids (participants c)) then x\<lparr>nfa_qi := nfa_qi y, cultivation_value := 0\<rparr> else x)"
    using r s'(1) unfolding returned_def by auto
  have n: "n \<notin> set (ids (participants c))"
  proof
    assume "n \<in> set (ids (participants c))"
    then have "y = x\<lparr>nfa_qi := nfa_qi y, cultivation_value := 0\<rparr>" using x(2) by (simp only: if_True)
    then have "cultivation_value y = cultivation_value (x\<lparr>nfa_qi := nfa_qi y, cultivation_value := 0\<rparr>)" by (rule arg_cong)
    moreover have "cultivation_value (x\<lparr>nfa_qi := nfa_qi y, cultivation_value := 0\<rparr>) = 0" by simp
    ultimately show False using y(2) by (simp only: not_True_eq_False)
  qed
  then have "cultivation_value x \<noteq> 0" using x(2) y(2) by (simp only: if_False not_False_eq_True)
  then obtain j e where "map_of (cultivations s) j = Some e" "n \<in> set (ids (participants e))"
    using p x(1) unfolding placed_def by blast
  then show "\<exists>j e. map_of (cultivations s') j = Some e \<and> n \<in> set (ids (participants e))"
    using n c s'(2) by (intro exI [of _ j] exI [of _ e]) auto
qed

lemma dissolve_tends:
  assumes F: "fc_laws F" and ok: "garden_ok s" and run: "dissolve_cultivation F i s = Inr s'"
  shows "tends s s'" "emptied s i s'"
proof -
  note g = garden_parts [OF ok]
  obtain c t k where c: "map_of (cultivations s) i = Some c"
    and t: "rfold (return_cultivation_value F) (ids (participants c)) (0, s) = Inr (k, t)"
    and run2: "(if k > 0 then
       modify_gpo (\<lambda>p. rbind (asset_add F (total_qi p) (qis k)) (\<lambda>x.
                       rbind (asset_sub F (pending_cultivation_qi p) (qis k)) (\<lambda>y.
                       Inr (p\<lparr>total_qi := x, pending_cultivation_qi := y\<rparr>)))) (put_cultivation i (c\<lparr>participants := [],
           start_time := never, last_update_time := never, qi_accumulated := 0\<rparr>) t)
     else Inr (put_cultivation i (c\<lparr>participants := [],
           start_time := never, last_update_time := never, qi_accumulated := 0\<rparr>) t)) = Inr s'"
    using run by (auto simp: dissolve_cultivation_def Let_def)
  let ?d = "c\<lparr>participants := [], start_time := never, last_update_time := never, qi_accumulated := 0\<rparr>"
  have r: "returned (set (ids (participants c))) s t k" using return_values [OF F t g(2)] by simp
  then have e: "t = s\<lparr>nfas := nfas t\<rparr>" and k: "0 \<le> k" and q: "nfa_qi_total t = nfa_qi_total s + k" "cultivated t = cultivated s - k"
    and n: "nfas_sane t"
    unfolding returned_def by blast+
  have et: "gpo t = gpo s" "cultivations t = cultivations s" "reward_funds t = reward_funds s" "same_people s t"
      "next_cultivation_id t = next_cultivation_id s"
    by (subst e, simp add: same_people_def)+
  then have ft: "fund_of h t = fund_of h s" for h by (simp add: fund_of_def)
  obtain x y where s': "s' = (put_cultivation i ?d t)\<lparr>gpo := (gpo t)\<lparr>total_qi := x, pending_cultivation_qi := y\<rparr>\<rparr>"
    and p: "amount x = amount (total_qi (gpo s)) + k" "amount y = amount (pending_cultivation_qi (gpo s)) - k"
  proof (cases "k > 0")
    case True
    then obtain x y where a: "asset_add F (total_qi (gpo s)) (qis k) = Inr x" "asset_sub F (pending_cultivation_qi (gpo s)) (qis k) = Inr y"
        and b: "s' = (put_cultivation i ?d t)\<lparr>gpo := (gpo t)\<lparr>total_qi := x, pending_cultivation_qi := y\<rparr>\<rparr>"
      using run2 et(1) by (auto simp: modify_gpo_def)
    show thesis by (rule that [OF b]) (use a F in simp_all)
  next
    case False
    then have k0: "k = 0" using k by simp
    show thesis
    proof (rule that)
      show "s' = (put_cultivation i ?d t)\<lparr>gpo := (gpo t)\<lparr>total_qi := total_qi (gpo t),
          pending_cultivation_qi := pending_cultivation_qi (gpo t)\<rparr>\<rparr>"
        using run2 [symmetric] k0 by (simp add: put_cultivation_def)
    qed (simp_all add: k0 et(1))
  qed
  have kept: "kept s s'"
  proof (rule tally_kept)
    show "same_people s s'" "current_supply (gpo s') = current_supply (gpo s)" using et by (simp_all add: s')
    show "tally s' = tally s" using q p by (simp add: tally_def s' ft et(1))
  qed
  have cs: "cultivations s' = tput i ?d (cultivations s)" using et by (simp add: s')
  have "placed s'" by (rule placed_returned [OF g(5) c r _ cs]) (simp add: s')
  moreover have "cultivation_ok (head_block_num s) ?d" using g(8) [OF c] by (simp add: cultivation_ok_def)
  moreover have "nfas_sane s'" using n by (simp add: nfas_sane_def s')
  ultimately show "tends s s'"
    using g(3) g(7) [of i c] c et cs by (intro tends_step [OF ok kept]) (simp_all add: s' head_block_num_def)
  show "emptied s i s'" using c cs by (auto simp: emptied_def)
qed


subsection \<open>Joining, starting, earning\<close>

lemma participant_value:
  assumes "v \<le> word_of_int q" "0 \<le> q" "in_i64 q"
  shows "0 \<le> i64_of_u64 v \<and> i64_of_u64 v \<le> q"
proof -
  have "uint (word_of_int q :: u64) = q" using assms(2,3) by (simp add: uint_word_of_int_eq take_bit_int_eq_self in_i64_def)
  then have u: "uint v \<le> q" using assms(1) by (simp add: word_le_def)
  have "sint v = signed_take_bit 63 (uint v)" by (simp only: sint_uint) simp
  also have "\<dots> = uint v"
    by (rule signed_take_bit_int_eq_self, rule order_trans [of _ 0]) (use u assms(3) in \<open>simp_all add: in_i64_def\<close>)
  finally show ?thesis using u by (simp add: i64_of_u64_def)
qed

lemma participate_tends:
  assumes F: "fc_laws F" and ok: "garden_ok s" and run: "participate_cultivation F i n v s = Inr s'"
  shows "tends s s'"
proof -
  note g = garden_parts [OF ok]
  obtain c x where c: "map_of (cultivations s) i = Some c" and x: "map_of (nfas s) n = Some x"
    and never: "start_time c = never" and idle: "cultivation_value x = 0" and v: "v > 0" "v \<le> word_of_int (amount (nfa_qi x))"
    and q: "in_i64 (amount (nfa_qi x) - i64_of_u64 v)"
    and s': "s' = (put_nfa n (x\<lparr>nfa_qi := (nfa_qi x)\<lparr>amount := amount (nfa_qi x) - i64_of_u64 v\<rparr>, cultivation_value := v\<rparr>)
         (put_cultivation i (c\<lparr>participants := tput n () (participants c)\<rparr>) s))\<lparr>gpo := (gpo s)
           \<lparr>total_qi := (total_qi (gpo s))\<lparr>amount := amount (total_qi (gpo s)) - i64_of_u64 v\<rparr>,
            pending_cultivation_qi := (pending_cultivation_qi (gpo s))\<lparr>amount := amount (pending_cultivation_qi (gpo s)) + i64_of_u64 v\<rparr>\<rparr>\<rparr>"
    using run by (auto simp: participate_cultivation_def Let_def modify_gpo_def s_sub_law [OF F] s_add_law [OF F])
  let ?d = "c\<lparr>participants := tput n () (participants c)\<rparr>"
  let ?y = "x\<lparr>nfa_qi := (nfa_qi x)\<lparr>amount := amount (nfa_qi x) - i64_of_u64 v\<rparr>, cultivation_value := v\<rparr>"
  have "nfa_sane x" using g(2) x by (auto simp: nfas_sane_def)
  then have y: "nfa_sane ?y" using participant_value [OF v(2)] q by (simp add: nfa_sane_def)
  have "nfas_sane (put_cultivation i ?d s)" using g(2) by (simp add: nfas_sane_def)
  note t = put_nfa_totals [OF this, of n x ?y] put_nfa_sane [OF this y, of n]
  have k: "kept s s'"
    by (rule tally_kept) (use x idle in \<open>simp_all add: s' tally_def t\<close>)
  have "placed s'" unfolding placed_def
  proof (intro allI impI)
    fix m z assume z: "map_of (nfas s') m = Some z" "cultivation_value z \<noteq> 0"
    show "\<exists>j e. map_of (cultivations s') j = Some e \<and> m \<in> set (ids (participants e))"
    proof (cases "m = n")
      case True
      then show ?thesis by (intro exI [of _ i] exI [of _ ?d]) (simp add: s')
    next
      case False
      then have "map_of (nfas s) m = Some z" using z(1) by (simp add: s')
      then obtain j e where e: "map_of (cultivations s) j = Some e" "m \<in> set (ids (participants e))"
        using g(5) z(2) unfolding placed_def by blast
      then show ?thesis using c by (cases "j = i") (auto simp: s')
    qed
  qed
  moreover have "cultivation_ok (head_block_num s) ?d" using g(8) [OF c] by (simp add: cultivation_ok_def split: if_splits)
  ultimately show ?thesis
    using t(3) g(3) g(7) [of i c] c k
    by (intro tends_step [OF ok]) (simp_all add: s' nfas_sane_def head_block_num_def)
qed

lemma start_tends:
  assumes ok: "garden_ok s" and run: "start_cultivation i s = Inr s'"
  shows "tends s s'"
proof -
  note g = garden_parts [OF ok]
  obtain c where c: "map_of (cultivations s) i = Some c"
    and s': "s' = put_cultivation i (c\<lparr>start_time := head_block_num s, last_update_time := head_block_num s, qi_accumulated := 0\<rparr>) s"
    using run by (auto simp: start_cultivation_def)
  let ?d = "c\<lparr>start_time := head_block_num s, last_update_time := head_block_num s, qi_accumulated := 0\<rparr>"
  have "kept s s'" by (rule tally_kept) (simp_all add: s' tally_def)
  moreover have "cultivation_ok (head_block_num s) ?d" using g(8) [OF c] by (simp add: cultivation_ok_def)
  moreover have "placed s'" using g(5) c unfolding placed_def s' by (auto split: if_splits) (metis option.inject)
  ultimately show ?thesis
    using g(2,3) g(7) [of i c] c by (intro tends_step [OF ok]) (simp_all add: s' nfas_sane_def head_block_num_def)
qed

lemma earned_bound:
  fixes q last start now rv :: int
  assumes "q \<le> 915017 * (last - start)" "0 \<le> q" "last + 1 \<le> now" "0 \<le> start" "0 \<le> rv" "rv \<le> 915017"
  shows "q + rv \<le> 915017 * (now - start) \<and> 0 \<le> q + rv \<and> q + rv \<le> 915017 * now"
  using assms by simp

text \<open>An update never lowers what is earned, and raises it by at most 915017.\<close>

lemma update_cases:
  assumes "update_cultivation head i s = Inr s'"
  obtains c where "map_of (cultivations s) i = Some c" "start_time c \<noteq> never" "start_time c \<le> head_block_num s" "s' = s"
  | c rv where "map_of (cultivations s) i = Some c" "start_time c \<noteq> never" "start_time c \<le> head_block_num s"
      "last_update_time c < head_block_num s" "0 < rv" "rv \<le> 915017"
      "s' = put_cultivation i (c\<lparr>qi_accumulated := i64 (qi_accumulated c + rv), last_update_time := head_block_num s\<rparr>) s"
  using assms cultivation_reward_range(2)
  by (auto simp: update_cultivation_def Let_def not_le split: if_splits)

lemma update_tends:
  assumes ok: "garden_ok s" and run: "update_cultivation head i s = Inr s'"
  shows "tends s s'" "nfas s' = nfas s" "gpo s' = gpo s" "reward_funds s' = reward_funds s"
    "j \<noteq> i \<Longrightarrow> map_of (cultivations s') j = map_of (cultivations s) j"
proof -
  note g = garden_parts [OF ok]
  have "tends s s' \<and> nfas s' = nfas s \<and> gpo s' = gpo s \<and> reward_funds s' = reward_funds s \<and>
    (j \<noteq> i \<longrightarrow> map_of (cultivations s') j = map_of (cultivations s) j)"
    using run
  proof (cases rule: update_cases)
    case 1
    then show ?thesis using tends_refl [OF ok] by simp
  next
    case (2 c rv)
    let ?now = "head_block_num s"
    let ?d = "c\<lparr>qi_accumulated := i64 (qi_accumulated c + rv), last_update_time := ?now\<rparr>"
    have k: "kept s s'" by (rule tally_kept) (simp_all add: 2 tally_def)
    have co: "cultivation_ok ?now c" by (rule g(8) [OF 2(1)])
    have t: "uint (last_update_time c) + 1 \<le> uint ?now" using 2(4) by (simp add: word_less_def)
    have lo: "qi_accumulated c \<le> 915017 * (uint (last_update_time c) - uint (start_time c))" "0 \<le> qi_accumulated c"
      using co 2(2) by (simp_all add: cultivation_ok_def)
    have "0 \<le> uint (start_time c)" by simp
    note earned_bound [OF lo t this less_imp_le [OF 2(5)] 2(6)]
    then have b: "qi_accumulated c + rv \<le> 915017 * (uint ?now - uint (start_time c))" "0 \<le> qi_accumulated c + rv"
        "qi_accumulated c + rv < 2 ^ 63"
      using g(6) by simp_all
    then have "in_i64 (qi_accumulated c + rv)" by (simp add: in_i64_def)
    have "cultivation_ok ?now ?d" using co b lo 2(2-5) \<open>in_i64 _\<close> by (simp add: cultivation_ok_def)
    moreover have "placed s'" using g(5) 2(1) unfolding placed_def 2(7) by (auto split: if_splits) (metis option.inject)
    ultimately have "tends s s'"
      using g(2,3) g(7) [of i c] 2(1) k by (intro tends_step [OF ok]) (simp_all add: 2(7) nfas_sane_def head_block_num_def)
    then show ?thesis by (simp add: 2(7))
  qed
  then show "tends s s'" "nfas s' = nfas s" "gpo s' = gpo s" "reward_funds s' = reward_funds s"
    "j \<noteq> i \<Longrightarrow> map_of (cultivations s') j = map_of (cultivations s) j" by blast+
qed


subsection \<open>Paying the beneficiaries\<close>

text \<open>NFAs got \<open>k\<close> more qi, and nothing else changed.\<close>

definition paid_out :: "int \<Rightarrow> chain \<Rightarrow> chain \<Rightarrow> bool" where
  "paid_out k s s' \<longleftrightarrow> same_people s s' \<and> nfas_sane s' \<and> gpo s' = gpo s \<and> cultivations s' = cultivations s \<and>
     reward_funds s' = reward_funds s \<and> next_cultivation_id s' = next_cultivation_id s \<and>
     nfa_qi_total s' = nfa_qi_total s + k \<and> cultivated s' = cultivated s \<and>
     (\<forall>n y. map_of (nfas s') n = Some y \<longrightarrow> (\<exists>x. map_of (nfas s) n = Some x \<and> cultivation_value y = cultivation_value x))"

lemma paid_out_refl: "nfas_sane s \<Longrightarrow> paid_out 0 s s"
  by (simp add: paid_out_def)

lemma paid_out_trans: "paid_out k s t \<Longrightarrow> paid_out l t u \<Longrightarrow> paid_out (k + l) s u"
  unfolding paid_out_def same_people_def by (auto; metis)

lemma paid_out_vop [simp]: "paid_out k s (push_vop v t) = paid_out k s t" "paid_out k (push_vop v s) t = paid_out k s t"
  by (simp_all add: paid_out_def nfas_sane_def same_people_def push_vop_def nfa_qi_total_def cultivated_def)

lemma adjust_nfa_paid:
  assumes F: "fc_laws F" and x: "0 \<le> x" and sane: "nfas_sane s" and run: "adjust_nfa_balance F n (qis x) s = Inr s'"
  shows "paid_out x s s'"
proof -
  obtain y where y: "map_of (nfas s) n = Some y" and b: "in_i64 (amount (nfa_qi y) + x)" "symbol (nfa_qi y) = QI_SYMBOL"
    and s': "s' = put_nfa n (y\<lparr>nfa_qi := mk_asset (amount (nfa_qi y) + x) QI_SYMBOL\<rparr>) s"
    using run x F by (auto simp: adjust_nfa_balance_def modify_nfa_def)
  have "nfa_sane y" using sane y by (auto simp: nfas_sane_def)
  then have z: "nfa_sane (y\<lparr>nfa_qi := mk_asset (amount (nfa_qi y) + x) QI_SYMBOL\<rparr>)" using x b by (simp add: nfa_sane_def)
  show ?thesis
    unfolding paid_out_def s' using put_nfa_sane [OF sane z] put_nfa_totals [OF sane y] y by auto
qed

lemma reward_beneficiary_Inr:
  "reward_beneficiary F rv (n, share) (k, s) = Inr z \<longleftrightarrow>
     (let x = i64 (rv * uint share) sdiv 10000 in
      \<exists>t nfa owner. adjust_nfa_balance F n (qis x) s = Inr t \<and> map_of (nfas t) n = Some nfa \<and>
        account_of_id t (owner_account nfa) = Inr owner \<and>
        z = (i64 (k - x), push_vop (Reward_cultivation owner n (qis x)) t))"
  by (auto simp: reward_beneficiary_def Let_def)

lemma reward_beneficiaries:
  assumes F: "fc_laws F" and rv: "0 \<le> rv" "rv * 10000 < 2 ^ 63"
    and run: "rfold (reward_beneficiary F rv) m (k, s) = Inr (k', s')" and sane: "nfas_sane s"
    and k: "k \<le> rv" "rv * share_total m \<le> 10000 * k" and m: "share_total m \<le> 10000"
  shows "paid_out (k - k') s s' \<and> 0 \<le> k' \<and> k' \<le> k"
  using run sane k m
proof (induction m arbitrary: k s)
  case Nil
  then show ?case by (simp add: paid_out_refl share_total_def)
next
  case (Cons b m)
  obtain n share where b: "b = (n, share)" by fastforce
  let ?rn = "rv * uint share div 10000"
  have m: "share_total (b # m) = uint share + share_total m" "0 \<le> share_total m"
    by (auto simp: share_total_def b intro: sum_list_nonneg)
  have u: "0 \<le> uint share" "uint share \<le> 10000" using Cons.prems(5) m by simp_all
  have "0 \<le> rv * uint share" "rv * uint share \<le> rv * 10000" using rv(1) u by (simp_all add: mult_left_mono)
  then have i: "in_i64 (rv * uint share)" "0 \<le> ?rn" using rv(2) by (simp_all add: in_i64_def pos_imp_zdiv_nonneg_iff)
  then have rn: "i64 (rv * uint share) sdiv 10000 = ?rn" using \<open>0 \<le> rv * uint share\<close> by (simp add: sdiv_nonneg)
  have split: "rv * share_total (b # m) = rv * uint share + rv * share_total m" using m(1) by (simp add: algebra_simps)
  have le: "10000 * ?rn \<le> rv * uint share" by simp
  have "0 \<le> rv * share_total m" using rv(1) m(2) by simp
  have m5: "share_total m \<le> 10000" using Cons.prems(5) m(1) u(1) by linarith
  then have k0: "?rn \<le> k" "rv * share_total m \<le> 10000 * (k - ?rn)"
    using Cons.prems(4) le \<open>0 \<le> rv * share_total m\<close> unfolding split right_diff_distrib by linarith+
  have ik: "i64 (k - ?rn) = k - ?rn"
    by (rule i64_small) (use k0 i(2) Cons.prems(3) rv in \<open>simp add: in_i64_def\<close>)
  obtain t owner where t: "adjust_nfa_balance F n (qis ?rn) s = Inr t"
    and rest: "rfold (reward_beneficiary F rv) m (k - ?rn, push_vop (Reward_cultivation owner n (qis ?rn)) t) = Inr (k', s')"
    using Cons.prems(1) unfolding b rfold.simps rbind_Inr_iff reward_beneficiary_Inr Let_def rn ik by blast
  have p: "paid_out ?rn s t" by (rule adjust_nfa_paid [OF F i(2) Cons.prems(2) t])
  then have "nfas_sane (push_vop (Reward_cultivation owner n (qis ?rn)) t)" by (simp add: paid_out_def nfas_sane_def)
  from Cons.IH [OF rest this] have "paid_out (k - ?rn - k') t s' \<and> 0 \<le> k' \<and> k' \<le> k - ?rn"
    using k0 Cons.prems(3) m5 i(2) by simp
  then show ?case using paid_out_trans [OF p, of "k - ?rn - k'" s'] i(2) by simp
qed

lemma tput_same: "wf_table t \<Longrightarrow> map_of t i = Some v \<Longrightarrow> tput i v t = t"
  by (rule wf_table_ext) auto

lemma elapsed_bound: "(q :: int) \<le> 915017 * (l - b) \<Longrightarrow> l \<le> n \<Longrightarrow> 0 \<le> b \<Longrightarrow> q \<le> 915017 * n"
  by simp

lemma pay_tends:
  assumes F: "fc_laws F" and ok: "garden_ok s" and c: "map_of (cultivations s) i = Some c" "start_time c \<noteq> never"
    and run: "pay_cultivation F c s = Inr s'"
  shows "tends s s'" "cultivations s' = cultivations s"
proof -
  note g = garden_parts [OF ok]
  have co: "cultivation_ok (head_block_num s) c" by (rule g(8) [OF c(1)])
  obtain f rf where f: "get_reward_fund s TAIYI_CULTIVATION_REWARD_FUND_NAME = Inr (f, rf)"
    using run by (auto simp: pay_cultivation_def)
  then have "(f, rf) \<in> set (reward_funds s)" by (auto simp: get_reward_fund_def find_Some_iff split: option.splits) (metis nth_mem)
  then have rf: "map_of (reward_funds s) f = Some rf" using wf_distinct [OF g(3)] by (simp add: ids_def)
  let ?rv = "min (qi_accumulated c) (amount (fund_qi_balance rf))"
  have "tends s s' \<and> cultivations s' = cultivations s"
  proof (cases "?rv > 0")
    case False
    then show ?thesis using run f tends_refl [OF ok] by (simp add: pay_cultivation_def Let_def del: min_less_iff_conj)
  next
    case True
    have "uint (last_update_time c) \<le> uint (head_block_num s)" "0 \<le> uint (start_time c)"
      using co c(2) by (simp_all add: cultivation_ok_def word_le_def)
    moreover have "qi_accumulated c \<le> 915017 * (uint (last_update_time c) - uint (start_time c))"
      using co c(2) by (simp add: cultivation_ok_def)
    ultimately have "qi_accumulated c \<le> 915017 * uint (head_block_num s)" using elapsed_bound by blast
    then have "?rv \<le> 915017 * uint (head_block_num s)" by linarith
    then have big: "?rv * 10000 < 2 ^ 63" using g(6) by simp
    have sh: "share_total (beneficiary_map c) = 10000" using co by (simp add: cultivation_ok_def)
    obtain k t u b x y where t: "rfold (reward_beneficiary F ?rv) (beneficiary_map c) (?rv, s) = Inr (k, t)"
      and u: "reward_rest F (beneficiary_map c) (k, t) = Inr u"
      and s': "s' = u\<lparr>reward_funds := tput f (rf\<lparr>fund_qi_balance := (fund_qi_balance rf)\<lparr>amount := amount (fund_qi_balance rf) - ?rv\<rparr>\<rparr>) (reward_funds u),
          gpo := (gpo u)\<lparr>pending_rewarded_qi := (pending_rewarded_qi (gpo u))\<lparr>amount := amount (pending_rewarded_qi (gpo u)) - ?rv\<rparr>,
            total_qi := (total_qi (gpo u))\<lparr>amount := amount (total_qi (gpo u)) + ?rv\<rparr>\<rparr>\<rparr>"
      using run f True
      by (auto simp: pay_cultivation_def Let_def modify_gpo_def s_sub_law [OF F] s_add_law [OF F] simp del: min_less_iff_conj)
    have "paid_out (?rv - k) s t \<and> 0 \<le> k \<and> k \<le> ?rv"
      by (rule reward_beneficiaries [OF F less_imp_le [OF True] big t g(2)]) (use sh in simp_all)
    then have p: "paid_out (?rv - k) s t" "0 \<le> k" by blast+
    have "paid_out k t u"
    proof (cases "k > 0")
      case False
      then show ?thesis using u p paid_out_refl [of t] by (simp add: reward_rest_def paid_out_def)
    next
      case k: True
      obtain n owner where u: "adjust_nfa_balance F n (qis k) (push_vop (Reward_cultivation owner n (qis k)) t) = Inr u"
        using u k by (auto simp: reward_rest_def Let_def split: if_splits)
      have "nfas_sane (push_vop (Reward_cultivation owner n (qis k)) t)" using p(1) by (simp add: paid_out_def nfas_sane_def)
      from adjust_nfa_paid [OF F p(2) this u] show ?thesis by simp
    qed
    from paid_out_trans [OF p(1) this] have pu: "paid_out ?rv s u" by simp
    have fd: "fund_of h (v\<lparr>reward_funds := tput f r (reward_funds s)\<rparr>) = fund_of h s + amount (h r) - amount (h rf)" for h v r
      using tsum_update [OF g(3) rf] by (simp add: fund_of_def)
    have kept: "kept s s'"
    proof (rule tally_kept)
      show "same_people s s'" "current_supply (gpo s') = current_supply (gpo s)" using pu by (simp_all add: s' paid_out_def)
      show "tally s' = tally s" using pu by (simp add: tally_def s' paid_out_def fd)
    qed
    have "placed s'" using pu g(5) unfolding placed_def paid_out_def s' by (simp, metis)
    moreover have "nfas_sane s'" using pu by (simp add: s' paid_out_def nfas_sane_def)
    moreover have cs: "cultivations s' = tput i c (cultivations s)"
      using pu c(1) g(4) by (simp add: s' paid_out_def tput_same)
    ultimately have "tends s s'"
      using pu g(3) g(7) [of i c] c(1) co by (intro tends_step [OF ok kept]) (simp_all add: s' paid_out_def head_block_num_def)
    then show ?thesis using pu by (simp add: s' paid_out_def)
  qed
  then show "tends s s'" "cultivations s' = cultivations s" by blast+
qed


subsection \<open>Stopping and cleaning up\<close>

lemma stop_tends:
  assumes F: "fc_laws F" and ok: "garden_ok s" and run: "stop_cultivation F head i s = Inr s'"
  shows "tends s s'" "\<exists>c. map_of (cultivations s') i = Some c \<and> participants c = []"
    "j \<noteq> i \<Longrightarrow> map_of (cultivations s') j = map_of (cultivations s) j"
proof -
  obtain t c u where t: "update_cultivation head i s = Inr t" and c: "map_of (cultivations t) i = Some c"
    and u: "pay_cultivation F c t = Inr u" and s': "dissolve_cultivation F i u = Inr s'"
    using run by (auto simp: stop_cultivation_def)
  note t' = update_tends [OF ok t]
  have ot: "garden_ok t" using t'(1) by (simp add: tends_def)
  have st: "start_time c \<noteq> never" using t by (cases rule: update_cases) (use c in auto)
  note u' = pay_tends [OF F ot c st u]
  have ou: "garden_ok u" using u'(1) by (simp add: tends_def)
  note d = dissolve_tends [OF F ou s']
  show "tends s s'" by (rule tends_trans [OF t'(1) tends_trans [OF u'(1) d(1)]])
  show "\<exists>c. map_of (cultivations s') i = Some c \<and> participants c = []" using d(2) by (auto simp: emptied_def)
  show "j \<noteq> i \<Longrightarrow> map_of (cultivations s') j = map_of (cultivations s) j"
    using d(2) u'(2) t'(5) [of j] by (auto simp: emptied_def)
qed

text \<open>Nothing is lost when cultivations without participants are removed.\<close>

definition all_empty :: "nat list \<Rightarrow> chain \<Rightarrow> bool" where
  "all_empty R s \<longleftrightarrow> (\<forall>i \<in> set R. \<exists>c. map_of (cultivations s) i = Some c \<and> participants c = [])"

lemma remove_tends:
  assumes ok: "garden_ok s" and e: "all_empty R s"
  shows "tends s (s\<lparr>cultivations := tdels R (cultivations s)\<rparr>)"
proof -
  note g = garden_parts [OF ok]
  let ?s = "s\<lparr>cultivations := tdels R (cultivations s)\<rparr>"
  have "kept s ?s" by (rule tally_kept) (simp_all add: tally_def)
  then have "chain_ok ?s \<and> worth ?s = worth s" using g(1) by (simp add: kept_def)
  moreover have "placed ?s"
    unfolding placed_def
  proof (intro allI impI)
    fix n x assume "map_of (nfas ?s) n = Some x" "cultivation_value x \<noteq> 0"
    then have "map_of (nfas s) n = Some x" "cultivation_value x \<noteq> 0" by simp_all
    then obtain i c where c: "map_of (cultivations s) i = Some c" "n \<in> set (ids (participants c))"
      using g(5) unfolding placed_def by blast
    then have "i \<notin> set R" using e unfolding all_empty_def by fastforce
    then show "\<exists>i c. map_of (cultivations ?s) i = Some c \<and> n \<in> set (ids (participants c))"
      using c by (intro exI [of _ i] exI [of _ c]) (simp add: map_of_tdels)
  qed
  ultimately show ?thesis
    using g(2,3,4,6) g(7,8) unfolding tends_def garden_ok_def
    by (auto simp: map_of_tdels restrict_map_def nfas_sane_def head_block_num_def split: if_splits)
qed

lemma dissolve_late_tends:
  assumes F: "fc_laws F" and run: "rfold (dissolve_late F) is (R, s) = Inr (R', s')" and ok: "garden_ok s" and e: "all_empty R s"
  shows "tends s s' \<and> all_empty R' s'"
  using run ok e
proof (induction "is" arbitrary: R s)
  case Nil
  then show ?case by (simp add: tends_refl)
next
  case (Cons i "is")
  obtain c where c: "map_of (cultivations s) i = Some c" using Cons.prems(1) by (auto simp: dissolve_late_def)
  show ?case
  proof (cases "start_time c = never")
    case False
    then show ?thesis using Cons c by (simp add: dissolve_late_def)
  next
    case True
    then obtain t where t: "dissolve_cultivation F i s = Inr t" and rest: "rfold (dissolve_late F) is (i # R, t) = Inr (R', s')"
      using Cons.prems(1) c unfolding rfold.simps rbind_Inr_iff by (auto simp: dissolve_late_def [of F i])
    note d = dissolve_tends [OF F Cons.prems(2) t]
    have "all_empty (i # R) t" using Cons.prems(3) d(2) unfolding all_empty_def emptied_def by fastforce
    then have "tends t s' \<and> all_empty R' s'" using Cons.IH [OF rest] d(1) by (simp add: tends_def)
    then show ?thesis using tends_trans [OF d(1)] by blast
  qed
qed

lemma stop_overdue_tends:
  assumes F: "fc_laws F" and run: "stop_overdue F head fuel cur (R, s) = Inr (R', s')" and ok: "garden_ok s" and e: "all_empty R s"
  shows "tends s s' \<and> all_empty R' s'"
  using run ok e
proof (induction fuel arbitrary: cur R s)
  case 0
  then show ?case by (simp add: tends_refl)
next
  case (Suc fuel)
  have stop: "tends s s' \<and> all_empty R' s'" if "(R', s') = (R, s)" using that Suc.prems by (simp add: tends_refl)
  show ?case
  proof (cases cur)
    case None
    then show ?thesis using Suc.prems(1) stop by simp
  next
    case (Some i)
    obtain c where c: "map_of (cultivations s) i = Some c" using Suc.prems(1) Some by auto
    show ?thesis
    proof (cases "start_time c = never \<or> start_time c + TAIYI_CULTIVATION_MAX_TIME_BLOCK_NUM > head_block_num s")
      case True
      then show ?thesis using Suc.prems(1) Some c stop by (simp split: if_splits)
    next
      case False
      then obtain t where t: "stop_cultivation F head i s = Inr t"
        and rest: "stop_overdue F head fuel (after_start_time t i) (i # R, t) = Inr (R', s')"
        using Suc.prems(1) Some c by auto
      note d = stop_tends [OF F Suc.prems(2) t]
      have "\<exists>c. map_of (cultivations t) j = Some c \<and> participants c = []" if "j \<in> set (i # R)" for j
        using that Suc.prems(3) d(2) d(3) [of j] unfolding all_empty_def by (cases "j = i") auto
      then have "all_empty (i # R) t" unfolding all_empty_def by blast
      then have "tends t s' \<and> all_empty R' s'" using Suc.IH [OF rest] d(1) by (simp add: tends_def)
      then show ?thesis using tends_trans [OF d(1)] by blast
    qed
  qed
qed

lemma clean_tends:
  assumes F: "fc_laws F" and ok: "garden_ok s" and run: "clean_cultivations F head s = Inr s'"
  shows "tends s s'"
proof -
  obtain "is" R t R' u where t: "rfold (dissolve_late F) is ([], s) = Inr (R, t)"
    and u: "stop_overdue F head (Suc (length (cultivations t))) (map_option fst (find (\<lambda>_. True) (by_start_time t))) (R, t) = Inr (R', u)"
    and s': "s' = u\<lparr>cultivations := tdels R' (cultivations u)\<rparr>"
    using run by (auto simp: clean_cultivations_def)
  have t': "tends s t \<and> all_empty R t" by (rule dissolve_late_tends [OF F t ok]) (simp add: all_empty_def)
  then have u': "tends t u \<and> all_empty R' u" using stop_overdue_tends [OF F u] by (simp add: tends_def)
  then have "tends u s'" unfolding s' by (intro remove_tends) (simp_all add: tends_def)
  then show ?thesis using t' u' tends_trans by blast
qed


subsection \<open>Creating\<close>

lemma share_total_tsum: "share_total m = tsum (\<lambda>n share. uint share) m"
  by (simp add: share_total_def tsum_def)

lemma share_total_nonneg: "0 \<le> share_total m"
  by (auto simp: share_total_def intro: sum_list_nonneg)

lemma parse_shares:
  assumes "rfold (parse_share s) shares (m, tot) = Inr (m', tot')" "wf_table m"
  shows "wf_table m' \<and> share_total m' \<le> share_total m + sum_list (map snd shares)"
  using assms
proof (induction shares arbitrary: m tot)
  case Nil
  then show ?case by simp
next
  case (Cons x shares)
  obtain n share where x: "x = (n, share)" by fastforce
  then have pos: "share > 0" and rest: "rfold (parse_share s) shares (tput n (word_of_int share) m, tot + word_of_int share) = Inr (m', tot')"
    using Cons.prems(1) by (auto simp: parse_share_def [of s])
  have "uint (word_of_int share :: u32) \<le> share" using pos by (simp add: uint_word_of_int zmod_le_nonneg_dividend)
  moreover have "0 \<le> (case map_of m n of Some w \<Rightarrow> uint w | None \<Rightarrow> 0)" by (simp split: option.split)
  ultimately have "share_total (tput n (word_of_int share) m) \<le> share_total m + share"
    unfolding share_total_tsum tsum_tput [OF Cons.prems(2)] by linarith
  then show ?case using Cons.IH [OF rest] Cons.prems(2) x by simp
qed

lemma created_total:
  assumes "rfold f m t = Inr u" and "\<And>i share t u. f (i, share) t = Inr u \<Longrightarrow> u = t + share"
  shows "u = t + word_of_int (share_total m)"
  using assms(1)
proof (induction m arbitrary: t)
  case Nil
  then show ?case by (simp add: share_total_def)
next
  case (Cons x m)
  obtain n share where x: "x = (n, share)" by fastforce
  then obtain v where v: "f (n, share) t = Inr v" and rest: "rfold f m v = Inr u" using Cons.prems by auto
  show ?case using Cons.IH [OF rest] assms(2) [OF v] by (simp add: share_total_def x)
qed

lemma create_tends:
  assumes ok: "garden_ok s" and sh: "share_total m < 2 ^ 32" and run: "create_cultivation n m prepare s = Inr (i, s')"
  shows "tends s s'"
proof -
  note g = garden_parts [OF ok]
  obtain tot where t: "rfold (\<lambda>(i, share) tot. rguard (map_of (nfas s) i \<noteq> None) (Assert ''invalid beneficiary nfa id'')
         (rguard (share > 0) (Assert ''invalid beneficiary share weight'') (Inr (tot + share)))) m 0 = Inr tot" "tot = 10000"
    and i: "i = next_cultivation_id s"
    and s': "s' = s\<lparr>cultivations := tput i \<lparr>manager_nfa_id = n, beneficiary_map = m, participants = [],
                   create_time = head_block_num s, start_deadline = head_block_num s + prepare, start_time = never,
                   last_update_time = never, qi_accumulated = 0\<rparr> (cultivations s), next_cultivation_id := Suc i\<rparr>"
    using run by (auto simp: create_cultivation_def Let_def)
  let ?c = "\<lparr>manager_nfa_id = n, beneficiary_map = m, participants = [],
                   create_time = head_block_num s, start_deadline = head_block_num s + prepare, start_time = never,
                   last_update_time = never, qi_accumulated = 0\<rparr>"
  have "word_of_int (share_total m) = (10000 :: u32)" using created_total [OF t(1), of] t(2) by auto
  then have "uint (word_of_int (share_total m) :: u32) = uint (10000 :: u32)" by (rule arg_cong)
  then have "share_total m = 10000"
    using sh share_total_nonneg [of m] by (simp add: uint_word_of_int_eq take_bit_int_eq_self)
  then have co: "cultivation_ok (head_block_num s) ?c" by (simp add: cultivation_ok_def)
  have new: "map_of (cultivations s) i = None" using g(7) [of i] i by (cases "map_of (cultivations s) i") auto
  have "kept s s'" by (rule tally_kept)
    (simp_all add: s' tally_def same_people_def nfa_qi_total_def cultivated_def fund_of_def)
  moreover have "placed s'"
    unfolding placed_def
  proof (intro allI impI)
    fix k x assume "map_of (nfas s') k = Some x" "cultivation_value x \<noteq> 0"
    then have "map_of (nfas s) k = Some x" "cultivation_value x \<noteq> 0" by (simp_all add: s')
    then obtain j e where e: "map_of (cultivations s) j = Some e" "k \<in> set (ids (participants e))"
      using g(5) unfolding placed_def by blast
    then have "j \<noteq> i" using new by auto
    then show "\<exists>j e. map_of (cultivations s') j = Some e \<and> k \<in> set (ids (participants e))"
      using e by (intro exI [of _ j] exI [of _ e]) (simp add: s')
  qed
  ultimately show ?thesis
    using g(2,3) i co by (intro tends_step [OF ok, of s' i ?c]) (simp_all add: s' nfas_sane_def head_block_num_def)
qed

subsection \<open>What contracts and blocks do with cultivations\<close>

text \<open>One call of a contract, or the clean-up of a block. The shares given are not so large that their sum leaves 32 bits.\<close>

inductive garden_step :: "fc_lib \<Rightarrow> chain \<Rightarrow> chain \<Rightarrow> bool" for F where
  created: "handle_create caller n shares prepare s = Inr (i, s') \<Longrightarrow> sum_list (map snd shares) < 2 ^ 32 \<Longrightarrow> garden_step F s s'"
| joined: "handle_participate F caller i n v s = Inr (msg, s') \<Longrightarrow> garden_step F s s'"
| started: "handle_start caller i s = Inr (msg, s') \<Longrightarrow> garden_step F s s'"
| updated: "handle_update head caller i s = Inr (msg, s') \<Longrightarrow> garden_step F s s'"
| stopped: "handle_stop_and_close F head caller i s = Inr (msg, s') \<Longrightarrow> garden_step F s s'"
| cleaned: "clean_cultivations F head s = Inr s' \<Longrightarrow> garden_step F s s'"

lemma create_handled:
  assumes ok: "garden_ok s" and run: "handle_create caller n shares prepare s = Inr (i, s')" and sh: "sum_list (map snd shares) < 2 ^ 32"
  shows "tends s s'"
proof -
  obtain m tot where m: "rfold (parse_share s) shares ([], 0) = Inr (m, tot)" and c: "create_cultivation n m prepare s = Inr (i, s')"
    using run by (auto simp: handle_create_def)
  have "share_total m < 2 ^ 32" using parse_shares [OF m] sh by (simp add: share_total_def)
  then show ?thesis by (rule create_tends [OF ok _ c])
qed

lemma stop_handled:
  assumes F: "fc_laws F" and ok: "garden_ok s" and run: "handle_stop_and_close F head caller i s = Inr (msg, s')"
  shows "tends s s'"
proof (cases "s' = s")
  case True
  then show ?thesis using tends_refl [OF ok] by simp
next
  case False
  then obtain c where c: "map_of (cultivations s) i = Some c"
    using run by (cases "map_of (cultivations s) i") (auto simp: handle_stop_and_close_def)
  then obtain t where t: "(if start_time c \<noteq> never then stop_cultivation F head i s else dissolve_cultivation F i s) = Inr t"
    and s': "s' = t\<lparr>cultivations := tdels [i] (cultivations t)\<rparr>"
    using run False by (auto simp: handle_stop_and_close_def split: if_split_asm)
  have "tends s t \<and> all_empty [i] t"
  proof (cases "start_time c \<noteq> never")
    case True
    then show ?thesis using t stop_tends [OF F ok] by (simp add: all_empty_def)
  next
    case False
    then show ?thesis using t dissolve_tends [OF F ok] by (fastforce simp: all_empty_def emptied_def)
  qed
  moreover from this have "tends t s'" unfolding s' by (intro remove_tends) (simp_all add: tends_def)
  ultimately show ?thesis using tends_trans by blast
qed

lemma step_tends:
  assumes F: "fc_laws F" and ok: "garden_ok s" and "garden_step F s s'"
  shows "tends s s'"
  using assms(3)
proof cases
  case created
  then show ?thesis using create_handled [OF ok] by blast
next
  case joined
  then show ?thesis using participate_tends [OF F ok] tends_refl [OF ok]
    by (auto simp: handle_participate_def split: option.splits if_splits)
next
  case started
  then show ?thesis using start_tends [OF ok] tends_refl [OF ok]
    by (auto simp: handle_start_def split: option.splits if_splits)
next
  case updated
  then show ?thesis using update_tends(1) [OF ok] tends_refl [OF ok]
    by (auto simp: handle_update_def split: option.splits if_splits)
next
  case stopped
  then show ?thesis by (rule stop_handled [OF F ok])
next
  case cleaned
  then show ?thesis by (rule clean_tends [OF F ok])
qed

end
