(* ===== verification/Gardens.thy ===== *)
theory Gardens
  imports Cultivation_Ledger
begin

section \<open>What cultivations promise, and what they do not\<close>

text \<open>
  The properties of cultivations: no qi is lost or made by any sequence of calls and clean-ups as long as the
  shares are what they claim; what a clean-up removes; the bound on earnings; and three faults of the code:
  shares that overflow, one overdue cultivation ended per block, and an end that throws out of the block.
\<close>

subsection \<open>A garden\<close>

text \<open>Alice owns three NFAs. A cultivation has not started by its deadline, another has run for too long.\<close>

definition plain_nfa :: "nat \<Rightarrow> int \<Rightarrow> u64 \<Rightarrow> nfa_object" where
  "plain_nfa owner q v = \<lparr>creator_account = owner, owner_account = owner, active_account = owner, symbol_id = 0, nfa_parent = 1000,
     main_contract = 0, nfa_contract_data = [], nfa_qi = qis q, debt_value = 0, debt_contract = 0, cultivation_value = v, nfa_created = 0,
     next_tick_block = 0\<rparr>"

definition waiting :: cultivation_object where
  "waiting = \<lparr>manager_nfa_id = 0, beneficiary_map = [(1, 10000)], participants = [], create_time = 5, start_deadline = 100,
     start_time = -1, last_update_time = -1, qi_accumulated = 0\<rparr>"

definition running :: "u32 \<Rightarrow> cultivation_object" where
  "running upd = \<lparr>manager_nfa_id = 0, beneficiary_map = [(1, 10000)], participants = [(1, ())], create_time = 5, start_deadline = 100,
     start_time = 10, last_update_time = upd, qi_accumulated = 30\<rparr>"

definition garden :: "u32 \<Rightarrow> chain" where
  "garden upd = sample_chain\<lparr>gpo := sample_gpo\<lparr>head_block_number := 300000, total_qi := qis 2700, pending_rewarded_qi := qis 105,
       pending_cultivation_qi := qis 50\<rparr>,
     nfas := [(0, plain_nfa 0 1000 0), (1, plain_nfa 1 200 50), (2, plain_nfa 0 0 0)],
     reward_funds := [(0, \<lparr>fund_name = n_cultivation, reward_balance = yang 0, fund_qi_balance = qis 100, fund_last_update = 0,
       percent_content_rewards = 0\<rparr>)],
     cultivations := [(0, waiting), (1, running upd)], next_cultivation_id := 2\<rparr>"

lemma fund_name_of: "TAIYI_CULTIVATION_REWARD_FUND_NAME = n_cultivation"
  by (simp add: TAIYI_CULTIVATION_REWARD_FUND_NAME_def n_cultivation_def fs_of_def be_nat_def fs_buffer_def fs_size_of_def zeros)

lemma garden_chain_ok: "chain_ok (garden upd)"
proof -
  let ?s = "garden upd"
  have same: "same_people sample_chain ?s" by (simp add: same_people_def garden_def)
  have t: "total_of g ?s = total_of g sample_chain" for g using same by (simp add: total_of_def same_people_def)
  have "balanced ?s = balanced sample_chain"
    using same by (simp add: gbalanced_def gbooks_def shape_def gproxied_def gadored_def same_people_def)
  moreover have "proxies_ok ?s = proxies_ok sample_chain"
    by (rule proxies_ok_cong) (use same in \<open>simp add: same_people_def same_proxies_accounts\<close>)
  ultimately have b: "balanced ?s" "proxies_ok ?s" using sample_ok by (simp_all add: chain_ok_def sample_balanced)
  have "ledger_ok ?s"
    unfolding ledger_ok_def t
    by (intro conjI b) (simp_all add: garden_def sample_chain_def sample_gpo_def total_of_def fund_of_def nfa_qi_total_def
       cultivated_def acc_simps plain_nfa_def i64_of_u64_def)
  then show ?thesis using b(2) by (simp add: chain_ok_def)
qed

lemma garden_witness_ok: "10 \<le> upd \<Longrightarrow> upd \<le> 300000 \<Longrightarrow> 30 \<le> 915017 * (uint upd - 10) \<Longrightarrow> garden_ok (garden upd)"
  using garden_chain_ok [of upd] unfolding garden_ok_def
  by (auto simp: garden_def nfas_sane_def nfa_sane_def plain_nfa_def wf_table_def ids_def in_i64_def i64_of_u64_def placed_def
     head_block_num_def sample_gpo_def cultivation_ok_def share_total_def running_def waiting_def sample_chain_def split: if_splits)

definition zero_id :: block_id where "zero_id = \<lparr>id_num = 0, id_hash = 0\<rparr>"

lemmas garden_simps = clean_cultivations_def by_start_time_def garden_def sample_chain_def waiting_def running_def head_block_num_def ids_def
  dissolve_late_def dissolve_cultivation_def get_cultivation_def get_nfa_def put_cultivation_def put_nfa_def Let_def return_cultivation_value_def
  stop_cultivation_def update_cultivation_def pay_cultivation_def reward_beneficiary_def reward_rest_def adjust_nfa_balance_def
  modify_nfa_def account_of_id_def push_vop_def get_reward_fund_def fund_name_of modify_gpo_def i64_of_u64_def plain_nfa_def
  asset_add_def asset_sub_def fc_ref_def in_i64_def checked_def after_start_time_def sample_gpo_def acc_simps get_nfa_balance_def
  TAIYI_CULTIVATION_MAX_TIME_BLOCK_NUM_def

lemma cleaned_garden: "\<exists>s'. clean_cultivations fc_ref zero_id (garden 300000) = Inr s'"
  by (simp add: garden_simps)

subsection \<open>Books and earnings\<close>

text \<open>C9: whatever contracts do with cultivations and whatever the clean-ups of blocks end, in any order and any
  number of times, with shares whose sum fits in 32 bits: the equations of the audit hold, the worth of all
  balances and the supply stay the same, no NFA has qi in a cultivation that is gone, and what cultivations have
  earned stays within the bound.\<close>
theorem cultivations_keep_ledger:
  assumes F: "fc_laws F" and ok: "garden_ok s" and run: "(garden_step F)\<^sup>*\<^sup>* s s'"
  shows "garden_ok s' \<and> worth s' = worth s \<and> current_supply (gpo s') = current_supply (gpo s)"
  using run
proof (induction rule: rtranclp_induct)
  case base
  then show ?case using ok by simp
next
  case (step t u)
  then show ?case using step_tends [OF F _ step.hyps(2)] by (simp add: tends_def)
qed

lemma cultivations_keep_ledger_witness:
  "\<exists>s'. clean_cultivations fc_ref zero_id (garden 300000) = Inr s' \<and> garden_ok s' \<and> worth s' = worth (garden 300000)"
proof -
  obtain s' where s': "clean_cultivations fc_ref zero_id (garden 300000) = Inr s'" using cleaned_garden by blast
  then have "(garden_step fc_ref)\<^sup>*\<^sup>* (garden 300000) s'" by (blast intro: garden_step.cleaned)
  then show ?thesis using s' cultivations_keep_ledger [OF fc_ref_laws garden_witness_ok, of 300000 s'] by simp
qed

text \<open>One update earns between 0 and 915017 units whatever was put in; as long as the product of its factors
  fits in 64 bits this is the product over the length of a cultivation and the two percentages, and when it does
  not, more qi may earn less.\<close>
theorem cultivation_reward_bounds:
  "0 \<le> cultivation_reward N Q p dt E \<and> cultivation_reward N Q p dt E \<le> 915017 \<and>
   (0 \<le> N + uint Q \<and> 0 \<le> E \<and> (N + uint Q) * uint p * uint dt * E < 2 ^ 64 \<longrightarrow>
      cultivation_reward N Q p dt E = (N + uint Q) * uint p * uint dt * E div 20160000000000) \<and>
   cultivation_reward 0 400000000 5000 1000 10000 < cultivation_reward 0 100000000 5000 1000 10000"
  using cultivation_reward_range [of N Q p dt E] cultivation_reward_exact [of N Q E p dt]
  by (simp add: cultivation_reward_uint)

lemma cultivation_reward_bounds_witness:
  "cultivation_reward 1000 9000 5000 201600 10000 = 5000"
  using cultivation_reward_bounds [of 1000 9000 5000 201600 10000] by simp

subsection \<open>What a clean-up removes\<close>

definition late :: "chain \<Rightarrow> nat \<Rightarrow> bool" where
  "late s i \<longleftrightarrow> (\<exists>c. map_of (cultivations s) i = Some c \<and> start_time c = never \<and> start_deadline c \<le> head_block_num s)"

definition overdue :: "chain \<Rightarrow> nat \<Rightarrow> bool" where
  "overdue s i \<longleftrightarrow> (\<exists>c. map_of (cultivations s) i = Some c \<and> start_time c \<noteq> never \<and>
     \<not> start_time c + TAIYI_CULTIVATION_MAX_TIME_BLOCK_NUM > head_block_num s)"

text \<open>The first cultivation of the index by start time.\<close>

definition earliest :: "chain \<Rightarrow> nat \<Rightarrow> bool" where
  "earliest s i \<longleftrightarrow> (\<exists>c. map_of (cultivations s) i = Some c \<and>
     (\<forall>j d. map_of (cultivations s) j = Some d \<longrightarrow> (start_time c, i) \<le> (start_time d, j)))"

lemma map_of_set: "wf_table t \<Longrightarrow> map_of t i = Some v \<longleftrightarrow> (i, v) \<in> set t"
  using wf_distinct [of t] by (simp add: ids_def)

lemma set_ids_iff: "j \<in> set (ids t) \<longleftrightarrow> (\<exists>c. (j, c) \<in> set t)"
  by (force simp: ids_def)

lemma first_by_start_time:
  assumes wf: "wf_table (cultivations s)"
  shows "map_option fst (find (\<lambda>_. True) (by_start_time s)) = Some i \<longleftrightarrow> earliest s i"
proof (cases "by_start_time s")
  case Nil
  then have "cultivations s = []" by (metis by_start_time_def set_empty set_sort)
  then show ?thesis using Nil by (simp add: earliest_def)
next
  case (Cons x xs)
  obtain k c where x: "x = (k, c)" by fastforce
  have st: "set (by_start_time s) = set (cultivations s)" by (simp add: by_start_time_def)
  have "sorted (map (\<lambda>(i, c). (start_time c, i)) (by_start_time s))" by (simp add: by_start_time_def)
  then have le: "(start_time c, k) \<le> (start_time d, j)" if "(j, d) \<in> set (cultivations s)" for j d
    using that st Cons x by (auto simp flip: st)
  have k: "map_of (cultivations s) k = Some c" using st Cons x map_of_set [OF wf] by auto
  have "earliest s k" unfolding earliest_def using k le map_of_set [OF wf] by blast
  moreover have "i = k" if e: "earliest s i"
  proof -
    obtain d where d: "map_of (cultivations s) i = Some d" "(start_time d, i) \<le> (start_time c, k)"
      using e k unfolding earliest_def by blast
    have "(start_time c, k) \<le> (start_time d, i)" using le d(1) map_of_set [OF wf] by blast
    then have "(start_time c, k) = (start_time d, i)" using d(2) by (rule antisym)
    then show ?thesis by simp
  qed
  ultimately show ?thesis using Cons x by auto
qed

text \<open>The loop over the late ones keeps the start times, and the ones not late as they are.\<close>

definition same_starts :: "chain \<Rightarrow> chain \<Rightarrow> bool" where
  "same_starts s t \<longleftrightarrow> wf_table (cultivations t) \<and> head_block_num t = head_block_num s \<and>
     (\<forall>i. map_option start_time (map_of (cultivations t) i) = map_option start_time (map_of (cultivations s) i)) \<and>
     (\<forall>i. map_option start_deadline (map_of (cultivations t) i) = map_option start_deadline (map_of (cultivations s) i))"

lemma same_starts_trans: "same_starts s t \<Longrightarrow> same_starts t u \<Longrightarrow> same_starts s u"
  by (simp add: same_starts_def)


lemma dissolve_same_starts:
  assumes F: "fc_laws F" and ok: "garden_ok s" and c: "map_of (cultivations s) i = Some c" "start_time c = never"
    and run: "dissolve_cultivation F i s = Inr t"
  shows "same_starts s t"
proof -
  note d = dissolve_tends [OF F ok run]
  have "wf_table (cultivations t)" "head_block_num t = head_block_num s" using d(1) by (simp_all add: tends_def garden_ok_def)
  then show ?thesis using d(2) c unfolding emptied_def same_starts_def by auto
qed

lemma dissolve_late_exact:
  assumes F: "fc_laws F" and run: "rfold (dissolve_late F) is (R, s) = Inr (R', t)" and ok: "garden_ok s"
    and "set is \<subseteq> dom (map_of (cultivations s))"
  shows "same_starts s t \<and> garden_ok t \<and>
    set R' = set R \<union> {i \<in> set is. map_option start_time (map_of (cultivations s) i) = Some never}"
  using run ok assms(4)
proof (induction "is" arbitrary: R s)
  case Nil
  then show ?case by (simp add: same_starts_def garden_ok_def)
next
  case (Cons i "is")
  obtain c where c: "map_of (cultivations s) i = Some c" using Cons.prems(3) by auto
  show ?case
  proof (cases "start_time c = never")
    case False
    then have "rfold (dissolve_late F) is (R, s) = Inr (R', t)" using Cons.prems(1) c by (simp add: dissolve_late_def [of F i])
    from Cons.IH [OF this Cons.prems(2)] show ?thesis using Cons.prems(3) False c by auto
  next
    case True
    then obtain v where v: "dissolve_cultivation F i s = Inr v" and rest: "rfold (dissolve_late F) is (i # R, v) = Inr (R', t)"
      using Cons.prems(1) c unfolding rfold.simps rbind_Inr_iff by (auto simp: dissolve_late_def [of F i])
    have sv: "same_starts s v" by (rule dissolve_same_starts [OF F Cons.prems(2) c True v])
    then have "dom (map_of (cultivations v)) = dom (map_of (cultivations s))"
      unfolding same_starts_def dom_def by (metis option.map_disc_iff)
    moreover have "garden_ok v" using dissolve_tends(1) [OF F Cons.prems(2) v] by (simp add: tends_def)
    ultimately have "same_starts v t \<and> garden_ok t \<and>
        set R' = set (i # R) \<union> {i \<in> set is. map_option start_time (map_of (cultivations v) i) = Some never}"
      using Cons.IH [OF rest] Cons.prems(3) by simp
    moreover have "map_option start_time (map_of (cultivations v) j) = map_option start_time (map_of (cultivations s) j)" for j
      using sv by (simp add: same_starts_def)
    ultimately have "same_starts v t \<and> garden_ok t \<and>
        set R' = set (i # R) \<union> {i \<in> set is. map_option start_time (map_of (cultivations s) i) = Some never}" by simp
    moreover have "map_option start_time (map_of (cultivations s) i) = Some never" using c True by simp
    ultimately show ?thesis using same_starts_trans [OF sv] by auto
  qed
qed

lemma takeWhile_sorted:
  "sorted (map f xs) \<Longrightarrow> (\<And>x y. f x \<le> f y \<Longrightarrow> P y \<Longrightarrow> P x) \<Longrightarrow> set (takeWhile P xs) = {x \<in> set xs. P x}"
proof (induction xs)
  case (Cons a xs)
  have "\<not> P x" if "\<not> P a" "x \<in> set xs" for x using Cons.prems that by auto
  then show ?case using Cons by auto
qed simp

text \<open>The second loop ends after at most one cultivation: the element after it in the index has not started.\<close>

lemma stop_overdue_once:
  assumes run: "stop_overdue F head (Suc (Suc n)) (Some i) (R, s) = Inr (R', s')" and F: "fc_laws F" and ok: "garden_ok s"
    and c: "map_of (cultivations s) i = Some c" "start_time c \<noteq> never"
      "\<not> start_time c + TAIYI_CULTIVATION_MAX_TIME_BLOCK_NUM > head_block_num s"
  shows "R' = i # R \<and> stop_cultivation F head i s = Inr s'"
proof -
  obtain t where t: "stop_cultivation F head i s = Inr t"
    and rest: "stop_overdue F head (Suc n) (after_start_time t i) (i # R, t) = Inr (R', s')"
    using run c by auto
  obtain u where u: "dissolve_cultivation F i u = Inr t" "garden_ok u"
  proof -
    obtain v d w where v: "update_cultivation head i s = Inr v" "map_of (cultivations v) i = Some d"
        "pay_cultivation F d v = Inr w" "dissolve_cultivation F i w = Inr t"
      using t by (auto simp: stop_cultivation_def)
    have "garden_ok v" using update_tends(1) [OF ok v(1)] by (simp add: tends_def)
    moreover have "start_time d \<noteq> never" using v(1) by (cases rule: update_cases) (use v(2) in auto)
    ultimately have "garden_ok w" using pay_tends(1) [OF F _ v(2) _ v(3)] by (simp add: tends_def)
    then show thesis using that v(4) by blast
  qed
  obtain e where e: "map_of (cultivations t) i = Some e" "start_time e = never"
    using dissolve_tends(2) [OF F u(2) u(1)] by (auto simp: emptied_def)
  have wf: "wf_table (cultivations t)" using dissolve_tends(1) [OF F u(2) u(1)] by (simp add: tends_def garden_ok_def)
  have "(R', s') = (i # R, t)"
  proof (cases "after_start_time t i")
    case None
    then show ?thesis using rest by simp
  next
    case (Some j)
    then obtain d where f: "find (\<lambda>(j, d). (start_time d, j) > (never, i)) (by_start_time t) = Some (j, d)"
      using e by (auto simp: after_start_time_def)
    then have "(j, d) \<in> set (by_start_time t)" "(never, i) < (start_time d, j)"
      unfolding find_Some_iff by (auto, metis nth_mem)
    then have d: "map_of (cultivations t) j = Some d" "never \<le> start_time d"
      using map_of_set [OF wf, of j d] by (auto simp: by_start_time_def)
    then have "start_time d = never" using word_n1_ge [of "start_time d"] by (rule_tac antisym)
    then show ?thesis using rest Some d(1) by simp
  qed
  then show ?thesis using t by simp
qed

lemma earliest_starts: "same_starts s t \<Longrightarrow> earliest t i \<Longrightarrow> earliest s i"
  unfolding earliest_def same_starts_def
proof -
  assume st: "wf_table (cultivations t) \<and> head_block_num t = head_block_num s \<and>
     (\<forall>i. map_option start_time (map_of (cultivations t) i) = map_option start_time (map_of (cultivations s) i)) \<and>
     (\<forall>i. map_option start_deadline (map_of (cultivations t) i) = map_option start_deadline (map_of (cultivations s) i))"
    and "\<exists>c. map_of (cultivations t) i = Some c \<and> (\<forall>j d. map_of (cultivations t) j = Some d \<longrightarrow> (start_time c, i) \<le> (start_time d, j))"
  then obtain c where c: "map_of (cultivations t) i = Some c"
    and m: "\<forall>j d. map_of (cultivations t) j = Some d \<longrightarrow> (start_time c, i) \<le> (start_time d, j)" by blast
  from st have st: "map_option start_time (map_of (cultivations t) j) = map_option start_time (map_of (cultivations s) j)" for j by blast
  obtain c' where c': "map_of (cultivations s) i = Some c'" "start_time c' = start_time c" using st [of i] c by (cases "map_of (cultivations s) i") auto
  have "(start_time c', i) \<le> (start_time d, j)" if d: "map_of (cultivations s) j = Some d" for j d
  proof -
    obtain d' where "map_of (cultivations t) j = Some d'" "start_time d' = start_time d" using st [of j] d by (cases "map_of (cultivations t) j") auto
    then show ?thesis using m c'(2) by metis
  qed
  then show "\<exists>c. map_of (cultivations s) i = Some c \<and> (\<forall>j d. map_of (cultivations s) j = Some d \<longrightarrow> (start_time c, i) \<le> (start_time d, j))"
    using c' by blast
qed

lemma same_starts_sym: "same_starts s t \<Longrightarrow> wf_table (cultivations s) \<Longrightarrow> same_starts t s"
  by (simp add: same_starts_def)

text \<open>C10: a clean-up that returns removes the cultivations that have not started by their deadline and, of those that
  have run too long, only the first one of the index by start time; every other cultivation is kept.\<close>
theorem clean_up_exact:
  assumes F: "fc_laws F" and ok: "garden_ok s" and run: "clean_cultivations F head s = Inr s'"
  shows "map_of (cultivations s') i \<noteq> None \<longleftrightarrow>
    map_of (cultivations s) i \<noteq> None \<and> \<not> late s i \<and> \<not> (overdue s i \<and> earliest s i)"
proof -
  have wf: "wf_table (cultivations s)" using ok by (simp add: garden_ok_def)
  define ds where "ds = ids (takeWhile (\<lambda>(i, c). start_deadline c \<le> head_block_num s)
                      (sort_key (\<lambda>(i, c). (start_deadline c, i)) (cultivations s)))"
  have ds: "j \<in> set ds \<longleftrightarrow> (\<exists>c. map_of (cultivations s) j = Some c \<and> start_deadline c \<le> head_block_num s)" for j
  proof -
    have st: "set (takeWhile (\<lambda>(i, c). start_deadline c \<le> head_block_num s) (sort_key (\<lambda>(i, c). (start_deadline c, i)) (cultivations s))) =
        {x \<in> set (cultivations s). case x of (i, c) \<Rightarrow> start_deadline c \<le> head_block_num s}"
      by (subst takeWhile_sorted [where f = "\<lambda>(i, c). (start_deadline c, i)"]) (auto simp: sorted_sort_key)
    have "j \<in> set ds \<longleftrightarrow> (\<exists>c. (j, c) \<in> {x \<in> set (cultivations s). case x of (i, c) \<Rightarrow> start_deadline c \<le> head_block_num s})"
      unfolding ds_def st [symmetric] by (rule set_ids_iff)
    then show ?thesis using map_of_set [OF wf] by simp
  qed
  obtain R t R' u where t: "rfold (dissolve_late F) ds ([], s) = Inr (R, t)"
    and u: "stop_overdue F head (Suc (length (cultivations t))) (map_option fst (find (\<lambda>_. True) (by_start_time t))) (R, t) = Inr (R', u)"
    and s': "s' = u\<lparr>cultivations := tdels R' (cultivations u)\<rparr>"
    using run unfolding clean_cultivations_def ds_def by auto
  have t': "same_starts s t" "garden_ok t"
      "set R = {i \<in> set ds. map_option start_time (map_of (cultivations s) i) = Some never}"
    using dissolve_late_exact [OF F t ok] ds by auto
  have R: "j \<in> set R \<longleftrightarrow> late s j" for j using t'(3) ds by (auto simp: late_def)
  have wft: "wf_table (cultivations t)" using t'(2) by (simp add: garden_ok_def)
  have e: "earliest t j \<longleftrightarrow> earliest s j" for j
    using earliest_starts t'(1) same_starts_sym [OF t'(1) wf] by blast
  have od: "overdue t j \<longleftrightarrow> overdue s j" for j
  proof -
    have "map_option start_time (map_of (cultivations t) j) = map_option start_time (map_of (cultivations s) j)"
      "head_block_num t = head_block_num s" using t'(1) by (simp_all add: same_starts_def)
    then show ?thesis unfolding overdue_def by (cases "map_of (cultivations t) j"; cases "map_of (cultivations s) j") auto
  qed
  have dt: "map_of (cultivations t) j \<noteq> None \<longleftrightarrow> map_of (cultivations s) j \<noteq> None" for j
    using t'(1) unfolding same_starts_def by (metis option.map_disc_iff)
  have "set R' = set R \<union> {j. overdue s j \<and> earliest s j} \<and> (\<forall>j. map_of (cultivations u) j \<noteq> None \<longleftrightarrow> map_of (cultivations t) j \<noteq> None)"
  proof (cases "map_option fst (find (\<lambda>_. True) (by_start_time t))")
    case None
    then have "\<not> earliest t j" for j using first_by_start_time [OF wft, of j] by simp
    then show ?thesis using u None e by simp
  next
    case (Some k)
    then have k: "earliest t k" using first_by_start_time [OF wft] by blast
    have one: "j = k" if "earliest t j" for j using first_by_start_time [OF wft, of j] that Some by simp
    obtain c where c: "map_of (cultivations t) k = Some c" using k by (auto simp: earliest_def)
    show ?thesis
    proof (cases "overdue t k")
      case False
      then have "u = t \<and> R' = R" using u Some c by (auto simp: overdue_def split: if_splits)
      then show ?thesis using False one e od by auto
    next
      case True
      then have o: "start_time c \<noteq> never" "\<not> start_time c + TAIYI_CULTIVATION_MAX_TIME_BLOCK_NUM > head_block_num t"
        using c by (auto simp: overdue_def)
      have "cultivations t \<noteq> []" using c by auto
      then obtain n where n: "length (cultivations t) = Suc n" by (cases "cultivations t") auto
      have st: "R' = k # R" "stop_cultivation F head k t = Inr u"
        using stop_overdue_once [OF _ F t'(2) c o, of head n R R' u] u Some n by simp_all
      note q = stop_tends [OF F t'(2) st(2)]
      have "map_of (cultivations u) j \<noteq> None \<longleftrightarrow> map_of (cultivations t) j \<noteq> None" for j
        using q(2) q(3) [of j] c by (cases "j = k") auto
      moreover have k': "overdue s j \<and> earliest s j \<longleftrightarrow> j = k" for j using True k one e od by metis
      moreover have "set R' = set R \<union> {j. overdue s j \<and> earliest s j}" using st(1) k' by auto
      ultimately show ?thesis by blast
    qed
  qed
  then show ?thesis using R dt unfolding s' by (auto simp: map_of_tdels restrict_map_def)
qed


lemma clean_up_exact_witness:
  "\<exists>s'. clean_cultivations fc_ref zero_id (garden 300000) = Inr s' \<and> map_of (cultivations s') 0 = None \<and>
     map_of (cultivations s') 1 = None"
proof -
  obtain s' where s': "clean_cultivations fc_ref zero_id (garden 300000) = Inr s'" using cleaned_garden by blast
  note q = clean_up_exact [OF fc_ref_laws garden_witness_ok s']
  have "late (garden 300000) 0" by (simp add: late_def garden_simps)
  moreover have "overdue (garden 300000) 1" "earliest (garden 300000) 1" by (auto simp: overdue_def earliest_def garden_simps split: if_splits)
  ultimately show ?thesis using s' q [of 0] q [of 1] by simp
qed

subsection \<open>An end that throws\<close>

lemma return_values_frame:
  "rfold (return_cultivation_value F) ps (k, s) = Inr (k', t) \<Longrightarrow> zones t = zones s \<and> actors t = actors s \<and> cultivations t = cultivations s"
proof (induction ps arbitrary: k s)
  case (Cons p ps)
  then obtain k1 s1 where 1: "return_cultivation_value F p (k, s) = Inr (k1, s1)" "rfold (return_cultivation_value F) ps (k1, s1) = Inr (k', t)"
    by (cases "return_cultivation_value F p (k, s)") auto
  have "zones s1 = zones s \<and> actors s1 = actors s \<and> cultivations s1 = cultivations s"
    using 1(1) by (auto simp: return_cultivation_value_def Let_def put_nfa_def)
  then show ?case using Cons.IH [OF 1(2)] by simp
qed simp

lemma dissolve_frame:
  assumes "dissolve_cultivation F j s = Inr t"
  shows "zones t = zones s \<and> actors t = actors s \<and> (i \<noteq> j \<longrightarrow> map_of (cultivations t) i = map_of (cultivations s) i)"
proof -
  obtain c k b where b: "rfold (return_cultivation_value F) (ids (participants c)) (0, s) = Inr (k, b)"
    and run: "(if k > 0 then
       modify_gpo (\<lambda>p. rbind (asset_add F (total_qi p) (qis k)) (\<lambda>x.
                       rbind (asset_sub F (pending_cultivation_qi p) (qis k)) (\<lambda>y.
                       Inr (p\<lparr>total_qi := x, pending_cultivation_qi := y\<rparr>)))) (put_cultivation j (c\<lparr>participants := [],
           start_time := never, last_update_time := never, qi_accumulated := 0\<rparr>) b)
     else Inr (put_cultivation j (c\<lparr>participants := [],
           start_time := never, last_update_time := never, qi_accumulated := 0\<rparr>) b)) = Inr t"
    using assms by (auto simp: dissolve_cultivation_def Let_def)
  let ?v = "put_cultivation j (c\<lparr>participants := [], start_time := never, last_update_time := never, qi_accumulated := 0\<rparr>) b"
  have "zones t = zones ?v \<and> actors t = actors ?v \<and> cultivations t = cultivations ?v"
    using run by (cases "k > 0") (auto simp: modify_gpo_def)
  moreover have "zones ?v = zones b" "actors ?v = actors b" by (simp_all add: put_cultivation_def)
  ultimately show ?thesis using return_values_frame [OF b] by simp
qed

lemma rfold_late_frame:
  assumes "rfold (dissolve_late F) is (R, s) = Inr (R', t)" "map_of (cultivations s) i = Some c" "start_time c \<noteq> never"
  shows "zones t = zones s \<and> actors t = actors s \<and> map_of (cultivations t) i = Some c"
  using assms(1,2)
proof (induction "is" arbitrary: R s)
  case (Cons j "is")
  obtain S v where v: "dissolve_late F j (R, s) = Inr (S, v)" and rest: "rfold (dissolve_late F) is (S, v) = Inr (R', t)"
    using Cons.prems(1) by (cases "dissolve_late F j (R, s)") auto
  have "zones v = zones s \<and> actors v = actors s \<and> map_of (cultivations v) i = Some c"
    using v Cons.prems(2) assms(3) dissolve_frame [of F j s v i]
    by (cases "i = j") (auto simp: dissolve_late_def split: if_splits)
  then show ?case using Cons.IH [OF rest] by simp
qed simp




subsection \<open>Shares that overflow\<close>

definition overflowing :: "nat \<Rightarrow> nat \<Rightarrow> nat \<Rightarrow> (nat \<times> int) list" where
  "overflowing a b d = [(a, 2 ^ 63 - 1), (b, 2 ^ 63 - 1), (d, 10002)]"

lemma overflowing_accepted:
  assumes n: "a < b" "b < d" "map_of (nfas s) a \<noteq> None" "map_of (nfas s) b \<noteq> None" "map_of (nfas s) d \<noteq> None"
    and m: "map_of (nfas s) n = Some x" "owns_nfa caller x" and p: "prepare \<ge> TAIYI_CULTIVATION_PREPARE_MIN_TIME_BLOCK_NUM"
  shows "\<exists>i s'. handle_create caller n (overflowing a b d) prepare s = Inr (i, s') \<and>
    (\<exists>c. map_of (cultivations s') i = Some c \<and> beneficiary_map c = [(a, - 1), (b, - 1), (d, 10002)])"
proof -
  have w: "word_of_int 9223372036854775807 = (- 1 :: u32)"
    "word_of_int 9223372036854775807 + (word_of_int 9223372036854775807 + 10002) = (10000 :: u64)"
    by (simp_all add: word_eq_iff_unsigned)
  have parse: "rfold (parse_share s) (overflowing a b d) ([], 0) = Inr ([(a, - 1), (b, - 1), (d, 10002)], 10000)"
    using n w by (simp add: overflowing_def parse_share_def ac_simps)
  have total: "(- 1) + ((- 1) + 10002) = (10000 :: u32)" "(0 :: u32) < - 1" "(0 :: u32) < 10002"
    by (simp_all add: word_gt_0)
  have ok: "rfold (\<lambda>(i, share) total.
         rguard (map_of (nfas s) i \<noteq> None) (Assert ''invalid beneficiary nfa id'')
         (rguard (share > 0) (Assert ''invalid beneficiary share weight'') (Inr (total + share))))
       [(a, - 1), (b, - 1), (d, 10002)] 0 = Inr (10000 :: u32)"
    using n total by (simp add: ac_simps)
  show ?thesis
    using m p parse ok by (simp add: handle_create_def create_cultivation_def Let_def)
qed

lemma overflowing_share:
  assumes "0 < rv" "rv < 2 ^ 31"
  shows "i64 (rv * uint (- 1 :: u32)) sdiv 10000 = rv * 4294967295 div 10000" "429496 * rv \<le> rv * 4294967295 div 10000"
    "rv * 4294967295 div 10000 \<le> 429497 * rv"
    "i64 (rv * uint (10002 :: u32)) sdiv 10000 = rv * 10002 div 10000" "rv \<le> rv * 10002 div 10000" "rv * 10002 div 10000 \<le> 2 * rv"
proof -
  have u: "uint (- 1 :: u32) = 4294967295" "uint (10002 :: u32) = 10002" by (simp_all add: uint_word_ariths)
  have "in_i64 (rv * 4294967295)" "in_i64 (rv * 10002)" using assms by (simp_all add: in_i64_def)
  then show "i64 (rv * uint (- 1 :: u32)) sdiv 10000 = rv * 4294967295 div 10000"
    "i64 (rv * uint (10002 :: u32)) sdiv 10000 = rv * 10002 div 10000"
    using assms by (simp_all add: u sdiv_nonneg)
  show "429496 * rv \<le> rv * 4294967295 div 10000" "rv * 4294967295 div 10000 \<le> 429497 * rv" "rv \<le> rv * 10002 div 10000" "rv * 10002 div 10000 \<le> 2 * rv"
    using assms by linarith+
qed

text \<open>C12: the sum of the shares is taken in 64 bits by the contract interface and in 32 bits by the database, so two
  shares of 9223372036854775807 and one of 10002 pass as 100 percent. When a cultivation with these shares ends, its
  beneficiaries get at least 858993 times what it earned, while the global total of qi grows by what it earned.\<close>
theorem shares_overflow_mint_qi:
  assumes F: "fc_laws F" and n: "a < b" "b < d" "map_of (nfas s) a \<noteq> None" "map_of (nfas s) b \<noteq> None" "map_of (nfas s) d \<noteq> None"
    and m: "map_of (nfas s) n = Some x" "owns_nfa caller x" and p: "prepare \<ge> TAIYI_CULTIVATION_PREPARE_MIN_TIME_BLOCK_NUM"
    and c: "beneficiary_map c = [(a, - 1), (b, - 1), (d, 10002)]" "0 < qi_accumulated c" "qi_accumulated c < 2 ^ 31"
    and f: "get_reward_fund t TAIYI_CULTIVATION_REWARD_FUND_NAME = Inr (f, rf)" "qi_accumulated c \<le> amount (fund_qi_balance rf)"
    and sane: "nfas_sane t" and run: "pay_cultivation F c t = Inr t'"
  shows "(\<exists>i s'. handle_create caller n (overflowing a b d) prepare s = Inr (i, s') \<and>
      (\<exists>c'. map_of (cultivations s') i = Some c' \<and> beneficiary_map c' = beneficiary_map c)) \<and>
    nfa_qi_total t' \<ge> nfa_qi_total t + 858993 * qi_accumulated c \<and>
    amount (total_qi (gpo t')) = amount (total_qi (gpo t)) + qi_accumulated c"
proof -
  let ?rv = "qi_accumulated c"
  have mn: "min ?rv (amount (fund_qi_balance rf)) = ?rv" using f(2) by simp
  obtain k u v y z where u: "rfold (reward_beneficiary F ?rv) (beneficiary_map c) (?rv, t) = Inr (k, u)"
    and v: "reward_rest F (beneficiary_map c) (k, u) = Inr v"
    and t': "t' = v\<lparr>reward_funds := y, gpo := (gpo v)\<lparr>pending_rewarded_qi := z,
        total_qi := (total_qi (gpo v))\<lparr>amount := amount (total_qi (gpo v)) + ?rv\<rparr>\<rparr>\<rparr>"
    using run f(1) c(2) mn by (auto simp: pay_cultivation_def Let_def modify_gpo_def s_sub_law [OF F] s_add_law [OF F] simp del: min_less_iff_conj)
  note sh = overflowing_share [OF c(2,3)]
  define x1 x3 where "x1 = ?rv * 4294967295 div 10000" and "x3 = ?rv * 10002 div 10000"
  note xs = sh [folded x1_def x3_def]
  have i: "i64 (?rv - x1) = ?rv - x1" "i64 (?rv - x1 - x1) = ?rv - x1 - x1" "i64 (?rv - x1 - x1 - x3) = ?rv - x1 - x1 - x3"
    using xs c(2,3) by (simp_all add: in_i64_def)
  obtain k1 w1 k2 w2 where r1: "reward_beneficiary F ?rv (a, - 1) (?rv, t) = Inr (k1, w1)"
    and r2: "reward_beneficiary F ?rv (b, - 1) (k1, w1) = Inr (k2, w2)"
    and r3: "reward_beneficiary F ?rv (d, 10002) (k2, w2) = Inr (k, u)"
    using u unfolding c(1) rfold.simps rbind_Inr_iff by auto
  obtain u1 o1 where u1: "adjust_nfa_balance F a (qis x1) t = Inr u1" and k1: "k1 = ?rv - x1"
    and w1: "w1 = push_vop (Reward_cultivation o1 a (qis x1)) u1"
    using r1 unfolding reward_beneficiary_Inr Let_def xs(1) i by blast
  obtain u2 o2 where u2: "adjust_nfa_balance F b (qis x1) (push_vop (Reward_cultivation o1 a (qis x1)) u1) = Inr u2"
    and k2: "k2 = ?rv - x1 - x1" and w2: "w2 = push_vop (Reward_cultivation o2 b (qis x1)) u2"
    using r2 unfolding reward_beneficiary_Inr Let_def xs(1) i k1 w1 by blast
  obtain u3 o3 where u3: "adjust_nfa_balance F d (qis x3) (push_vop (Reward_cultivation o2 b (qis x1)) u2) = Inr u3"
    and ku: "k = ?rv - x1 - x1 - x3" "u = push_vop (Reward_cultivation o3 d (qis x3)) u3"
    using r3 unfolding reward_beneficiary_Inr Let_def xs(4) i k2 w2 by blast
  have p1: "paid_out x1 t u1" by (rule adjust_nfa_paid [OF F _ sane u1]) (use xs c(2) in linarith)
  have "nfas_sane (push_vop (Reward_cultivation o1 a (qis x1)) u1)" using p1 by (simp add: paid_out_def nfas_sane_def)
  from adjust_nfa_paid [OF F _ this u2] have p2: "paid_out x1 u1 u2" using xs c(2) by simp
  have "nfas_sane (push_vop (Reward_cultivation o2 b (qis x1)) u2)" using p2 by (simp add: paid_out_def nfas_sane_def)
  from adjust_nfa_paid [OF F _ this u3] have p3: "paid_out x3 u2 u3" using xs c(2) by simp
  have "paid_out (x1 + x1 + x3) t u3" by (rule paid_out_trans [OF paid_out_trans [OF p1 p2] p3])
  then have "paid_out (x1 + x1 + x3) t u" using ku by simp
  moreover have "v = u" using v ku(1) xs c(2) by (simp add: reward_rest_def)
  ultimately have q: "nfa_qi_total t' = nfa_qi_total t + (x1 + x1 + x3)" "gpo v = gpo t"
    by (simp_all add: t' paid_out_def)
  then show ?thesis
    using overflowing_accepted [OF n m p] xs c(1) by (simp add: t')
qed

lemma shares_overflow_mint_qi_witness:
  "\<exists>t. nfa_qi_total t \<ge> 25770000 \<and> amount (total_qi (gpo t)) = 2730"
proof -
  let ?c = "(running 300000)\<lparr>beneficiary_map := [(0, - 1), (1, - 1), (2, 10002)]\<rparr>"
  have ok: "garden_ok (garden 300000)" by (rule garden_witness_ok) simp_all
  have u: "uint (- 1 :: u32) = 4294967295" by (simp add: uint_word_ariths)
  have d: "(128849018850 :: int) sdiv 10000 = 12884901" "(300060 :: int) sdiv 10000 = 30" by (simp_all add: sdiv_nonneg)
  have "\<exists>t. pay_cultivation fc_ref ?c (garden 300000) = Inr t"
    by (simp add: garden_simps u d)
  then obtain t where t: "pay_cultivation fc_ref ?c (garden 300000) = Inr t" by blast
  have q: "nfa_qi_total (garden 300000) = 1200" "amount (total_qi (gpo (garden 300000))) = 2700"
    by (simp_all add: nfa_qi_total_def garden_def plain_nfa_def)
  have sane: "nfas_sane (garden 300000)" using ok by (simp add: garden_ok_def)
  have n: "map_of (nfas (garden 300000)) 0 = Some (plain_nfa 0 1000 0)" "map_of (nfas (garden 300000)) 1 \<noteq> None"
      "map_of (nfas (garden 300000)) 2 \<noteq> None" "owns_nfa 0 (plain_nfa 0 1000 0)"
    by (simp_all add: garden_def owns_nfa_def plain_nfa_def)
  have c: "beneficiary_map ?c = [(0, - 1), (1, - 1), (2, 10002)]" "qi_accumulated ?c = 30" by (simp_all add: running_def)
  obtain rf where f: "get_reward_fund (garden 300000) TAIYI_CULTIVATION_REWARD_FUND_NAME = Inr (0, rf)" "amount (fund_qi_balance rf) = 100"
    by (simp add: garden_def get_reward_fund_def fund_name_of)
  have p: "TAIYI_CULTIVATION_PREPARE_MIN_TIME_BLOCK_NUM \<le> 20" by (simp add: TAIYI_CULTIVATION_PREPARE_MIN_TIME_BLOCK_NUM_def)
  have "nfa_qi_total t \<ge> nfa_qi_total (garden 300000) + 858993 * qi_accumulated ?c \<and>
      amount (total_qi (gpo t)) = amount (total_qi (gpo (garden 300000))) + qi_accumulated ?c"
    using shares_overflow_mint_qi [OF fc_ref_laws _ _ _ n(2,3) n(1,4) p c(1) _ _ f(1) _ sane t] c(2) f(2) n(1) by simp
  then show ?thesis using q c(2) by (intro exI [of _ t]) simp
qed

end
