(* ===== verification/Spec2Isabelle.thy ===== *)
theory Spec2Isabelle
  imports Asset Transaction Evaluation Election Node_Forks Gardens
begin

text \<open>Root of the development.\<close>

end
